(* ===== verification/Prelude.thy ===== *)
theory Prelude
  imports Main "HOL-Library.Word" "HOL-Library.Char_ord" "HOL-Library.List_Lexorder"
    "HOL-Library.Product_Lexorder" "HOL-Library.Sublist"
begin

text \<open>
  What every component shares: the machine types, the string operations of Rust's standard
  library that the sources use, and the fact collections the proofs are driven by.

  A Rust \<open>String\<close> is modelled by the list of its UTF-8 bytes (an Isabelle \<open>char\<close> is a byte).
  Every string operation of the modelled code looks for ASCII characters only, and an ASCII byte
  never occurs inside the encoding of another character, so the byte view computes the same
  results; \<open>str::len\<close> and the ordering of \<open>String\<close> are defined on bytes by Rust itself.
\<close>

named_theorems split_facts \<open>case splits of the step functions\<close>

type_synonym u8 = "8 word"
type_synonym u32 = "32 word"
type_synonym u64 = "64 word"
type_synonym bytes = "u8 list"

text \<open>\<open>saturating_add\<close> on an unsigned width.\<close>

definition sat_add :: "'a::len word \<Rightarrow> 'a word \<Rightarrow> 'a word" where
  "sat_add a b = (if uint a + uint b < 2 ^ LENGTH('a) then a + b else - 1)"

lemma unat_bound: "unat a < 2 ^ LENGTH('a)" for a :: "'a::len word"
  by (rule unsigned_less)

lemma unat_minus_1: "unat (- 1 :: 'a::len word) = 2 ^ LENGTH('a) - 1"
  by (simp add: unsigned_minus_1_eq_mask mask_eq_exp_minus_1)

lemma unat_sat_add: "unat (sat_add a b) = min (unat a + unat b) (2 ^ LENGTH('a) - 1)"
  for a b :: "'a::len word"
proof -
  have "uint a + uint b < 2 ^ LENGTH('a) \<longleftrightarrow> unat a + unat b < 2 ^ LENGTH('a)"
  proof -
    have "(2 :: int) ^ LENGTH('a) = int (2 ^ LENGTH('a))" by simp
    then show ?thesis unfolding uint_nat by (simp only: of_nat_add [symmetric] of_nat_less_iff)
  qed
  then show ?thesis by (auto simp: sat_add_def unat_word_ariths unat_minus_1)
qed

lemma sat_add_le: "a \<le> sat_add a b" for a b :: "'a::len word"
proof -
  have "unat a \<le> 2 ^ LENGTH('a) - 1"
    using unat_bound [of a] by linarith
  then show ?thesis by (simp add: word_le_nat_alt unat_sat_add)
qed

lemma word_less_Suc: "x \<noteq> - 1 \<Longrightarrow> x < x + 1" for x :: "'a::len word"
proof -
  assume "x \<noteq> - 1"
  then have "unat x \<noteq> unat (- 1 :: 'a word)" by (metis unsigned_word_eqI)
  with unat_bound [of x] have "unat x + 1 < 2 ^ LENGTH('a)"
    unfolding unat_minus_1 by linarith
  then show ?thesis by (simp add: word_less_nat_alt unat_word_ariths)
qed

text \<open>\<open>saturating_sub\<close> on an unsigned width.\<close>

definition sat_sub :: "'a::len word \<Rightarrow> 'a word \<Rightarrow> 'a word" where
  "sat_sub a b = (if b \<le> a then a - b else 0)"

lemma unat_sat_sub: "unat (sat_sub a b) = unat a - unat b"
  by (auto simp: sat_sub_def unat_sub word_le_nat_alt)

lemma le_sat_pred: "a < b \<Longrightarrow> a \<le> sat_sub b 1"
  by (simp add: word_le_nat_alt word_less_nat_alt unat_sat_sub)

lemma sat_pred_less: "0 < b \<Longrightarrow> sat_sub b 1 < b"
  by (simp add: word_less_nat_alt unat_sat_sub)

section \<open>Strings\<close>

text \<open>\<open>str::split\<close> on one character: always at least one segment.\<close>

fun split_on :: "'a \<Rightarrow> 'a list \<Rightarrow> 'a list list" where
  "split_on c [] = [[]]"
| "split_on c (x # xs) =
     (if x = c then [] # split_on c xs
      else case split_on c xs of
             [] \<Rightarrow> [[x]]
           | p # ps \<Rightarrow> (x # p) # ps)"

text \<open>\<open>[S]::join\<close> with a separator.\<close>

fun join_with :: "'a list \<Rightarrow> 'a list list \<Rightarrow> 'a list" where
  "join_with sep [] = []"
| "join_with sep [p] = p"
| "join_with sep (p # q # ps) = p @ sep @ join_with sep (q # ps)"

text \<open>\<open>str::contains\<close> with a string pattern.\<close>

fun contains_str :: "'a list \<Rightarrow> 'a list \<Rightarrow> bool" where
  "contains_str pat [] = (pat = [])"
| "contains_str pat (x # xs) = (prefix pat (x # xs) \<or> contains_str pat xs)"

text \<open>\<open>str::strip_prefix\<close>.\<close>

definition strip_prefix :: "'a list \<Rightarrow> 'a list \<Rightarrow> 'a list option" where
  "strip_prefix pat s = (if prefix pat s then Some (drop (length pat) s) else None)"

text \<open>
  \<open>str::rfind\<close> of one character, as the pair the callers slice out: what is before the last
  occurrence and what is after it.
\<close>

fun rsplit_at :: "'a \<Rightarrow> 'a list \<Rightarrow> ('a list \<times> 'a list) option" where
  "rsplit_at c [] = None"
| "rsplit_at c (x # xs) =
     (case rsplit_at c xs of
        Some (l, r) \<Rightarrow> Some (x # l, r)
      | None \<Rightarrow> if x = c then Some ([], xs) else None)"

lemma split_on_ne [simp]: "split_on c s \<noteq> []"
  by (cases s) (auto split: list.splits)

lemma join_split_on: "join_with [c] (split_on c s) = s"
proof (induction s)
  case Nil
  then show ?case by simp
next
  case (Cons x s)
  obtain p ps where "split_on c s = p # ps"
    by (cases "split_on c s") auto
  with Cons show ?case by (cases ps) auto
qed

lemma split_on_no_sep: "c \<notin> set s \<Longrightarrow> split_on c s = [s]"
  by (induction s) auto

lemma split_on_append_sep: "c \<notin> set p \<Longrightarrow> split_on c (p @ c # s) = p # split_on c s"
  by (induction p) auto

lemma split_join_with:
  "\<lbrakk>ps \<noteq> []; \<forall>p \<in> set ps. c \<notin> set p\<rbrakk> \<Longrightarrow> split_on c (join_with [c] ps) = ps"
proof (induction "[c]" ps rule: join_with.induct)
  case 1
  then show ?case by simp
next
  case (2 p)
  then show ?case by (simp add: split_on_no_sep)
next
  case (3 p q ps)
  then show ?case by (simp add: split_on_append_sep)
qed

lemma split_on_seg_no_sep: "p \<in> set (split_on c s) \<Longrightarrow> c \<notin> set p"
proof (induction s arbitrary: p)
  case Nil
  then show ?case by simp
next
  case (Cons x s)
  obtain q qs where "split_on c s = q # qs"
    by (cases "split_on c s") auto
  with Cons show ?case by (auto split: if_splits)
qed

lemma rsplit_at_None: "rsplit_at c s = None \<longleftrightarrow> c \<notin> set s"
  by (induction s) (auto split: option.splits if_splits)

lemma rsplit_at_Some: "rsplit_at c s = Some (l, r) \<longleftrightarrow> s = l @ c # r \<and> c \<notin> set r"
proof (induction s arbitrary: l r)
  case Nil
  then show ?case by simp
next
  case (Cons x s)
  show ?case
  proof (cases "rsplit_at c s")
    case None
    then have "c \<notin> set s" by (simp add: rsplit_at_None)
    with None show ?thesis by (auto simp: Cons_eq_append_conv)
  next
    case (Some lr)
    obtain l' r' where lr: "lr = (l', r')" by (cases lr)
    with Some Cons.IH have "s = l' @ c # r'" "c \<notin> set r'" by auto
    with Some lr Cons.IH show ?thesis
      by (auto simp: Cons_eq_append_conv)
  qed
qed

lemma strip_prefix_Some [simp]: "strip_prefix pat s = Some r \<longleftrightarrow> s = pat @ r"
  by (auto simp: strip_prefix_def prefix_def)

lemma contains_str_iff: "contains_str pat s \<longleftrightarrow> (\<exists>l r. s = l @ pat @ r)"
proof (induction s)
  case Nil
  then show ?case by auto
next
  case (Cons x s)
  show ?case
  proof
    assume "contains_str pat (x # s)"
    then consider "prefix pat (x # s)" | "contains_str pat s" by auto
    then show "\<exists>l r. x # s = l @ pat @ r"
    proof cases
      case 1
      then show ?thesis by (metis append_Nil prefix_def)
    next
      case 2
      with Cons show ?thesis by (metis append_Cons)
    qed
  next
    assume "\<exists>l r. x # s = l @ pat @ r"
    then obtain l r where lr: "x # s = l @ pat @ r" by blast
    show "contains_str pat (x # s)"
    proof (cases l)
      case Nil
      with lr show ?thesis by (metis append_Nil contains_str.simps(2) prefixI)
    next
      case (Cons y l')
      with lr have "s = l' @ pat @ r" by simp
      with \<open>contains_str pat s \<longleftrightarrow> (\<exists>l r. s = l @ pat @ r)\<close> show ?thesis by auto
    qed
  qed
qed

text \<open>
  The ASCII alphabetic test and upper-casing, on bytes (\<open>u8::is_ascii_alphabetic\<close>,
  \<open>str::to_ascii_uppercase\<close>).
\<close>

definition is_ascii_upper :: "char \<Rightarrow> bool" where
  "is_ascii_upper c \<longleftrightarrow> 65 \<le> (of_char c :: nat) \<and> (of_char c :: nat) \<le> 90"

definition is_ascii_lower :: "char \<Rightarrow> bool" where
  "is_ascii_lower c \<longleftrightarrow> 97 \<le> (of_char c :: nat) \<and> (of_char c :: nat) \<le> 122"

definition is_ascii_alphabetic :: "char \<Rightarrow> bool" where
  "is_ascii_alphabetic c \<longleftrightarrow> is_ascii_upper c \<or> is_ascii_lower c"

definition to_ascii_upper :: "char \<Rightarrow> char" where
  "to_ascii_upper c = (if is_ascii_lower c then char_of (of_char c - (32 :: nat)) else c)"

text \<open>Decimal printing of a \<open>nat\<close> (\<open>format!("{n}")\<close>).\<close>

fun show_nat :: "nat \<Rightarrow> string" where
  "show_nat n = (if n < 10 then [char_of (48 + n)] else show_nat (n div 10) @ [char_of (48 + n mod 10)])"

declare show_nat.simps [simp del]

lemma show_nat_digits: "c \<in> set (show_nat n) \<Longrightarrow> 48 \<le> (of_char c :: nat) \<and> (of_char c :: nat) \<le> 57"
proof (induction n rule: show_nat.induct)
  case (1 n)
  show ?case
  proof (cases "n < 10")
    case True
    with "1.prems" show ?thesis by (auto simp: show_nat.simps [of n])
  next
    case False
    with "1.prems" consider "c \<in> set (show_nat (n div 10))" | "c = char_of (48 + n mod 10)"
      by (auto simp: show_nat.simps [of n])
    then show ?thesis
    proof cases
      case 1
      with False "1.IH" show ?thesis by simp
    next
      case 2
      have "n mod 10 < 10" by simp
      with 2 show ?thesis by simp
    qed
  qed
qed

text \<open>Different numbers print differently: the digits read back.\<close>

definition nat_value :: "string \<Rightarrow> nat" where
  "nat_value s = foldl (\<lambda>a c. a * 10 + (of_char c - 48)) 0 s"

lemma nat_value_show: "nat_value (show_nat n) = n"
proof (induction n rule: show_nat.induct)
  case (1 n)
  show ?case
  proof (cases "n < 10")
    case True
    then show ?thesis by (simp add: show_nat.simps [of n] nat_value_def)
  next
    case False
    have "n mod 10 < 10" by simp
    with False "1.IH" show ?thesis by (simp add: show_nat.simps [of n] nat_value_def)
  qed
qed

lemma show_nat_inj: "show_nat m = show_nat n \<longleftrightarrow> m = n"
  by (metis nat_value_show)

lemma show_nat_ne [simp]: "show_nat n \<noteq> []"
  by (simp add: show_nat.simps [of n])

section \<open>Maxima\<close>

text \<open>\<open>Iterator::max_by_key\<close>: the last of the maxima.\<close>

definition max_by_key :: "('a \<Rightarrow> 'k::linorder) \<Rightarrow> 'a list \<Rightarrow> 'a option" where
  "max_by_key key xs =
     foldl (\<lambda>best x. case best of
                 None \<Rightarrow> Some x
               | Some b \<Rightarrow> if key b \<le> key x then Some x else Some b) None xs"

lemma max_by_key_snoc:
  "max_by_key key (xs @ [x]) =
     (case max_by_key key xs of None \<Rightarrow> Some x | Some b \<Rightarrow> if key b \<le> key x then Some x else Some b)"
  by (simp add: max_by_key_def)

lemma max_by_key_Nil [simp]: "max_by_key key [] = None"
  by (simp add: max_by_key_def)

lemma max_by_key_None [simp]: "max_by_key key xs = None \<longleftrightarrow> xs = []"
  by (induction xs rule: rev_induct) (auto simp: max_by_key_snoc split: option.splits)

lemma max_by_key_Some:
  "max_by_key key xs = Some b \<Longrightarrow> b \<in> set xs \<and> (\<forall>x \<in> set xs. key x \<le> key b)"
proof (induction xs arbitrary: b rule: rev_induct)
  case Nil
  then show ?case by simp
next
  case (snoc x xs)
  show ?case
  proof (cases "max_by_key key xs")
    case None
    with snoc.prems show ?thesis by (simp add: max_by_key_snoc)
  next
    case (Some c)
    with snoc.IH have "c \<in> set xs" "\<forall>y \<in> set xs. key y \<le> key c" by blast+
    with Some snoc.prems show ?thesis
      by (auto simp: max_by_key_snoc split: if_splits intro: order_trans)
  qed
qed

text \<open>With distinct keys the maximum does not depend on the order.\<close>

lemma max_by_key_set:
  assumes "set xs = set ys" "inj_on key (set xs)"
  shows "max_by_key key xs = max_by_key key ys"
proof (cases "max_by_key key xs")
  case None
  with assms show ?thesis by simp
next
  case (Some b)
  from max_by_key_Some [OF Some] have b: "b \<in> set xs" "\<forall>x \<in> set xs. key x \<le> key b" by auto
  with assms(1) have "ys \<noteq> []" by auto
  then obtain c where c: "max_by_key key ys = Some c"
    by (cases "max_by_key key ys") auto
  from max_by_key_Some [OF c] have "c \<in> set ys" "\<forall>x \<in> set ys. key x \<le> key c" by auto
  with b assms have "key b = key c" by (metis order_antisym)
  with b(1) \<open>c \<in> set ys\<close> assms have "b = c" by (auto dest: inj_onD)
  with Some c show ?thesis by simp
qed

end
