(* ===== verification/BTreeMap.thy ===== *)
theory BTreeMap
  imports Prelude
begin

text \<open>
  Rust's \<open>BTreeMap\<close> (and \<open>HashMap\<close>, whose iteration order no modelled function depends on): an
  association list sorted by key, as an abstract type, so that two maps with the same lookups are
  equal. A \<open>BTreeSet\<close> is a map to \<open>unit\<close>.
\<close>

section \<open>Sorted association lists\<close>

fun al_get :: "('k \<times> 'v) list \<Rightarrow> 'k \<Rightarrow> 'v option" where
  "al_get [] k = None"
| "al_get ((a, b) # xs) k = (if k = a then Some b else al_get xs k)"

fun al_insert :: "'k::linorder \<Rightarrow> 'v \<Rightarrow> ('k \<times> 'v) list \<Rightarrow> ('k \<times> 'v) list" where
  "al_insert k v [] = [(k, v)]"
| "al_insert k v ((a, b) # xs) =
     (if k < a then (k, v) # (a, b) # xs
      else if k = a then (k, v) # xs
      else (a, b) # al_insert k v xs)"

definition al_ok :: "('k::linorder \<times> 'v) list \<Rightarrow> bool" where
  "al_ok xs \<longleftrightarrow> sorted_wrt (<) (map fst xs)"

lemma al_ok_Nil [simp]: "al_ok []"
  by (simp add: al_ok_def)

lemma al_ok_Cons [simp]: "al_ok ((a, b) # xs) \<longleftrightarrow> (\<forall>k \<in> fst ` set xs. a < k) \<and> al_ok xs"
  by (auto simp: al_ok_def)

lemma keys_al_insert: "fst ` set (al_insert k v xs) = insert k (fst ` set xs)"
  by (induction k v xs rule: al_insert.induct) auto

lemma al_ok_insert: "al_ok xs \<Longrightarrow> al_ok (al_insert k v xs)"
  by (induction k v xs rule: al_insert.induct) (auto simp: keys_al_insert)

lemma al_ok_filter: "al_ok xs \<Longrightarrow> al_ok (filter P xs)"
  by (induction xs) auto

lemma al_get_None: "al_get xs k = None \<longleftrightarrow> k \<notin> fst ` set xs"
  by (induction xs k rule: al_get.induct) auto

lemma al_get_insert: "al_ok xs \<Longrightarrow> al_get (al_insert k v xs) = (al_get xs)(k := Some v)"
  by (induction k v xs rule: al_insert.induct) (auto simp: fun_eq_iff al_get_None)

lemma al_get_iff: "al_ok xs \<Longrightarrow> al_get xs k = Some v \<longleftrightarrow> (k, v) \<in> set xs"
  by (induction xs k rule: al_get.induct) force+

lemma al_get_filter:
  "al_ok xs \<Longrightarrow> al_get (filter P xs) k =
     (case al_get xs k of Some v \<Rightarrow> if P (k, v) then Some v else None | None \<Rightarrow> None)"
  by (induction xs k rule: al_get.induct) (auto simp: al_get_None split: option.splits)

lemma al_ext:
  "\<lbrakk>al_ok xs; al_ok ys; \<And>k. al_get xs k = al_get ys k\<rbrakk> \<Longrightarrow> xs = ys"
proof -
  assume ok: "al_ok xs" "al_ok ys" and eq: "\<And>k. al_get xs k = al_get ys k"
  then have "set xs = set ys" by (auto simp flip: al_get_iff)
  moreover have "distinct (map fst xs)" "distinct (map fst ys)"
    "sorted (map fst xs)" "sorted (map fst ys)"
    using ok by (auto simp: al_ok_def strict_sorted_iff)
  ultimately show "xs = ys"
    by (intro map_sorted_distinct_set_unique [of fst]) (auto simp: distinct_map)
qed

section \<open>The map type\<close>

typedef (overloaded) ('k::linorder, 'v) btmap = "{xs :: ('k \<times> 'v) list. al_ok xs}"
  morphisms entries BTMap
  by (rule exI [of _ "[]"]) simp

setup_lifting type_definition_btmap

lemma BTMap_entries [simp, code abstype]: "BTMap (entries m) = m"
  by (rule entries_inverse)

lift_definition bt_empty :: "('k::linorder, 'v) btmap" is "[]" by simp

lift_definition bt_get :: "('k::linorder, 'v) btmap \<Rightarrow> 'k \<Rightarrow> 'v option" is al_get .

lift_definition bt_insert :: "'k::linorder \<Rightarrow> 'v \<Rightarrow> ('k, 'v) btmap \<Rightarrow> ('k, 'v) btmap"
  is al_insert by (rule al_ok_insert)

lift_definition bt_filter :: "('k::linorder \<times> 'v \<Rightarrow> bool) \<Rightarrow> ('k, 'v) btmap \<Rightarrow> ('k, 'v) btmap"
  is filter by (rule al_ok_filter)

definition bt_remove :: "'k::linorder \<Rightarrow> ('k, 'v) btmap \<Rightarrow> ('k, 'v) btmap" where
  "bt_remove k m = bt_filter (\<lambda>(k', _). k' \<noteq> k) m"

definition bt_keys :: "('k::linorder, 'v) btmap \<Rightarrow> 'k list" where
  "bt_keys m = map fst (entries m)"

definition bt_has :: "('k::linorder, 'v) btmap \<Rightarrow> 'k \<Rightarrow> bool" where
  "bt_has m k \<longleftrightarrow> bt_get m k \<noteq> None"

definition bt_insert_all :: "('k::linorder \<times> 'v) list \<Rightarrow> ('k, 'v) btmap \<Rightarrow> ('k, 'v) btmap" where
  "bt_insert_all kvs m = foldl (\<lambda>acc (k, v). bt_insert k v acc) m kvs"

type_synonym 'k btset = "('k, unit) btmap"

abbreviation bs_insert :: "'k::linorder \<Rightarrow> 'k btset \<Rightarrow> 'k btset" where
  "bs_insert k s \<equiv> bt_insert k () s"

instantiation btmap :: (linorder, equal) equal
begin

definition equal_btmap :: "('a, 'b) btmap \<Rightarrow> ('a, 'b) btmap \<Rightarrow> bool" where
  "equal_btmap m n \<longleftrightarrow> entries m = entries n"

instance
  by standard (simp add: equal_btmap_def entries_inject)

end

instantiation btmap :: (linorder, type) size
begin

definition size_btmap :: "('a, 'b) btmap \<Rightarrow> nat" where
  "size_btmap m = length (entries m)"

instance ..

end

section \<open>Laws\<close>

lemma bt_eqI: "(\<And>k. bt_get m k = bt_get n k) \<Longrightarrow> m = n"
  by transfer (rule al_ext)

lemma bt_eq_iff: "m = n \<longleftrightarrow> (\<forall>k. bt_get m k = bt_get n k)"
  by (auto intro: bt_eqI)

lemma bt_get_empty [simp]: "bt_get bt_empty k = None"
  by transfer simp

lemma bt_get_insert [simp]: "bt_get (bt_insert k v m) k' = (if k' = k then Some v else bt_get m k')"
  by transfer (simp add: al_get_insert)

lemma bt_get_filter:
  "bt_get (bt_filter P m) k =
     (case bt_get m k of Some v \<Rightarrow> if P (k, v) then Some v else None | None \<Rightarrow> None)"
  by transfer (rule al_get_filter)

lemma bt_get_remove [simp]: "bt_get (bt_remove k m) k' = (if k' = k then None else bt_get m k')"
  by (auto simp: bt_remove_def bt_get_filter split: option.splits)

lemma bt_entries_iff: "(k, v) \<in> set (entries m) \<longleftrightarrow> bt_get m k = Some v"
  by transfer (simp add: al_get_iff)

lemma al_get_entries: "al_get (entries m) k = bt_get m k"
  by transfer simp

lemma bt_keys_iff: "k \<in> set (bt_keys m) \<longleftrightarrow> bt_has m k"
  using al_get_None [of "entries m" k] by (simp add: bt_keys_def bt_has_def al_get_entries)

lemma bt_entries_sorted: "sorted_wrt (<) (map fst (entries m))"
  by transfer (simp add: al_ok_def)

lemma bt_entries_distinct: "distinct (map fst (entries m))"
  using bt_entries_sorted [of m] by (simp add: strict_sorted_iff)

lemma entries_empty [simp]: "entries bt_empty = []"
  by transfer simp

lemma size_bt_empty [simp]: "size (bt_empty :: ('k::linorder, 'v) btmap) = 0"
  by (simp add: size_btmap_def)

lemma bt_insert_idem: "bt_get m k = Some v \<Longrightarrow> bt_insert k v m = m"
  by (auto intro: bt_eqI)

lemma bt_empty_iff: "m = bt_empty \<longleftrightarrow> (\<forall>k. bt_get m k = None)"
  by (auto simp: bt_eq_iff)

lemma bt_insert_not_empty [simp]: "bt_insert k v m \<noteq> bt_empty" "bt_empty \<noteq> bt_insert k v m"
  by (metis bt_get_empty bt_get_insert option.distinct(1))+

lemma entries_remove: "entries (bt_remove k m) = filter (\<lambda>(k', _). k' \<noteq> k) (entries m)"
  by (simp add: bt_remove_def bt_filter.rep_eq)

text \<open>Evaluating maps that are built by insertions.\<close>

lemmas bt_eval = bt_insert.rep_eq entries_remove bt_keys_def size_btmap_def bt_insert_all_def

lemma entries_eq_Nil: "entries m = [] \<longleftrightarrow> m = bt_empty"
  by (metis BTMap_entries entries_empty)

lemma bt_insert_all_Nil [simp]: "bt_insert_all [] m = m"
  by (simp add: bt_insert_all_def)

lemma bt_insert_all_Cons [simp]: "bt_insert_all ((k, v) # kvs) m = bt_insert_all kvs (bt_insert k v m)"
  by (simp add: bt_insert_all_def)

lemma bt_get_insert_all:
  "distinct (map fst kvs) \<Longrightarrow>
   bt_get (bt_insert_all kvs m) k = (case al_get kvs k of Some v \<Rightarrow> Some v | None \<Rightarrow> bt_get m k)"
proof (induction kvs arbitrary: m)
  case Nil
  then show ?case by simp
next
  case (Cons kv kvs)
  obtain a b where kv: "kv = (a, b)" by (cases kv)
  with Cons.prems have "al_get kvs a = None" by (simp add: al_get_None)
  with Cons kv show ?case by (auto split: option.splits)
qed

text \<open>Writing every entry of one map over another: the newer map wins.\<close>

lemma bt_get_overlay:
  "bt_get (bt_insert_all (entries n) m) k = (case bt_get n k of Some v \<Rightarrow> Some v | None \<Rightarrow> bt_get m k)"
  by (simp add: bt_get_insert_all bt_entries_distinct al_get_entries)

lemmas bt_simps = bt_get_empty bt_get_insert bt_get_remove bt_get_filter bt_get_overlay

end
