(* ===== verification/VersionVector.thy ===== *)
theory VersionVector
  imports BTreeMap
begin

text \<open>
  Dots, replica ids and version vectors (\<open>sapphire-framework-sync/src/vv.rs\<close>, \<open>id.rs\<close>), and the
  interface the merge relies on: a clock that knows which dots it covers and can be merged.
\<close>

section \<open>Replica ids and dots\<close>

text \<open>
  A replica id is a UUID, 128 bits compared as the big-endian number its bytes spell. A grain-id
  belongs to a crate that is not part of the sources; it is identified with its number, and what
  the sources ask of the crate is a parameter.
\<close>

type_synonym replica_id = "128 word"
type_synonym grain_id = nat

text \<open>\<open>ReplicaId::display_id\<close>: bytes 11 to 15 of the big-endian UUID, the low forty bits.\<close>

definition display_id :: "(40 word \<Rightarrow> grain_id) \<Rightarrow> replica_id \<Rightarrow> grain_id" where
  "display_id from_byte_suffix r = from_byte_suffix (ucast r)"

datatype dot = Dot (replica: replica_id) (counter: u64)

text \<open>The derived ordering: the replica first, then the counter.\<close>

instantiation dot :: linorder
begin

definition less_eq_dot :: "dot \<Rightarrow> dot \<Rightarrow> bool" where
  "less_eq_dot a b \<longleftrightarrow> (replica a, counter a) \<le> (replica b, counter b)"

definition less_dot :: "dot \<Rightarrow> dot \<Rightarrow> bool" where
  "less_dot a b \<longleftrightarrow> (replica a, counter a) < (replica b, counter b)"

instance
  by standard (auto simp: less_eq_dot_def less_dot_def intro: dot.expand)

end

section \<open>Version vectors\<close>

type_synonym version_vector = "(replica_id, u64) btmap"

definition vv_new :: version_vector where
  "vv_new = bt_empty"

definition vv_get :: "version_vector \<Rightarrow> replica_id \<Rightarrow> u64" where
  "vv_get v r = (case bt_get v r of Some c \<Rightarrow> c | None \<Rightarrow> 0)"

definition covers_dot :: "version_vector \<Rightarrow> dot \<Rightarrow> bool" where
  "covers_dot v d \<longleftrightarrow> counter d \<le> vv_get v (replica d)"

definition covers :: "version_vector \<Rightarrow> version_vector \<Rightarrow> bool" where
  "covers v w \<longleftrightarrow> list_all (\<lambda>(r, c). c \<le> vv_get v r) (entries w)"

definition add_dot :: "dot \<Rightarrow> version_vector \<Rightarrow> version_vector" where
  "add_dot d v = bt_insert (replica d) (max (vv_get v (replica d)) (counter d)) v"

definition vv_merge :: "version_vector \<Rightarrow> version_vector \<Rightarrow> version_vector" where
  "vv_merge v w = foldl (\<lambda>acc (r, c). bt_insert r (max (vv_get acc r) c) acc) v (entries w)"

text \<open>
  The step of \<open>Replica::disk_seen\<close> that leaves one dot out: the slot of its replica, created with 0
  when there is none, is lowered below its counter.
\<close>

definition pin_out :: "version_vector \<Rightarrow> dot \<Rightarrow> version_vector" where
  "pin_out v d = bt_insert (replica d) (min (vv_get v (replica d)) (sat_sub (counter d) 1)) v"

text \<open>What a merge holds at one replica: the larger counter, an absent one only when both are.\<close>

fun max_opt :: "'a::linorder option \<Rightarrow> 'a option \<Rightarrow> 'a option" where
  "max_opt None y = y"
| "max_opt x None = x"
| "max_opt (Some a) (Some b) = Some (max a b)"

lemma max_opt_comm: "max_opt x y = max_opt y x"
  by (cases x; cases y) (auto simp: max.commute)

lemma max_opt_assoc: "max_opt (max_opt x y) z = max_opt x (max_opt y z)"
  by (cases x; cases y; cases z) (auto simp: max.assoc)

lemma max_opt_idem [simp]: "max_opt x x = x"
  by (cases x) auto

lemma max_opt_None2 [simp]: "max_opt x None = x"
  by (cases x) auto

lemma get_merge_entries:
  assumes "al_ok kvs"
  shows "bt_get (foldl (\<lambda>acc (r, c). bt_insert r (max (vv_get acc r) c) acc) v kvs) r =
    max_opt (bt_get v r) (al_get kvs (r :: replica_id))"
  using assms
proof (induction kvs arbitrary: v)
  case Nil
  then show ?case by simp
next
  case (Cons rc kvs)
  obtain a c where rc: "rc = (a, c)" by (cases rc)
  have "al_get kvs a = None" using Cons.prems rc by (auto simp: al_get_None)
  with Cons rc show ?case
    by (cases "bt_get v r") (auto simp: vv_get_def)
qed

lemma bt_get_vv_merge: "bt_get (vv_merge v w) r = max_opt (bt_get v r) (bt_get w r)"
  using entries [of w] get_merge_entries [of "entries w" v r]
  by (simp add: vv_merge_def al_get_entries)

lemma vv_get_merge: "vv_get (vv_merge v w) r = max (vv_get v r) (vv_get w r)"
  by (cases "bt_get v r"; cases "bt_get w r") (auto simp: vv_get_def bt_get_vv_merge max_def)

lemma vv_get_add_dot: "vv_get (add_dot d v) r = (if r = replica d then max (vv_get v r) (counter d) else vv_get v r)"
  by (simp add: vv_get_def add_dot_def)

lemma vv_merge_comm: "vv_merge v w = vv_merge w v"
  by (rule bt_eqI) (simp add: bt_get_vv_merge max_opt_comm)

lemma vv_merge_assoc: "vv_merge (vv_merge u v) w = vv_merge u (vv_merge v w)"
  by (rule bt_eqI) (simp add: bt_get_vv_merge max_opt_assoc)

lemma vv_merge_idem [simp]: "vv_merge v v = v"
  by (rule bt_eqI) (simp add: bt_get_vv_merge)

lemma covers_dot_new: "covers_dot vv_new d \<longleftrightarrow> counter d = 0"
  by (simp add: covers_dot_def vv_get_def vv_new_def)

lemma covers_dot_merge: "covers_dot (vv_merge v w) d \<longleftrightarrow> covers_dot v d \<or> covers_dot w d"
  by (auto simp: covers_dot_def vv_get_merge le_max_iff_disj)

lemma covers_dot_add:
  "covers_dot (add_dot d v) e \<longleftrightarrow> covers_dot v e \<or> replica e = replica d \<and> counter e \<le> counter d"
  by (auto simp: covers_dot_def vv_get_add_dot le_max_iff_disj)

lemma covers_iff: "covers v w \<longleftrightarrow> (\<forall>r. vv_get w r \<le> vv_get v r)"
proof -
  have "covers v w \<longleftrightarrow> (\<forall>r c. bt_get w r = Some c \<longrightarrow> c \<le> vv_get v r)"
    by (force simp: covers_def list_all_iff simp flip: bt_entries_iff)
  also have "\<dots> \<longleftrightarrow> (\<forall>r. vv_get w r \<le> vv_get v r)"
    by (auto simp: vv_get_def split: option.splits)
  finally show ?thesis .
qed

lemma covers_refl [simp]: "covers v v"
  by (simp add: covers_iff)

lemma covers_trans: "\<lbrakk>covers u v; covers v w\<rbrakk> \<Longrightarrow> covers u w"
  by (auto simp: covers_iff intro: order_trans)

lemma covers_mergeL [simp]: "covers (vv_merge v w) v"
  and covers_mergeR [simp]: "covers (vv_merge v w) w"
  by (auto simp: covers_iff vv_get_merge)

lemma covers_merge_iff: "covers u (vv_merge v w) \<longleftrightarrow> covers u v \<and> covers u w"
  by (auto simp: covers_iff vv_get_merge)

lemma covers_dot_mono: "\<lbrakk>covers v w; covers_dot w d\<rbrakk> \<Longrightarrow> covers_dot v d"
  by (auto simp: covers_iff covers_dot_def intro: order_trans)

lemma vv_get_pin_out:
  "vv_get (pin_out v d) r = (if r = replica d then min (vv_get v r) (sat_sub (counter d) 1) else vv_get v r)"
  by (simp add: pin_out_def vv_get_def)

lemma covers_pin_out [simp]: "covers v (pin_out v d)"
  by (simp add: covers_iff vv_get_pin_out)

lemma covers_pins: "covers v (foldl pin_out v ds)"
  by (induction ds rule: rev_induct) (auto intro: covers_trans covers_pin_out)

text \<open>A vector below the original that covers no pinned dot stays below the pinned one.\<close>

lemma pins_ge:
  "\<lbrakk>vv_get w r \<le> vv_get v r; \<And>d. \<lbrakk>d \<in> set ds; replica d = r\<rbrakk> \<Longrightarrow> \<not> covers_dot w d\<rbrakk> \<Longrightarrow>
   vv_get w r \<le> vv_get (foldl pin_out v ds) r"
proof (induction ds rule: rev_induct)
  case Nil
  then show ?case by simp
next
  case (snoc d ds)
  have IH: "vv_get w r \<le> vv_get (foldl pin_out v ds) r"
    by (rule snoc.IH) (use snoc.prems in auto)
  show ?case
  proof (cases "replica d = r")
    case True
    with snoc.prems(2) [of d] have "vv_get w r < counter d" by (simp add: covers_dot_def)
    then have "vv_get w r \<le> sat_sub (counter d) 1" by (rule le_sat_pred)
    with IH True show ?thesis by (simp add: vv_get_pin_out)
  qed (use IH in \<open>simp add: vv_get_pin_out\<close>)
qed

text \<open>A pinned dot is not covered any more.\<close>

lemma pins_uncover:
  "\<lbrakk>d \<in> set ds; 0 < counter d\<rbrakk> \<Longrightarrow> \<not> covers_dot (foldl pin_out v ds) d"
proof (induction ds rule: rev_induct)
  case Nil
  then show ?case by simp
next
  case (snoc e ds)
  show ?case
  proof (cases "d \<in> set ds")
    case True
    with snoc have "vv_get (foldl pin_out v ds) (replica d) < counter d" by (simp add: covers_dot_def)
    then show ?thesis by (auto simp: covers_dot_def vv_get_pin_out min_less_iff_disj)
  next
    case False
    with snoc.prems have "d = e" by simp
    with snoc.prems(2) show ?thesis
      by (auto simp: covers_dot_def vv_get_pin_out min_less_iff_disj sat_pred_less not_le)
  qed
qed

lemma covers_as_dots: "covers v w \<longleftrightarrow> (\<forall>d. covers_dot w d \<longrightarrow> covers_dot v d)"
proof
  assume dots: "\<forall>d. covers_dot w d \<longrightarrow> covers_dot v d"
  show "covers v w"
    unfolding covers_iff
  proof
    fix r
    from dots have "covers_dot w (Dot r (vv_get w r)) \<longrightarrow> covers_dot v (Dot r (vv_get w r))" by blast
    then show "vv_get w r \<le> vv_get v r" by (simp add: covers_dot_def)
  qed
qed (auto intro: covers_dot_mono)

lemma covers_add_dot [simp]: "covers (add_dot d v) v"
  by (simp add: covers_iff vv_get_add_dot)

lemmas covers_simps = covers_dot_merge covers_dot_add covers_dot_new

section \<open>The interface of a causal clock\<close>

text \<open>
  What joining path states needs of a version vector: merging covers exactly what either side
  covers, and is the join of a semilattice.
\<close>

locale causal_clock =
  fixes cov :: "'clock \<Rightarrow> 'dot \<Rightarrow> bool"
    and mrg :: "'clock \<Rightarrow> 'clock \<Rightarrow> 'clock"
  assumes cov_mrg: "cov (mrg a b) d \<longleftrightarrow> cov a d \<or> cov b d"
    and mrg_comm: "mrg a b = mrg b a"
    and mrg_assoc: "mrg (mrg a b) c = mrg a (mrg b c)"
    and mrg_idem: "mrg a a = a"

text \<open>
  The live dots after joining two sides: what one side holds, less what the other side covers
  without holding it. This is the specification the list algorithm of \<open>merge.rs\<close> is proved against.
\<close>

definition live_join :: "('clock \<Rightarrow> 'dot \<Rightarrow> bool) \<Rightarrow> 'dot set \<Rightarrow> 'clock \<Rightarrow> 'dot set \<Rightarrow> 'clock \<Rightarrow> 'dot set" where
  "live_join cov V a W b = {d \<in> V. \<not> cov b d \<or> d \<in> W} \<union> {d \<in> W. \<not> cov a d \<or> d \<in> V}"

context causal_clock
begin

lemma live_join_comm: "live_join cov V a W b = live_join cov W b V a"
  by (auto simp: live_join_def)

lemma live_join_idem: "live_join cov V a V a = V"
  by (auto simp: live_join_def)

lemma live_join_alt:
  assumes "\<And>d. d \<in> V \<Longrightarrow> cov a d" "\<And>d. d \<in> W \<Longrightarrow> cov b d"
  shows "live_join cov V a W b = (V \<union> W) - ({d. cov a d \<and> d \<notin> V} \<union> {d. cov b d \<and> d \<notin> W})"
  using assms by (auto simp: live_join_def)

lemma dead_join:
  assumes "\<And>d. d \<in> V \<Longrightarrow> cov a d" "\<And>d. d \<in> W \<Longrightarrow> cov b d"
  shows "{d. cov (mrg a b) d \<and> d \<notin> live_join cov V a W b} =
    {d. cov a d \<and> d \<notin> V} \<union> {d. cov b d \<and> d \<notin> W}"
  using assms by (auto simp: live_join_def cov_mrg)

lemma live_join_covered:
  assumes "\<And>d. d \<in> V \<Longrightarrow> cov a d" "\<And>d. d \<in> W \<Longrightarrow> cov b d" "d \<in> live_join cov V a W b"
  shows "cov (mrg a b) d"
  using assms by (auto simp: live_join_def cov_mrg)

lemma live_join_assoc:
  assumes V: "\<And>d. d \<in> V \<Longrightarrow> cov a d" and W: "\<And>d. d \<in> W \<Longrightarrow> cov b d" and X: "\<And>d. d \<in> X \<Longrightarrow> cov c d"
  shows "live_join cov (live_join cov V a W b) (mrg a b) X c =
    live_join cov V a (live_join cov W b X c) (mrg b c)"
proof -
  note VW = live_join_covered [OF V W] and WX = live_join_covered [OF W X]
  have "live_join cov (live_join cov V a W b) (mrg a b) X c =
    (live_join cov V a W b \<union> X) -
      ({d. cov a d \<and> d \<notin> V} \<union> {d. cov b d \<and> d \<notin> W} \<union> {d. cov c d \<and> d \<notin> X})"
    using live_join_alt [OF VW X] dead_join [OF V W] by simp
  also have "\<dots> = (V \<union> live_join cov W b X c) -
      ({d. cov a d \<and> d \<notin> V} \<union> ({d. cov b d \<and> d \<notin> W} \<union> {d. cov c d \<and> d \<notin> X}))"
    using live_join_alt [OF V W] live_join_alt [OF W X] by auto
  also have "\<dots> = live_join cov V a (live_join cov W b X c) (mrg b c)"
    using live_join_alt [OF V WX] dead_join [OF W X] by simp
  finally show ?thesis .
qed

end

interpretation vvc: causal_clock covers_dot vv_merge
  by unfold_locales (fact covers_dot_merge vv_merge_comm vv_merge_assoc vv_merge_idem)+

end
