(* ===== verification/Hlc.thy ===== *)
theory Hlc
  imports Prelude
begin

text \<open>
  The hybrid logical clock (\<open>sapphire-framework-sync/src/hlc.rs\<close>), at the widths of the code: a
  64-bit wall time in milliseconds and a 32-bit logical counter.
\<close>

definition MAX_DRIFT_MS :: u64 where
  "MAX_DRIFT_MS = 24 * 60 * 60 * 1000"

datatype hlc = Hlc (wall_ms: u64) (logical: u32)

text \<open>The derived ordering: the wall time first, then the logical counter.\<close>

instantiation hlc :: linorder
begin

definition less_eq_hlc :: "hlc \<Rightarrow> hlc \<Rightarrow> bool" where
  "less_eq_hlc a b \<longleftrightarrow> (wall_ms a, logical a) \<le> (wall_ms b, logical b)"

definition less_hlc :: "hlc \<Rightarrow> hlc \<Rightarrow> bool" where
  "less_hlc a b \<longleftrightarrow> (wall_ms a, logical a) < (wall_ms b, logical b)"

instance
  by standard (auto simp: less_eq_hlc_def less_hlc_def intro: hlc.expand)

end

definition hlc_default :: hlc where
  "hlc_default = Hlc 0 0"

text \<open>
  \<open>Hlc::tick\<close>. The addition \<open>self.wall_ms + 1\<close> is the code's only unchecked one: it wraps in a
  release build (a debug build panics there).
\<close>

definition tick :: "hlc \<Rightarrow> u64 \<Rightarrow> hlc" where
  "tick h now_ms =
     (if wall_ms h < now_ms then Hlc now_ms 0
      else if logical h = - 1 then Hlc (wall_ms h + 1) 0
      else Hlc (wall_ms h) (logical h + 1))"

definition observe :: "hlc \<Rightarrow> hlc \<Rightarrow> u64 \<Rightarrow> hlc" where
  "observe h remote now_ms =
     (let cap = sat_add now_ms MAX_DRIFT_MS;
          remote = (if cap < wall_ms remote then Hlc cap 0 else remote)
      in max h remote)"

text \<open>The last value of the clock, the only one a tick does not move past.\<close>

definition hlc_last :: hlc where
  "hlc_last = Hlc (- 1) (- 1)"

lemma less_tick: "h \<noteq> hlc_last \<Longrightarrow> h < tick h now_ms"
  by (cases h) (auto simp: tick_def less_hlc_def hlc_last_def word_less_Suc not_less)

lemma tick_at_last: "tick hlc_last now_ms = hlc_default"
  by (simp add: tick_def hlc_last_def hlc_default_def word_not_simps)

lemma now_le_tick: "h \<noteq> hlc_last \<Longrightarrow> now_ms \<le> wall_ms (tick h now_ms)"
proof (cases h)
  case (Hlc w l)
  assume "h \<noteq> hlc_last"
  with Hlc have "l = - 1 \<Longrightarrow> w \<noteq> - 1" by (auto simp: hlc_last_def)
  with Hlc show ?thesis
    by (auto simp: tick_def not_less dest!: word_less_Suc intro: order_trans less_imp_le)
qed

lemma le_observe: "h \<le> observe h remote now_ms"
  by (simp add: observe_def Let_def)

lemma observe_capped:
  "wall_ms (observe h remote now_ms) \<le> max (wall_ms h) (sat_add now_ms MAX_DRIFT_MS)"
  by (auto simp: observe_def Let_def max_def not_less less_eq_hlc_def)

lemma observe_takes:
  "wall_ms remote \<le> sat_add now_ms MAX_DRIFT_MS \<Longrightarrow> remote \<le> observe h remote now_ms"
  by (auto simp: observe_def Let_def not_less)

section \<open>Properties\<close>

text \<open>
  C6: The clock is monotone, except at its last value. Short of that, a tick is later than the clock it ticks and
  not behind the local time. At the last value a release build falls back to the first, although \<open>tick\<close> is
  documented to be strictly greater always (a debug build panics). Observing never moves the clock back, never
  past the local time by more than the drift allowed (unless it was already), and takes a remote value
  within the drift.
\<close>

theorem clock_monotone:
  "(h \<noteq> hlc_last \<longrightarrow> h < tick h now \<and> now \<le> wall_ms (tick h now)) \<and>
   tick hlc_last now = hlc_default \<and>
   h \<le> observe h remote now \<and>
   wall_ms (observe h remote now) \<le> max (wall_ms h) (sat_add now MAX_DRIFT_MS) \<and>
   (wall_ms remote \<le> sat_add now MAX_DRIFT_MS \<longrightarrow> remote \<le> observe h remote now)"
  using less_tick now_le_tick tick_at_last le_observe observe_capped observe_takes by blast

theorem clock_monotone_witness:
  "Hlc 5 (- 1) < tick (Hlc 5 (- 1)) 3 \<and> Hlc 9 2 \<le> observe (Hlc 5 0) (Hlc 9 2) 4"
proof -
  have "Hlc 5 (- 1) \<noteq> hlc_last" by (simp add: hlc_last_def)
  moreover have "wall_ms (Hlc 9 2) \<le> sat_add 4 MAX_DRIFT_MS" by code_simp
  ultimately show ?thesis
    using clock_monotone [of "Hlc 5 (- 1)" 3 hlc_default] clock_monotone [of "Hlc 5 0" 4 "Hlc 9 2"]
    by blast
qed

end
