(* ===== verification/ContentHash.thy ===== *)
theory ContentHash
  imports Prelude
begin

text \<open>
  Content addressing (\<open>sapphire-framework-sync/src/hash.rs\<close>). SHA-256 belongs to a crate that is
  not part of the sources: the digest is the parameter \<open>sha\<close>, and a streaming hasher is the bytes
  it was fed, which is what the crate documents it to be. A hash is its 32 bytes.
\<close>

type_synonym content_hash = bytes

definition HASH_LEN :: nat where
  "HASH_LEN = 32"

section \<open>Hashing\<close>

definition of_bytes :: "(bytes \<Rightarrow> content_hash) \<Rightarrow> bytes \<Rightarrow> content_hash" where
  "of_bytes sha bs = sha bs"

text \<open>\<open>ContentHasher\<close>.\<close>

type_synonym hasher = bytes

definition hasher_new :: hasher where
  "hasher_new = []"

definition hasher_update :: "hasher \<Rightarrow> bytes \<Rightarrow> hasher" where
  "hasher_update h bs = h @ bs"

definition hasher_finish :: "(bytes \<Rightarrow> content_hash) \<Rightarrow> hasher \<Rightarrow> content_hash" where
  "hasher_finish sha h = sha h"

text \<open>
  \<open>ContentHash::of_file\<close>: read buffers until an empty read. The reader returns at most the buffer's
  64 KiB and may return less; \<open>sizes\<close> is how much each read gave, cut to what is left, and a read
  of a non-empty rest returns at least one byte. When \<open>sizes\<close> runs out the rest comes in full
  buffers.
\<close>

definition READ_BUF :: nat where
  "READ_BUF = 64 * 1024"

lemma READ_BUF_pos [simp]: "0 < READ_BUF"
  by (simp add: READ_BUF_def)

function of_file_loop :: "nat list \<Rightarrow> bytes \<Rightarrow> hasher \<Rightarrow> hasher" where
  "of_file_loop sizes rest h =
     (let n = (case sizes of [] \<Rightarrow> READ_BUF | k # _ \<Rightarrow> min READ_BUF (max 1 k)) in
      if rest = [] then h
      else of_file_loop (tl sizes) (drop n rest) (hasher_update h (take n rest)))"
  by pat_completeness auto
termination
  by (relation "measure (\<lambda>(sizes, rest, h). length rest)") (auto split: list.splits)

declare of_file_loop.simps [simp del]

definition of_file :: "(bytes \<Rightarrow> content_hash) \<Rightarrow> nat list \<Rightarrow> bytes \<Rightarrow> content_hash" where
  "of_file sha sizes content = hasher_finish sha (of_file_loop sizes content hasher_new)"

lemma of_file_loop: "of_file_loop sizes rest h = h @ rest"
proof (induction sizes rest h rule: of_file_loop.induct)
  case (1 sizes rest h)
  show ?case
  proof (cases "rest = []")
    case True
    then show ?thesis by (simp add: of_file_loop.simps [of sizes "[]"])
  next
    case False
    with "1" show ?thesis
      by (simp add: of_file_loop.simps [of sizes rest] hasher_update_def Let_def)
  qed
qed

lemma of_file_of_bytes: "of_file sha sizes content = of_bytes sha content"
  by (simp add: of_file_def of_file_loop hasher_finish_def hasher_new_def of_bytes_def)

section \<open>The hexadecimal form\<close>

definition hex_digit :: "nat \<Rightarrow> char" where
  "hex_digit d = char_of (if d < 10 then 48 + d else 87 + d)"

definition hex_byte :: "u8 \<Rightarrow> string" where
  "hex_byte b = [hex_digit (unat b div 16), hex_digit (unat b mod 16)]"

definition to_hex :: "content_hash \<Rightarrow> string" where
  "to_hex h = concat (map hex_byte h)"

text \<open>\<open>char::to_digit(16)\<close>.\<close>

definition hex_val :: "char \<Rightarrow> nat option" where
  "hex_val c =
     (let n = (of_char c :: nat) in
      if 48 \<le> n \<and> n \<le> 57 then Some (n - 48)
      else if 65 \<le> n \<and> n \<le> 70 then Some (n - 55)
      else if 97 \<le> n \<and> n \<le> 102 then Some (n - 87)
      else None)"

fun hex_digits :: "nat \<Rightarrow> string \<Rightarrow> nat option" where
  "hex_digits acc [] = Some acc"
| "hex_digits acc (c # cs) =
     (case hex_val c of None \<Rightarrow> None | Some d \<Rightarrow> hex_digits (16 * acc + d) cs)"

text \<open>
  \<open>u8::from_str_radix(_, 16)\<close> of the standard library: a single leading \<open>+\<close> is skipped when a
  digit follows, and a value over 255 is an error.
\<close>

definition u8_from_str_radix16 :: "string \<Rightarrow> u8 option" where
  "u8_from_str_radix16 s =
     (let digits = (case s of
          [] \<Rightarrow> None
        | [c] \<Rightarrow> if c = CHR ''+'' \<or> c = CHR ''-'' then None else hex_digits 0 [c]
        | c # cs \<Rightarrow> if c = CHR ''+'' then hex_digits 0 cs else hex_digits 0 (c # cs))
      in case digits of None \<Rightarrow> None
         | Some n \<Rightarrow> if n \<le> 255 then Some (word_of_nat n) else None)"

fun parse_pairs :: "string \<Rightarrow> bytes option" where
  "parse_pairs [] = Some []"
| "parse_pairs [c] = None"
| "parse_pairs (c # d # cs) =
     (case u8_from_str_radix16 [c, d] of
        None \<Rightarrow> None
      | Some b \<Rightarrow> (case parse_pairs cs of None \<Rightarrow> None | Some bs \<Rightarrow> Some (b # bs)))"

text \<open>\<open>FromStr for ContentHash\<close>; \<open>None\<close> is \<open>ParseHashError\<close>.\<close>

definition hash_from_str :: "string \<Rightarrow> content_hash option" where
  "hash_from_str s = (if length s \<noteq> 64 then None else parse_pairs s)"

lemma hex_val_digit: "d < 16 \<Longrightarrow> hex_val (hex_digit d) = Some d"
  by (auto simp: hex_val_def hex_digit_def Let_def)

lemma hex_digit_not_sign: "d < 16 \<Longrightarrow> hex_digit d \<noteq> CHR ''+''"
proof
  assume "d < 16" "hex_digit d = CHR ''+''"
  then have "hex_val (hex_digit d) = None" by (simp add: hex_val_def)
  with hex_val_digit [OF \<open>d < 16\<close>] show False by simp
qed

lemma parse_hex_byte: "u8_from_str_radix16 (hex_byte b) = Some b"
proof -
  have "unat b < 256" using unat_bound [of b] by simp
  then show ?thesis
    by (simp add: u8_from_str_radix16_def hex_byte_def hex_val_digit hex_digit_not_sign)
qed

lemma parse_pairs_to_hex: "parse_pairs (to_hex h) = Some h"
proof (induction h)
  case Nil
  then show ?case by (simp add: to_hex_def)
next
  case (Cons b h)
  have "to_hex (b # h) = hex_digit (unat b div 16) # hex_digit (unat b mod 16) # to_hex h"
    by (simp add: to_hex_def hex_byte_def)
  with Cons parse_hex_byte [of b] show ?case by (simp add: hex_byte_def)
qed

lemma length_to_hex [simp]: "length (to_hex h) = 2 * length h"
  by (induction h) (auto simp: to_hex_def hex_byte_def)

lemma from_str_to_hex: "length h = HASH_LEN \<Longrightarrow> hash_from_str (to_hex h) = Some h"
  by (simp add: hash_from_str_def HASH_LEN_def parse_pairs_to_hex)

lemma length_parse_pairs: "parse_pairs s = Some h \<Longrightarrow> length s = 2 * length h"
  by (induction s arbitrary: h rule: parse_pairs.induct) (auto split: option.splits)

lemma length_from_str: "hash_from_str s = Some h \<Longrightarrow> length h = HASH_LEN"
  by (auto simp: hash_from_str_def HASH_LEN_def dest: length_parse_pairs split: if_splits)

lemma to_hex_inj: "to_hex g = to_hex h \<longleftrightarrow> g = h"
  by (metis parse_pairs_to_hex option.inject)

section \<open>Properties\<close>

text \<open>
  The hash of a file is the hash of its bytes whatever the sizes of the reads, and printing a
  hash and parsing it gives it back; whatever parses has the length of a hash.
\<close>

theorem hash_correct:
  "of_file sha sizes content = of_bytes sha content \<and>
   (length h = HASH_LEN \<longrightarrow> hash_from_str (to_hex h) = Some h) \<and>
   (hash_from_str s = Some g \<longrightarrow> length g = HASH_LEN)"
  by (simp add: of_file_of_bytes from_str_to_hex length_from_str)

theorem hash_correct_witness:
  "hash_from_str (to_hex (replicate 32 0xAB)) = Some (replicate 32 0xAB) \<and>
   length (the (hash_from_str (replicate 64 CHR ''0''))) = HASH_LEN"
proof -
  have "hash_from_str (replicate 64 CHR ''0'') = Some (replicate 32 0)" by code_simp
  then show ?thesis
    using hash_correct [of _ _ _ "replicate 32 0xAB" "replicate 64 CHR ''0''" "replicate 32 0"]
    by (simp add: HASH_LEN_def)
qed

text \<open>
  The parser of a hash accepts more than 64 hexadecimal digits, which its error excludes: every
  pair may be a plus sign and one digit. Two such strings name the same hash.
\<close>

theorem hash_from_str_accepts_signs:
  "hash_from_str (concat (replicate 32 ''+f'')) = Some (replicate 32 15) \<and>
   hash_from_str (concat (replicate 32 ''0F'')) = Some (replicate 32 15)"
  by code_simp

end
