(* ===== verification/Merge.thy ===== *)
theory Merge
  imports VersionVector Hlc ContentHash
begin

text \<open>
  Versions of a path, the join of two path states and the choice of the winner
  (\<open>sapphire-framework-sync/src/entry.rs\<close>, \<open>merge.rs\<close>).
\<close>

section \<open>Versions\<close>

text \<open>What a version holds. The length is a byte count.\<close>

datatype content = File content_hash u64 | Tombstone

definition content_hash_of :: "content \<Rightarrow> content_hash option" where
  "content_hash_of c = (case c of File h _ \<Rightarrow> Some h | Tombstone \<Rightarrow> None)"

definition is_tombstone :: "content \<Rightarrow> bool" where
  "is_tombstone c \<longleftrightarrow> (case c of File _ _ \<Rightarrow> False | Tombstone \<Rightarrow> True)"

record entry =
  e_path :: string
  e_content :: content
  e_hlc :: hlc
  e_dot :: dot
  e_context :: version_vector
  e_author :: grain_id

record path_update =
  u_path :: string
  u_versions :: "entry list"
  u_seen :: version_vector

lemma is_tombstone_iff [simp]: "is_tombstone c \<longleftrightarrow> content_hash_of c = None"
  by (cases c) (auto simp: is_tombstone_def content_hash_of_def)

section \<open>The winner\<close>

definition winner_key :: "entry \<Rightarrow> bool \<times> hlc \<times> replica_id \<times> u64" where
  "winner_key e =
     (\<not> is_tombstone (e_content e), e_hlc e, replica (e_dot e), counter (e_dot e))"

text \<open>\<open>winner\<close>; \<open>None\<close> is the panic of the \<open>expect\<close>.\<close>

definition winner :: "entry list \<Rightarrow> entry option" where
  "winner versions = max_by_key winner_key versions"

lemma winner_None [simp]: "winner vs = None \<longleftrightarrow> vs = []"
  by (simp add: winner_def)

lemma winner_in: "winner vs = Some w \<Longrightarrow> w \<in> set vs"
  by (auto simp: winner_def dest: max_by_key_Some)

lemma winner_max: "\<lbrakk>winner vs = Some w; v \<in> set vs\<rbrakk> \<Longrightarrow> winner_key v \<le> winner_key w"
  by (auto simp: winner_def dest: max_by_key_Some)

lemma winner_key_dot: "winner_key a = winner_key b \<Longrightarrow> e_dot a = e_dot b"
  by (auto simp: winner_key_def intro: dot.expand)

section \<open>The join\<close>

definition has_dot :: "entry list \<Rightarrow> dot \<Rightarrow> bool" where
  "has_dot vs d \<longleftrightarrow> list_ex (\<lambda>v. e_dot v = d) vs"

text \<open>The loop over the incoming versions.\<close>

fun push_incoming :: "entry list \<Rightarrow> version_vector \<Rightarrow> entry list \<Rightarrow> entry list \<Rightarrow> entry list" where
  "push_incoming local local_seen [] versions = versions"
| "push_incoming local local_seen (e # es) versions =
     (let keep = \<not> covers_dot local_seen (e_dot e) \<or> has_dot local (e_dot e) in
      push_incoming local local_seen es
        (if keep \<and> \<not> has_dot versions (e_dot e) then versions @ [e] else versions))"

definition join :: "(entry list \<times> version_vector) option \<Rightarrow> entry list \<Rightarrow> version_vector
    \<Rightarrow> (entry list \<times> version_vector) option" where
  "join local incoming incoming_seen =
     (if incoming = [] \<and> (case local of None \<Rightarrow> True | Some (versions, _) \<Rightarrow> versions = []) then None
      else case local of
        None \<Rightarrow> Some (sort_key e_dot incoming, incoming_seen)
      | Some (local, local_seen) \<Rightarrow>
          let versions = filter (\<lambda>e. \<not> covers_dot incoming_seen (e_dot e) \<or> has_dot incoming (e_dot e)) local;
              versions = push_incoming local local_seen incoming versions;
              versions = sort_key e_dot versions;
              seen = vv_merge local_seen incoming_seen
          in if versions = [] then None
             else if versions = local \<and> seen = local_seen then None
             else Some (versions, seen))"

text \<open>
  What \<open>Replica::join\<close> leaves as the versions of a path: the joined ones, or what was stored (if
  anything was) when the join brought nothing. \<open>merge_state\<close> is the same for a path that has a state.
\<close>

type_synonym siblings = "entry list \<times> version_vector"

definition receive :: "siblings option \<Rightarrow> siblings \<Rightarrow> siblings option" where
  "receive old t = (case join old (fst t) (snd t) of None \<Rightarrow> old | Some r \<Rightarrow> Some r)"

definition merge_state :: "siblings \<Rightarrow> siblings \<Rightarrow> siblings" where
  "merge_state s t = (case join (Some s) (fst t) (snd t) of None \<Rightarrow> s | Some r \<Rightarrow> r)"

definition needs_copy :: "entry \<Rightarrow> entry \<Rightarrow> bool" where
  "needs_copy loser w \<longleftrightarrow>
     \<not> is_tombstone (e_content loser) \<and> content_hash_of (e_content loser) \<noteq> content_hash_of (e_content w)"

text \<open>
  The name of a conflict copy. \<open>shown\<close> prints the grain-id of a replica, which the grain-id crate
  does.
\<close>

definition tagged_name :: "string \<Rightarrow> string \<Rightarrow> string" where
  "tagged_name name tag =
     (case rsplit_at CHR ''.'' name of
        Some (stem, ext) \<Rightarrow>
          if stem \<noteq> '''' then stem @ ''.'' @ tag @ ''.'' @ ext else name @ ''.'' @ tag
      | None \<Rightarrow> name @ ''.'' @ tag)"

definition conflict_path :: "(replica_id \<Rightarrow> string) \<Rightarrow> string \<Rightarrow> dot \<Rightarrow> string" where
  "conflict_path shown path loser =
     (let (dir, name) = (case rsplit_at CHR ''/'' path of
                           Some (l, r) \<Rightarrow> (l @ ''/'', r)
                         | None \<Rightarrow> ('''', path));
          tag = ''conflict-'' @ shown (replica loser) @ ''-'' @ show_nat (unat (counter loser))
      in dir @ tagged_name name tag)"

section \<open>What the join computes\<close>

definition dots :: "entry list \<Rightarrow> dot set" where
  "dots vs = e_dot ` set vs"

lemma has_dot_iff [simp]: "has_dot vs d \<longleftrightarrow> d \<in> dots vs"
  by (auto simp: has_dot_def dots_def list_ex_iff)

lemma dots_simps [simp]:
  "dots [] = {}" "dots (v # vs) = insert (e_dot v) (dots vs)" "dots (vs @ ws) = dots vs \<union> dots ws"
  by (auto simp: dots_def)

lemma finite_dots [simp]: "finite (dots vs)"
  by (simp add: dots_def)

lemma dots_empty [simp]: "dots vs = {} \<longleftrightarrow> vs = []"
  by (simp add: dots_def)

lemma dots_filterD: "d \<in> dots (filter P vs) \<Longrightarrow> d \<in> dots vs"
  by (auto simp: dots_def)

lemma push_incoming_filter:
  assumes "distinct (map e_dot inc)"
  shows "push_incoming local ls inc vs = vs @
    filter (\<lambda>e. (\<not> covers_dot ls (e_dot e) \<or> e_dot e \<in> dots local) \<and> e_dot e \<notin> dots vs) inc"
  using assms
proof (induction inc arbitrary: vs)
  case Nil
  then show ?case by simp
next
  case (Cons e inc)
  have "filter (\<lambda>x. P x \<and> e_dot x \<notin> dots (vs @ [e])) inc = filter (\<lambda>x. P x \<and> e_dot x \<notin> dots vs) inc" for P
    using Cons.prems by (auto intro!: filter_cong) (metis image_eqI)
  with Cons show ?case by (simp add: Let_def)
qed

text \<open>A list of versions in the stored form: strictly sorted by dot.\<close>

definition canonical :: "entry list \<Rightarrow> bool" where
  "canonical vs \<longleftrightarrow> sorted_wrt (<) (map e_dot vs)"

lemma canonical_iff: "canonical vs \<longleftrightarrow> sorted (map e_dot vs) \<and> distinct (map e_dot vs)"
  by (auto simp: canonical_def strict_sorted_iff)

lemma canonical_unique:
  assumes "canonical vs" "canonical ws" "set vs = set ws"
  shows "vs = ws"
  using assms by (intro map_sorted_distinct_set_unique [of e_dot]) (auto simp: canonical_iff distinct_map)

text \<open>The sibling set the join computes before its guards.\<close>

definition joined_versions :: "entry list \<Rightarrow> version_vector \<Rightarrow> entry list \<Rightarrow> version_vector \<Rightarrow> entry list" where
  "joined_versions local ls inc is = sort_key e_dot (push_incoming local ls inc
     (filter (\<lambda>e. \<not> covers_dot is (e_dot e) \<or> has_dot inc (e_dot e)) local))"

lemma join_Some_iff:
  "join (Some (local, ls)) inc is =
     (let vs = joined_versions local ls inc is; seen = vv_merge ls is in
      if vs = [] \<or> vs = local \<and> seen = ls then None else Some (vs, seen))"
  by (auto simp: join_def joined_versions_def Let_def)

text \<open>Versions of one history: a dot names one version.\<close>

definition consistent :: "entry set \<Rightarrow> bool" where
  "consistent H \<longleftrightarrow> inj_on e_dot H"

lemma set_joined_versions:
  assumes H: "consistent H" "set local \<subseteq> H" "set inc \<subseteq> H" and d: "distinct (map e_dot inc)"
  shows "set (joined_versions local ls inc is) =
    {e \<in> set local \<union> set inc. e_dot e \<in> live_join covers_dot (dots local) ls (dots inc) is}"
proof -
  have mem: "e \<in> set vs \<longleftrightarrow> e_dot e \<in> dots vs"
    if "e \<in> set local \<union> set inc" "set vs \<subseteq> H" for e vs
    using that H inj_on_image_mem_iff [of e_dot H e "set vs"] by (auto simp: consistent_def dots_def)
  show ?thesis
  proof (rule set_eqI)
    fix e
    show "e \<in> set (joined_versions local ls inc is) \<longleftrightarrow>
      e \<in> {e \<in> set local \<union> set inc. e_dot e \<in> live_join covers_dot (dots local) ls (dots inc) is}"
    proof (cases "e \<in> set local \<union> set inc")
      case True
      let ?kept = "filter (\<lambda>e. \<not> covers_dot is (e_dot e) \<or> e_dot e \<in> dots inc) local"
      note el = mem [OF True H(2)] and ei = mem [OF True H(3)]
      from H(2) have "set ?kept \<subseteq> H" by auto
      note ek = mem [OF True this]
      show ?thesis
        using True el ei by (auto simp: joined_versions_def push_incoming_filter [OF d] live_join_def ek [symmetric]
            dest: dots_filterD)
    next
      case False
      then show ?thesis by (auto simp: joined_versions_def push_incoming_filter [OF d])
    qed
  qed
qed

lemma distinct_append_new:
  "\<lbrakk>distinct (map e_dot vs); distinct (map e_dot inc)\<rbrakk> \<Longrightarrow>
   distinct (map e_dot (vs @ filter (\<lambda>e. P e \<and> e_dot e \<notin> dots vs) inc))"
  by (auto simp: distinct_map_filter dots_def) (metis image_eqI)

lemma canonical_joined_versions:
  assumes "distinct (map e_dot local)" "distinct (map e_dot inc)"
  shows "canonical (joined_versions local ls inc is)"
proof -
  have "distinct (map e_dot (push_incoming local ls inc
      (filter (\<lambda>e. \<not> covers_dot is (e_dot e) \<or> e_dot e \<in> dots inc) local)))"
    using assms by (auto simp only: push_incoming_filter distinct_map_filter intro!: distinct_append_new)
  then show ?thesis
    by (simp add: canonical_iff joined_versions_def distinct_map)
qed

lemma dots_joined_versions:
  assumes "consistent H" "set local \<subseteq> H" "set inc \<subseteq> H" "distinct (map e_dot inc)"
  shows "dots (joined_versions local ls inc is) = live_join covers_dot (dots local) ls (dots inc) is"
  using set_joined_versions [OF assms] unfolding dots_def by (auto simp: live_join_def)

section \<open>Properties\<close>

text \<open>
  C4: The join is the join of the specification. For two sides of one history whose versions carry
  distinct dots it reports a change exactly when the joined state is neither empty nor what is
  stored, and then leaves, strictly sorted by dot, exactly the versions of either side that the
  other side has not covered without holding them, and the merged version vector.
\<close>

theorem join_correct:
  assumes "consistent H" "set local \<subseteq> H" "set inc \<subseteq> H"
    "distinct (map e_dot local)" "distinct (map e_dot inc)"
  shows "case join (Some (local, ls)) inc is of
      Some (vs, seen) \<Rightarrow> canonical vs \<and> seen = vv_merge ls is \<and> (vs \<noteq> local \<or> seen \<noteq> ls) \<and>
        vs \<noteq> [] \<and> set vs = {e \<in> set local \<union> set inc.
          (e \<in> set local \<and> (\<not> covers_dot is (e_dot e) \<or> e_dot e \<in> dots inc)) \<or>
          (e \<in> set inc \<and> (\<not> covers_dot ls (e_dot e) \<or> e_dot e \<in> dots local))}
    | None \<Rightarrow> live_join covers_dot (dots local) ls (dots inc) is = {} \<or>
        vv_merge ls is = ls \<and> live_join covers_dot (dots local) ls (dots inc) is = dots local"
proof -
  let ?vs = "joined_versions local ls inc is"
  note S = set_joined_versions [OF assms(1-3,5), of ls "is"]
    and D = dots_joined_versions [OF assms(1-3,5), of ls "is"]
  have mem: "e_dot e \<in> dots vs \<longleftrightarrow> e \<in> set vs" if "e \<in> H" "set vs \<subseteq> H" for e vs
    using that assms(1) inj_on_image_mem_iff [of e_dot H e "set vs"] by (auto simp: consistent_def dots_def)
  have "set ?vs = {e \<in> set local \<union> set inc.
      (e \<in> set local \<and> (\<not> covers_dot is (e_dot e) \<or> e_dot e \<in> dots inc)) \<or>
      (e \<in> set inc \<and> (\<not> covers_dot ls (e_dot e) \<or> e_dot e \<in> dots local))}"
    unfolding S live_join_def using assms(2,3) mem by blast
  moreover have "canonical ?vs" by (rule canonical_joined_versions [OF assms(4,5)])
  ultimately show ?thesis
    using D by (auto simp: join_Some_iff Let_def)
qed

definition ex_entry :: "replica_id \<Rightarrow> u64 \<Rightarrow> content \<Rightarrow> u64 \<Rightarrow> entry" where
  "ex_entry r n c w = \<lparr>e_path = ''a'', e_content = c, e_hlc = Hlc w 0, e_dot = Dot r n,
     e_context = vv_new, e_author = 0\<rparr>"

theorem join_correct_witness:
  "join (Some ([ex_entry 1 1 Tombstone 3], add_dot (Dot 1 1) vv_new))
     [ex_entry 2 1 Tombstone 4] (add_dot (Dot 2 1) vv_new) =
   Some ([ex_entry 1 1 Tombstone 3, ex_entry 2 1 Tombstone 4], add_dot (Dot 2 1) (add_dot (Dot 1 1) vv_new)) \<and>
   canonical [ex_entry 1 1 Tombstone 3, ex_entry 2 1 Tombstone 4]"
proof -
  have j: "join (Some ([ex_entry 1 1 Tombstone 3], add_dot (Dot 1 1) vv_new))
     [ex_entry 2 1 Tombstone 4] (add_dot (Dot 2 1) vv_new) =
   Some ([ex_entry 1 1 Tombstone 3, ex_entry 2 1 Tombstone 4], add_dot (Dot 2 1) (add_dot (Dot 1 1) vv_new))"
    by code_simp
  have "consistent {ex_entry 1 1 Tombstone 3, ex_entry 2 1 Tombstone 4}"
    by (simp add: consistent_def ex_entry_def)
  then have "case Some ([ex_entry 1 1 Tombstone 3, ex_entry 2 1 Tombstone 4],
      add_dot (Dot 2 1) (add_dot (Dot 1 1) vv_new)) of Some (vs, seen) \<Rightarrow> canonical vs | None \<Rightarrow> True"
    using join_correct [of "{ex_entry 1 1 Tombstone 3, ex_entry 2 1 Tombstone 4}"
        "[ex_entry 1 1 Tombstone 3]" "[ex_entry 2 1 Tombstone 4]"
        "add_dot (Dot 1 1) vv_new" "add_dot (Dot 2 1) vv_new", unfolded j] by simp
  with j show ?thesis by simp
qed

text \<open>
  C5: The winner is a function of the set of versions: two replicas holding the same versions with
  distinct dots, in whatever order, pick the same one. It is a held version, a file whenever any
  version is a file, and among versions of its kind one with the largest clock.
\<close>

theorem winner_canonical:
  assumes "set vs = set ws" "inj_on e_dot (set vs)" "vs \<noteq> []"
  shows "\<exists>w. winner vs = Some w \<and> winner ws = Some w \<and> w \<in> set vs \<and>
    (\<forall>v \<in> set vs. (is_tombstone (e_content w) \<longrightarrow> is_tombstone (e_content v)) \<and>
      (is_tombstone (e_content v) = is_tombstone (e_content w) \<longrightarrow> e_hlc v \<le> e_hlc w))"
proof -
  have inj: "inj_on winner_key (set vs)"
    using assms(2) by (auto simp: inj_on_def dest!: winner_key_dot)
  obtain w where w: "winner vs = Some w" using assms(3) by fastforce
  moreover have "winner ws = Some w"
    using max_by_key_set [OF assms(1) inj] w by (simp add: winner_def)
  moreover have "\<forall>v \<in> set vs. (is_tombstone (e_content w) \<longrightarrow> is_tombstone (e_content v)) \<and>
      (is_tombstone (e_content v) = is_tombstone (e_content w) \<longrightarrow> e_hlc v \<le> e_hlc w)"
    using winner_max [OF w] by (fastforce simp: winner_key_def)
  ultimately show ?thesis using winner_in [OF w] by blast
qed

theorem winner_canonical_witness:
  "winner [ex_entry 1 1 (File [1] 1) 3, ex_entry 2 1 Tombstone 4] =
   winner [ex_entry 2 1 Tombstone 4, ex_entry 1 1 (File [1] 1) 3]"
proof -
  let ?vs = "[ex_entry 1 1 (File [1] 1) 3, ex_entry 2 1 Tombstone 4]"
  have "set ?vs = set (rev ?vs)" "inj_on e_dot (set ?vs)" "?vs \<noteq> []" by (auto simp: ex_entry_def)
  from winner_canonical [OF this] show ?thesis by auto
qed

end
