(* ===== verification/Convergence.thy ===== *)
theory Convergence
  imports Merge
begin

text \<open>
  Strong eventual consistency of the versions of one path: whatever order, repetition and delay the
  path states travel with, a replica's siblings are a function of the writes it has covered. The
  steps use \<open>join\<close> of \<open>merge.rs\<close> the way \<open>Replica::join\<close> and \<open>reconcile_path\<close> of \<open>replica.rs\<close> call it.
\<close>

section \<open>A join on a set of states\<close>

locale join_on =
  fixes m :: "'s \<Rightarrow> 's \<Rightarrow> 's" and ok :: "'s \<Rightarrow> bool"
  assumes closed: "\<lbrakk>ok s; ok t\<rbrakk> \<Longrightarrow> ok (m s t)"
    and comm: "\<lbrakk>ok s; ok t\<rbrakk> \<Longrightarrow> m s t = m t s"
    and assoc: "\<lbrakk>ok s; ok t; ok u\<rbrakk> \<Longrightarrow> m (m s t) u = m s (m t u)"
    and idem: "ok s \<Longrightarrow> m s s = s"

context join_on
begin

lemma foldl_ok: "\<lbrakk>ok s; \<forall>t \<in> set ts. ok t\<rbrakk> \<Longrightarrow> ok (foldl m s ts)"
  by (induction ts arbitrary: s) (auto simp: closed)

lemma swap: "\<lbrakk>ok s; ok t; ok u\<rbrakk> \<Longrightarrow> m (m s t) u = m (m s u) t"
  by (metis assoc comm)

lemma foldl_step: "\<lbrakk>ok s; ok t; \<forall>u \<in> set us. ok u\<rbrakk> \<Longrightarrow> foldl m (m s t) us = m (foldl m s us) t"
proof (induction us arbitrary: s)
  case Nil
  then show ?case by simp
next
  case (Cons u us)
  then show ?case by (simp add: swap [of s t u] closed)
qed

lemma foldl_absorb: "\<lbrakk>ok s; \<forall>u \<in> set us. ok u; t \<in> set us\<rbrakk> \<Longrightarrow> m (foldl m s us) t = foldl m s us"
proof (induction us arbitrary: s)
  case Nil
  then show ?case by simp
next
  case (Cons u us)
  show ?case
  proof (cases "t \<in> set us")
    case True
    with Cons show ?thesis by (simp add: closed)
  next
    case False
    with Cons.prems have [simp]: "t = u" by simp
    have "m (m s u) u = m s u" using Cons.prems by (simp add: assoc idem)
    with Cons.prems foldl_step [of "m s u" u us] show ?thesis by (simp add: closed)
  qed
qed

lemma foldl_absorb_all:
  "\<lbrakk>ok s; \<forall>u \<in> set us. ok u; set ts \<subseteq> set us\<rbrakk> \<Longrightarrow> foldl m (foldl m s us) ts = foldl m s us"
  by (induction ts) (auto simp: foldl_absorb)

lemma foldl_swap:
  "\<lbrakk>ok s; \<forall>t \<in> set ts. ok t; \<forall>u \<in> set us. ok u\<rbrakk> \<Longrightarrow> foldl m (foldl m s ts) us = foldl m (foldl m s us) ts"
proof (induction ts arbitrary: s)
  case Nil
  then show ?case by simp
next
  case (Cons t ts)
  have "foldl m (foldl m (m s t) ts) us = foldl m (foldl m (m s t) us) ts"
    using Cons by (simp add: closed)
  also have "foldl m (m s t) us = m (foldl m s us) t"
    using Cons.prems foldl_step [of s t us] by simp
  finally show ?case by simp
qed

text \<open>Two deliveries of the same states, in any order and any number of times, end the same.\<close>

lemma foldl_set_eq:
  assumes "ok s" "\<forall>t \<in> set ts. ok t" "set ts = set us"
  shows "foldl m s ts = foldl m s us"
proof -
  have us: "\<forall>u \<in> set us. ok u" using assms by auto
  have "foldl m s ts = foldl m (foldl m s ts) us"
    using foldl_absorb_all [of s ts us] assms by simp
  also have "\<dots> = foldl m (foldl m s us) ts"
    using foldl_swap assms(1,2) us by blast
  also have "\<dots> = foldl m s us"
    using foldl_absorb_all [of s us ts] assms us by simp
  finally show ?thesis .
qed

end

section \<open>States generated by a history of writes\<close>

text \<open>
  What a write is delivered with: its context and its own dot. A write supersedes every other
  write this covers. Own earlier dots of the writer are always covered, whatever the context says.
\<close>

definition past :: "entry \<Rightarrow> version_vector" where
  "past e = add_dot (e_dot e) (e_context e)"

text \<open>
  A history lists the writes of one path in the order they were made. Dots are unique, counters
  start at 1, and a write only covers writes made before it.
\<close>

definition history_ok :: "entry list \<Rightarrow> bool" where
  "history_ok hs \<longleftrightarrow> distinct (map e_dot hs) \<and> (\<forall>e \<in> set hs. 0 < counter (e_dot e)) \<and>
     (\<forall>i j. i < j \<and> j < length hs \<longrightarrow> \<not> covers_dot (past (hs ! i)) (e_dot (hs ! j)))"

definition superseded :: "entry list \<Rightarrow> version_vector \<Rightarrow> dot \<Rightarrow> bool" where
  "superseded hs seen d \<longleftrightarrow>
     (\<exists>e \<in> set hs. e_dot e \<noteq> d \<and> covers_dot seen (e_dot e) \<and> covers_dot (past e) d)"

text \<open>
  A generated state: it covers some write, with each write everything that write covers, and its
  versions are the covered writes that no covered write supersedes.
\<close>

definition generated :: "entry list \<Rightarrow> siblings \<Rightarrow> bool" where
  "generated hs s \<longleftrightarrow>
     canonical (fst s) \<and> set (fst s) \<subseteq> set hs \<and>
     (\<exists>e \<in> set hs. covers_dot (snd s) (e_dot e)) \<and>
     (\<forall>e \<in> set hs. covers_dot (snd s) (e_dot e) \<longrightarrow> covers (snd s) (past e)) \<and>
     dots (fst s) = {d \<in> dots hs. covers_dot (snd s) d \<and> \<not> superseded hs (snd s) d}"

lemma history_consistent: "history_ok hs \<Longrightarrow> consistent (set hs)"
  by (simp add: history_ok_def consistent_def distinct_map)

lemma canonical_dots_unique:
  assumes "consistent H" "canonical vs" "canonical ws" "set vs \<subseteq> H" "set ws \<subseteq> H" "dots vs = dots ws"
  shows "vs = ws"
proof (rule canonical_unique [OF assms(2,3)])
  show "set vs = set ws"
    using assms by (simp add: consistent_def dots_def inj_on_image_eq_iff)
qed

text \<open>The last covered write is live, so a generated state always has a version.\<close>

lemma generated_live:
  assumes H: "history_ok hs" and e: "e \<in> set hs" "covers_dot seen (e_dot e)"
  shows "\<exists>d \<in> dots hs. covers_dot seen d \<and> \<not> superseded hs seen d"
proof -
  let ?cov = "\<lambda>i. i < length hs \<and> covers_dot seen (e_dot (hs ! i))"
  define k where "k = Max {i. ?cov i}"
  have fin: "finite {i. ?cov i}" by simp
  have "{i. ?cov i} \<noteq> {}" using e by (auto simp: in_set_conv_nth)
  from Max_in [OF fin this] have k: "k < length hs" "covers_dot seen (e_dot (hs ! k))"
    by (auto simp: k_def)
  have "\<not> superseded hs seen (e_dot (hs ! k))"
  proof
    assume "superseded hs seen (e_dot (hs ! k))"
    then obtain j where j: "j < length hs" "e_dot (hs ! j) \<noteq> e_dot (hs ! k)"
      "covers_dot seen (e_dot (hs ! j))" "covers_dot (past (hs ! j)) (e_dot (hs ! k))"
      by (auto simp: superseded_def in_set_conv_nth)
    then have "j \<le> k" using Max_ge [OF fin, of j] by (auto simp: k_def)
    with j(2) have "j < k" by (cases "j = k") auto
    with H j(4) k(1) show False by (auto simp: history_ok_def)
  qed
  with k show ?thesis by (auto simp: dots_def)
qed

lemma generated_nonempty: "\<lbrakk>history_ok hs; generated hs s\<rbrakk> \<Longrightarrow> fst s \<noteq> []"
proof -
  assume H: "history_ok hs" and s: "generated hs s"
  then obtain e where "e \<in> set hs" "covers_dot (snd s) (e_dot e)" by (auto simp: generated_def)
  from generated_live [OF H this] s have "dots (fst s) \<noteq> {}" by (auto simp: generated_def)
  then show "fst s \<noteq> []" by auto
qed

lemma superseded_merge:
  "superseded hs (vv_merge a b) d \<longleftrightarrow> superseded hs a d \<or> superseded hs b d"
  by (auto simp: superseded_def covers_dot_merge)

lemma superseded_covered:
  assumes "\<forall>e \<in> set hs. covers_dot a (e_dot e) \<longrightarrow> covers a (past e)" "superseded hs a d"
  shows "covers_dot a d"
  using assms covers_dot_mono by (auto simp: superseded_def)

lemma generated_live_join:
  assumes s: "generated hs s" and t: "generated hs t"
  shows "live_join covers_dot (dots (fst s)) (snd s) (dots (fst t)) (snd t) =
    {d \<in> dots hs. covers_dot (vv_merge (snd s) (snd t)) d \<and> \<not> superseded hs (vv_merge (snd s) (snd t)) d}"
proof -
  have cl: "superseded hs (snd s) d \<Longrightarrow> covers_dot (snd s) d"
    "superseded hs (snd t) d \<Longrightarrow> covers_dot (snd t) d" for d
    using s t superseded_covered by (auto simp: generated_def)
  have V: "dots (fst s) = {d \<in> dots hs. covers_dot (snd s) d \<and> \<not> superseded hs (snd s) d}"
    and W: "dots (fst t) = {d \<in> dots hs. covers_dot (snd t) d \<and> \<not> superseded hs (snd t) d}"
    using s t by (auto simp: generated_def)
  show ?thesis
    unfolding live_join_def V W superseded_merge covers_dot_merge using cl by blast
qed

lemma generated_joined:
  assumes H: "history_ok hs" and s: "generated hs s" and t: "generated hs t"
  shows "generated hs (joined_versions (fst s) (snd s) (fst t) (snd t), vv_merge (snd s) (snd t))"
proof -
  note C = history_consistent [OF H]
  have sub: "set (fst s) \<subseteq> set hs" "set (fst t) \<subseteq> set hs"
    and d: "distinct (map e_dot (fst s))" "distinct (map e_dot (fst t))"
    and cl: "\<forall>e \<in> set hs. covers_dot (snd s) (e_dot e) \<longrightarrow> covers (snd s) (past e)"
      "\<forall>e \<in> set hs. covers_dot (snd t) (e_dot e) \<longrightarrow> covers (snd t) (past e)"
    and ex: "\<exists>e \<in> set hs. covers_dot (snd s) (e_dot e)"
    using s t by (auto simp: generated_def canonical_iff)
  have "covers (vv_merge (snd s) (snd t)) (past e)"
    if "e \<in> set hs" "covers_dot (vv_merge (snd s) (snd t)) (e_dot e)" for e
    using that cl covers_trans [OF covers_mergeL] covers_trans [OF covers_mergeR]
    by (auto simp: covers_dot_merge)
  moreover have "canonical (joined_versions (fst s) (snd s) (fst t) (snd t))"
    by (rule canonical_joined_versions [OF d])
  moreover have "set (joined_versions (fst s) (snd s) (fst t) (snd t)) \<subseteq> set hs"
    using sub by (auto simp: set_joined_versions [OF C sub d(2)])
  moreover have "dots (joined_versions (fst s) (snd s) (fst t) (snd t)) =
    {d \<in> dots hs. covers_dot (vv_merge (snd s) (snd t)) d \<and> \<not> superseded hs (vv_merge (snd s) (snd t)) d}"
    by (simp only: dots_joined_versions [OF C sub d(2)] generated_live_join [OF s t])
  moreover have "\<exists>e \<in> set hs. covers_dot (vv_merge (snd s) (snd t)) (e_dot e)"
    using ex by (auto simp: covers_dot_merge)
  ultimately show ?thesis by (simp add: generated_def)
qed

text \<open>On generated states the guards of the join never fire: it always is the joined state.\<close>

lemma merge_state_joined:
  assumes H: "history_ok hs" and s: "generated hs s" and t: "generated hs t"
  shows "merge_state s t = (joined_versions (fst s) (snd s) (fst t) (snd t), vv_merge (snd s) (snd t))"
  using generated_nonempty [OF H generated_joined [OF H s t]]
  by (cases s) (auto simp: merge_state_def join_Some_iff Let_def)

lemma merge_state_generated:
  "\<lbrakk>history_ok hs; generated hs s; generated hs t\<rbrakk> \<Longrightarrow> generated hs (merge_state s t)"
  by (simp add: merge_state_joined generated_joined)

lemma generated_unique:
  assumes H: "history_ok hs" and s: "generated hs s" and t: "generated hs t"
    and same: "\<And>e. e \<in> set hs \<Longrightarrow> covers_dot (snd s) (e_dot e) \<longleftrightarrow> covers_dot (snd t) (e_dot e)"
  shows "fst s = fst t"
proof (rule canonical_dots_unique [OF history_consistent [OF H]])
  have "superseded hs (snd s) d \<longleftrightarrow> superseded hs (snd t) d" for d
    using same by (auto simp: superseded_def)
  with same s t show "dots (fst s) = dots (fst t)"
    unfolding generated_def by (auto simp: dots_def)
qed (use s t in \<open>auto simp: generated_def\<close>)

lemma merge_state_comm:
  assumes "history_ok hs" "generated hs s" "generated hs t"
  shows "merge_state s t = merge_state t s"
proof (rule prod_eqI)
  show "snd (merge_state s t) = snd (merge_state t s)"
    using assms by (simp add: merge_state_joined vv_merge_comm)
  then show "fst (merge_state s t) = fst (merge_state t s)"
    by (intro generated_unique [OF assms(1)]) (simp_all add: merge_state_generated assms)
qed

lemma merge_state_assoc:
  assumes "history_ok hs" "generated hs s" "generated hs t" "generated hs u"
  shows "merge_state (merge_state s t) u = merge_state s (merge_state t u)"
proof (rule prod_eqI)
  show "snd (merge_state (merge_state s t) u) = snd (merge_state s (merge_state t u))"
    using assms merge_state_generated [OF assms(1-3)] merge_state_generated [OF assms(1,3,4)]
    by (simp add: merge_state_joined vv_merge_assoc)
  then show "fst (merge_state (merge_state s t) u) = fst (merge_state s (merge_state t u))"
    by (intro generated_unique [OF assms(1)]) (simp_all add: merge_state_generated assms)
qed

lemma merge_state_idem:
  assumes "history_ok hs" "generated hs s"
  shows "merge_state s s = s"
proof (rule prod_eqI)
  show "snd (merge_state s s) = snd s"
    using assms by (simp add: merge_state_joined)
  then show "fst (merge_state s s) = fst s"
    by (intro generated_unique [OF assms(1)]) (simp_all add: merge_state_generated assms)
qed

interpretation sib: join_on merge_state "\<lambda>s. history_ok hs \<and> generated hs s" for hs
  by unfold_locales
    (auto simp: merge_state_generated merge_state_idem intro: merge_state_comm merge_state_assoc)

section \<open>Properties\<close>

text \<open>
  C3: Delivery order does not matter. Folding \<open>join\<close> over two deliveries of the same generated
  states, in any order and with any repetition, leaves the same versions in the same order and the
  same version vector, and never an empty list of versions.
\<close>

theorem delivery_order_irrelevant:
  assumes "history_ok hs" "generated hs s" "\<forall>t \<in> set ts. generated hs t" "set ts = set us"
  shows "foldl merge_state s ts = foldl merge_state s us \<and> fst (foldl merge_state s ts) \<noteq> []"
proof -
  have "foldl merge_state s ts = foldl merge_state s us"
    using assms by (intro sib.foldl_set_eq [of hs]) auto
  moreover have "generated hs (foldl merge_state s ts)"
    using sib.foldl_ok [of hs s ts] assms by blast
  ultimately show ?thesis using generated_nonempty [OF assms(1)] by simp
qed

definition ex_hist :: "entry list" where
  "ex_hist = [\<lparr>e_path = ''a'', e_content = File [1] 1, e_hlc = Hlc 5 0, e_dot = Dot 1 1, e_context = vv_new, e_author = 0\<rparr>,
     \<lparr>e_path = ''a'', e_content = Tombstone, e_hlc = Hlc 6 0, e_dot = Dot 2 1, e_context = vv_new, e_author = 0\<rparr>,
     \<lparr>e_path = ''a'', e_content = File [2] 1, e_hlc = Hlc 7 0, e_dot = Dot 3 1, e_context = add_dot (Dot 1 1) vv_new, e_author = 0\<rparr>]"

definition ex_one :: "nat \<Rightarrow> siblings" where
  "ex_one i = ([ex_hist ! i], past (ex_hist ! i))"

lemma ex_hist_ok: "history_ok ex_hist"
  unfolding history_ok_def
proof (intro conjI allI impI)
  show "distinct (map e_dot ex_hist)" "\<forall>e \<in> set ex_hist. 0 < counter (e_dot e)" by code_simp+
  fix i j assume "i < j \<and> j < length ex_hist"
  then have "(i, j) \<in> set [(0, 1), (0, 2), (1, 2)]" by (auto simp: ex_hist_def)
  moreover have "\<forall>(i, j) \<in> set [(0, 1), (0, 2), (1, 2)].
      \<not> covers_dot (past (ex_hist ! i)) (e_dot (ex_hist ! j))" by code_simp
  ultimately show "\<not> covers_dot (past (ex_hist ! i)) (e_dot (ex_hist ! j))" by auto
qed

lemma image_filter_eq: "{d \<in> f ` A. P d} = f ` {x \<in> A. P (f x)}"
  by auto

lemma generated_code:
  "generated hs s \<longleftrightarrow> canonical (fst s) \<and> list_all (\<lambda>e. e \<in> set hs) (fst s) \<and>
     list_ex (\<lambda>e. covers_dot (snd s) (e_dot e)) hs \<and>
     list_all (\<lambda>e. covers_dot (snd s) (e_dot e) \<longrightarrow> covers (snd s) (past e)) hs \<and>
     e_dot ` set (fst s) = e_dot ` set (filter (\<lambda>e. covers_dot (snd s) (e_dot e) \<and> \<not> superseded hs (snd s) (e_dot e)) hs)"
  unfolding generated_def dots_def image_filter_eq by (auto simp: list_all_iff list_ex_iff subset_eq)

lemma ex_hist_generated: "generated ex_hist (ex_one 0)" "generated ex_hist (ex_one 1)"
  "generated ex_hist (merge_state (ex_one 0) (ex_one 2))"
  unfolding generated_code by code_simp+

theorem delivery_order_irrelevant_witness:
  "foldl merge_state (ex_one 0) [ex_one 1, merge_state (ex_one 0) (ex_one 2), ex_one 1] =
   foldl merge_state (ex_one 0) [merge_state (ex_one 0) (ex_one 2), ex_one 1]"
  using delivery_order_irrelevant [OF ex_hist_ok ex_hist_generated(1),
      of "[ex_one 1, merge_state (ex_one 0) (ex_one 2), ex_one 1]" "[merge_state (ex_one 0) (ex_one 2), ex_one 1]"]
    ex_hist_generated by auto

end
