(* ===== verification/Replication.thy ===== *)
theory Replication
  imports Convergence
begin

text \<open>
  Replicas exchanging the states of one path, as a step relation: local writes with the context
  \<open>disk.seen\<close> they were made in, settling with some losers left out of \<open>disk.seen\<close>, sending and
  delivery in any order (the calls of \<open>join\<close> in \<open>replica.rs\<close>: \<open>reconcile_path\<close>, \<open>integrate\<close>,
  \<open>join\<close>, \<open>settle\<close>, \<open>disk_seen\<close>). Reachable replicas that cover the same writes agree.
\<close>

section \<open>The steps\<close>

text \<open>
  Per replica the state stored for the path and the \<open>disk.seen\<close> recorded with it, then the states
  that were ever sent, the writes made so far and the last counter each replica assigned (to any
  path).
\<close>

record system =
  stored :: "replica_id \<Rightarrow> siblings option"
  disk_of :: "replica_id \<Rightarrow> version_vector"
  sent :: "siblings set"
  writes :: "entry list"
  last_counter :: "replica_id \<Rightarrow> u64"

definition system_init :: system where
  "system_init = \<lparr>stored = (\<lambda>_. None), disk_of = (\<lambda>_. vv_new), sent = {}, writes = [],
     last_counter = (\<lambda>_. 0)\<rparr>"

definition local_write :: "replica_id \<Rightarrow> entry \<Rightarrow> system \<Rightarrow> system" where
  "local_write r e s = s\<lparr>stored := (stored s)(r := receive (stored s r) ([e], past e)),
     disk_of := (disk_of s)(r := past e), writes := writes s @ [e],
     last_counter := (last_counter s)(r := counter (e_dot e))\<rparr>"

text \<open>
  A local write has the recorded \<open>disk.seen\<close> as its context and a counter larger than any assigned
  before. Settling records what is stored as seen, except some of the stored versions. A delivery
  leaves \<open>disk.seen\<close> as it was: settling may have to wait.
\<close>

inductive system_step :: "system \<Rightarrow> system \<Rightarrow> bool" where
  own_write: "\<lbrakk>replica (e_dot e) = r; last_counter s r < counter (e_dot e); e_context e = disk_of s r\<rbrakk> \<Longrightarrow>
    system_step s (local_write r e s)"
| other_path: "last_counter s r < c \<Longrightarrow> system_step s (s\<lparr>last_counter := (last_counter s)(r := c)\<rparr>)"
| settled: "\<lbrakk>stored s r = Some t; set ds \<subseteq> dots (fst t)\<rbrakk> \<Longrightarrow>
    system_step s (s\<lparr>disk_of := (disk_of s)(r := foldl pin_out (snd t) ds)\<rparr>)"
| sending: "stored s r = Some t \<Longrightarrow> system_step s (s\<lparr>sent := insert t (sent s)\<rparr>)"
| delivery: "t \<in> sent s \<Longrightarrow>
    system_step s (s\<lparr>stored := (stored s)(r := receive (stored s r) t)\<rparr>)"

inductive reachable :: "system \<Rightarrow> bool" where
  initial: "reachable system_init"
| later: "\<lbrakk>reachable s; system_step s t\<rbrakk> \<Longrightarrow> reachable t"

inductive_cases system_stepE: "system_step s t"

section \<open>Invariants\<close>

definition bounded :: "(replica_id \<Rightarrow> u64) \<Rightarrow> version_vector \<Rightarrow> bool" where
  "bounded lc v \<longleftrightarrow> (\<forall>r. vv_get v r \<le> lc r)"

definition state_inv :: "system \<Rightarrow> siblings \<Rightarrow> bool" where
  "state_inv s t \<longleftrightarrow> generated (writes s) t \<and> bounded (last_counter s) (snd t)"

definition own_stored :: "system \<Rightarrow> replica_id \<Rightarrow> bool" where
  "own_stored s r \<longleftrightarrow> (\<forall>f \<in> set (writes s). replica (e_dot f) = r \<longrightarrow>
     (\<exists>t. stored s r = Some t \<and> covers_dot (snd t) (e_dot f)))"

text \<open>
  What makes \<open>disk.seen\<close> a context: for every write it covers, and for every write of the replica
  itself, it covers that write's past, the replica's own slot aside.
\<close>

definition disk_closed :: "entry list \<Rightarrow> replica_id \<Rightarrow> version_vector \<Rightarrow> bool" where
  "disk_closed hs r v \<longleftrightarrow> (\<forall>f \<in> set hs. covers_dot v (e_dot f) \<or> replica (e_dot f) = r \<longrightarrow>
     (\<forall>q. q \<noteq> r \<longrightarrow> vv_get (past f) q \<le> vv_get v q))"

definition system_inv :: "system \<Rightarrow> bool" where
  "system_inv s \<longleftrightarrow> history_ok (writes s) \<and>
     (\<forall>e \<in> set (writes s). bounded (last_counter s) (past e)) \<and>
     (\<forall>r t. stored s r = Some t \<longrightarrow> state_inv s t) \<and> (\<forall>t \<in> sent s. state_inv s t) \<and>
     (\<forall>r. bounded (last_counter s) (disk_of s r) \<and> disk_closed (writes s) r (disk_of s r) \<and> own_stored s r)"

lemma bounded_mono: "\<lbrakk>bounded lc v; \<And>r. lc r \<le> lc' r\<rbrakk> \<Longrightarrow> bounded lc' v"
  by (auto simp: bounded_def intro: order_trans)

lemma bounded_merge: "bounded lc (vv_merge v w) \<longleftrightarrow> bounded lc v \<and> bounded lc w"
  by (auto simp: bounded_def vv_get_merge)

lemma bounded_covers: "\<lbrakk>bounded lc v; covers v w\<rbrakk> \<Longrightarrow> bounded lc w"
  by (auto simp: bounded_def covers_iff intro: order_trans)

lemma bounded_new [simp]: "bounded lc vv_new"
  by (simp add: bounded_def vv_get_def vv_new_def)

lemma bounded_fresh: "\<lbrakk>bounded lc v; lc (replica d) < counter d\<rbrakk> \<Longrightarrow> \<not> covers_dot v d"
  by (auto simp: bounded_def covers_dot_def not_le intro: le_less_trans)

lemma past_covers_own [simp]: "covers_dot (past e) (e_dot e)"
  by (simp add: past_def covers_dot_add)

lemma receive_None: "canonical (fst t) \<Longrightarrow> fst t \<noteq> [] \<Longrightarrow> receive None t = Some t"
  by (cases t) (simp add: receive_def join_def canonical_iff sort_key_id_if_sorted)

lemma receive_Some: "receive (Some s) t = Some (merge_state s t)"
  by (simp add: receive_def merge_state_def split: option.splits)

lemma receive_generated:
  assumes H: "history_ok hs" and t: "generated hs t" and s: "\<And>u. s = Some u \<Longrightarrow> generated hs u"
  shows "\<exists>u. receive s t = Some u \<and> generated hs u \<and>
    snd u = (case s of None \<Rightarrow> snd t | Some v \<Rightarrow> vv_merge (snd v) (snd t))"
proof (cases s)
  case None
  have "canonical (fst t)" using t by (simp add: generated_def)
  with None t generated_nonempty [OF H t] show ?thesis by (simp add: receive_None)
next
  case (Some v)
  with assms show ?thesis
    by (simp add: receive_Some merge_state_joined generated_joined)
qed

section \<open>Local writes\<close>

text \<open>Adding a write that nothing covers yet leaves every generated state generated.\<close>

lemma generated_extend:
  assumes t: "generated hs t" and e: "\<not> covers_dot (snd t) (e_dot e)"
  shows "generated (hs @ [e]) t"
  using assms by (auto simp: generated_def superseded_def)

lemma history_extend:
  assumes H: "history_ok hs" and b: "\<forall>f \<in> set hs. bounded lc (past f)"
    and e: "lc (replica (e_dot e)) < counter (e_dot e)"
  shows "history_ok (hs @ [e])"
proof -
  have fresh: "\<not> covers_dot (past f) (e_dot e)" if "f \<in> set hs" for f
    using b that e bounded_fresh by blast
  then have ne: "e_dot e \<noteq> e_dot f" if "f \<in> set hs" for f
    using that past_covers_own [of f] by metis
  have "0 < counter (e_dot e)" using e word_gt_0 by fastforce
  moreover have "\<not> covers_dot (past ((hs @ [e]) ! i)) (e_dot ((hs @ [e]) ! j))"
    if "i < j" "j < length (hs @ [e])" for i j
    using that H fresh by (cases "j < length hs") (auto simp: history_ok_def nth_append less_Suc_eq)
  ultimately show ?thesis
    using H ne by (fastforce simp: history_ok_def)
qed

lemma generated_written:
  assumes fresh: "\<And>f. f \<in> set hs \<Longrightarrow> \<not> covers_dot (past f) (e_dot e)"
    and cl: "\<And>f. \<lbrakk>f \<in> set hs; covers_dot (past e) (e_dot f)\<rbrakk> \<Longrightarrow> covers (past e) (past f)"
  shows "generated (hs @ [e]) ([e], past e)"
proof -
  have ne: "e_dot e \<noteq> e_dot f" if "f \<in> set hs" for f
    using fresh [OF that] past_covers_own [of f] by metis
  have "d = e_dot e" if "d \<in> dots (hs @ [e])" "covers_dot (past e) d" "\<not> superseded (hs @ [e]) (past e) d" for d
    using that by (auto simp: superseded_def)
  moreover have "\<not> superseded (hs @ [e]) (past e) (e_dot e)"
    using fresh by (auto simp: superseded_def)
  ultimately show ?thesis
    using cl by (auto simp: generated_def canonical_def)
qed

lemma disk_closedD:
  "\<lbrakk>disk_closed hs r v; f \<in> set hs; covers_dot v (e_dot f) \<or> replica (e_dot f) = r; q \<noteq> r\<rbrakk> \<Longrightarrow>
   vv_get (past f) q \<le> vv_get v q"
  unfolding disk_closed_def by blast

text \<open>The context \<open>disk.seen\<close> together with the new dot is a causally closed past.\<close>

lemma past_closed:
  assumes cl: "disk_closed hs r (e_context e)" and r: "replica (e_dot e) = r"
    and b: "\<forall>f \<in> set hs. bounded lc (past f)" and lt: "lc r < counter (e_dot e)"
    and f: "f \<in> set hs" "covers_dot (past e) (e_dot f)"
  shows "covers (past e) (past f)"
  unfolding covers_iff
proof
  fix q
  show "vv_get (past f) q \<le> vv_get (past e) q"
  proof (cases "q = r")
    case True
    have "vv_get (past f) q \<le> lc q" using b f(1) by (simp add: bounded_def)
    then have "vv_get (past f) q \<le> counter (e_dot e)" using True lt by simp
    then show ?thesis using True r by (simp add: past_def vv_get_add_dot le_max_iff_disj)
  next
    case False
    have "covers_dot (e_context e) (e_dot f) \<or> replica (e_dot f) = r"
      using f(2) r by (auto simp: past_def covers_dot_add)
    with cl f(1) False have "vv_get (past f) q \<le> vv_get (e_context e) q"
      by (blast intro: disk_closedD)
    with False r show ?thesis by (simp add: past_def vv_get_add_dot)
  qed
qed

lemma disk_closed_extend:
  assumes "disk_closed hs q v" "\<not> covers_dot v (e_dot e)" "replica (e_dot e) \<noteq> q"
  shows "disk_closed (hs @ [e]) q v"
  using assms by (auto simp: disk_closed_def)

lemma disk_closed_written:
  assumes cl: "disk_closed hs r (e_context e)" and r: "replica (e_dot e) = r"
  shows "disk_closed (hs @ [e]) r (past e)"
proof -
  have *: "vv_get (past e) q = vv_get (e_context e) q" if "q \<noteq> r" for q
    using that r by (simp add: past_def vv_get_add_dot)
  have **: "covers_dot (e_context e) (e_dot f) \<or> replica (e_dot f) = r"
    if "covers_dot (past e) (e_dot f) \<or> replica (e_dot f) = r" for f
    using that r by (auto simp: past_def covers_dot_add)
  have "vv_get (past f) q \<le> vv_get (e_context e) q"
    if "f \<in> set hs" "covers_dot (past e) (e_dot f) \<or> replica (e_dot f) = r" "q \<noteq> r" for f q
    by (rule disk_closedD [OF cl that(1) ** [OF that(2)] that(3)])
  then show ?thesis unfolding disk_closed_def by (auto simp: *)
qed

lemma own_write_inv:
  assumes inv: "system_inv s" and r: "replica (e_dot e) = r"
    and lt: "last_counter s r < counter (e_dot e)" and ctx: "e_context e = disk_of s r"
  shows "system_inv (local_write r e s)"
proof -
  let ?hs = "writes s" and ?lc = "last_counter s" and ?s' = "local_write r e s"
  have H: "history_ok ?hs" and b: "\<forall>f \<in> set ?hs. bounded ?lc (past f)"
    and st: "\<And>q t. stored s q = Some t \<Longrightarrow> state_inv s t"
    and se: "\<And>t. t \<in> sent s \<Longrightarrow> state_inv s t"
    and db: "\<And>q. bounded ?lc (disk_of s q)" and dc: "\<And>q. disk_closed ?hs q (disk_of s q)"
    and os: "\<And>q. own_stored s q"
    using inv unfolding system_inv_def by blast+
  have lt': "?lc (replica (e_dot e)) < counter (e_dot e)" using lt r by simp
  have H': "history_ok (?hs @ [e])" by (rule history_extend [OF H b lt'])
  have mono: "bounded ?lc v \<Longrightarrow> bounded (last_counter ?s') v" for v
    using lt by (auto simp: bounded_def local_write_def intro: order_trans)
  have fresh: "bounded ?lc v \<Longrightarrow> \<not> covers_dot v (e_dot e)" for v
    using bounded_fresh lt' by blast
  have pb: "bounded (last_counter ?s') (past e)"
    using mono [OF db [of r]] r lt db [of r]
    by (auto simp: bounded_def past_def vv_get_add_dot ctx local_write_def intro: order_trans)
  have old: "state_inv ?s' t" if "state_inv s t" for t
    using that fresh mono unfolding state_inv_def
    by (auto simp: local_write_def intro: generated_extend)
  have gw: "generated (?hs @ [e]) ([e], past e)"
  proof (rule generated_written)
    show "\<not> covers_dot (past f) (e_dot e)" if "f \<in> set ?hs" for f using b that fresh by blast
    show "covers (past e) (past f)" if "f \<in> set ?hs" "covers_dot (past e) (e_dot f)" for f
      by (rule past_closed [OF _ r b lt that]) (simp add: ctx dc)
  qed
  have so: "generated (?hs @ [e]) u" if "stored s r = Some u" for u
    using old [OF st [OF that]] by (simp add: state_inv_def local_write_def)
  obtain u where u: "receive (stored s r) ([e], past e) = Some u" "generated (?hs @ [e]) u"
    "snd u = (case stored s r of None \<Rightarrow> past e | Some v \<Rightarrow> vv_merge (snd v) (past e))"
    using receive_generated [OF H' gw so] unfolding snd_conv by blast
  have su: "state_inv ?s' u"
    using u(2) pb st [of r] mono unfolding state_inv_def u(3)
    by (auto simp: local_write_def bounded_merge state_inv_def split: option.splits)
  have own: "own_stored ?s' q" for q
    using os [of q] u r
    by (cases u) (auto simp: own_stored_def local_write_def covers_dot_merge split: option.splits)
  have "disk_closed (?hs @ [e]) q (disk_of s q)" if "q \<noteq> r" for q
    using that r by (intro disk_closed_extend dc) (auto simp: fresh db)
  moreover have "disk_closed (?hs @ [e]) r (past e)"
    by (rule disk_closed_written) (simp_all add: ctx dc r)
  moreover have "\<forall>q. bounded (last_counter ?s') (disk_of ?s' q)"
    using pb mono db by (simp add: local_write_def)
  moreover have "\<forall>f \<in> set (writes ?s'). bounded (last_counter ?s') (past f)"
    using b mono pb by (auto simp: local_write_def)
  moreover have "\<forall>q t. stored ?s' q = Some t \<longrightarrow> state_inv ?s' t"
  proof (intro allI impI)
    fix q t assume "stored ?s' q = Some t"
    then show "state_inv ?s' t"
      using old [OF st] u(1) su by (cases "q = r") (auto simp: local_write_def)
  qed
  moreover have "\<forall>t \<in> sent ?s'. state_inv ?s' t"
    using old [OF se] by (simp add: local_write_def)
  ultimately show ?thesis
    using H' own by (simp add: system_inv_def local_write_def)
qed

section \<open>The other steps\<close>

lemma settled_inv:
  assumes inv: "system_inv s" and t: "stored s r = Some t" and ds: "set ds \<subseteq> dots (fst t)"
  shows "disk_closed (writes s) r (foldl pin_out (snd t) ds)"
    and "bounded (last_counter s) (foldl pin_out (snd t) ds)"
proof -
  have st: "state_inv s t" and os: "own_stored s r" and H: "history_ok (writes s)"
    using inv t unfolding system_inv_def by blast+
  then show "bounded (last_counter s) (foldl pin_out (snd t) ds)"
    using bounded_covers [OF _ covers_pins] by (auto simp: state_inv_def)
  have g: "generated (writes s) t" using st by (simp add: state_inv_def)
  show "disk_closed (writes s) r (foldl pin_out (snd t) ds)"
    unfolding disk_closed_def
  proof (intro ballI impI allI)
    fix f q
    assume f: "f \<in> set (writes s)" and q: "q \<noteq> r"
      and cov: "covers_dot (foldl pin_out (snd t) ds) (e_dot f) \<or> replica (e_dot f) = r"
    have seen: "covers_dot (snd t) (e_dot f)"
      using cov f os t covers_dot_mono [OF covers_pins] by (auto simp: own_stored_def)
    with g f have "covers (snd t) (past f)" by (simp add: generated_def)
    then have le: "vv_get (past f) q \<le> vv_get (snd t) q" by (simp add: covers_iff)
    show "vv_get (past f) q \<le> vv_get (foldl pin_out (snd t) ds) q"
    proof (rule pins_ge [OF le])
      fix d assume d: "d \<in> set ds" "replica d = q"
      with ds g have live: "d \<in> dots (writes s)" "\<not> superseded (writes s) (snd t) d"
        by (auto simp: generated_def)
      then have "0 < counter d" using H by (auto simp: history_ok_def dots_def)
      with d(1) have out: "\<not> covers_dot (foldl pin_out (snd t) ds) d" by (rule pins_uncover)
      show "\<not> covers_dot (past f) d"
      proof
        assume "covers_dot (past f) d"
        with live(2) f seen have "e_dot f = d" by (auto simp: superseded_def)
        with cov out d(2) q show False by auto
      qed
    qed
  qed
qed

lemma delivery_inv:
  assumes inv: "system_inv s" and t: "t \<in> sent s"
  shows "system_inv (s\<lparr>stored := (stored s)(r := receive (stored s r) t)\<rparr>)"
proof -
  have H: "history_ok (writes s)" and st: "\<And>q t. stored s q = Some t \<Longrightarrow> state_inv s t"
    and ti: "state_inv s t" and os: "\<And>q. own_stored s q"
    using inv t unfolding system_inv_def by blast+
  obtain u where u: "receive (stored s r) t = Some u" "generated (writes s) u"
    "snd u = (case stored s r of None \<Rightarrow> snd t | Some v \<Rightarrow> vv_merge (snd v) (snd t))"
    using receive_generated [OF H, of t "stored s r"] ti st by (auto simp: state_inv_def)
  have su: "state_inv s u"
    using u(2) ti st [of r] unfolding state_inv_def u(3)
    by (auto simp: bounded_merge split: option.splits)
  let ?s' = "s\<lparr>stored := (stored s)(r := receive (stored s r) t)\<rparr>"
  have same: "state_inv (s\<lparr>stored := x\<rparr>) v \<longleftrightarrow> state_inv s v" for x v by (simp add: state_inv_def)
  have "own_stored ?s' q" for q
    using os [of q] u by (cases u) (auto simp: own_stored_def covers_dot_merge split: option.splits)
  moreover have "state_inv ?s' v" if "stored ?s' q = Some v" for q v
    using that st su u(1) by (cases "q = r") (simp_all add: same)
  ultimately show ?thesis
    using inv unfolding system_inv_def by (simp add: same)
qed

lemma system_step_inv: "\<lbrakk>system_step s t; system_inv s\<rbrakk> \<Longrightarrow> system_inv t"
proof (induction rule: system_step.induct)
  case (own_write e r s)
  then show ?case by (intro own_write_inv)
next
  case (other_path s r c)
  have m: "bounded (last_counter s) v \<Longrightarrow> bounded ((last_counter s)(r := c)) v" for v
    using other_path(1) by (auto simp: bounded_def intro: order_trans)
  with other_path(2) show ?case
    unfolding system_inv_def by (auto simp: state_inv_def own_stored_def)
next
  case (settled s r t ds)
  note d = settled_inv [OF settled(3,1,2)]
  with settled(3) show ?case
    unfolding system_inv_def by (auto simp: state_inv_def own_stored_def)
next
  case (sending s r t)
  then have "state_inv s t" unfolding system_inv_def by blast
  with sending(2) show ?case unfolding system_inv_def by (simp add: state_inv_def own_stored_def)
next
  case (delivery t s r)
  then show ?case by (intro delivery_inv)
qed

lemma reachable_inv: "reachable s \<Longrightarrow> system_inv s"
proof (induction rule: reachable.induct)
  case initial
  show ?case
    by (simp add: system_inv_def system_init_def history_ok_def disk_closed_def own_stored_def)
next
  case (later s t)
  then show ?case by (blast intro: system_step_inv)
qed

section \<open>Properties\<close>

text \<open>
  C1: In every reachable state of the replicas, whatever was written concurrently, settled with
  losers left out of \<open>disk.seen\<close>, reordered, repeated or lost on the way, two replicas that cover
  the same writes of a path hold the same versions of it in the same order, and agree on the
  winner, which exists.
\<close>

theorem replicas_converge:
  assumes "reachable s" "stored s q = Some t" "stored s r = Some u"
    and "\<forall>e \<in> set (writes s). covers_dot (snd t) (e_dot e) \<longleftrightarrow> covers_dot (snd u) (e_dot e)"
  shows "fst t = fst u \<and> winner (fst t) = winner (fst u) \<and> winner (fst t) \<noteq> None"
proof -
  have H: "history_ok (writes s)" and g: "generated (writes s) t" "generated (writes s) u"
    using reachable_inv [OF assms(1)] assms(2,3) unfolding system_inv_def state_inv_def by blast+
  have eq: "fst t = fst u"
    by (rule generated_unique [OF H g]) (use assms(4) in blast)
  with generated_nonempty [OF H g(2)] show ?thesis by simp
qed

text \<open>
  C2: No write is lost. A write a reachable replica covers is one of the versions it stores,
  unless the replica also covers another write that was made with this one in its past (its
  context, or an earlier dot of the same replica); a write it stores is one it covers.
\<close>

theorem no_write_lost:
  assumes "reachable s" "stored s r = Some t"
  shows "(e \<in> set (writes s) \<and> covers_dot (snd t) (e_dot e) \<longrightarrow>
      e \<in> set (fst t) \<or>
      (\<exists>f \<in> set (writes s). f \<noteq> e \<and> covers_dot (snd t) (e_dot f) \<and> covers_dot (past f) (e_dot e))) \<and>
    (e \<in> set (fst t) \<longrightarrow> e \<in> set (writes s) \<and> covers_dot (snd t) (e_dot e))"
proof -
  have H: "history_ok (writes s)" and g: "generated (writes s) t"
    using reachable_inv [OF assms(1)] assms(2) unfolding system_inv_def state_inv_def by blast+
  have inj: "f = e" if "f \<in> set (writes s)" "e \<in> set (writes s)" "e_dot f = e_dot e" for f
    using history_consistent [OF H] that unfolding consistent_def by (blast dest: inj_onD)
  have sub: "set (fst t) \<subseteq> set (writes s)" using g by (simp add: generated_def)
  have V: "dots (fst t) = {d \<in> dots (writes s). covers_dot (snd t) d \<and> \<not> superseded (writes s) (snd t) d}"
    using g by (simp add: generated_def)
  have stored_dot: "e \<in> set (fst t)" if "e \<in> set (writes s)" "e_dot e \<in> dots (fst t)"
  proof -
    from that(2) obtain f where "f \<in> set (fst t)" "e_dot f = e_dot e" unfolding dots_def by auto
    with inj [of f] that(1) sub show ?thesis by auto
  qed
  have "e \<in> set (fst t)" if "e \<in> set (writes s)" "covers_dot (snd t) (e_dot e)"
    "\<not> superseded (writes s) (snd t) (e_dot e)"
    using that V by (intro stored_dot) (auto simp: dots_def)
  moreover have "covers_dot (snd t) (e_dot e)" if "e \<in> set (fst t)"
    using that V by (auto simp: dots_def)
  moreover have "\<exists>f \<in> set (writes s). f \<noteq> e \<and> covers_dot (snd t) (e_dot f) \<and> covers_dot (past f) (e_dot e)"
    if "superseded (writes s) (snd t) (e_dot e)"
    using that unfolding superseded_def by auto
  ultimately show ?thesis using sub by blast
qed

text \<open>Two replicas write concurrently, exchange their states and agree on both versions.\<close>

definition ex_write :: "replica_id \<Rightarrow> u64 \<Rightarrow> entry" where
  "ex_write r w = \<lparr>e_path = ''a'', e_content = File [ucast r] 1, e_hlc = Hlc w 0, e_dot = Dot r 1,
     e_context = vv_new, e_author = 0\<rparr>"

definition ex_wrote :: system where
  "ex_wrote = local_write 2 (ex_write 2 7) (local_write 1 (ex_write 1 9) system_init)"

definition ex_sent :: system where
  "ex_sent = (let s = ex_wrote\<lparr>sent := insert (the (stored ex_wrote 1)) (sent ex_wrote)\<rparr>
     in s\<lparr>sent := insert (the (stored s 2)) (sent s)\<rparr>)"

definition ex_half :: system where
  "ex_half = ex_sent\<lparr>stored := (stored ex_sent)(1 := receive (stored ex_sent 1) (the (stored ex_wrote 2)))\<rparr>"

definition ex_run :: system where
  "ex_run = ex_half\<lparr>stored := (stored ex_half)(2 := receive (stored ex_half 2) (the (stored ex_wrote 1)))\<rparr>"

lemma ex_wrote_stored:
  "stored ex_wrote 1 = Some ([ex_write 1 9], past (ex_write 1 9))"
  "stored ex_wrote 2 = Some ([ex_write 2 7], past (ex_write 2 7))"
  by (simp_all add: ex_wrote_def local_write_def system_init_def receive_None canonical_def)

lemma ex_wrote_reachable: "reachable ex_wrote"
proof -
  have "system_step system_init (local_write 1 (ex_write 1 9) system_init)"
    by (rule own_write) (simp_all add: ex_write_def system_init_def)
  moreover have "system_step (local_write 1 (ex_write 1 9) system_init) ex_wrote"
    unfolding ex_wrote_def by (rule own_write) (simp_all add: ex_write_def system_init_def local_write_def)
  ultimately show ?thesis by (blast intro: reachable.intros)
qed

lemma ex_sent_facts:
  "stored ex_sent = stored ex_wrote"
  "sent ex_sent = insert (the (stored ex_wrote 2)) (insert (the (stored ex_wrote 1)) (sent ex_wrote))"
  by (simp_all add: ex_sent_def Let_def)

lemma ex_run_reachable: "reachable ex_run"
proof -
  let ?s = "ex_wrote\<lparr>sent := insert (the (stored ex_wrote 1)) (sent ex_wrote)\<rparr>"
  have 1: "system_step ex_wrote ?s" by (rule sending [where r = 1]) (simp add: ex_wrote_stored)
  have 2: "system_step ?s ex_sent"
    unfolding ex_sent_def Let_def by (rule sending [where r = 2]) (simp add: ex_wrote_stored)
  have 3: "system_step ex_sent ex_half"
    unfolding ex_half_def by (rule delivery) (simp add: ex_sent_facts)
  have "sent ex_half = sent ex_sent" by (simp add: ex_half_def)
  then have 4: "system_step ex_half ex_run"
    unfolding ex_run_def by (intro delivery) (simp add: ex_sent_facts)
  show ?thesis
    by (rule later [OF later [OF later [OF later [OF ex_wrote_reachable 1] 2] 3] 4])
qed

definition ex_seen :: version_vector where
  "ex_seen = add_dot (Dot 2 1) (add_dot (Dot 1 1) vv_new)"

lemma ex_run_stored:
  "stored ex_run 1 = Some ([ex_write 1 9, ex_write 2 7], ex_seen)"
  "stored ex_run 2 = Some ([ex_write 1 9, ex_write 2 7], ex_seen)"
  by code_simp+

lemma ex_run_writes: "writes ex_run = [ex_write 1 9, ex_write 2 7]"
  by code_simp

theorem replicas_converge_witness:
  "stored ex_run 1 \<noteq> None \<and> fst (the (stored ex_run 1)) = fst (the (stored ex_run 2)) \<and>
   winner (fst (the (stored ex_run 1))) = winner (fst (the (stored ex_run 2)))"
  using replicas_converge [OF ex_run_reachable ex_run_stored] by (simp add: ex_run_stored)

theorem no_write_lost_witness: "ex_write 2 7 \<in> set (fst (the (stored ex_run 1)))"
proof -
  have "ex_write 2 7 \<in> set (writes ex_run)" "covers_dot ex_seen (e_dot (ex_write 2 7))"
    "\<not> covers_dot (past (ex_write 1 9)) (e_dot (ex_write 2 7))"
    by code_simp+
  then show ?thesis
    using no_write_lost [OF ex_run_reachable ex_run_stored(1), of "ex_write 2 7"]
    by (auto simp: ex_run_stored ex_run_writes)
qed

end
