(* ===== verification/Paths.thy ===== *)
theory Paths
  imports Prelude
begin

text \<open>
  Workspace-relative paths (\<open>sapphire-framework-sync/src/paths.rs\<close>). A native path is the list of
  its components; \<open>windows\<close> is the compile-time target.
\<close>

section \<open>Native paths\<close>

type_synonym native_path = "string list"

text \<open>Whether a segment starts with a drive prefix, such as \<open>C:\<close>.\<close>

definition has_drive :: "string \<Rightarrow> bool" where
  "has_drive seg \<longleftrightarrow> (case seg of a # b # _ \<Rightarrow> is_ascii_alphabetic a \<and> b = CHR '':'' | _ \<Rightarrow> False)"

text \<open>
  \<open>PathBuf::push\<close> of one segment without separators: an empty segment or \<open>.\<close> adds no component,
  and on Windows a segment with a drive prefix replaces the whole path.
\<close>

definition push :: "bool \<Rightarrow> native_path \<Rightarrow> string \<Rightarrow> native_path" where
  "push windows p seg =
     (if windows \<and> has_drive seg then [seg]
      else if seg = '''' \<or> seg = ''.'' then p
      else p @ [seg])"

definition to_native :: "bool \<Rightarrow> native_path \<Rightarrow> string \<Rightarrow> native_path" where
  "to_native windows root rel = foldl (push windows) root (split_on CHR ''/'' rel)"

definition rel_from_native :: "native_path \<Rightarrow> native_path \<Rightarrow> string option" where
  "rel_from_native root full =
     (case strip_prefix root full of
        None \<Rightarrow> None
      | Some parts \<Rightarrow>
          if list_ex (\<lambda>s. s = ''..'') parts \<or> parts = [] then None
          else Some (join_with ''/'' parts))"

section \<open>Validity and representability\<close>

definition valid_segment :: "string \<Rightarrow> bool" where
  "valid_segment seg \<longleftrightarrow>
     \<not> (seg = '''' \<or> seg = ''.'' \<or> seg = ''..'') \<and> \<not> has_drive seg"

definition is_valid_rel :: "string \<Rightarrow> bool" where
  "is_valid_rel rel \<longleftrightarrow>
     (if rel = '''' \<or> prefix ''/'' rel \<or> CHR 0x5C \<in> set rel then False
      else list_all valid_segment (split_on CHR ''/'' rel))"

definition is_reserved_windows_name :: "string \<Rightarrow> bool" where
  "is_reserved_windows_name segment =
     (let stem = map to_ascii_upper (hd (split_on CHR ''.'' segment)) in
      if stem \<in> set [''CON'', ''PRN'', ''AUX'', ''NUL''] then True
      else if length stem = 4 \<and> (prefix ''COM'' stem \<or> prefix ''LPT'' stem)
      then 49 \<le> (of_char (stem ! 3) :: nat) \<and> (of_char (stem ! 3) :: nat) \<le> 57
      else False)"

definition forbidden_on_windows :: "char \<Rightarrow> bool" where
  "forbidden_on_windows c \<longleftrightarrow>
     c \<in> set [CHR ''<'', CHR ''>'', CHR '':'', CHR 0x22, CHR ''|'', CHR ''?'', CHR ''*'']
     \<or> (of_char c :: nat) < 32"

definition representable_on :: "string \<Rightarrow> bool \<Rightarrow> bool" where
  "representable_on rel windows \<longleftrightarrow>
     (if CHR 0x00 \<in> set rel then False
      else if \<not> windows then True
      else list_all (\<lambda>seg.
             \<not> list_ex forbidden_on_windows seg
             \<and> \<not> suffix ''.'' seg \<and> \<not> suffix '' '' seg
             \<and> \<not> is_reserved_windows_name seg) (split_on CHR ''/'' rel))"

lemma is_valid_rel_segs: "is_valid_rel rel \<Longrightarrow> \<forall>seg \<in> set (split_on CHR ''/'' rel). valid_segment seg"
  by (auto simp: is_valid_rel_def list_all_iff split: if_splits)

lemma foldl_push_valid: "\<forall>seg \<in> set segs. valid_segment seg \<Longrightarrow> foldl (push windows) p segs = p @ segs"
  by (induction segs arbitrary: p) (auto simp: push_def valid_segment_def)

text \<open>A valid path stays under the root, whatever the target.\<close>

lemma to_native_valid: "is_valid_rel rel \<Longrightarrow> to_native windows root rel = root @ split_on CHR ''/'' rel"
  by (simp add: to_native_def foldl_push_valid is_valid_rel_segs)

lemma rel_from_to_native:
  "is_valid_rel rel \<Longrightarrow> rel_from_native root (to_native windows root rel) = Some rel"
  using is_valid_rel_segs [of rel]
  by (auto simp: to_native_valid rel_from_native_def strip_prefix_def valid_segment_def list_ex_iff
      join_split_on)

section \<open>Properties\<close>

text \<open>
  C7: A relative path that passes the check stays under the root: on either target its native form
  extends the root by its segments, none of them \<open>..\<close>, and translates back to it.
\<close>

theorem valid_path_contained:
  assumes "is_valid_rel rel"
  shows "\<exists>segs. to_native windows root rel = root @ segs \<and> segs \<noteq> [] \<and> ''..'' \<notin> set segs \<and>
    rel_from_native root (to_native windows root rel) = Some rel"
proof (intro exI conjI)
  show "to_native windows root rel = root @ split_on CHR ''/'' rel" by (rule to_native_valid [OF assms])
  show "''..'' \<notin> set (split_on CHR ''/'' rel)"
    using is_valid_rel_segs [OF assms] by (auto simp: valid_segment_def)
qed (simp_all add: rel_from_to_native assms)

theorem valid_path_contained_witness:
  "rel_from_native [''ws''] (to_native True [''ws''] ''a/b.txt'') = Some ''a/b.txt''"
proof -
  have "is_valid_rel ''a/b.txt''" by code_simp
  then show ?thesis using valid_path_contained by blast
qed

end
