(* ===== verification/Effects.thy ===== *)
theory Effects
  imports ContentHash
begin

text \<open>
  Fallible, state-changing code: an operation takes the state and returns a value or an error, and
  the state as it is then (what was changed before an error stays changed, as in the code, which
  mutates through \<open>&mut self\<close> and the file system). The errors are those of
  \<open>sapphire-framework-sync/src/error.rs\<close>, \<open>report.rs\<close>.
\<close>

section \<open>Errors\<close>

text \<open>\<open>std::io::ErrorKind\<close>, as far as the code tells kinds apart.\<close>

datatype io_kind = NotFound | AlreadyExists | NotADirectory | IsADirectory | CrossesDevices | UnexpectedEof | Interrupted | OtherIo

datatype pause_reason = RootMissing | MarkerMissing

text \<open>
  \<open>WinnerPanic\<close> is the panic of \<open>merge::winner\<close> on no versions, \<open>OutOfFuel\<close> the end of the recursion
  bound of the model; both are shown not to happen.
\<close>

datatype error =
    Io io_kind
  | Store
  | Json
  | Ignore
  | FormatTooNew u32 u32
  | RootMismatch string string
  | Corrupt
  | Paused pause_reason
  | TooLarge u64 u64
  | ContentMismatch content_hash
  | WinnerPanic
  | OutOfFuel

section \<open>Operations\<close>

type_synonym ('s, 'e, 'a) op = "'s \<Rightarrow> ('e + 'a) \<times> 's"

type_synonym ('s, 'a) eff = "('s, error, 'a) op"

definition ret :: "'a \<Rightarrow> ('s, 'e, 'a) op" where
  "ret x s = (Inr x, s)"

definition throw :: "'e \<Rightarrow> ('s, 'e, 'a) op" where
  "throw e s = (Inl e, s)"

text \<open>The \<open>?\<close> operator: an error returns at once.\<close>

definition bindE :: "('s, 'e, 'a) op \<Rightarrow> ('a \<Rightarrow> ('s, 'e, 'b) op) \<Rightarrow> ('s, 'e, 'b) op" where
  "bindE m f s = (case m s of (Inl e, s') \<Rightarrow> (Inl e, s') | (Inr x, s') \<Rightarrow> f x s')"

definition thenE :: "('s, 'e, 'a) op \<Rightarrow> ('s, 'e, 'b) op \<Rightarrow> ('s, 'e, 'b) op" where
  "thenE m n s = (bindE m (\<lambda>_. n)) s"

text \<open>A \<open>Result\<close> kept as a value, for code that matches on it.\<close>

definition attempt :: "('s, 'e, 'a) op \<Rightarrow> ('s, 'f, 'e + 'a) op" where
  "attempt m s = (case m s of (r, s') \<Rightarrow> (Inr r, s'))"

definition reading :: "('s \<Rightarrow> 'a) \<Rightarrow> ('s, 'e, 'a) op" where
  "reading f s = (Inr (f s), s)"

definition update :: "('s \<Rightarrow> 's) \<Rightarrow> ('s, 'e, unit) op" where
  "update f s = (Inr (), f s)"

definition outcome :: "'e + 'a \<Rightarrow> ('s, 'e, 'a) op" where
  "outcome r s = (r, s)"

fun each :: "('a \<Rightarrow> ('s, 'e, unit) op) \<Rightarrow> 'a list \<Rightarrow> ('s, 'e, unit) op" where
  "each f [] s = ret () s"
| "each f (x # xs) s = thenE (f x) (each f xs) s"

fun folding :: "('b \<Rightarrow> 'a \<Rightarrow> ('s, 'e, 'b) op) \<Rightarrow> 'b \<Rightarrow> 'a list \<Rightarrow> ('s, 'e, 'b) op" where
  "folding f b [] s = ret b s"
| "folding f b (x # xs) s = bindE (f b x) (\<lambda>b'. folding f b' xs) s"

text \<open>The first element with a result, as a loop with an early return.\<close>

fun first_some :: "('a \<Rightarrow> ('s, 'e, 'b option) op) \<Rightarrow> 'a list \<Rightarrow> ('s, 'e, 'b option) op" where
  "first_some f [] s = ret None s"
| "first_some f (x # xs) s =
     bindE (f x) (\<lambda>r. case r of Some y \<Rightarrow> ret (Some y) | None \<Rightarrow> first_some f xs) s"

text \<open>The same equations without the state, for programs that are not run yet.\<close>

lemma each_eqs: "each f [] = ret ()" "each f (x # xs) = thenE (f x) (each f xs)"
  by (simp_all add: fun_eq_iff)

lemma folding_eqs: "folding f b [] = ret b" "folding f b (x # xs) = bindE (f b x) (\<lambda>b'. folding f b' xs)"
  by (simp_all add: fun_eq_iff)

lemma first_some_eqs:
  "first_some f [] = ret None"
  "first_some f (x # xs) = bindE (f x) (\<lambda>r. case r of Some y \<Rightarrow> ret (Some y) | None \<Rightarrow> first_some f xs)"
  by (simp_all add: fun_eq_iff)

section \<open>Reasoning about states\<close>

text \<open>Whatever the result, the state before and the state after are related.\<close>

definition keeps :: "('s \<Rightarrow> 's \<Rightarrow> bool) \<Rightarrow> ('s, 'e, 'a) op \<Rightarrow> bool" where
  "keeps R m \<longleftrightarrow> (\<forall>s. R s (snd (m s)))"

lemma keepsI: "(\<And>s. R s (snd (m s))) \<Longrightarrow> keeps R m"
  by (simp add: keeps_def)

lemma keepsD: "keeps R m \<Longrightarrow> R s (snd (m s))"
  by (simp add: keeps_def)

lemma keepsE: "\<lbrakk>keeps R m; m s = (r, s')\<rbrakk> \<Longrightarrow> R s s'"
  using keepsD [of R m s] by simp

text \<open>Control flow keeps a relation when its branches do.\<close>

lemma keeps_if: "\<lbrakk>c \<Longrightarrow> keeps R m; \<not> c \<Longrightarrow> keeps R n\<rbrakk> \<Longrightarrow> keeps R (if c then m else n)"
  by simp

lemma keeps_option:
  "\<lbrakk>x = None \<Longrightarrow> keeps R m; \<And>y. x = Some y \<Longrightarrow> keeps R (f y)\<rbrakk> \<Longrightarrow>
   keeps R (case x of None \<Rightarrow> m | Some y \<Rightarrow> f y)"
  by (cases x) auto

lemma keeps_sum:
  "\<lbrakk>\<And>e. x = Inl e \<Longrightarrow> keeps R (f e); \<And>y. x = Inr y \<Longrightarrow> keeps R (g y)\<rbrakk> \<Longrightarrow>
   keeps R (case x of Inl e \<Rightarrow> f e | Inr y \<Rightarrow> g y)"
  by (cases x) auto

lemma keeps_prod: "(\<And>a b. x = (a, b) \<Longrightarrow> keeps R (f a b)) \<Longrightarrow> keeps R (case x of (a, b) \<Rightarrow> f a b)"
  by (cases x) auto

lemma keeps_Let: "(\<And>y. y = x \<Longrightarrow> keeps R (f y)) \<Longrightarrow> keeps R (let y = x in f y)"
  by (simp add: Let_def)

lemmas keeps_control = keeps_if keeps_option keeps_sum keeps_prod keeps_Let

text \<open>
  A relation that holds over nothing and composes is respected by every program made of operations
  that respect it. An invariant \<open>I\<close> is the relation \<open>I s \<longrightarrow> I s'\<close>.
\<close>

locale step_relation =
  fixes R :: "'s \<Rightarrow> 's \<Rightarrow> bool"
  assumes same: "R s s" and comp: "\<lbrakk>R s t; R t u\<rbrakk> \<Longrightarrow> R s u"

context step_relation
begin

lemma ret_r: "keeps R (ret x)"
  by (simp add: keeps_def ret_def same)

lemma throw_r: "keeps R (throw e)"
  by (simp add: keeps_def throw_def same)

lemma reading_r: "keeps R (reading f)"
  by (simp add: keeps_def reading_def same)

lemma outcome_r: "keeps R (outcome r)"
  by (simp add: keeps_def outcome_def same)

lemma update_r: "(\<And>s. R s (f s)) \<Longrightarrow> keeps R (update f)"
  by (simp add: keeps_def update_def)

lemma bindE_r: "\<lbrakk>keeps R m; \<And>x. keeps R (f x)\<rbrakk> \<Longrightarrow> keeps R (bindE m f)"
proof (rule keepsI)
  fix s assume m: "keeps R m" and f: "\<And>x. keeps R (f x)"
  obtain r s' where ms: "m s = (r, s')" by (cases "m s")
  have "R s s'" by (rule keepsE [OF m ms])
  then show "R s (snd (bindE m f s))"
    using keepsD [OF f, of s'] by (cases r) (auto simp: bindE_def ms intro: comp)
qed

lemma thenE_r: "\<lbrakk>keeps R m; keeps R n\<rbrakk> \<Longrightarrow> keeps R (thenE m n)"
  by (simp add: thenE_def [abs_def] bindE_r)

lemma attempt_r: "keeps R m \<Longrightarrow> keeps R (attempt m)"
  unfolding keeps_def attempt_def by (metis (no_types, lifting) case_prod_beta snd_conv)

lemma each_r: "(\<And>x. x \<in> set xs \<Longrightarrow> keeps R (f x)) \<Longrightarrow> keeps R (each f xs)"
  by (induction xs) (auto simp only: each_eqs list.set_intros intro: thenE_r ret_r)

lemma folding_r: "(\<And>b x. x \<in> set xs \<Longrightarrow> keeps R (f b x)) \<Longrightarrow> keeps R (folding f b xs)"
  by (induction xs arbitrary: b) (auto simp only: folding_eqs list.set_intros intro: bindE_r ret_r)

lemma first_some_r: "(\<And>x. x \<in> set xs \<Longrightarrow> keeps R (f x)) \<Longrightarrow> keeps R (first_some f xs)"
  by (induction xs) (auto simp only: first_some_eqs list.set_intros intro!: bindE_r ret_r keeps_option)

lemmas steps = ret_r throw_r reading_r outcome_r bindE_r thenE_r attempt_r each_r folding_r first_some_r

end

section \<open>Reasoning about results\<close>

text \<open>Running a program, one equation per way it can go.\<close>

lemma run_ret [simp]: "ret x s = (Inr x, s)"
  by (simp add: ret_def)

lemma run_throw [simp]: "throw e s = (Inl e, s)"
  by (simp add: throw_def)

lemma run_reading [simp]: "reading f s = (Inr (f s), s)"
  by (simp add: reading_def)

lemma run_update [simp]: "update f s = (Inr (), f s)"
  by (simp add: update_def)

lemma run_outcome [simp]: "outcome r s = (r, s)"
  by (simp add: outcome_def)

lemma bindE_Inr: "bindE m f s = (Inr y, u) \<longleftrightarrow> (\<exists>x t. m s = (Inr x, t) \<and> f x t = (Inr y, u))"
  by (auto simp: bindE_def split: prod.splits sum.splits)

lemma bindE_Inl:
  "bindE m f s = (Inl e, u) \<longleftrightarrow> m s = (Inl e, u) \<or> (\<exists>x t. m s = (Inr x, t) \<and> f x t = (Inl e, u))"
  by (auto simp: bindE_def split: prod.splits sum.splits)

lemma thenE_Inr: "thenE m n s = (Inr y, u) \<longleftrightarrow> (\<exists>x t. m s = (Inr x, t) \<and> n t = (Inr y, u))"
  by (simp add: thenE_def bindE_Inr)

lemma thenE_Inl: "thenE m n s = (Inl e, u) \<longleftrightarrow> m s = (Inl e, u) \<or> (\<exists>x t. m s = (Inr x, t) \<and> n t = (Inl e, u))"
  by (simp add: thenE_def bindE_Inl)

lemma attempt_iff: "attempt m s = (r, t) \<longleftrightarrow> (\<exists>q. m s = (q, t) \<and> r = Inr q)"
  by (auto simp: attempt_def split: prod.splits)

lemmas run_simps = bindE_Inr bindE_Inl thenE_Inr thenE_Inl attempt_iff

text \<open>Stepping through a program whose first operation has been run.\<close>

lemma bindE_ok: "m s = (Inr x, t) \<Longrightarrow> bindE m f s = f x t"
  and bindE_err: "m s = (Inl e, t) \<Longrightarrow> bindE m f s = (Inl e, t)"
  and thenE_ok: "m s = (Inr x, t) \<Longrightarrow> thenE m n s = n t"
  and thenE_err: "m s = (Inl e, t) \<Longrightarrow> thenE m n s = (Inl e, t)"
  and bindE_attempt: "m s = (r, t) \<Longrightarrow> bindE (attempt m) g s = g r t"
  and thenE_attempt: "m s = (r, t) \<Longrightarrow> thenE (attempt m) n s = n t"
  by (simp_all add: bindE_def thenE_def attempt_def)

lemmas runs = bindE_ok bindE_err thenE_ok thenE_err bindE_attempt thenE_attempt

lemma bindE_eq: "(\<And>x t. m s = (Inr x, t) \<Longrightarrow> f x t = g x t) \<Longrightarrow> bindE m f s = bindE m g s"
  by (auto simp: bindE_def split: prod.splits sum.splits)

lemma thenE_eq: "(\<And>x t. m s = (Inr x, t) \<Longrightarrow> f t = g t) \<Longrightarrow> thenE m f s = thenE m g s"
  by (auto simp: thenE_def intro!: bindE_eq)

lemma if_eq: "\<lbrakk>c \<Longrightarrow> m s = m' s; \<not> c \<Longrightarrow> n s = n' s\<rbrakk> \<Longrightarrow> (if c then m else n) s = (if c then m' else n') s"
  by simp

lemma option_eq:
  "\<lbrakk>x = None \<Longrightarrow> m s = m' s; \<And>y. x = Some y \<Longrightarrow> f y s = f' y s\<rbrakk> \<Longrightarrow>
   (case x of None \<Rightarrow> m | Some y \<Rightarrow> f y) s = (case x of None \<Rightarrow> m' | Some y \<Rightarrow> f' y) s"
  by (cases x) auto

lemma prod_eq: "(\<And>a b. x = (a, b) \<Longrightarrow> f a b s = f' a b s) \<Longrightarrow> (case x of (a, b) \<Rightarrow> f a b) s = (case x of (a, b) \<Rightarrow> f' a b) s"
  by (cases x) auto

lemmas eq_control = if_eq option_eq prod_eq bindE_eq thenE_eq

lemma bindE_assoc: "bindE (bindE m f) g = bindE m (\<lambda>x. bindE (f x) g)"
  by (rule ext) (simp add: bindE_def split: prod.splits sum.splits)

lemma thenE_assoc: "thenE (thenE m n) k = thenE m (thenE n k)"
  by (simp add: thenE_def [abs_def] bindE_assoc)

text \<open>
  From a state satisfying \<open>P\<close>, whatever the result, the states before and after are related by \<open>R\<close>,
  and a value that is returned satisfies \<open>Q\<close> with the state it is returned in.
\<close>

definition guarded :: "('s \<Rightarrow> bool) \<Rightarrow> ('s \<Rightarrow> 's \<Rightarrow> bool) \<Rightarrow> ('s, 'e, 'a) op \<Rightarrow> ('a \<Rightarrow> 's \<Rightarrow> bool) \<Rightarrow> bool" where
  "guarded P R m Q \<longleftrightarrow> (\<forall>s r t. P s \<longrightarrow> m s = (r, t) \<longrightarrow> R s t \<and> (\<forall>x. r = Inr x \<longrightarrow> Q x t))"

lemma guardedI:
  "(\<And>s r t. \<lbrakk>P s; m s = (r, t)\<rbrakk> \<Longrightarrow> R s t \<and> (\<forall>x. r = Inr x \<longrightarrow> Q x t)) \<Longrightarrow> guarded P R m Q"
  by (simp add: guarded_def)

lemma guardedD:
  "\<lbrakk>guarded P R m Q; P s; m s = (r, t)\<rbrakk> \<Longrightarrow> R s t \<and> (\<forall>x. r = Inr x \<longrightarrow> Q x t)"
  by (simp add: guarded_def)

lemma guarded_pre: "\<lbrakk>guarded P R m Q; \<And>s. P' s \<Longrightarrow> P s\<rbrakk> \<Longrightarrow> guarded P' R m Q"
  unfolding guarded_def by blast

lemma guarded_post: "\<lbrakk>guarded P R m Q; \<And>x s. Q x s \<Longrightarrow> Q' x s\<rbrakk> \<Longrightarrow> guarded P R m Q'"
  unfolding guarded_def by blast

lemma guarded_rel: "\<lbrakk>guarded P R m Q; \<And>s t. R s t \<Longrightarrow> R' s t\<rbrakk> \<Longrightarrow> guarded P R' m Q"
  unfolding guarded_def by blast

lemma guarded_keeps: "keeps R m \<Longrightarrow> guarded P R m (\<lambda>_ _. True)"
  by (auto simp: guarded_def dest: keepsE)

lemma keeps_guarded: "guarded (\<lambda>_. True) R m Q \<Longrightarrow> keeps R m"
  unfolding guarded_def keeps_def by (metis prod.collapse)

text \<open>What holds before also holds after, when the relation keeps it.\<close>

lemma guarded_frame:
  "\<lbrakk>guarded P R m Q; \<And>s t. \<lbrakk>R s t; F s\<rbrakk> \<Longrightarrow> F t; \<And>s. P s \<Longrightarrow> F s\<rbrakk> \<Longrightarrow> guarded P R m (\<lambda>x s. Q x s \<and> F s)"
  unfolding guarded_def by blast

lemma guarded_if:
  "\<lbrakk>c \<Longrightarrow> guarded P R m Q; \<not> c \<Longrightarrow> guarded P R n Q\<rbrakk> \<Longrightarrow> guarded P R (if c then m else n) Q"
  by simp

lemma guarded_option:
  "\<lbrakk>x = None \<Longrightarrow> guarded P R m Q; \<And>y. x = Some y \<Longrightarrow> guarded P R (f y) Q\<rbrakk> \<Longrightarrow>
   guarded P R (case x of None \<Rightarrow> m | Some y \<Rightarrow> f y) Q"
  by (cases x) auto

lemma guarded_sum:
  "\<lbrakk>\<And>e. x = Inl e \<Longrightarrow> guarded P R (f e) Q; \<And>y. x = Inr y \<Longrightarrow> guarded P R (g y) Q\<rbrakk> \<Longrightarrow>
   guarded P R (case x of Inl e \<Rightarrow> f e | Inr y \<Rightarrow> g y) Q"
  by (cases x) auto

lemma guarded_prod: "(\<And>a b. x = (a, b) \<Longrightarrow> guarded P R (f a b) Q) \<Longrightarrow> guarded P R (case x of (a, b) \<Rightarrow> f a b) Q"
  by (cases x) auto

lemma guarded_Let: "(\<And>y. y = x \<Longrightarrow> guarded P R (f y) Q) \<Longrightarrow> guarded P R (let y = x in f y) Q"
  by (simp add: Let_def)

lemmas guarded_control = guarded_if guarded_option guarded_sum guarded_prod guarded_Let

context step_relation
begin

lemma ret_g: "(\<And>s. P s \<Longrightarrow> Q x s) \<Longrightarrow> guarded P R (ret x) Q"
  by (simp add: guarded_def same)

lemma throw_g: "guarded P R (throw e) Q"
  by (simp add: guarded_def same)

lemma reading_g: "(\<And>s. P s \<Longrightarrow> Q (f s) s) \<Longrightarrow> guarded P R (reading f) Q"
  by (simp add: guarded_def same)

lemma outcome_g: "(\<And>s x. \<lbrakk>P s; r = Inr x\<rbrakk> \<Longrightarrow> Q x s) \<Longrightarrow> guarded P R (outcome r) Q"
  by (simp add: guarded_def same)

lemma update_g: "\<lbrakk>\<And>s. P s \<Longrightarrow> R s (f s); \<And>s. P s \<Longrightarrow> Q () (f s)\<rbrakk> \<Longrightarrow> guarded P R (update f) Q"
  by (simp add: guarded_def)

lemma bindE_g: "\<lbrakk>guarded P R m B; \<And>x. guarded (B x) R (f x) Q\<rbrakk> \<Longrightarrow> guarded P R (bindE m f) Q"
proof (rule guardedI)
  fix s r t
  assume m: "guarded P R m B" and f: "\<And>x. guarded (B x) R (f x) Q" and P: "P s" and run: "bindE m f s = (r, t)"
  obtain q u where ms: "m s = (q, u)" by (cases "m s")
  note M = guardedD [OF m P ms]
  show "R s t \<and> (\<forall>x. r = Inr x \<longrightarrow> Q x t)"
  proof (cases q)
    case (Inl e)
    with run ms M show ?thesis by (auto simp: runs)
  next
    case (Inr x)
    with run ms M have "B x u" "f x u = (r, t)" by (auto simp: runs)
    from guardedD [OF f this] M show ?thesis by (blast intro: comp)
  qed
qed

lemma reading_then_g: "(\<And>x. guarded P R (g x) Q) \<Longrightarrow> guarded P R (bindE (reading f) g) Q"
  by (simp add: guarded_def bindE_def)

lemma attempt_true_g: "guarded P R m Q \<Longrightarrow> guarded P R (attempt m) (\<lambda>_ _. True)"
  unfolding guarded_def attempt_iff by auto

lemma attempt_any_g: "guarded P R m (\<lambda>x s. B s) \<Longrightarrow> guarded P R (attempt m) (\<lambda>r s. \<forall>x. r = Inr x \<longrightarrow> B s)"
  unfolding guarded_def attempt_iff by auto

lemma thenE_g: "\<lbrakk>guarded P R m (\<lambda>_. B); guarded B R n Q\<rbrakk> \<Longrightarrow> guarded P R (thenE m n) Q"
  unfolding thenE_def [abs_def] by (rule bindE_g)

lemma attempt_g:
  "\<lbrakk>guarded P R m (\<lambda>x. B (Inr x)); \<And>s t e. \<lbrakk>P s; m s = (Inl e, t)\<rbrakk> \<Longrightarrow> B (Inl e) t\<rbrakk> \<Longrightarrow> guarded P R (attempt m) B"
  unfolding guarded_def attempt_iff by (metis obj_sumE sum.inject(2))

lemma each_g:
  assumes "\<And>x. x \<in> set xs \<Longrightarrow> guarded P R (f x) (\<lambda>_. P)"
  shows "guarded P R (each f xs) (\<lambda>_. P)"
  using assms
proof (induction xs)
  case Nil
  show ?case unfolding each_eqs by (rule ret_g) auto
next
  case (Cons x xs)
  then show ?case unfolding each_eqs by (intro thenE_g [where B = P]) auto
qed

lemma folding_g:
  assumes "\<And>b x. x \<in> set xs \<Longrightarrow> guarded (P b) R (f b x) P"
  shows "guarded (P b) R (folding f b xs) P"
  using assms
proof (induction xs arbitrary: b)
  case Nil
  show ?case unfolding folding_eqs by (rule ret_g) auto
next
  case (Cons x xs)
  then show ?case unfolding folding_eqs by (intro bindE_g [where B = P]) auto
qed

lemma first_some_g:
  assumes "\<And>x. x \<in> set xs \<Longrightarrow> guarded P R (f x) (\<lambda>r s. P s \<and> (\<forall>y. r = Some y \<longrightarrow> Q y s))"
  shows "guarded P R (first_some f xs) (\<lambda>r s. P s \<and> (\<forall>y. r = Some y \<longrightarrow> Q y s))"
  using assms
proof (induction xs)
  case Nil
  show ?case unfolding first_some_eqs by (rule ret_g) auto
next
  case (Cons x xs)
  show ?case unfolding first_some_eqs
  proof (rule bindE_g [where B = "\<lambda>r s. P s \<and> (\<forall>y. r = Some y \<longrightarrow> Q y s)"])
    fix r
    show "guarded (\<lambda>s. P s \<and> (\<forall>y. r = Some y \<longrightarrow> Q y s)) R
        (case r of None \<Rightarrow> first_some f xs | Some y \<Rightarrow> ret (Some y)) (\<lambda>r s. P s \<and> (\<forall>y. r = Some y \<longrightarrow> Q y s))"
      using Cons by (cases r) (auto intro: ret_g guarded_pre)
  qed (use Cons.prems in auto)
qed

end

end
