(* ===== verification/FileSystem.thy ===== *)
theory FileSystem
  imports Effects Paths BTreeMap
begin

text \<open>
  The file system a replica works on, as the standard library's calls see it: a tree of named nodes,
  and the staging directory. Every call may fail for a reason of its own (a disk error, a
  permission), whenever the oracle says so; it then has no effect, except that a copy may leave a
  part behind. Calls see the tree as the replica left it: nothing else changes it while one
  operation runs.
\<close>

section \<open>The environment\<close>

text \<open>
  What the code does not decide. The \<open>k\<close>-th effect consults \<open>io_fails k\<close>; \<open>read_sizes\<close> is how much
  each read of a file gave; \<open>clock_ms\<close> and \<open>clock_ns\<close> are the two clocks and
  \<open>fresh_id\<close> the UUIDs that are made. SHA-256, grain-ids,
  the gitignore matcher and Unicode lower-casing belong to other crates. The rest is the
  \<open>ReplicaConfig\<close> of \<open>replica.rs\<close> and the compile-time target.
\<close>

record env =
  io_fails :: "nat \<Rightarrow> bool"
  read_sizes :: "nat \<Rightarrow> nat list"
  clock_ms :: "nat \<Rightarrow> u64"
  clock_ns :: "nat \<Rightarrow> int"
  other_volume :: bool
  process_id :: nat
  sha :: "bytes \<Rightarrow> content_hash"
  from_byte_suffix :: "40 word \<Rightarrow> nat"
  show_grain :: "nat \<Rightarrow> string"
  fresh_id :: "nat \<Rightarrow> 128 word"
  gitignore :: "bytes \<Rightarrow> (native_path \<Rightarrow> bool \<Rightarrow> bool) option"
  lowercase :: "string \<Rightarrow> string"
  windows :: bool
  case_insensitive :: bool
  app_name :: string
  ws_root :: native_path
  device_id :: nat
  max_file_size :: u64

section \<open>Nodes\<close>

text \<open>
  A regular file has its bytes and its modification time in nanoseconds since the epoch. A symbolic
  link shows the regular file it leads to, or nothing usable.
\<close>

datatype node = RegFile bytes int | Directory | Symlink "(bytes \<times> int) option"

text \<open>
  \<open>next_partial\<close> is the counter of \<open>staging.rs\<close> that is global to the process; \<open>step_no\<close> numbers the
  effects.
\<close>

record disk =
  tree :: "(native_path, node) btmap"
  staging :: "(string, bytes \<times> int) btmap"
  next_partial :: u64
  step_no :: nat

definition file_len :: "bytes \<Rightarrow> u64" where
  "file_len b = word_of_nat (length b)"

section \<open>Calls\<close>

definition io_op :: "env \<Rightarrow> ('a disk_scheme, unit) eff" where
  "io_op E s =
     (if io_fails E (step_no s) then Inl (Io OtherIo) else Inr (), s\<lparr>step_no := step_no s + 1\<rparr>)"

definition io_result :: "io_kind + 'b \<Rightarrow> ('s, 'b) eff" where
  "io_result r s = ((case r of Inl k \<Rightarrow> throw (Io k) | Inr x \<Rightarrow> ret x)) s"

text \<open>The directories a path goes through.\<close>

definition ancestors :: "native_path \<Rightarrow> native_path list" where
  "ancestors p = map (\<lambda>n. take n p) [1 ..< length p]"

definition stat :: "(native_path, node) btmap \<Rightarrow> native_path \<Rightarrow> io_kind + node" where
  "stat t p =
     (case find (\<lambda>q. bt_get t q \<noteq> Some Directory) (ancestors p) of
        Some q \<Rightarrow> Inl (if bt_get t q = None then NotFound else NotADirectory)
      | None \<Rightarrow> (case bt_get t p of None \<Rightarrow> Inl NotFound | Some n \<Rightarrow> Inr n))"

definition follow :: "node \<Rightarrow> io_kind + node" where
  "follow n = (case n of Symlink None \<Rightarrow> Inl NotFound | Symlink (Some (b, t)) \<Rightarrow> Inr (RegFile b t) | n \<Rightarrow> Inr n)"

text \<open>\<open>fs::symlink_metadata\<close> and \<open>fs::metadata\<close>: the node itself, or what a link leads to.\<close>

definition symlink_metadata :: "env \<Rightarrow> native_path \<Rightarrow> ('a disk_scheme, node) eff" where
  "symlink_metadata E p s = (thenE (io_op E) (bindE (reading (\<lambda>s. stat (tree s) p)) io_result)) s"

definition metadata :: "env \<Rightarrow> native_path \<Rightarrow> ('a disk_scheme, node) eff" where
  "metadata E p s = (bindE (symlink_metadata E p) (\<lambda>n. io_result (follow n))) s"

text \<open>Opening a file and reading it to the end.\<close>

definition read_file :: "env \<Rightarrow> native_path \<Rightarrow> ('a disk_scheme, bytes) eff" where
  "read_file E p s = (bindE (metadata E p) (\<lambda>n. case n of RegFile b _ \<Rightarrow> ret b | _ \<Rightarrow> throw (Io IsADirectory))) s"

definition hash_of_file :: "env \<Rightarrow> native_path \<Rightarrow> ('a disk_scheme, content_hash) eff" where
  "hash_of_file E p s = (bindE (reading step_no) (\<lambda>k. bindE (read_file E p) (\<lambda>b.
     ret (of_file (sha E) (read_sizes E k) b)))) s"

text \<open>\<open>Path::is_dir\<close>: a failure reads as no directory.\<close>

definition is_dir :: "env \<Rightarrow> native_path \<Rightarrow> ('a disk_scheme, bool) eff" where
  "is_dir E p s = (bindE (attempt (metadata E p)) (\<lambda>r. ret (case r of Inr Directory \<Rightarrow> True | _ \<Rightarrow> False))) s"

definition set_node :: "native_path \<Rightarrow> node \<Rightarrow> ('a disk_scheme, unit) eff" where
  "set_node p n s = (update (\<lambda>s. s\<lparr>tree := bt_insert p n (tree s)\<rparr>)) s"

definition mkdir :: "env \<Rightarrow> native_path \<Rightarrow> ('a disk_scheme, unit) eff" where
  "mkdir E p s = (thenE (io_op E) (bindE (reading (\<lambda>s. bt_get (tree s) p)) (\<lambda>n. case n of
     None \<Rightarrow> set_node p Directory
   | Some Directory \<Rightarrow> ret ()
   | Some _ \<Rightarrow> throw (Io NotADirectory)))) s"

definition create_dir_all :: "env \<Rightarrow> native_path \<Rightarrow> ('a disk_scheme, unit) eff" where
  "create_dir_all E p s = (each (mkdir E) (ancestors p @ (if p = [] then [] else [p]))) s"

text \<open>Whether a file can be put at a path: its directory is there and no directory has its name.\<close>

definition placeable :: "(native_path, node) btmap \<Rightarrow> native_path \<Rightarrow> io_kind + unit" where
  "placeable t p = (case stat t p of
     Inr Directory \<Rightarrow> Inl IsADirectory
   | Inr _ \<Rightarrow> Inr ()
   | Inl NotFound \<Rightarrow>
       if list_all (\<lambda>q. bt_get t q = Some Directory) (ancestors p) then Inr () else Inl NotFound
   | Inl k \<Rightarrow> Inl k)"

text \<open>\<open>fs::rename\<close> of a staged file into the tree.\<close>

definition rename_staged :: "env \<Rightarrow> string \<Rightarrow> native_path \<Rightarrow> ('a disk_scheme, unit) eff" where
  "rename_staged E name dest s = 
     (thenE (io_op E)
    (if other_volume E then throw (Io CrossesDevices)
     else bindE (reading (\<lambda>s. placeable (tree s) dest)) (\<lambda>ok.
          thenE (io_result ok)
         (bindE (reading (\<lambda>s. bt_get (staging s) name)) (\<lambda>f. case f of
            None \<Rightarrow> throw (Io NotFound)
          | Some (b, t) \<Rightarrow> thenE (set_node dest (RegFile b t))
              (update (\<lambda>s. s\<lparr>staging := bt_remove name (staging s)\<rparr>))))))) s"

text \<open>\<open>fs::copy\<close> of a staged file: a failure may leave a part of it.\<close>

definition copy_staged :: "env \<Rightarrow> string \<Rightarrow> native_path \<Rightarrow> ('a disk_scheme, unit) eff" where
  "copy_staged E name dest s = 
     (bindE (reading (\<lambda>s. (bt_get (staging s) name, placeable (tree s) dest, step_no s))) (\<lambda>(f, ok, k).
       case (f, ok) of
         (Some (b, _), Inr _) \<Rightarrow> bindE (attempt (io_op E)) (\<lambda>r. case r of
            Inr _ \<Rightarrow> set_node dest (RegFile b (clock_ns E k))
          | Inl e \<Rightarrow> (case read_sizes E k of
              [] \<Rightarrow> throw e
            | n # _ \<Rightarrow> thenE (set_node dest (RegFile (take n b) (clock_ns E k))) (throw e)))
       | (None, _) \<Rightarrow> throw (Io NotFound)
       | (_, Inl k) \<Rightarrow> throw (Io k))) s"

text \<open>\<open>fs::rename\<close> within the tree, of a regular file.\<close>

definition rename_file :: "env \<Rightarrow> native_path \<Rightarrow> native_path \<Rightarrow> ('a disk_scheme, unit) eff" where
  "rename_file E src dest s = 
     (thenE (io_op E)
    (bindE (reading (\<lambda>s. placeable (tree s) dest)) (\<lambda>ok. thenE (io_result ok)
    (bindE (reading (\<lambda>s. stat (tree s) src)) (\<lambda>n. case n of
       Inr (RegFile b t) \<Rightarrow>
         update (\<lambda>s. s\<lparr>tree := bt_insert dest (RegFile b t) (bt_remove src (tree s))\<rparr>)
     | Inr _ \<Rightarrow> throw (Io OtherIo)
     | Inl k \<Rightarrow> throw (Io k)))))) s"

definition remove_file :: "env \<Rightarrow> native_path \<Rightarrow> ('a disk_scheme, unit) eff" where
  "remove_file E p s = (bindE (symlink_metadata E p) (\<lambda>n.
     if n = Directory then throw (Io IsADirectory)
     else update (\<lambda>s. s\<lparr>tree := bt_remove p (tree s)\<rparr>))) s"

text \<open>\<open>sync_parent\<close> of \<open>replica.rs\<close>: the parent is opened and synced, on Unix only.\<close>

definition sync_parent :: "env \<Rightarrow> native_path \<Rightarrow> ('a disk_scheme, unit) eff" where
  "sync_parent E p s = ((if windows E \<or> p = [] then ret () else io_op E)) s"

text \<open>
  \<open>place\<close> of \<open>replica.rs\<close>: rename the staged file into place; across volumes, copy it beside the
  destination and rename that. The name of the temporary file is the destination's, hidden.
\<close>

definition tmp_of :: "native_path \<Rightarrow> native_path" where
  "tmp_of dest = butlast dest @ [''.'' @ (if dest = [] then '''' else last dest) @ ''.sapphire-tmp'']"

definition place :: "env \<Rightarrow> string \<Rightarrow> native_path \<Rightarrow> ('a disk_scheme, unit) eff" where
  "place E name dest s = 
     (thenE (if dest = [] then ret () else create_dir_all E (butlast dest))
    (bindE (attempt (rename_staged E name dest)) (\<lambda>r. case r of
       Inr _ \<Rightarrow> sync_parent E dest
     | Inl e \<Rightarrow>
         if e \<noteq> Io CrossesDevices then throw e
         else let tmp = tmp_of dest in
           bindE (attempt (thenE (copy_staged E name tmp) (thenE (io_op E) (rename_file E tmp dest)))) (\<lambda>copied.
             case copied of
               Inl e \<Rightarrow> thenE (attempt (remove_file E tmp)) (throw e)
             | Inr _ \<Rightarrow> thenE (sync_parent E dest)
                 (thenE (attempt (thenE (io_op E) (update (\<lambda>s. s\<lparr>staging := bt_remove name (staging s)\<rparr>))))
                  (ret ())))))) s"

section \<open>Laws of the tree\<close>

lemma stat_Inr: "stat t p = Inr n \<longleftrightarrow> bt_get t p = Some n \<and> list_all (\<lambda>q. bt_get t q = Some Directory) (ancestors p)"
proof (cases "find (\<lambda>q. bt_get t q \<noteq> Some Directory) (ancestors p)")
  case None
  then have "list_all (\<lambda>q. bt_get t q = Some Directory) (ancestors p)"
    by (auto simp: find_None_iff list_all_iff)
  with None show ?thesis by (simp add: stat_def split: option.splits)
next
  case (Some q)
  then have "\<not> list_all (\<lambda>q. bt_get t q = Some Directory) (ancestors p)"
    by (auto simp: find_Some_iff list_all_iff intro!: bexI [of _ q])
  with Some show ?thesis by (simp add: stat_def)
qed

lemma stat_NotFound: "bt_get t p = Some n \<Longrightarrow> list_all (\<lambda>q. bt_get t q = Some Directory) (ancestors p) \<Longrightarrow> stat t p \<noteq> Inl NotFound"
  by (metis Inl_Inr_False stat_Inr)

lemma follow_file: "follow n = Inr (RegFile b t) \<longleftrightarrow> n = RegFile b t \<or> n = Symlink (Some (b, t))"
  by (auto simp: follow_def split: node.splits option.splits)

lemma ancestors_shorter: "q \<in> set (ancestors p) \<Longrightarrow> length q < length p"
  by (auto simp: ancestors_def)

lemma tmp_of_ne: "p \<noteq> [] \<Longrightarrow> tmp_of p \<noteq> p"
proof
  assume "p \<noteq> []" "tmp_of p = p"
  then have "last (tmp_of p) = last p" by simp
  then have "''.'' @ last p @ ''.sapphire-tmp'' = last p" using \<open>p \<noteq> []\<close> by (simp add: tmp_of_def)
  then have "length (''.'' @ last p @ ''.sapphire-tmp'') = length (last p)" by metis
  then show False by simp
qed

text \<open>Everything a concrete run unfolds.\<close>

lemmas fs_eval = bindE_def thenE_def attempt_def io_op_def io_result_def stat_def ancestors_def follow_def
  symlink_metadata_def metadata_def read_file_def hash_of_file_def is_dir_def set_node_def mkdir_def
  create_dir_all_def placeable_def rename_staged_def copy_staged_def rename_file_def remove_file_def
  sync_parent_def tmp_of_def place_def file_len_def upt_rec Let_def bt_has_def

end
