(* ===== verification/Staging.thy ===== *)
theory Staging
  imports FileSystem
begin

text \<open>
  Verified staging of incoming content (\<open>sapphire-framework-sync/src/staging.rs\<close>): bytes go into a
  partial file of their own, are checked against the announced length and hash, and are renamed to
  the hash. A file named by a bare hash is therefore always the content of that hash.
\<close>

section \<open>Partial files\<close>

definition partial_name :: "env \<Rightarrow> u64 \<Rightarrow> content_hash \<Rightarrow> string" where
  "partial_name E n h = to_hex h @ ''.'' @ show_nat (process_id E) @ ''-'' @ show_nat (unat n) @ ''.partial''"

definition fetch_next_partial :: "('a disk_scheme, u64) eff" where
  "fetch_next_partial s = (Inr (next_partial s), s\<lparr>next_partial := next_partial s + 1\<rparr>)"

definition put_staged :: "string \<Rightarrow> bytes \<times> int \<Rightarrow> ('a disk_scheme, unit) eff" where
  "put_staged name f s = (update (\<lambda>s. s\<lparr>staging := bt_insert name f (staging s)\<rparr>)) s"

definition drop_staged :: "string \<Rightarrow> ('a disk_scheme, unit) eff" where
  "drop_staged name s = (update (\<lambda>s. s\<lparr>staging := bt_remove name (staging s)\<rparr>)) s"

text \<open>
  \<open>create_partial\<close>: numbers are tried until a name is free. One more try than there are files is
  enough, because the names differ.
\<close>

fun create_partial_tries :: "env \<Rightarrow> nat \<Rightarrow> content_hash \<Rightarrow> ('a disk_scheme, string) eff" where
  "create_partial_tries E 0 h s = throw OutOfFuel s"
| "create_partial_tries E (Suc k) h s =
     (bindE fetch_next_partial (\<lambda>n. thenE (io_op E)
    (bindE (reading (\<lambda>s. (staging s, clock_ns E (step_no s)))) (\<lambda>(files, now).
       if bt_has files (partial_name E n h) then create_partial_tries E k h
       else thenE (put_staged (partial_name E n h) ([], now)) (ret (partial_name E n h)))))) s"

definition create_partial :: "env \<Rightarrow> content_hash \<Rightarrow> ('a disk_scheme, string) eff" where
  "create_partial E h s = (bindE (reading (\<lambda>s. size (staging s))) (\<lambda>k. create_partial_tries E (Suc k) h)) s"

section \<open>The writer\<close>

record staging_writer =
  w_hasher :: hasher
  w_written :: u64
  w_len :: u64
  w_hash :: content_hash
  w_partial :: string

definition w_dest :: "staging_writer \<Rightarrow> string" where
  "w_dest w = to_hex (w_hash w)"

text \<open>\<open>Stager::writer\<close> of a stager with the limit \<open>limit\<close>.\<close>

definition stager_writer :: "env \<Rightarrow> u64 \<Rightarrow> content_hash \<Rightarrow> u64 \<Rightarrow> ('a disk_scheme, staging_writer) eff" where
  "stager_writer E limit h len s = 
     ((if len > limit then throw (TooLarge len limit)
      else thenE (io_op E) (bindE (create_partial E h) (\<lambda>partial.
        ret \<lparr>w_hasher = hasher_new, w_written = 0, w_len = len, w_hash = h, w_partial = partial\<rparr>)))) s"

text \<open>\<open>Stager::staged\<close>: \<open>is_file\<close> is false when the call fails.\<close>

definition staged :: "env \<Rightarrow> content_hash \<Rightarrow> ('a disk_scheme, string option) eff" where
  "staged E h s = (bindE (attempt (io_op E)) (\<lambda>r. reading (\<lambda>s.
     if r = Inr () \<and> bt_has (staging s) (to_hex h) then Some (to_hex h) else None))) s"

text \<open>
  \<open>StagingWriter::write\<close>. A failing write may have appended a part of the piece; the hasher and the
  count are then left as they were.
\<close>

definition writer_write :: "env \<Rightarrow> staging_writer \<Rightarrow> bytes \<Rightarrow> ('a disk_scheme, staging_writer) eff" where
  "writer_write E w bs s = 
     ((let total = sat_add (w_written w) (file_len bs) in
      if total > w_len w then throw (TooLarge total (w_len w))
      else bindE (reading (\<lambda>s. (bt_get (staging s) (w_partial w), step_no s))) (\<lambda>(f, k).
        let (old, now) = (case f of Some (b, _) \<Rightarrow> b | None \<Rightarrow> [], clock_ns E k) in
        bindE (attempt (io_op E)) (\<lambda>r. case r of
          Inl e \<Rightarrow> thenE (put_staged (w_partial w) (old @ take (sum_list (read_sizes E k)) bs, now)) (throw e)
        | Inr _ \<Rightarrow> thenE (put_staged (w_partial w) (old @ bs, now))
            (ret (w\<lparr>w_hasher := hasher_update (w_hasher w) bs, w_written := total\<rparr>)))))) s"

text \<open>\<open>Drop\<close> of an unfinished writer: its partial file goes, if it can be removed.\<close>

definition writer_drop :: "env \<Rightarrow> staging_writer \<Rightarrow> ('a disk_scheme, unit) eff" where
  "writer_drop E w s = (bindE (attempt (io_op E)) (\<lambda>r.
     if r = Inr () then drop_staged (w_partial w) else ret ())) s"

text \<open>\<open>fs::rename\<close> of the partial file to the hash.\<close>

definition rename_partial :: "env \<Rightarrow> staging_writer \<Rightarrow> ('a disk_scheme, unit) eff" where
  "rename_partial E w s = (thenE (io_op E) (bindE (reading (\<lambda>s. bt_get (staging s) (w_partial w))) (\<lambda>f. case f of
     None \<Rightarrow> throw (Io NotFound)
   | Some f \<Rightarrow> thenE (drop_staged (w_partial w)) (put_staged (w_dest w) f)))) s"

text \<open>\<open>StagingWriter::finish\<close>: the writer is consumed, and dropped unless the rename went through.\<close>

definition writer_finish :: "env \<Rightarrow> staging_writer \<Rightarrow> ('a disk_scheme, string) eff" where
  "writer_finish E w s = 
     ((if w_written w \<noteq> w_len w \<or> hasher_finish (sha E) (w_hasher w) \<noteq> w_hash w
      then thenE (writer_drop E w) (throw (ContentMismatch (w_hash w)))
      else bindE (attempt (io_op E)) (\<lambda>synced. case synced of
        Inl e \<Rightarrow> thenE (writer_drop E w) (throw e)
      | Inr _ \<Rightarrow> bindE (attempt (rename_partial E w)) (\<lambda>renamed. case renamed of
          Inr _ \<Rightarrow> ret (w_dest w)
        | Inl e \<Rightarrow> bindE (staged E (w_hash w)) (\<lambda>there. thenE (writer_drop E w)
            (if there = None then throw e else ret (w_dest w))))))) s"

section \<open>The directory\<close>

text \<open>\<open>Path::extension\<close> of a file name.\<close>

definition extension :: "string \<Rightarrow> string option" where
  "extension name = (case rsplit_at CHR ''.'' name of
     Some (l, r) \<Rightarrow> if l = '''' then None else Some r
   | None \<Rightarrow> None)"

text \<open>\<open>clear_partials\<close> and \<open>finished\<close>; the order of a directory listing is the order of names.\<close>

definition clear_partials :: "env \<Rightarrow> ('a disk_scheme, unit) eff" where
  "clear_partials E s = (thenE (io_op E) (bindE (reading (\<lambda>s. bt_keys (staging s))) (each (\<lambda>name.
     thenE (io_op E) (if extension name = Some ''partial''
       then thenE (io_op E) (drop_staged name) else ret ()))))) s"

definition finished_in :: "(string, bytes \<times> int) btmap \<Rightarrow> (content_hash \<times> string \<times> bytes \<times> int) list" where
  "finished_in files = concat (map (\<lambda>(name, f). case hash_from_str name of
     None \<Rightarrow> [] | Some h \<Rightarrow> [(h, name, f)]) (entries files))"

definition finished :: "env \<Rightarrow> ('a disk_scheme, (content_hash \<times> string \<times> bytes \<times> int) list) eff" where
  "finished E s = (thenE (io_op E) (reading (\<lambda>s. finished_in (staging s)))) s"

section \<open>Copying a file into the staging directory\<close>

text \<open>Where content is copied from: the workspace, the staging directory, or a file of a peer's.\<close>

datatype place_of = InTree native_path | InStaging string | Foreign bytes

definition open_at :: "env \<Rightarrow> place_of \<Rightarrow> ('a disk_scheme, bytes) eff" where
  "open_at E from s = ((case from of
     InTree p \<Rightarrow> read_file E p
   | InStaging name \<Rightarrow> thenE (io_op E) (bindE (reading (\<lambda>s. bt_get (staging s) name)) (\<lambda>f. case f of
       None \<Rightarrow> throw (Io NotFound) | Some (b, _) \<Rightarrow> ret b))
   | Foreign b \<Rightarrow> thenE (io_op E) (ret b))) s"

text \<open>
  \<open>io::copy\<close>: pieces of the sizes the reads gave, then the rest, each read and each write of which
  may fail. A read gives at least one byte of a non-empty rest.
\<close>

function copy_loop :: "env \<Rightarrow> nat list \<Rightarrow> bytes \<Rightarrow> staging_writer
    \<Rightarrow> ('a disk_scheme, (staging_writer \<times> error) + staging_writer) eff" where
  "copy_loop E sizes rest w s =
     (bindE (attempt (io_op E)) (\<lambda>r. case r of
       Inl e \<Rightarrow> ret (Inl (w, e))
     | Inr _ \<Rightarrow>
         if rest = [] then ret (Inr w)
         else let n = (case sizes of [] \<Rightarrow> length rest | k # _ \<Rightarrow> max 1 k) in
           bindE (attempt (writer_write E w (take n rest))) (\<lambda>r. case r of
             Inl e \<Rightarrow> ret (Inl (w, e))
           | Inr w \<Rightarrow> copy_loop E (tl sizes) (drop n rest) w))) s"
  by pat_completeness auto
termination
  by (relation "measure (\<lambda>(E, sizes, rest, w, s). length rest)") (auto split: list.splits)

declare copy_loop.simps [simp del]

text \<open>
  \<open>Replica::stage_with\<close>. Content over the limit, or not of its hash, is treated as unavailable; the
  writer is dropped on every way out that does not finish it.
\<close>

definition stage_with :: "env \<Rightarrow> u64 \<Rightarrow> place_of \<Rightarrow> content_hash \<Rightarrow> ('a disk_scheme, string option) eff" where
  "stage_with E limit from h s = 
     (bindE (open_at E from) (\<lambda>b. thenE (io_op E)
    (bindE (attempt (stager_writer E limit h (file_len b))) (\<lambda>made. case made of
       Inl (TooLarge _ _) \<Rightarrow> ret None
     | Inl e \<Rightarrow> throw e
     | Inr w \<Rightarrow> bindE (reading step_no) (\<lambda>k. bindE (copy_loop E (read_sizes E k) b w) (\<lambda>copied. case copied of
         Inl (w, e) \<Rightarrow> thenE (writer_drop E w) (case e of
             TooLarge _ _ \<Rightarrow> ret None
           | ContentMismatch _ \<Rightarrow> ret None
           | _ \<Rightarrow> throw e)
       | Inr w \<Rightarrow> bindE (attempt (writer_finish E w)) (\<lambda>fin. case fin of
           Inr name \<Rightarrow> ret (Some name)
         | Inl (ContentMismatch _) \<Rightarrow> ret None
         | Inl e \<Rightarrow> throw e))))))) s"


lemmas staging_eval = fs_eval fetch_next_partial_def put_staged_def drop_staged_def create_partial_def size_btmap_def
  partial_name_def w_dest_def stager_writer_def staged_def writer_write_def writer_drop_def rename_partial_def
  writer_finish_def hasher_new_def hasher_update_def hasher_finish_def sat_add_def open_at_def copy_loop.simps stage_with_def

section \<open>Verified content\<close>

definition staging_ok :: "env \<Rightarrow> 'a disk_scheme \<Rightarrow> bool" where
  "staging_ok E s \<longleftrightarrow> (\<forall>h b t. bt_get (staging s) (to_hex h) = Some (b, t) \<longrightarrow> sha E b = h)"

text \<open>
  What staging changes: nothing outside the staging directory, no content that was there goes, and
  what is named by a hash stays its content.
\<close>

definition staging_step :: "env \<Rightarrow> 'a disk_scheme \<Rightarrow> 'a disk_scheme \<Rightarrow> bool" where
  "staging_step E s t \<longleftrightarrow> tree t = tree s \<and> disk.more t = disk.more s \<and> (staging_ok E s \<longrightarrow> staging_ok E t) \<and>
     (\<forall>h. bt_has (staging s) (to_hex h) \<longrightarrow> bt_has (staging t) (to_hex h))"

interpretation stg: step_relation "staging_step E" for E
  by unfold_locales (auto simp: staging_step_def)

lemma to_hex_no_dot: "CHR ''.'' \<notin> set (to_hex h)"
proof -
  have "CHR ''.'' \<noteq> hex_digit d" if "d < 16" for d
  proof
    assume "CHR ''.'' = hex_digit d"
    then have "hex_val (hex_digit d) = None" by (simp add: hex_val_def flip: \<open>CHR ''.'' = hex_digit d\<close>)
    with hex_val_digit [OF that] show False by simp
  qed
  moreover have "unat b div 16 < 16" "unat b mod 16 < 16" for b :: u8
    using unat_bound [of b] by auto
  ultimately show ?thesis by (auto simp: to_hex_def hex_byte_def dest: sym)
qed

lemma partial_name_bare [simp]: "partial_name E n h \<noteq> to_hex g" "to_hex g \<noteq> partial_name E n h"
proof -
  have "CHR ''.'' \<in> set (partial_name E n h)" by (simp add: partial_name_def)
  with to_hex_no_dot [of g] show "partial_name E n h \<noteq> to_hex g" "to_hex g \<noteq> partial_name E n h" by auto
qed

definition writer_ok :: "staging_writer \<Rightarrow> 'a disk_scheme \<Rightarrow> bool" where
  "writer_ok w s \<longleftrightarrow> (\<exists>n. bt_get (staging s) (w_partial w) = Some (w_hasher w, n)) \<and>
     (\<forall>h. w_partial w \<noteq> to_hex h)"

abbreviation bare :: "staging_writer \<Rightarrow> bool" where
  "bare w \<equiv> (\<forall>h. w_partial w \<noteq> to_hex h)"

lemma io_op_step: "staging_step E s (snd (io_op E' s))"
  by (simp add: io_op_def staging_step_def staging_ok_def)

lemma io_op_staging: "io_op E s = (r, t) \<Longrightarrow> staging t = staging s \<and> tree t = tree s \<and> disk.more t = disk.more s"
  by (auto simp: io_op_def)

lemma put_partial_step: "\<forall>h. name \<noteq> to_hex h \<Longrightarrow> staging_step E s (s\<lparr>staging := bt_insert name f (staging s)\<rparr>)"
  by (auto simp: staging_step_def staging_ok_def bt_has_def)

lemma drop_partial_step: "\<forall>h. name \<noteq> to_hex h \<Longrightarrow> staging_step E s (s\<lparr>staging := bt_remove name (staging s)\<rparr>)"
  by (auto simp: staging_step_def staging_ok_def bt_has_def)

lemma put_hash_step:
  "sha E b = h \<Longrightarrow> staging_step E s (s\<lparr>staging := bt_insert (to_hex h) (b, n) (staging s)\<rparr>)"
  by (auto simp: staging_step_def staging_ok_def bt_has_def to_hex_inj)

section \<open>The writer's operations\<close>

lemma keeps_io_op: "keeps (staging_step E) (io_op E')"
  by (simp add: keeps_def io_op_step)

lemma create_partial_tries_result:
  "create_partial_tries E k h s = (r, t) \<Longrightarrow>
   staging_step E s t \<and> (\<forall>p. r = Inr p \<longrightarrow> (\<exists>m. bt_get (staging t) p = Some ([], m)) \<and> (\<exists>n. p = partial_name E n h))"
proof (induction k arbitrary: s r)
  case 0
  then show ?case by (auto intro: stg.same)
next
  case (Suc k)
  let ?s1 = "s\<lparr>next_partial := next_partial s + 1\<rparr>" and ?p = "partial_name E (next_partial s) h"
  have s1: "staging_step E s ?s1" by (simp add: staging_step_def staging_ok_def)
  obtain q s2 where io: "io_op E ?s1 = (q, s2)" by (cases "io_op E ?s1")
  with io_op_step [of E ?s1 E] have s2: "staging_step E s s2" by (auto intro: stg.comp [OF s1])
  show ?case
  proof (cases q)
    case (Inl e)
    with Suc.prems io s2 show ?thesis
      by (auto simp: bindE_def thenE_def fetch_next_partial_def)
  next
    case (Inr u)
    show ?thesis
    proof (cases "bt_has (staging s2) ?p")
      case True
      with Suc.prems io Inr have "create_partial_tries E k h s2 = (r, t)"
        by (simp add: bindE_def thenE_def fetch_next_partial_def)
      from Suc.IH [OF this] s2 show ?thesis by (blast intro: stg.comp)
    next
      case False
      with Suc.prems io Inr have "r = Inr ?p \<and>
          t = s2\<lparr>staging := bt_insert ?p ([], clock_ns E (step_no s2)) (staging s2)\<rparr>"
        by (auto simp: bindE_def thenE_def fetch_next_partial_def put_staged_def)
      moreover have "staging_step E s2 (s2\<lparr>staging := bt_insert ?p ([], clock_ns E (step_no s2)) (staging s2)\<rparr>)"
        by (rule put_partial_step) simp
      ultimately show ?thesis using s2 by (auto intro: stg.comp)
    qed
  qed
qed

lemma stager_writer_result:
  assumes "stager_writer E limit h len s = (r, t)"
  shows "staging_step E s t \<and> (\<forall>w. r = Inr w \<longrightarrow> writer_ok w t \<and> w_hash w = h \<and> w_len w = len \<and>
    w_hasher w = [] \<and> w_written w = 0 \<and> len \<le> limit)"
proof (cases "len > limit")
  case True
  with assms show ?thesis by (auto simp: stager_writer_def intro: stg.same)
next
  case False
  obtain q s1 where io: "io_op E s = (q, s1)" by (cases "io_op E s")
  with io_op_step [of E s E] have s1: "staging_step E s s1" by simp
  obtain p s2 where cp: "create_partial E h s1 = (p, s2)" by (cases "create_partial E h s1")
  then have "create_partial_tries E (Suc (size (staging s1))) h s1 = (p, s2)"
    by (simp add: create_partial_def bindE_def)
  note res = create_partial_tries_result [OF this]
  show ?thesis
    using assms False io s1 cp res
    by (cases q; cases p)
      (auto simp: stager_writer_def thenE_def bindE_def writer_ok_def hasher_new_def intro: stg.comp)
qed

lemma writer_write_result:
  assumes "writer_write E w bs s = (r, t)" "writer_ok w s"
  shows "staging_step E s t \<and> (\<forall>w'. r = Inr w' \<longrightarrow> writer_ok w' t \<and> w_hash w' = w_hash w \<and>
    w_len w' = w_len w \<and> w_hasher w' = w_hasher w @ bs \<and> w_written w' = sat_add (w_written w) (file_len bs))"
proof (cases "sat_add (w_written w) (file_len bs) > w_len w")
  case True
  with assms show ?thesis by (auto simp: writer_write_def Let_def intro: stg.same)
next
  case False
  obtain n where f: "bt_get (staging s) (w_partial w) = Some (w_hasher w, n)" and b: "bare w"
    using assms(2) by (auto simp: writer_ok_def)
  obtain q s1 where io: "io_op E s = (q, s1)" by (cases "io_op E s")
  with io_op_step [of E s E] have s1: "staging_step E s s1" by simp
  have st: "staging s1 = staging s" using io_op_staging [OF io] by simp
  let ?put = "\<lambda>c. s1\<lparr>staging := bt_insert (w_partial w) (c, clock_ns E (step_no s)) (staging s1)\<rparr>"
  have put: "staging_step E s (?put c)" for c
    using stg.comp [OF s1 put_partial_step [OF b]] by blast
  show ?thesis
  proof (cases q)
    case (Inl e)
    with assms(1) False f io have "r = Inl e" "t = ?put (w_hasher w @ take (sum_list (read_sizes E (step_no s))) bs)"
      by (simp_all add: writer_write_def Let_def bindE_def thenE_def attempt_def put_staged_def)
    with put show ?thesis by simp
  next
    case (Inr u)
    with assms(1) False f io have "r = Inr (w\<lparr>w_hasher := hasher_update (w_hasher w) bs,
        w_written := sat_add (w_written w) (file_len bs)\<rparr>)" "t = ?put (w_hasher w @ bs)"
      by (simp_all add: writer_write_def Let_def bindE_def thenE_def attempt_def put_staged_def)
    with put b show ?thesis by (simp add: writer_ok_def hasher_update_def)
  qed
qed

lemma writer_drop_step: "bare w \<Longrightarrow> staging_step E s (snd (writer_drop E w s))"
proof -
  assume b: "bare w"
  have "keeps (staging_step E) (writer_drop E w)"
    unfolding writer_drop_def [abs_def] drop_staged_def [abs_def]
    by (intro stg.steps keeps_control keeps_io_op stg.update_r drop_partial_step b)
  then show ?thesis by (rule keepsD)
qed

lemma copy_loop_result:
  "\<lbrakk>copy_loop E sizes rest w s = (r, t); writer_ok w s\<rbrakk> \<Longrightarrow>
   staging_step E s t \<and> (\<exists>x. r = Inr x \<and> (case x of
     Inl (w', _) \<Rightarrow> bare w'
   | Inr w' \<Rightarrow> writer_ok w' t \<and> w_hash w' = w_hash w \<and> w_len w' = w_len w \<and> w_hasher w' = w_hasher w @ rest))"
proof (induction E sizes rest w s arbitrary: r rule: copy_loop.induct)
  case (1 E sizes rest w s)
  note run = "1.prems"(1) [unfolded copy_loop.simps [of E sizes rest w s]]
  obtain q s1 where io: "io_op E s = (q, s1)" by (cases "io_op E s")
  with io_op_step [of E s E] have s1: "staging_step E s s1" by simp
  have ok1: "writer_ok w s1" using "1.prems"(2) io_op_staging [OF io] by (simp add: writer_ok_def)
  then have b: "bare w" by (simp add: writer_ok_def)
  let ?n = "case sizes of [] \<Rightarrow> length rest | k # _ \<Rightarrow> max 1 k"
  obtain q2 s2 where wr: "writer_write E w (take ?n rest) s1 = (q2, s2)"
    by (cases "writer_write E w (take ?n rest) s1")
  note res = writer_write_result [OF wr ok1]
  consider (fault) e where "q = Inl e" | (empty) "q = Inr ()" "rest = []"
    | (bad) e where "q = Inr ()" "rest \<noteq> []" "q2 = Inl e" | (go) w' where "q = Inr ()" "rest \<noteq> []" "q2 = Inr w'"
    by (cases q; cases q2) auto
  then show ?case
  proof cases
    case fault
    with run io s1 b show ?thesis by (auto simp: bindE_def attempt_def)
  next
    case empty
    with run io s1 ok1 show ?thesis by (auto simp: bindE_def attempt_def)
  next
    case bad
    with run io wr have "r = Inr (Inl (w, e))" "t = s2" by (simp_all add: bindE_def attempt_def Let_def)
    with s1 b res show ?thesis by (auto intro: stg.comp)
  next
    case go
    with run io wr have run': "copy_loop E (tl sizes) (drop ?n rest) w' s2 = (r, t)"
      by (simp add: bindE_def attempt_def Let_def)
    have ok2: "writer_ok w' s2" using go res by simp
    have st: "staging_step E s s2" using s1 res by (blast intro: stg.comp)
    from "1.IH" [OF go(2) refl run' ok2] obtain x where x: "staging_step E s2 t" "r = Inr x"
      "case x of Inl (w'', _) \<Rightarrow> bare w''
       | Inr w'' \<Rightarrow> writer_ok w'' t \<and> w_hash w'' = w_hash w' \<and> w_len w'' = w_len w' \<and>
           w_hasher w'' = w_hasher w' @ drop ?n rest"
      by blast
    with go res have "case x of Inl (w'', _) \<Rightarrow> bare w''
       | Inr w'' \<Rightarrow> writer_ok w'' t \<and> w_hash w'' = w_hash w \<and> w_len w'' = w_len w \<and> w_hasher w'' = w_hasher w @ rest"
      by (auto split: sum.splits)
    with x(1,2) show ?thesis by (blast intro: stg.comp [OF st])
  qed
qed

lemma staged_result: "staged E h s = (r, t) \<Longrightarrow>
  staging_step E s t \<and> r \<noteq> Inl e \<and>
  (\<forall>name. r = Inr (Some name) \<longrightarrow> name = to_hex h \<and> bt_has (staging t) name)"
proof -
  assume run: "staged E h s = (r, t)"
  obtain q s1 where io: "io_op E s = (q, s1)" by (cases "io_op E s")
  with io_op_step [of E s E] have "staging_step E s s1" by simp
  then show ?thesis
    using run by (auto simp: staged_def bindE_attempt io split: if_splits)
qed

lemma rename_partial_result:
  assumes run: "rename_partial E w s = (r, t)" and ok: "writer_ok w s" and h: "sha E (w_hasher w) = w_hash w"
  shows "staging_step E s t \<and> (\<forall>u. r = Inr u \<longrightarrow> bt_has (staging t) (to_hex (w_hash w)))"
proof -
  obtain n where f: "bt_get (staging s) (w_partial w) = Some (w_hasher w, n)" and b: "bare w"
    using ok by (auto simp: writer_ok_def)
  obtain q s1 where io: "io_op E s = (q, s1)" by (cases "io_op E s")
  with io_op_step [of E s E] have s1: "staging_step E s s1" by simp
  have st: "staging s1 = staging s" using io_op_staging [OF io] by simp
  let ?d = "s1\<lparr>staging := bt_remove (w_partial w) (staging s1)\<rparr>"
  let ?p = "?d\<lparr>staging := bt_insert (to_hex (w_hash w)) (w_hasher w, n) (staging ?d)\<rparr>"
  have "staging_step E s ?d" by (rule stg.comp [OF s1 drop_partial_step [OF b]])
  moreover have "staging_step E ?d ?p" by (rule put_hash_step [OF h])
  ultimately have p: "staging_step E s ?p" by (rule stg.comp)
  show ?thesis
  proof (cases q)
    case (Inl e)
    with run io s1 show ?thesis by (auto simp: rename_partial_def runs)
  next
    case (Inr u)
    then have "rename_partial E w s = (Inr (), ?p)"
      using io f st by (simp add: rename_partial_def runs drop_staged_def put_staged_def w_dest_def)
    with run have "r = Inr ()" "t = ?p" by simp_all
    with p show ?thesis by (simp add: bt_has_def)
  qed
qed

lemma writer_drop_run: "bare w \<Longrightarrow> \<exists>t. writer_drop E w s = (Inr (), t) \<and> staging_step E s t"
proof -
  assume b: "bare w"
  obtain q s1 where io: "io_op E s = (q, s1)" by (cases "io_op E s")
  then have "fst (writer_drop E w s) = Inr ()"
    by (simp add: writer_drop_def bindE_attempt io drop_staged_def)
  with writer_drop_step [OF b, of E s] show ?thesis by (metis prod.collapse)
qed

lemma writer_drop_has:
  assumes "bare w" "writer_drop E w s = (r, t)"
  shows "bt_has (staging s) (to_hex h) \<Longrightarrow> bt_has (staging t) (to_hex h)"
  using writer_drop_step [OF assms(1), of E s] assms(2) by (simp add: staging_step_def)

text \<open>
  Finishing succeeds only with the content staged under its hash, whoever put it there, and leaves
  no error unreported.
\<close>

lemma writer_finish_result:
  assumes run: "writer_finish E w s = (r, t)" and ok: "writer_ok w s"
  shows "staging_step E s t \<and> (\<forall>name. r = Inr name \<longrightarrow> name = to_hex (w_hash w) \<and>
    w_written w = w_len w \<and> sha E (w_hasher w) = w_hash w \<and> bt_has (staging t) name)"
proof -
  have b: "bare w" using ok by (simp add: writer_ok_def)
  show ?thesis
  proof (cases "w_written w \<noteq> w_len w \<or> hasher_finish (sha E) (w_hasher w) \<noteq> w_hash w")
    case True
    from writer_drop_run [OF b, of E s] obtain u where u: "writer_drop E w s = (Inr (), u)" "staging_step E s u"
      by blast
    with True run show ?thesis by (auto simp: writer_finish_def runs)
  next
    case False
    then have h: "sha E (w_hasher w) = w_hash w" and len: "w_written w = w_len w"
      by (simp_all add: hasher_finish_def)
    obtain q s1 where io: "io_op E s = (q, s1)" by (cases "io_op E s")
    with io_op_step [of E s E] have s1: "staging_step E s s1" by simp
    have ok1: "writer_ok w s1" using ok io_op_staging [OF io] by (simp add: writer_ok_def)
    obtain r2 s2 where rn: "rename_partial E w s1 = (r2, s2)" by (cases "rename_partial E w s1")
    note res = rename_partial_result [OF rn ok1 h]
    have s2: "staging_step E s s2" using s1 res by (blast intro: stg.comp)
    show ?thesis
    proof (cases q)
      case (Inl e)
      from writer_drop_run [OF b, of E s1] obtain u where u: "writer_drop E w s1 = (Inr (), u)" "staging_step E s1 u"
        by blast
      with Inl False run io s1 show ?thesis by (auto simp: writer_finish_def runs intro: stg.comp)
    next
      case (Inr x)
      show ?thesis
      proof (cases r2)
        case (Inr y)
        with \<open>q = Inr x\<close> False run io rn res s2 h len show ?thesis
          by (auto simp: writer_finish_def runs w_dest_def)
      next
        case (Inl e)
        obtain r3 s3 where sg: "staged E (w_hash w) s2 = (r3, s3)" by (cases "staged E (w_hash w) s2")
        note sgr = staged_result [OF sg]
        then obtain there where there: "r3 = Inr there" by (cases r3) auto
        from writer_drop_run [OF b, of E s3] obtain u where u: "writer_drop E w s3 = (Inr (), u)" "staging_step E s3 u"
          by blast
        have "writer_finish E w s = (if there = None then throw e else ret (w_dest w)) u"
          using \<open>q = Inr x\<close> Inl False io rn sg there u by (simp add: writer_finish_def runs)
        moreover have "staging_step E s u" using s2 sgr u(2) by (blast intro: stg.comp)
        moreover have "bt_has (staging u) (to_hex (w_hash w))" if "there \<noteq> None"
          using that sgr there writer_drop_has [OF b u(1)] by auto
        ultimately show ?thesis using run h len by (auto simp: w_dest_def split: if_splits)
      qed
    qed
  qed
qed

lemma open_at_step: "keeps (staging_step E) (open_at E' from)"
  unfolding open_at_def [abs_def] read_file_def [abs_def] metadata_def [abs_def] symlink_metadata_def [abs_def] io_result_def [abs_def]
  by (auto split: place_of.split intro!: stg.steps keeps_control keeps_io_op split: option.splits node.splits sum.splits prod.splits)

lemma stage_with_result:
  assumes run: "stage_with E limit from h s = (r, t)"
  shows "staging_step E s t \<and> (\<forall>name. r = Inr (Some name) \<longrightarrow> name = to_hex h \<and> bt_has (staging t) name)"
proof -
  obtain q s1 where op: "open_at E from s = (q, s1)" by (cases "open_at E from s")
  have s1: "staging_step E s s1" by (rule keepsE [OF open_at_step op])
  show ?thesis
  proof (cases q)
    case (Inl e)
    with run op s1 show ?thesis by (auto simp: stage_with_def runs)
  next
    case (Inr b)
    obtain q2 s2 where io: "io_op E s1 = (q2, s2)" by (cases "io_op E s1")
    with io_op_step [of E s1 E] have s2: "staging_step E s s2" by (auto intro: stg.comp [OF s1])
    obtain q3 s3 where wr: "stager_writer E limit h (file_len b) s2 = (q3, s3)"
      by (cases "stager_writer E limit h (file_len b) s2")
    note w = stager_writer_result [OF wr]
    have s3: "staging_step E s s3" using s2 w by (blast intro: stg.comp)
    consider (io) e where "q2 = Inl e" | (made) e where "q2 = Inr ()" "q3 = Inl e"
      | (go) w0 where "q2 = Inr ()" "q3 = Inr w0" by (cases q2; cases q3) auto
    then show ?thesis
    proof cases
      case io
      with run op Inr \<open>io_op E s1 = (q2, s2)\<close> s2 show ?thesis by (auto simp: stage_with_def runs)
    next
      case made
      with run op Inr io wr have "(case e of TooLarge _ _ \<Rightarrow> ret None | _ \<Rightarrow> throw e) s3 = (r, t)"
        by (auto simp: stage_with_def runs split: error.splits)
      with s3 show ?thesis by (auto split: error.splits)
    next
      case go
      have ok0: "writer_ok w0 s3" "w_hash w0 = h" using w go by auto
      obtain q4 s4 where cp: "copy_loop E (read_sizes E (step_no s3)) b w0 s3 = (q4, s4)"
        by (cases "copy_loop E (read_sizes E (step_no s3)) b w0 s3")
      note c = copy_loop_result [OF cp ok0(1)]
      have s4: "staging_step E s s4" using s3 c by (blast intro: stg.comp)
      from c obtain x where x: "q4 = Inr x" "case x of Inl (w', _) \<Rightarrow> bare w' | Inr w' \<Rightarrow> writer_ok w' s4 \<and>
          w_hash w' = w_hash w0 \<and> w_len w' = w_len w0 \<and> w_hasher w' = w_hasher w0 @ b" by blast
      then consider (cut) w1 e where "q4 = Inr (Inl (w1, e))" "bare w1"
        | (all) w1 where "q4 = Inr (Inr w1)" "writer_ok w1 s4" "w_hash w1 = h"
        using ok0(2) by (cases x) auto
      then show ?thesis
      proof cases
        case cut
        from writer_drop_run [OF cut(2), of E s4] obtain u where u: "writer_drop E w1 s4 = (Inr (), u)" "staging_step E s4 u"
          by blast
        have "(case e of TooLarge _ _ \<Rightarrow> ret None | ContentMismatch _ \<Rightarrow> ret None | _ \<Rightarrow> throw e) u = (r, t)"
          using run op Inr io wr go cp cut(1) u(1) by (simp add: stage_with_def runs)
        moreover have "staging_step E s u" using s4 u(2) by (rule stg.comp)
        ultimately show ?thesis by (auto split: error.splits)
      next
        case all
        obtain q5 s5 where fi: "writer_finish E w1 s4 = (q5, s5)" by (cases "writer_finish E w1 s4")
        note f = writer_finish_result [OF fi all(2)]
        have "staging_step E s s5" using s4 f by (blast intro: stg.comp)
        moreover have "(case q5 of Inr name \<Rightarrow> ret (Some name) | Inl (ContentMismatch _) \<Rightarrow> ret None | Inl e \<Rightarrow> throw e) s5 = (r, t)"
          using run op Inr io wr go cp all(1) fi by (simp add: stage_with_def runs)
        ultimately show ?thesis using f all(3) by (auto split: sum.splits error.splits)
      qed
    qed
  qed
qed

lemma bare_partial: "extension name = Some ''partial'' \<Longrightarrow> \<forall>h. name \<noteq> to_hex h"
proof (intro allI notI)
  fix h assume ext: "extension name = Some ''partial''" "name = to_hex h"
  then have "CHR ''.'' \<in> set name" using rsplit_at_None [of "CHR ''.''" name] by (auto simp: extension_def split: option.splits)
  with ext(2) to_hex_no_dot show False by metis
qed

section \<open>Partial files of others\<close>

text \<open>A writer changes no partial file but its own, and its own is a new one.\<close>

definition is_partial :: "string \<Rightarrow> bool" where
  "is_partial n \<longleftrightarrow> extension n = Some ''partial''"

lemma hex_not_partial [simp]: "\<not> is_partial (to_hex h)"
  using bare_partial by (auto simp: is_partial_def)

lemma partial_name_partial [simp]: "is_partial (partial_name E n h)"
proof -
  have "rsplit_at CHR ''.'' (partial_name E n h) =
      Some (to_hex h @ ''.'' @ show_nat (process_id E) @ ''-'' @ show_nat (unat n), ''partial'')"
    by (simp add: rsplit_at_Some partial_name_def)
  then show ?thesis by (simp add: is_partial_def extension_def)
qed

text \<open>There are always enough numbers to try.\<close>

lemma partial_name_inj: "partial_name E m h = partial_name E n h \<longleftrightarrow> m = n"
  by (auto simp: partial_name_def show_nat_inj intro: unsigned_word_eqI)

lemma tries_taken:
  "create_partial_tries E k h s = (Inl OutOfFuel, t) \<Longrightarrow>
   \<forall>j < k. bt_has (staging s) (partial_name E (next_partial s + word_of_nat j) h)"
proof (induction k arbitrary: s)
  case (Suc k)
  let ?s1 = "s\<lparr>next_partial := next_partial s + 1\<rparr>" and ?p = "partial_name E (next_partial s) h"
  obtain q s2 where io: "io_op E ?s1 = (q, s2)" by (cases "io_op E ?s1")
  then have s2: "staging s2 = staging s" "next_partial s2 = next_partial s + 1" "q = Inr () \<or> q = Inl (Io OtherIo)"
    by (auto simp: io_op_def)
  from Suc.prems io s2(3) have "q = Inr ()" by (auto simp: bindE_def thenE_def fetch_next_partial_def)
  with Suc.prems io have taken: "bt_has (staging s2) ?p" and again: "create_partial_tries E k h s2 = (Inl OutOfFuel, t)"
    by (auto simp: bindE_def thenE_def fetch_next_partial_def put_staged_def split: if_splits)
  show ?case
  proof (intro allI impI)
    fix j assume "j < Suc k"
    then show "bt_has (staging s) (partial_name E (next_partial s + word_of_nat j) h)"
      using taken s2 Suc.IH [OF again] by (cases j) (auto simp: add.assoc)
  qed
qed simp

lemma create_partial_fuel:
  assumes "size (staging s) < 2 ^ 64 - 1"
  shows "create_partial E h s \<noteq> (Inl OutOfFuel, t)"
proof
  assume "create_partial E h s = (Inl OutOfFuel, t)"
  then have run: "create_partial_tries E (Suc (size (staging s))) h s = (Inl OutOfFuel, t)"
    by (simp add: create_partial_def bindE_def)
  let ?f = "\<lambda>j. partial_name E (next_partial s + word_of_nat j) h" and ?J = "{..< Suc (size (staging s))}"
  have "inj_on ?f ?J"
  proof (rule inj_onI)
    fix i j assume ij: "i \<in> ?J" "j \<in> ?J" and "?f i = ?f j"
    then have "(word_of_nat i :: u64) = word_of_nat j" by (simp add: partial_name_inj)
    moreover have "i < 2 ^ 64" "j < 2 ^ 64" using ij assms by auto
    moreover have "unat (word_of_nat i :: u64) = i" "unat (word_of_nat j :: u64) = j" using ij assms
      by (auto simp: unat_of_nat)
    ultimately show "i = j" by metis
  qed
  then have "card (?f ` ?J) = Suc (size (staging s))" by (simp add: card_image)
  moreover have "?f ` ?J \<subseteq> set (bt_keys (staging s))" using tries_taken [OF run] by (auto simp: bt_keys_iff)
  then have "card (?f ` ?J) \<le> length (bt_keys (staging s))" by (meson card_length card_mono finite_set le_trans)
  ultimately show False by (simp add: bt_keys_def size_btmap_def)
qed

lemma parse_pairs_no_dot: "parse_pairs s = Some h \<Longrightarrow> CHR ''.'' \<notin> set s"
proof (induction s arbitrary: h rule: parse_pairs.induct)
  case (3 c d cs)
  obtain b bs where b: "u8_from_str_radix16 [c, d] = Some b" "parse_pairs cs = Some bs"
    using "3.prems" by (auto split: option.splits)
  have "c \<noteq> CHR ''.'' \<and> d \<noteq> CHR ''.''"
    using b(1) by (auto simp: u8_from_str_radix16_def hex_val_def split: if_splits option.splits)
  with "3.IH" [OF b] show ?case by auto
qed auto

lemma hash_name_unpartial: "hash_from_str name = Some h \<Longrightarrow> \<not> is_partial name"
proof
  assume name: "hash_from_str name = Some h" and "is_partial name"
  then have "CHR ''.'' \<in> set name"
    using rsplit_at_None [of "CHR ''.''" name] by (auto simp: is_partial_def extension_def split: option.splits)
  with name show False by (auto simp: hash_from_str_def dest: parse_pairs_no_dot split: if_splits)
qed

definition touches :: "string \<Rightarrow> 'a disk_scheme \<Rightarrow> 'a disk_scheme \<Rightarrow> bool" where
  "touches p s t \<longleftrightarrow> (\<forall>n. is_partial n \<longrightarrow> n \<noteq> p \<longrightarrow> bt_get (staging t) n = bt_get (staging s) n)"

definition partials_kept :: "'a disk_scheme \<Rightarrow> 'a disk_scheme \<Rightarrow> bool" where
  "partials_kept s t \<longleftrightarrow> (\<forall>n f. is_partial n \<longrightarrow> bt_get (staging s) n = Some f \<longrightarrow> bt_get (staging t) n = Some f)"

interpretation tch: step_relation "touches p" for p
  by unfold_locales (auto simp: touches_def)

interpretation par: step_relation partials_kept
  by unfold_locales (auto simp: partials_kept_def)

lemma same_staging: "staging t = staging s \<Longrightarrow> touches p s t" "staging t = staging s \<Longrightarrow> partials_kept s t"
  by (simp_all add: touches_def partials_kept_def)

lemma touches_new:
  "\<lbrakk>partials_kept s u; touches p u t; bt_get (staging s) p = None\<rbrakk> \<Longrightarrow> partials_kept s t"
  unfolding touches_def partials_kept_def by (metis option.distinct(1))

lemma io_op_touches: "keeps (touches p) (io_op E)"
  by (simp add: keeps_def io_op_def same_staging)

lemma put_staged_touches: "keeps (touches p) (put_staged p f)" "keeps (touches p) (put_staged (to_hex h) f)"
  by (auto simp: keeps_def put_staged_def touches_def)

lemma drop_staged_touches: "keeps (touches p) (drop_staged p)"
  by (auto simp: keeps_def drop_staged_def touches_def)

lemma staged_touches: "keeps (touches p) (staged E h)"
  unfolding staged_def [abs_def] by (intro tch.steps io_op_touches)

lemmas touch_ops = tch.steps io_op_touches put_staged_touches drop_staged_touches staged_touches

lemma writer_write_touches: "keeps (touches (w_partial w)) (writer_write E w bs)"
  unfolding writer_write_def [abs_def] Let_def by (intro touch_ops keeps_control)

lemma writer_write_partial: "writer_write E w bs s = (Inr w', t) \<Longrightarrow> w_partial w' = w_partial w"
  by (cases "io_op E s"; cases "fst (io_op E s)")
    (auto simp: writer_write_def bindE_def thenE_def attempt_def Let_def put_staged_def split: if_splits prod.splits)

lemma writer_drop_touches: "keeps (touches (w_partial w)) (writer_drop E w)"
  unfolding writer_drop_def [abs_def] by (intro touch_ops keeps_control)

lemma writer_finish_touches: "keeps (touches (w_partial w)) (writer_finish E w)"
  unfolding writer_finish_def [abs_def] rename_partial_def [abs_def] w_dest_def
  by (intro touch_ops keeps_control writer_drop_touches)

lemma create_partial_new:
  "create_partial_tries E k h s = (r, t) \<Longrightarrow> partials_kept s t \<and> (\<forall>p. r = Inr p \<longrightarrow> bt_get (staging s) p = None)"
proof (induction k arbitrary: s r)
  case 0
  then show ?case by (auto intro: par.same)
next
  case (Suc k)
  let ?s1 = "s\<lparr>next_partial := next_partial s + 1\<rparr>" and ?p = "partial_name E (next_partial s) h"
  obtain q s2 where io: "io_op E ?s1 = (q, s2)" by (cases "io_op E ?s1")
  then have st: "staging s2 = staging s" using io_op_staging [OF io] by simp
  consider (fault) e where "q = Inl e" | (again) "q = Inr ()" "bt_has (staging s2) ?p" | (free) "q = Inr ()" "\<not> bt_has (staging s2) ?p"
    by (cases q) auto
  then show ?case
  proof cases
    case fault
    with Suc.prems io st show ?thesis by (auto simp: runs fetch_next_partial_def bindE_def thenE_def same_staging)
  next
    case again
    with Suc.prems io have "create_partial_tries E k h s2 = (r, t)" by (simp add: bindE_def thenE_def fetch_next_partial_def)
    from Suc.IH [OF this] st show ?thesis by (simp add: partials_kept_def)
  next
    case free
    with Suc.prems io have "r = Inr ?p" "t = s2\<lparr>staging := bt_insert ?p ([], clock_ns E (step_no s2)) (staging s2)\<rparr>"
      by (auto simp: bindE_def thenE_def fetch_next_partial_def put_staged_def)
    moreover have "bt_get (staging s) ?p = None" using free st by (cases "bt_get (staging s) ?p") (auto simp: bt_has_def)
    ultimately show ?thesis using st by (auto simp: partials_kept_def)
  qed
qed

lemma stager_writer_new:
  assumes "stager_writer E limit h len s = (r, t)"
  shows "partials_kept s t \<and> (\<forall>w. r = Inr w \<longrightarrow> bt_get (staging s) (w_partial w) = None)"
proof (cases "len > limit")
  case True
  with assms show ?thesis by (auto simp: stager_writer_def intro: par.same)
next
  case False
  obtain q s1 where io: "io_op E s = (q, s1)" by (cases "io_op E s")
  then have st: "staging s1 = staging s" using io_op_staging by blast
  obtain p s2 where cp: "create_partial E h s1 = (p, s2)" by (cases "create_partial E h s1")
  then have "create_partial_tries E (Suc (size (staging s1))) h s1 = (p, s2)"
    by (simp add: create_partial_def bindE_def)
  note res = create_partial_new [OF this]
  show ?thesis
    using assms False io st cp res
    by (cases q; cases p) (auto simp: stager_writer_def runs same_staging partials_kept_def)
qed

lemma copy_loop_touches:
  "copy_loop E sizes rest w s = (r, t) \<Longrightarrow> touches (w_partial w) s t \<and>
   (\<forall>x. r = Inr x \<longrightarrow> w_partial (case x of Inl (w', _) \<Rightarrow> w' | Inr w' \<Rightarrow> w') = w_partial w)"
proof (induction E sizes rest w s arbitrary: r rule: copy_loop.induct)
  case (1 E sizes rest w s)
  note run = "1.prems"(1) [unfolded copy_loop.simps [of E sizes rest w s]]
  obtain q s1 where io: "io_op E s = (q, s1)" by (cases "io_op E s")
  have s1: "touches (w_partial w) s s1" by (rule keepsE [OF io_op_touches io])
  let ?n = "case sizes of [] \<Rightarrow> length rest | k # _ \<Rightarrow> max 1 k"
  obtain q2 s2 where wr: "writer_write E w (take ?n rest) s1 = (q2, s2)"
    by (cases "writer_write E w (take ?n rest) s1")
  have s2: "touches (w_partial w) s s2" using tch.comp [OF s1 keepsE [OF writer_write_touches wr]] .
  consider (fault) e where "q = Inl e" | (empty) "q = Inr ()" "rest = []"
    | (bad) e where "q = Inr ()" "rest \<noteq> []" "q2 = Inl e" | (go) w' where "q = Inr ()" "rest \<noteq> []" "q2 = Inr w'"
    by (cases q; cases q2) auto
  then show ?case
  proof cases
    case fault
    with run io s1 show ?thesis by (auto simp: bindE_def attempt_def)
  next
    case empty
    with run io s1 show ?thesis by (auto simp: bindE_def attempt_def)
  next
    case bad
    with run io wr have "r = Inr (Inl (w, e))" "t = s2" by (simp_all add: bindE_def attempt_def Let_def)
    with s2 show ?thesis by auto
  next
    case go
    with run io wr have run': "copy_loop E (tl sizes) (drop ?n rest) w' s2 = (r, t)"
      by (simp add: bindE_def attempt_def Let_def)
    have w': "w_partial w' = w_partial w" using writer_write_partial wr go by blast
    from "1.IH" [OF go(2) refl run'] w' s2 show ?thesis by (auto intro: tch.comp)
  qed
qed

lemma open_at_partials: "keeps partials_kept (open_at E from)"
proof -
  have io: "keeps partials_kept (io_op E)" by (simp add: keeps_def io_op_def same_staging)
  show ?thesis
    unfolding open_at_def [abs_def] read_file_def [abs_def] metadata_def [abs_def] symlink_metadata_def [abs_def] io_result_def [abs_def]
    by (auto split: place_of.split intro!: par.steps keeps_control io split: option.splits node.splits sum.splits prod.splits)
qed

lemma stage_with_partials: "keeps partials_kept (stage_with E limit from h)"
proof (rule keepsI)
  fix s
  let ?go = "\<lambda>w b. bindE (reading step_no) (\<lambda>k. bindE (copy_loop E (read_sizes E k) b w) (\<lambda>copied. case copied of
         Inl (w, e) \<Rightarrow> thenE (writer_drop E w) (case e of
             TooLarge _ _ \<Rightarrow> ret None
           | ContentMismatch _ \<Rightarrow> ret None
           | _ \<Rightarrow> throw e)
       | Inr w \<Rightarrow> bindE (attempt (writer_finish E w)) (\<lambda>fin. case fin of
           Inr name \<Rightarrow> ret (Some name)
         | Inl (ContentMismatch _) \<Rightarrow> ret None
         | Inl e \<Rightarrow> throw e)))"
  have go_g: "guarded (\<lambda>_. True) (touches (w_partial w)) (?go w b) (\<lambda>_ _. True)" for w b
  proof (rule tch.bindE_g [OF guarded_keeps [OF tch.reading_r]])
    fix k
    have copy: "guarded (\<lambda>_. True) (touches (w_partial w)) (copy_loop E (read_sizes E k) b w)
        (\<lambda>x _. w_partial (case x of Inl (w', _) \<Rightarrow> w' | Inr w' \<Rightarrow> w') = w_partial w)"
      by (rule guardedI) (use copy_loop_touches in blast)
    show "guarded (\<lambda>_. True) (touches (w_partial w)) (bindE (copy_loop E (read_sizes E k) b w) (\<lambda>copied. case copied of
         Inl (w, e) \<Rightarrow> thenE (writer_drop E w) (case e of
             TooLarge _ _ \<Rightarrow> ret None
           | ContentMismatch _ \<Rightarrow> ret None
           | _ \<Rightarrow> throw e)
       | Inr w \<Rightarrow> bindE (attempt (writer_finish E w)) (\<lambda>fin. case fin of
           Inr name \<Rightarrow> ret (Some name)
         | Inl (ContentMismatch _) \<Rightarrow> ret None
         | Inl e \<Rightarrow> throw e))) (\<lambda>_ _. True)"
    proof (rule tch.bindE_g [OF copy])
      fix x
      have out: "keeps (touches p) (case e of TooLarge _ _ \<Rightarrow> ret None | ContentMismatch _ \<Rightarrow> ret None | _ \<Rightarrow> throw e)"
        "keeps (touches p) (case fin of Inr name \<Rightarrow> ret (Some name) | Inl (ContentMismatch _) \<Rightarrow> ret None | Inl e \<Rightarrow> throw e)"
        for p e and fin :: "error + string"
        by (auto split: error.splits sum.splits intro: tch.steps)
      show "guarded (\<lambda>s. w_partial (case x of Inl (w', _) \<Rightarrow> w' | Inr w' \<Rightarrow> w') = w_partial w) (touches (w_partial w))
        (case x of
         Inl (w, e) \<Rightarrow> thenE (writer_drop E w) (case e of
             TooLarge _ _ \<Rightarrow> ret None
           | ContentMismatch _ \<Rightarrow> ret None
           | _ \<Rightarrow> throw e)
       | Inr w \<Rightarrow> bindE (attempt (writer_finish E w)) (\<lambda>fin. case fin of
           Inr name \<Rightarrow> ret (Some name)
         | Inl (ContentMismatch _) \<Rightarrow> ret None
         | Inl e \<Rightarrow> throw e)) (\<lambda>_ _. True)"
      proof (cases "w_partial (case x of Inl (w', _) \<Rightarrow> w' | Inr w' \<Rightarrow> w') = w_partial w")
        case True
        then show ?thesis
          by (auto split: sum.splits prod.splits
              intro!: guarded_keeps tch.thenE_r tch.bindE_r tch.attempt_r out)
            (metis writer_drop_touches writer_finish_touches)+
      next
        case False
        then show ?thesis by (simp add: guarded_def)
      qed
    qed
  qed
  obtain q s1 where op: "open_at E from s = (q, s1)" by (cases "open_at E from s")
  have s1: "partials_kept s s1" by (rule keepsE [OF open_at_partials op])
  obtain r t where run: "stage_with E limit from h s = (r, t)" by (cases "stage_with E limit from h s")
  have "partials_kept s t"
  proof (cases q)
    case (Inl e)
    with run op s1 show ?thesis by (auto simp: stage_with_def runs)
  next
    case (Inr b)
    obtain q2 s2 where io: "io_op E s1 = (q2, s2)" by (cases "io_op E s1")
    have s2: "partials_kept s s2" using s1 io_op_staging [OF io] by (simp add: partials_kept_def)
    obtain q3 s3 where wr: "stager_writer E limit h (file_len b) s2 = (q3, s3)"
      by (cases "stager_writer E limit h (file_len b) s2")
    note w = stager_writer_new [OF wr]
    have s3: "partials_kept s s3" using s2 w by (blast intro: par.comp)
    consider (io) e where "q2 = Inl e" | (made) e where "q2 = Inr ()" "q3 = Inl e"
      | (go) w0 where "q2 = Inr ()" "q3 = Inr w0" by (cases q2; cases q3) auto
    then show ?thesis
    proof cases
      case io
      with run op Inr \<open>io_op E s1 = (q2, s2)\<close> s2 show ?thesis by (auto simp: stage_with_def runs)
    next
      case made
      with run op Inr io wr have "(case e of TooLarge _ _ \<Rightarrow> ret None | _ \<Rightarrow> throw e) s3 = (r, t)"
        by (auto simp: stage_with_def runs split: error.splits)
      with s3 show ?thesis by (auto split: error.splits)
    next
      case go
      then have "?go w0 b s3 = (r, t)" using run op Inr io wr by (simp add: stage_with_def runs)
      then have "touches (w_partial w0) s3 t" by (rule keepsE [OF keeps_guarded [OF go_g [of w0 b]]])
      with touches_new [OF _ this] w go s2 show ?thesis by (blast intro: par.comp)
    qed
  qed
  with run show "partials_kept s (snd (stage_with E limit from h s))" by simp
qed

text \<open>Clearing partial files keeps finished content.\<close>

lemma clear_partials_step: "keeps (staging_step E) (clear_partials E')"
proof -
  have drop: "keeps (staging_step E) (if extension name = Some ''partial'' then thenE (io_op E') (drop_staged name) else ret ())"
    for name
    unfolding drop_staged_def [abs_def]
    by (rule keeps_if [OF stg.thenE_r [OF keeps_io_op stg.update_r [OF drop_partial_step]] stg.ret_r])
      (rule bare_partial)
  show ?thesis
    unfolding clear_partials_def [abs_def]
    by (rule stg.thenE_r [OF keeps_io_op stg.bindE_r [OF stg.reading_r stg.each_r [OF stg.thenE_r [OF keeps_io_op drop]]]])
qed

section \<open>Properties\<close>

text \<open>
  Staging verifies content. Whatever fails on the way, copying a file into the staging directory
  for a hash leaves the workspace as it was, keeps every file named by a hash that was there, and
  keeps them the content of their hash; when it reports a staged file, the file at the hash has
  exactly that hash.
\<close>

theorem staging_verified:
  assumes "staging_ok E s" "stage_with E limit from h s = (r, t)"
  shows "staging_ok E t \<and> tree t = tree s \<and>
    (\<forall>g. bt_has (staging s) (to_hex g) \<longrightarrow> bt_has (staging t) (to_hex g)) \<and>
    (\<forall>name. r = Inr (Some name) \<longrightarrow> name = to_hex h \<and>
      (\<exists>b n. bt_get (staging t) name = Some (b, n) \<and> sha E b = h))"
proof -
  have step: "staging_step E s t"
    and name: "\<And>name. r = Inr (Some name) \<Longrightarrow> name = to_hex h \<and> bt_has (staging t) name"
    using stage_with_result [OF assms(2)] by blast+
  then have ok: "staging_ok E t" using assms(1) by (simp add: staging_step_def)
  have "\<exists>b n. bt_get (staging t) name = Some (b, n) \<and> sha E b = h" if "r = Inr (Some name)" for name
  proof -
    from name [OF that] obtain b n where f: "bt_get (staging t) (to_hex h) = Some (b, n)" "name = to_hex h"
      by (auto simp: bt_has_def)
    with ok have "sha E b = h" unfolding staging_ok_def by blast
    with f show ?thesis by blast
  qed
  with step name ok show ?thesis unfolding staging_step_def by blast
qed

definition ex_env :: env where
  "ex_env = \<lparr>io_fails = (\<lambda>_. False), read_sizes = (\<lambda>_. [2, 1]), clock_ms = (\<lambda>k. 1000 + word_of_nat k),
     clock_ns = (\<lambda>k. 10 ^ 12 + int k), other_volume = False, process_id = 7,
     sha = (\<lambda>bs. bs), from_byte_suffix = unat,
     show_grain = show_nat, fresh_id = word_of_nat, gitignore = (\<lambda>_. None),
     lowercase = id, windows = False, case_insensitive = False, app_name = ''app'', ws_root = [''ws''],
     device_id = 3, max_file_size = 100\<rparr>"

definition ex_disk :: disk where
  "ex_disk = \<lparr>tree = bt_insert [''ws'', ''f''] (RegFile [1, 2, 3, 4] 5) (bt_insert [''ws''] Directory bt_empty),
     staging = bt_empty, next_partial = 0, step_no = 0\<rparr>"

theorem staging_verified_witness:
  "fst (stage_with ex_env 10 (InTree [''ws'', ''f'']) [1, 2, 3, 4] ex_disk) =
     Inr (Some (to_hex [1, 2, 3, 4])) \<and>
   staging_ok ex_env (snd (stage_with ex_env 10 (InTree [''ws'', ''f'']) [1, 2, 3, 4] ex_disk))"
proof -
  let ?h = "[1, 2, 3, 4]"
  obtain r t where run: "stage_with ex_env 10 (InTree [''ws'', ''f'']) ?h ex_disk = (r, t)"
    by (cases "stage_with ex_env 10 (InTree [''ws'', ''f'']) ?h ex_disk")
  have ok: "staging_ok ex_env ex_disk" by (simp add: staging_ok_def ex_disk_def)
  have "fst (stage_with ex_env 10 (InTree [''ws'', ''f'']) [1, 2, 3, 4] ex_disk) =
     Inr (Some (to_hex [1, 2, 3, 4]))" by (simp add: staging_eval ex_env_def ex_disk_def)
  with staging_verified [OF ok run] run show ?thesis by (simp only: fst_conv snd_conv simp_thms)
qed

section \<open>Without faults\<close>

lemma io_op_ok: "\<forall>k. \<not> io_fails E k \<Longrightarrow> io_op E s = (Inr (), s\<lparr>step_no := step_no s + 1\<rparr>)"
  by (simp add: io_op_def)

lemma sat_add_len:
  assumes "unat w = length xs" "length xs + length bs < 2 ^ 64"
  shows "unat (sat_add w (file_len bs)) = length (xs @ bs)"
proof -
  have "unat (file_len bs) = length bs" using assms(2) by (simp add: file_len_def unat_of_nat)
  with assms show ?thesis by (simp add: unat_sat_add)
qed

lemma writer_write_plain:
  assumes nf: "\<forall>k. \<not> io_fails E k" and ok: "writer_ok w s"
  shows "sat_add (w_written w) (file_len bs) \<le> w_len w \<Longrightarrow> \<exists>t. writer_write E w bs s =
      (Inr (w\<lparr>w_hasher := w_hasher w @ bs, w_written := sat_add (w_written w) (file_len bs)\<rparr>), t)"
    and "\<not> sat_add (w_written w) (file_len bs) \<le> w_len w \<Longrightarrow>
      writer_write E w bs s = (Inl (TooLarge (sat_add (w_written w) (file_len bs)) (w_len w)), s)"
  by (auto simp: writer_write_def Let_def runs io_op_ok [OF nf] put_staged_def hasher_update_def not_less
      split: option.splits)

lemma pieces_plain:
  assumes nf: "\<forall>k. \<not> io_fails E k"
  shows "\<lbrakk>writer_ok w s; unat (w_written w) = length (w_hasher w);
      length (w_hasher w) + length (concat pieces) < 2 ^ 64; length (w_hasher w) \<le> unat (w_len w)\<rbrakk> \<Longrightarrow>
    (case folding (writer_write E) w pieces s of
      (Inr w', t) \<Rightarrow> length (w_hasher w) + length (concat pieces) \<le> unat (w_len w) \<and> writer_ok w' t \<and>
        w_hasher w' = w_hasher w @ concat pieces \<and> w_hash w' = w_hash w \<and> w_len w' = w_len w \<and>
        unat (w_written w') = length (w_hasher w')
    | (Inl e, t) \<Rightarrow> unat (w_len w) < length (w_hasher w) + length (concat pieces) \<and> (\<exists>n. e = TooLarge n (w_len w)))"
proof (induction pieces arbitrary: w s)
  case Nil
  then show ?case by simp
next
  case (Cons bs pieces)
  have total: "unat (sat_add (w_written w) (file_len bs)) = length (w_hasher w @ bs)"
    using Cons.prems by (intro sat_add_len) auto
  show ?case
  proof (cases "sat_add (w_written w) (file_len bs) \<le> w_len w")
    case True
    let ?w = "w\<lparr>w_hasher := w_hasher w @ bs, w_written := sat_add (w_written w) (file_len bs)\<rparr>"
    from writer_write_plain(1) [OF nf Cons.prems(1) True] obtain t where t: "writer_write E w bs s = (Inr ?w, t)" by blast
    have ok: "writer_ok ?w t" using writer_write_result [OF t Cons.prems(1)] by simp
    have fits: "length (w_hasher w @ bs) \<le> unat (w_len w)" using True total by (simp add: word_le_nat_alt)
    have "case folding (writer_write E) ?w pieces t of
        (Inr w', u) \<Rightarrow> length (w_hasher ?w) + length (concat pieces) \<le> unat (w_len ?w) \<and> writer_ok w' u \<and>
          w_hasher w' = w_hasher ?w @ concat pieces \<and> w_hash w' = w_hash ?w \<and> w_len w' = w_len ?w \<and>
          unat (w_written w') = length (w_hasher w')
      | (Inl e, u) \<Rightarrow> unat (w_len ?w) < length (w_hasher ?w) + length (concat pieces) \<and> (\<exists>n. e = TooLarge n (w_len ?w))"
      by (rule Cons.IH [OF ok]) (use Cons.prems total fits in auto)
    then show ?thesis by (auto simp: runs t algebra_simps split: prod.splits sum.splits)
  next
    case False
    then have "unat (w_len w) < length (w_hasher w @ bs)" using total by (simp add: word_le_nat_alt)
    with False show ?thesis
      using writer_write_plain(2) [OF nf Cons.prems(1) False] by (simp add: runs)
  qed
qed

lemma writer_finish_plain:
  assumes nf: "\<forall>k. \<not> io_fails E k" and ok: "writer_ok w s" and count: "unat (w_written w) = length (w_hasher w)"
  shows "fst (writer_finish E w s) =
    (if unat (w_len w) = length (w_hasher w) \<and> sha E (w_hasher w) = w_hash w then Inr (to_hex (w_hash w))
     else Inl (ContentMismatch (w_hash w)))"
proof -
  have eq: "w_written w = w_len w \<longleftrightarrow> unat (w_len w) = length (w_hasher w)"
    using count by (metis unsigned_word_eqI)
  show ?thesis
  proof (cases "unat (w_len w) = length (w_hasher w) \<and> sha E (w_hasher w) = w_hash w")
    case True
    obtain n where f: "bt_get (staging s) (w_partial w) = Some (w_hasher w, n)" using ok by (auto simp: writer_ok_def)
    with True eq show ?thesis
      by (simp add: writer_finish_def hasher_finish_def runs io_op_ok [OF nf] rename_partial_def
          drop_staged_def put_staged_def w_dest_def)
  next
    case False
    have b: "bare w" using ok by (simp add: writer_ok_def)
    from writer_drop_run [OF b, of E s] obtain u where u: "writer_drop E w s = (Inr (), u)" by blast
    with False eq show ?thesis by (auto simp: writer_finish_def hasher_finish_def runs)
  qed
qed

lemma create_partial_plain:
  assumes nf: "\<forall>k. \<not> io_fails E k" and room: "size (staging s) < 2 ^ 64 - 1"
  shows "\<exists>p t. create_partial E h s = (Inr p, t)"
proof -
  have only: "create_partial_tries E k h u = (Inl e, v) \<Longrightarrow> e = OutOfFuel" for k e and u v :: "'a disk_scheme"
    by (induction k arbitrary: u)
      (auto simp: bindE_def thenE_def fetch_next_partial_def put_staged_def io_op_ok [OF nf] split: if_splits)
  obtain r t where run: "create_partial E h s = (r, t)" by (cases "create_partial E h s")
  have tries: "create_partial E h s = create_partial_tries E (Suc (size (staging s))) h s"
    by (simp add: create_partial_def bindE_def del: create_partial_tries.simps)
  show ?thesis
  proof (cases r)
    case (Inl e)
    with only run have "e = OutOfFuel" unfolding tries by blast
    with run Inl create_partial_fuel [OF room] show ?thesis by blast
  qed (use run in blast)
qed

lemma stager_writer_plain:
  assumes "\<forall>k. \<not> io_fails E k" "size (staging s) < 2 ^ 64 - 1" "len \<le> limit"
  shows "\<exists>w t. stager_writer E limit h len s = (Inr w, t)"
proof -
  let ?s = "s\<lparr>step_no := step_no s + 1\<rparr>"
  from create_partial_plain [OF assms(1), of ?s h] assms(2) obtain p t where "create_partial E h ?s = (Inr p, t)" by auto
  with assms(3) show ?thesis by (simp add: stager_writer_def runs io_op_ok [OF assms(1)] not_less)
qed

text \<open>
  C11: A writer fed any content in any pieces, with no call failing, stages it exactly when its length
  and its hash are the announced ones, whatever the pieces are; a piece past the announced length is
  refused with the length as the limit, anything else as a mismatch.
\<close>

theorem writer_accepts_exactly:
  assumes "\<forall>k. \<not> io_fails E k" "length (concat pieces) < 2 ^ 64"
    "stager_writer E limit h len s = (Inr w, s1)"
    "bindE (folding (writer_write E) w pieces) (writer_finish E) s1 = (r, t)"
  shows "(r = Inr (to_hex h) \<and> unat len = length (concat pieces) \<and> sha E (concat pieces) = h) \<or>
    (r = Inl (ContentMismatch h) \<and> length (concat pieces) \<le> unat len \<and>
      \<not> (unat len = length (concat pieces) \<and> sha E (concat pieces) = h)) \<or>
    (\<exists>n. r = Inl (TooLarge n len) \<and> unat len < length (concat pieces))"
proof -
  have w: "writer_ok w s1" "w_hash w = h" "w_len w = len" "w_hasher w = []" "w_written w = 0"
    using stager_writer_result [OF assms(3)] by auto
  obtain q s2 where run: "folding (writer_write E) w pieces s1 = (q, s2)"
    by (cases "folding (writer_write E) w pieces s1")
  note P = pieces_plain [OF assms(1), of w s1 pieces, unfolded run]
  show ?thesis
  proof (cases q)
    case (Inl e)
    with P w assms(2) have "unat len < length (concat pieces)" "\<exists>n. e = TooLarge n len" by auto
    with Inl run assms(4) show ?thesis by (auto simp: runs)
  next
    case (Inr w')
    with P w assms(2) have w': "length (concat pieces) \<le> unat len" "writer_ok w' s2" "w_hasher w' = concat pieces"
      "w_hash w' = h" "w_len w' = len" "unat (w_written w') = length (concat pieces)" by auto
    have "writer_finish E w' s2 = (r, t)" using Inr run assms(4) by (simp add: runs)
    then have "r = fst (writer_finish E w' s2)" by simp
    with writer_finish_plain [OF assms(1) w'(2)] w' show ?thesis by simp
  qed
qed

theorem writer_accepts_exactly_witness:
  "\<exists>w s1. stager_writer ex_env 10 [1, 2, 3] 3 ex_disk = (Inr w, s1) \<and>
     fst (bindE (folding (writer_write ex_env) w [[1], [], [2, 3]]) (writer_finish ex_env) s1) =
       Inr (to_hex [1, 2, 3])"
proof -
  let ?h = "[1, 2, 3]"
  obtain q s1 where run: "stager_writer ex_env 10 ?h 3 ex_disk = (q, s1)" by (cases "stager_writer ex_env 10 ?h 3 ex_disk")
  have "case fst (stager_writer ex_env 10 ?h 3 ex_disk) of Inr _ \<Rightarrow> True | Inl _ \<Rightarrow> False"
    by (simp add: staging_eval ex_env_def ex_disk_def)
  then obtain w where w: "q = Inr w" using run by (auto split: sum.splits)
  have nf: "\<forall>k. \<not> io_fails ex_env k" by (simp add: ex_env_def)
  have sha: "sha ex_env (concat [[1], [], [2, 3]]) = ?h" by (simp add: ex_env_def)
  obtain r t where fin: "bindE (folding (writer_write ex_env) w [[1], [], [2, 3]]) (writer_finish ex_env) s1 = (r, t)"
    by (cases "bindE (folding (writer_write ex_env) w [[1], [], [2, 3]]) (writer_finish ex_env) s1")
  from writer_accepts_exactly [OF nf _ run [unfolded w] fin] sha have "r = Inr (to_hex ?h)" by auto
  with run w fin show ?thesis by auto
qed

end
