(* ===== verification/SyncFilter.thy ===== *)
theory SyncFilter
  imports FileSystem Merge
begin

text \<open>
  Which paths take part in sync (\<open>sapphire-framework-sync/src/filter.rs\<close>). Matching a path against
  the patterns of \<open>.sapphireignore\<close> belongs to the ignore crate: it is the parameter \<open>gitignore\<close> of
  the environment, \<open>None\<close> for a file the crate refuses.
\<close>

definition IGNORE_FILE :: string where
  "IGNORE_FILE = ''.sapphireignore''"

definition IGNORE_FILE_CONFLICT_PREFIX :: string where
  "IGNORE_FILE_CONFLICT_PREFIX = ''.sapphireignore.conflict-''"

definition CONFLICT_TAG :: string where
  "CONFLICT_TAG = ''.conflict-''"

definition EMBEDDED_DIR :: string where
  "EMBEDDED_DIR = ''embedded''"

record sync_filter =
  app_dir :: string
  ignored :: "(native_path \<Rightarrow> bool \<Rightarrow> bool) option"
  on_windows :: bool

text \<open>\<open>SyncFilter::load\<close>.\<close>

definition load_filter :: "env \<Rightarrow> ('a disk_scheme, sync_filter) eff" where
  "load_filter E s =
     (let file = push (windows E) (ws_root E) IGNORE_FILE;
          made = (\<lambda>ig. \<lparr>app_dir = ''.'' @ app_name E, ignored = ig, on_windows = windows E\<rparr>) in
      bindE (attempt (metadata E file)) (\<lambda>there. case there of
        Inr (RegFile _ _) \<Rightarrow> bindE (attempt (read_file E file)) (\<lambda>content. case content of
            Inl _ \<Rightarrow> throw Ignore
          | Inr b \<Rightarrow> (case gitignore E b of None \<Rightarrow> throw Ignore | Some gi \<Rightarrow> ret (made (Some gi))))
      | _ \<Rightarrow> ret (made None))) s"

text \<open>\<open>SyncFilter::is_embedded_conflict\<close>: a chain of \<open>strip_prefix\<close>, then the last segment.\<close>

definition is_embedded_conflict :: "sync_filter \<Rightarrow> string \<Rightarrow> bool" where
  "is_embedded_conflict f rel =
     (case Option.bind (Option.bind (Option.bind (strip_prefix (app_dir f) rel)
         (strip_prefix ''/'')) (strip_prefix EMBEDDED_DIR)) (strip_prefix ''/'') of
        None \<Rightarrow> False
      | Some inside \<Rightarrow> contains_str CONFLICT_TAG (last (split_on CHR ''/'' inside)))"

definition allows :: "sync_filter \<Rightarrow> string \<Rightarrow> bool \<Rightarrow> bool" where
  "allows f rel dir =
     (if \<not> is_valid_rel rel then False
      else if rel = IGNORE_FILE then True
      else if prefix IGNORE_FILE_CONFLICT_PREFIX rel \<and> CHR ''/'' \<notin> set rel then True
      else if \<not> list_all (\<lambda>seg. \<not> prefix ''.'' seg \<or> seg = app_dir f) (split_on CHR ''/'' rel) then False
      else if is_embedded_conflict f rel then False
      else case ignored f of
             Some gi \<Rightarrow> \<not> gi (to_native (on_windows f) [] rel) dir
           | None \<Rightarrow> True)"

lemma allows_valid: "allows f rel d \<Longrightarrow> is_valid_rel rel"
  by (auto simp: allows_def split: if_splits)

lemma allows_ignore_file: "allows f IGNORE_FILE d"
proof -
  have "is_valid_rel IGNORE_FILE" by code_simp
  then show ?thesis by (simp add: allows_def)
qed

section \<open>Conflict copies\<close>

text \<open>A conflict copy sits in the directory of its path; its name has no other separators.\<close>

lemma tagged_name_no_sep:
  "\<lbrakk>CHR ''/'' \<notin> set name; CHR ''/'' \<notin> set tag\<rbrakk> \<Longrightarrow> CHR ''/'' \<notin> set (tagged_name name tag)"
  by (auto simp: tagged_name_def rsplit_at_Some split: option.splits)

lemma tag_no_sep:
  assumes "CHR ''/'' \<notin> set r"
  shows "CHR ''/'' \<notin> set (''conflict-'' @ r @ ''-'' @ show_nat n)"
proof -
  have "CHR ''/'' \<notin> set (show_nat n)"
  proof
    assume "CHR ''/'' \<in> set (show_nat n)"
    from show_nat_digits [OF this] show False by simp
  qed
  with assms show ?thesis by simp
qed

lemma conflict_path_form:
  assumes "CHR ''/'' \<notin> set (show_id (replica d))"
  shows "\<exists>dir name base. conflict_path show_id p d = dir @ name \<and> CHR ''/'' \<notin> set name \<and>
    p = dir @ base \<and> CHR ''/'' \<notin> set base \<and> (dir = [] \<or> (\<exists>l. dir = l @ ''/''))"
proof (cases "rsplit_at CHR ''/'' p")
  case None
  then have p: "CHR ''/'' \<notin> set p" by (simp add: rsplit_at_None)
  from None have eq: "conflict_path show_id p d = [] @ tagged_name p (''conflict-'' @ show_id (replica d) @ ''-'' @ show_nat (unat (counter d)))"
    by (simp add: conflict_path_def)
  show ?thesis
    unfolding eq using tagged_name_no_sep [OF p tag_no_sep [OF assms]] p by blast
next
  case (Some x)
  obtain l b where x: "x = (l, b)" by (cases x)
  with Some have p: "p = (l @ ''/'') @ b" "CHR ''/'' \<notin> set b" by (auto simp: rsplit_at_Some)
  from Some x have eq: "conflict_path show_id p d =
      (l @ ''/'') @ tagged_name b (''conflict-'' @ show_id (replica d) @ ''-'' @ show_nat (unat (counter d)))"
    by (simp add: conflict_path_def)
  show ?thesis
    unfolding eq using tagged_name_no_sep [OF p(2) tag_no_sep [OF assms]] p by blast
qed

text \<open>A conflict copy of the ignore file is named by the prefix the filter lets through.\<close>

lemma rsplit_ignore: "rsplit_at CHR ''/'' IGNORE_FILE = None" "rsplit_at CHR ''.'' IGNORE_FILE = Some ([], ''sapphireignore'')"
  by code_simp+

lemma ignore_file_conflict_path:
  "conflict_path show_id IGNORE_FILE d =
     IGNORE_FILE_CONFLICT_PREFIX @ show_id (replica d) @ ''-'' @ show_nat (unat (counter d))"
proof -
  have "IGNORE_FILE_CONFLICT_PREFIX = IGNORE_FILE @ ''.'' @ ''conflict-''" by code_simp
  then show ?thesis by (simp add: conflict_path_def rsplit_ignore tagged_name_def)
qed

end
