(* ===== verification/Store.thy ===== *)
theory Store
  imports Staging SyncFilter
begin

text \<open>
  What a replica keeps (\<open>state.rs\<close>, \<open>store.rs\<close>, \<open>report.rs\<close> of \<open>sapphire-framework-sync\<close>, and the
  \<open>Replica\<close>, \<open>StoreIndex\<close> and pending-state bookkeeping of \<open>replica.rs\<close>). The redb database is a
  pair of tables that a commit replaces in one transaction or not at all; what JSON makes of the
  records is not modelled.
\<close>

section \<open>Path states, metadata and reports\<close>

record disk_state =
  d_hash :: "content_hash option"
  d_seen :: version_vector
  d_mtime :: int
  d_len :: u64
  d_checked :: int

definition disk_default :: disk_state where
  "disk_default = \<lparr>d_hash = None, d_seen = vv_new, d_mtime = 0, d_len = 0, d_checked = 0\<rparr>"

record path_state =
  p_versions :: "entry list"
  p_seen :: version_vector
  p_disk :: disk_state

definition FORMAT_VERSION :: u32 where
  "FORMAT_VERSION = 1"

record meta =
  m_format :: u32
  m_replica :: replica_id
  m_counter :: u64
  m_hlc :: hlc
  m_vv :: version_vector
  m_root :: native_path

datatype skip_reason =
    Ignored
  | SkipTooLarge u64 u64
  | Unrepresentable
  | CaseCollision string
  | SkipSymlink
  | ContentUnavailable
  | Occupied
  | SkipIo io_kind

record report =
  recorded :: "entry list"
  changed :: nat
  conflicts :: "(string \<times> string) list"
  skipped :: "(string \<times> skip_reason) list"

definition report_default :: report where
  "report_default = \<lparr>recorded = [], changed = 0, conflicts = [], skipped = []\<rparr>"

section \<open>The index of stored states\<close>

record store_index =
  hash_of :: "(string, content_hash) btmap"
  by_hash :: "(content_hash, string btset) btmap"
  by_lower :: "(string, string btset) btmap"

definition index_default :: store_index where
  "index_default = \<lparr>hash_of = bt_empty, by_hash = bt_empty, by_lower = bt_empty\<rparr>"

definition set_at :: "('k::linorder, string btset) btmap \<Rightarrow> 'k \<Rightarrow> string btset" where
  "set_at m k = (case bt_get m k of Some xs \<Rightarrow> xs | None \<Rightarrow> bt_empty)"

definition index_record :: "env \<Rightarrow> string \<Rightarrow> content_hash option \<Rightarrow> store_index \<Rightarrow> store_index" where
  "index_record E rel hash ix =
     (let low = (if case_insensitive E
                 then bt_insert (lowercase E rel) (bs_insert rel (set_at (by_lower ix) (lowercase E rel))) (by_lower ix)
                 else by_lower ix);
          previous = bt_get (hash_of ix) rel;
          hashes = (case hash of Some h \<Rightarrow> bt_insert rel h (hash_of ix) | None \<Rightarrow> bt_remove rel (hash_of ix));
          by1 = (case previous of
                   Some p \<Rightarrow>
                     if Some p \<noteq> hash then
                       (case bt_get (by_hash ix) p of
                          Some paths \<Rightarrow>
                            let paths = bt_remove rel paths in
                            if paths = bt_empty then bt_remove p (by_hash ix) else bt_insert p paths (by_hash ix)
                        | None \<Rightarrow> by_hash ix)
                     else by_hash ix
                 | None \<Rightarrow> by_hash ix);
          by2 = (case hash of Some h \<Rightarrow> bt_insert h (bs_insert rel (set_at by1 h)) by1 | None \<Rightarrow> by1)
      in \<lparr>hash_of = hashes, by_hash = by2, by_lower = low\<rparr>)"

definition index_build :: "env \<Rightarrow> (string \<times> path_state) list \<Rightarrow> store_index" where
  "index_build E states = foldl (\<lambda>ix (rel, st). index_record E rel (d_hash (p_disk st)) ix) index_default states"

definition case_twin :: "env \<Rightarrow> store_index \<Rightarrow> string \<Rightarrow> string option" where
  "case_twin E ix rel =
     (case bt_get (by_lower ix) (lowercase E rel) of
        None \<Rightarrow> None
      | Some others \<Rightarrow> find (\<lambda>other. other \<noteq> rel \<and> bt_has (hash_of ix) other) (bt_keys others))"

definition paths_with :: "store_index \<Rightarrow> content_hash \<Rightarrow> string list" where
  "paths_with ix h = bt_keys (set_at (by_hash ix) h)"

section \<open>The replica's state\<close>

text \<open>
  The database (\<open>db_meta\<close>, \<open>db_paths\<close>), what the replica holds in memory (\<open>live_meta\<close>, \<open>pending\<close>,
  \<open>pending_versions\<close>), and the index and report that one call of \<open>scan\<close>, \<open>apply\<close> or \<open>fetch_missing\<close>
  passes along by reference.
\<close>

record replica = disk +
  db_created :: bool
  db_meta :: meta
  db_paths :: "(string, path_state) btmap"
  live_meta :: meta
  pending :: "(string, path_state) btmap"
  pending_versions :: bool
  store_index :: store_index
  report :: report

type_synonym 'a rep = "(replica, 'a) eff"

definition skip :: "string \<Rightarrow> skip_reason \<Rightarrow> unit rep" where
  "skip rel reason s = (Inr (), s\<lparr>report := (report s)\<lparr>skipped := skipped (report s) @ [(rel, reason)]\<rparr>\<rparr>)"

text \<open>A database operation fails without effect, or does what it does.\<close>

definition db_op :: "env \<Rightarrow> unit rep" where
  "db_op E s = (if io_fails E (step_no s) then Inl Store else Inr (), s\<lparr>step_no := step_no s + 1\<rparr>)"

definition store_get :: "env \<Rightarrow> string \<Rightarrow> path_state option rep" where
  "store_get E rel s = thenE (db_op E) (reading (\<lambda>s. bt_get (db_paths s) rel)) s"

definition store_all :: "env \<Rightarrow> (string \<times> path_state) list rep" where
  "store_all E s = thenE (db_op E) (reading (\<lambda>s. entries (db_paths s))) s"

definition store_commit :: "env \<Rightarrow> meta \<Rightarrow> (string \<times> path_state) list \<Rightarrow> unit rep" where
  "store_commit E m states s = thenE (db_op E)
     (update (\<lambda>s. s\<lparr>db_meta := m, db_paths := bt_insert_all states (db_paths s)\<rparr>)) s"

definition any_materialized :: "env \<Rightarrow> bool rep" where
  "any_materialized E s = bindE (store_all E) (\<lambda>states. ret (list_ex (\<lambda>(_, st). d_hash (p_disk st) \<noteq> None) states)) s"

text \<open>\<open>get_state\<close>, \<open>all_states\<close>: a pending state comes before the stored one.\<close>

definition get_state :: "env \<Rightarrow> string \<Rightarrow> path_state option rep" where
  "get_state E rel s = bindE (reading (\<lambda>s. bt_get (pending s) rel)) (\<lambda>p. case p of
     Some st \<Rightarrow> ret (Some st)
   | None \<Rightarrow> store_get E rel) s"

definition overlay :: "(string \<times> path_state) list \<Rightarrow> (string, path_state) btmap \<Rightarrow> (string \<times> path_state) list" where
  "overlay states pend =
     (let replaced = map (\<lambda>(rel, st). case bt_get pend rel of Some newer \<Rightarrow> (rel, newer) | None \<Rightarrow> (rel, st)) states;
          rest = filter (\<lambda>(rel, st). rel \<notin> set (map fst states)) (entries pend)
      in sort_key fst (replaced @ rest))"

definition all_states :: "env \<Rightarrow> (string \<times> path_state) list rep" where
  "all_states E s = bindE (store_all E) (\<lambda>states. bindE (reading pending) (\<lambda>pend.
     if pend = bt_empty then ret states else ret (overlay states pend))) s"

text \<open>\<open>flush\<close>, \<open>flush_versions\<close>, \<open>finish\<close>, \<open>commit_state\<close>.\<close>

definition flush :: "env \<Rightarrow> unit rep" where
  "flush E s = bindE (reading (\<lambda>s. (pending s, live_meta s))) (\<lambda>(pend, m).
     if pend = bt_empty then ret ()
     else thenE (store_commit E m (entries pend))
       (update (\<lambda>s. s\<lparr>pending := bt_empty, pending_versions := False\<rparr>))) s"

definition flush_versions :: "env \<Rightarrow> unit rep" where
  "flush_versions E s = bindE (reading pending_versions) (\<lambda>b. if b then flush E else ret ()) s"

definition finish :: "env \<Rightarrow> 'a rep \<Rightarrow> 'a rep" where
  "finish E m s = bindE (attempt m) (\<lambda>result. bindE (attempt (flush E)) (\<lambda>flushed.
     bindE (outcome result) (\<lambda>value. thenE (outcome flushed) (ret value)))) s"

definition MAX_PENDING :: nat where
  "MAX_PENDING = 256"

definition commit_state :: "env \<Rightarrow> string \<Rightarrow> path_state \<Rightarrow> unit rep" where
  "commit_state E rel st s =
     thenE (update (\<lambda>s. s\<lparr>pending := bt_insert rel st (pending s),
         store_index := index_record E rel (d_hash (p_disk st)) (store_index s)\<rparr>))
    (bindE (reading (\<lambda>s. size (pending s))) (\<lambda>n. if MAX_PENDING \<le> n then flush E else ret ())) s"

section \<open>What a lookup sees\<close>

text \<open>The current states: the pending ones over the stored ones.\<close>

definition current :: "replica \<Rightarrow> (string, path_state) btmap" where
  "current s = bt_insert_all (entries (pending s)) (db_paths s)"

lemma current_get: "bt_get (current s) rel = (case bt_get (pending s) rel of Some st \<Rightarrow> Some st | None \<Rightarrow> bt_get (db_paths s) rel)"
  by (simp add: current_def bt_get_overlay)

lemma db_op_state: "db_op E s = (r, t) \<Longrightarrow> t = s\<lparr>step_no := step_no s + 1\<rparr> \<and> (r = Inr () \<or> r = Inl Store)"
  by (auto simp: db_op_def)

lemma get_state_current:
  "get_state E rel s = (r, t) \<Longrightarrow> (\<exists>n. t = s\<lparr>step_no := n\<rparr>) \<and> (r = Inr (bt_get (current s) rel) \<or> r = Inl Store)"
proof -
  assume run: "get_state E rel s = (r, t)"
  show ?thesis
  proof (cases "bt_get (pending s) rel")
    case (Some st)
    with run have "r = Inr (Some st)" "t = s" by (auto simp: get_state_def runs)
    with Some show ?thesis by (auto simp: current_get intro: exI [of _ "step_no s"])
  next
    case None
    then show ?thesis
      using run by (auto simp: get_state_def store_get_def current_get bindE_def thenE_def db_op_def split: if_splits)
  qed
qed

lemma distinct_map_sort: "distinct (map f (sort_key g xs)) \<longleftrightarrow> distinct (map f xs)"
  by (simp add: distinct_map)

lemma overlay_entries: "overlay (entries db) pend = entries (bt_insert_all (entries pend) db)"
proof -
  let ?L = "overlay (entries db) pend" and ?R = "entries (bt_insert_all (entries pend) db)"
  have keys: "fst ` set (map (\<lambda>(rel, st). case bt_get pend rel of Some n \<Rightarrow> (rel, n) | None \<Rightarrow> (rel, st)) xs) = fst ` set xs" for xs
    by (force split: option.splits)
  have mapfst: "map fst (map (\<lambda>(rel, st). case bt_get pend rel of Some n \<Rightarrow> (rel, n) | None \<Rightarrow> (rel, st)) xs) = map fst xs" for xs
    by (induction xs) (auto split: option.splits)
  have set: "set ?L = set ?R"
  proof (intro set_eqI iffI; clarify)
    fix k v assume "(k, v) \<in> set ?L"
    then consider u where "bt_get db k = Some u" "v = (case bt_get pend k of Some n \<Rightarrow> n | None \<Rightarrow> u)"
      | "bt_get pend k = Some v" "bt_get db k = None"
      by (auto simp: overlay_def Let_def bt_entries_iff image_iff not_Some_eq split: option.splits) (metis bt_entries_iff option.exhaust)+
    then show "(k, v) \<in> set ?R"
      by cases (auto simp: bt_entries_iff bt_get_overlay split: option.splits)
  next
    fix k v assume "(k, v) \<in> set ?R"
    then have g: "(case bt_get pend k of Some n \<Rightarrow> Some n | None \<Rightarrow> bt_get db k) = Some v"
      by (simp add: bt_entries_iff bt_get_overlay)
    show "(k, v) \<in> set ?L"
    proof (cases "bt_get db k")
      case None
      with g have "bt_get pend k = Some v" by (auto split: option.splits)
      moreover have "k \<notin> fst ` set (entries db)" using None al_get_None [of "entries db" k] by (simp add: al_get_entries)
      ultimately show ?thesis by (simp add: overlay_def Let_def bt_entries_iff)
    next
      case (Some u)
      then have "(k, u) \<in> set (entries db)" by (simp add: bt_entries_iff)
      then have "(case bt_get pend k of Some n \<Rightarrow> (k, n) | None \<Rightarrow> (k, u)) \<in> set ?L"
        unfolding overlay_def Let_def by force
      with g Some show ?thesis by (auto split: option.splits)
    qed
  qed
  have "distinct (map fst ?L)"
    unfolding overlay_def Let_def distinct_map_sort map_append mapfst distinct_append
    using bt_entries_distinct [of db] bt_entries_distinct [of pend]
    by (auto simp: distinct_map_filter) (metis fst_conv image_eqI)

  moreover have "sorted (map fst ?L)" by (simp add: overlay_def Let_def)
  moreover have "sorted (map fst ?R)" "distinct (map fst ?R)"
    using bt_entries_sorted [of "bt_insert_all (entries pend) db"] by (simp_all add: strict_sorted_iff)
  ultimately show ?thesis
    using set by (intro map_sorted_distinct_set_unique [of fst]) (auto simp: distinct_map)
qed

section \<open>What the index knows\<close>

text \<open>The two hash tables agree, and the lower-case table names every recorded path.\<close>

definition index_ok :: "store_index \<Rightarrow> bool" where
  "index_ok ix \<longleftrightarrow> (\<forall>h rel. bt_has (set_at (by_hash ix) h) rel \<longleftrightarrow> bt_get (hash_of ix) rel = Some h)"

lemma set_at_insert: "set_at (bt_insert k v m) k' = (if k' = k then v else set_at m k')"
  by (simp add: set_at_def)

lemma set_at_remove: "set_at (bt_remove k m) k' = (if k' = k then bt_empty else set_at m k')"
  by (simp add: set_at_def)

lemma has_simps: "bt_has (bt_insert k v m) k' \<longleftrightarrow> k' = k \<or> bt_has m k'"
  "bt_has (bt_remove k m) k' \<longleftrightarrow> k' \<noteq> k \<and> bt_has m k'" "\<not> bt_has bt_empty k'"
  by (auto simp: bt_has_def)

lemma hash_of_record [simp]:
  "hash_of (index_record E rel hash ix) =
     (case hash of Some h \<Rightarrow> bt_insert rel h (hash_of ix) | None \<Rightarrow> bt_remove rel (hash_of ix))"
  by (simp add: index_record_def Let_def)

lemma drop_old:
  assumes ok: "index_ok ix" and p: "bt_get (hash_of ix) rel = Some p"
  shows "bt_has (set_at (case bt_get (by_hash ix) p of
        Some paths \<Rightarrow> let paths = bt_remove rel paths in
          if paths = bt_empty then bt_remove p (by_hash ix) else bt_insert p paths (by_hash ix)
      | None \<Rightarrow> by_hash ix) h) q \<longleftrightarrow> bt_has (set_at (by_hash ix) h) q \<and> \<not> (h = p \<and> q = rel)"
proof (cases "bt_get (by_hash ix) p")
  case None
  from ok p have "bt_has (set_at (by_hash ix) p) rel" by (simp add: index_ok_def)
  with None show ?thesis by (simp add: set_at_def has_simps)
next
  case (Some paths)
  show ?thesis
  proof (cases "bt_remove rel paths = bt_empty")
    case True
    then have "bt_has paths q \<Longrightarrow> q = rel" for q by (metis has_simps(2,3))
    with Some True show ?thesis by (auto simp: set_at_def Let_def has_simps)
  next
    case False
    with Some show ?thesis by (auto simp: set_at_def Let_def has_simps)
  qed
qed

lemma index_ok_record: "index_ok ix \<Longrightarrow> index_ok (index_record E rel hash ix)"
proof -
  assume ok: "index_ok ix"
  let ?by1 = "case bt_get (hash_of ix) rel of
      Some p \<Rightarrow> if Some p \<noteq> hash then (case bt_get (by_hash ix) p of
          Some paths \<Rightarrow> let paths = bt_remove rel paths in
            if paths = bt_empty then bt_remove p (by_hash ix) else bt_insert p paths (by_hash ix)
        | None \<Rightarrow> by_hash ix) else by_hash ix
    | None \<Rightarrow> by_hash ix"
  have by1: "bt_has (set_at ?by1 h) q \<longleftrightarrow> bt_get (hash_of ix) q = Some h \<and> (q = rel \<longrightarrow> Some h = hash)" for h q
  proof (cases "bt_get (hash_of ix) rel")
    case None
    with ok show ?thesis by (auto simp: index_ok_def)
  next
    case (Some p)
    with ok drop_old [OF ok Some, of h q] show ?thesis by (auto simp: index_ok_def)
  qed
  have "by_hash (index_record E rel hash ix) =
      (case hash of Some h \<Rightarrow> bt_insert h (bs_insert rel (set_at ?by1 h)) ?by1 | None \<Rightarrow> ?by1)"
    by (simp add: index_record_def Let_def)
  then show ?thesis
    by (cases hash) (auto simp: index_ok_def by1 set_at_insert has_simps)
qed

lemma index_default_ok [simp]: "index_ok index_default"
  by (simp add: index_ok_def index_default_def set_at_def has_simps)

lemma index_build_snoc:
  "index_build E (states @ [(rel, st)]) = index_record E rel (d_hash (p_disk st)) (index_build E states)"
  by (simp add: index_build_def)

lemma index_ok_build: "index_ok (index_build E states)"
proof (induction states rule: rev_induct)
  case Nil
  then show ?case by (simp add: index_build_def)
next
  case (snoc x xs)
  then show ?case by (cases x) (simp add: index_build_snoc index_ok_record)
qed

lemma hash_of_build:
  "distinct (map fst states) \<Longrightarrow> bt_get (hash_of (index_build E states)) rel =
     Option.bind (al_get states rel) (\<lambda>st. d_hash (p_disk st))"
proof (induction states rule: rev_induct)
  case Nil
  then show ?case by (simp add: index_build_def index_default_def)
next
  case (snoc x xs)
  obtain r st where x: "x = (r, st)" by (cases x)
  have "al_get (xs @ [(r, st)]) rel = (case al_get xs rel of Some v \<Rightarrow> Some v | None \<Rightarrow> if rel = r then Some st else None)" for xs
    by (induction xs rel rule: al_get.induct) auto
  moreover have "al_get xs r = None" using snoc.prems x by (auto simp: al_get_None)
  ultimately show ?case
    using snoc x by (auto simp: index_build_snoc split: option.splits)
qed

lemma paths_with_iff: "index_ok ix \<Longrightarrow> rel \<in> set (paths_with ix h) \<longleftrightarrow> bt_get (hash_of ix) rel = Some h"
  by (simp add: paths_with_def bt_keys_iff index_ok_def)

end
