(* ===== verification/Replica.thy ===== *)
theory Replica
  imports Store
begin

text \<open>
  The replica (\<open>sapphire-framework-sync/src/replica.rs\<close>): scanning a workspace, joining a peer's
  updates, writing winners and conflict copies, and giving content away. The mutually recursive
  \<open>reconcile_path\<close>, \<open>integrate\<close> and \<open>ensure_conflict_copies\<close> take the recursive call as a parameter;
  \<open>reconcile_path\<close> ties the knot with a bound on its depth.
\<close>

section \<open>Stamps and names\<close>

definition DEFAULT_MAX_FILE_SIZE :: u64 where
  "DEFAULT_MAX_FILE_SIZE = 1024 * 1024 * 1024"

definition RACY_NS :: int where
  "RACY_NS = 2000000000"

definition I64_MAX :: int where
  "I64_MAX = 9223372036854775807"

definition STAGING_GRACE_NS :: int where
  "STAGING_GRACE_NS = 60 * 60 * 1000000000"

definition native :: "env \<Rightarrow> string \<Rightarrow> native_path" where
  "native E rel = to_native (windows E) (ws_root E) rel"

definition representable :: "env \<Rightarrow> string \<Rightarrow> bool" where
  "representable E rel = representable_on rel (windows E)"

definition conflict_rel :: "env \<Rightarrow> string \<Rightarrow> dot \<Rightarrow> string" where
  "conflict_rel E = conflict_path (\<lambda>r. show_grain E (display_id (from_byte_suffix E) r))"

definition now_ns :: "env \<Rightarrow> int rep" where
  "now_ns E s = (Inr (max 0 (min I64_MAX (clock_ns E (step_no s)))), s)"

text \<open>\<open>stamp_of\<close>: times before the epoch read as 0. A directory's own length is not modelled.\<close>

definition stamp_of :: "node \<Rightarrow> int \<times> u64" where
  "stamp_of n = (case n of RegFile b t \<Rightarrow> (max 0 (min I64_MAX t), file_len b) | _ \<Rightarrow> (0, 0))"

definition is_racy :: "disk_state \<Rightarrow> bool" where
  "is_racy d \<longleftrightarrow> d_checked d \<le> min I64_MAX (d_mtime d + RACY_NS)"

definition trusted_stamp :: "disk_state \<Rightarrow> int \<times> u64 \<Rightarrow> bool" where
  "trusted_stamp d stamp \<longleftrightarrow> d_hash d \<noteq> None \<and> stamp = (d_mtime d, d_len d) \<and> \<not> is_racy d"

section \<open>Errors of one path\<close>

text \<open>\<open>tolerate_io\<close>.\<close>

definition tolerate_io :: "unit rep \<Rightarrow> string \<Rightarrow> unit rep" where
  "tolerate_io m rel s = bindE (attempt m) (\<lambda>r. case r of
     Inl (Io k) \<Rightarrow> skip rel (SkipIo k)
   | other \<Rightarrow> outcome other) s"

definition winner_of :: "path_state \<Rightarrow> entry rep" where
  "winner_of st s = (case winner (p_versions st) of None \<Rightarrow> throw WinnerPanic | Some w \<Rightarrow> ret w) s"

definition losers :: "path_state \<Rightarrow> entry \<Rightarrow> entry list" where
  "losers st w = filter (\<lambda>v. e_dot v \<noteq> e_dot w \<and> needs_copy v w) (p_versions st)"

section \<open>Pausing\<close>

definition pause_reason :: "env \<Rightarrow> pause_reason option rep" where
  "pause_reason E s =
     bindE (is_dir E (ws_root E)) (\<lambda>root_ok.
     bindE (is_dir E (push (windows E) (ws_root E) (''.'' @ app_name E))) (\<lambda>marker_ok.
     if root_ok \<and> marker_ok then ret None
     else bindE (all_states E) (\<lambda>states.
       if \<not> list_ex (\<lambda>(_, st). d_hash (p_disk st) \<noteq> None) states then ret None
       else ret (Some (if root_ok then MarkerMissing else RootMissing))))) s"

section \<open>Finding content\<close>

definition holds_content :: "env \<Rightarrow> content_hash \<Rightarrow> string \<Rightarrow> (place_of \<times> u64) option rep" where
  "holds_content E h rel s =
     bindE (get_state E rel) (\<lambda>st. case st of
       None \<Rightarrow> ret None
     | Some st \<Rightarrow> bindE (attempt (metadata E (native E rel))) (\<lambda>meta. case meta of
         Inl _ \<Rightarrow> ret None
       | Inr n \<Rightarrow>
           let len = snd (stamp_of n);
               trusted = d_hash (p_disk st) = Some h \<and> stamp_of n = (d_mtime (p_disk st), d_len (p_disk st))
                 \<and> \<not> is_racy (p_disk st) in
           if trusted then ret (Some (InTree (native E rel), len))
           else bindE (attempt (hash_of_file E (native E rel))) (\<lambda>r.
             ret (if r = Inr h then Some (InTree (native E rel), len) else None)))) s"

definition content_path_with :: "env \<Rightarrow> store_index \<Rightarrow> content_hash \<Rightarrow> (place_of \<times> u64) option rep" where
  "content_path_with E ix h s =
     bindE (first_some (holds_content E h) (paths_with ix h)) (\<lambda>hit. case hit of
       Some x \<Rightarrow> ret (Some x)
     | None \<Rightarrow> bindE (staged E h) (\<lambda>name. case name of
         None \<Rightarrow> ret None
       | Some name \<Rightarrow> bindE (attempt (io_op E)) (\<lambda>r. reading (\<lambda>s.
           case (r, bt_get (staging s) name) of
             (Inr _, Some (b, _)) \<Rightarrow> Some (InStaging name, file_len b)
           | _ \<Rightarrow> None)))) s"

definition content_path :: "env \<Rightarrow> content_hash \<Rightarrow> (place_of \<times> u64) option rep" where
  "content_path E h s = bindE (all_states E) (\<lambda>states. content_path_with E (index_build E states) h) s"

definition content_paths :: "env \<Rightarrow> content_hash list \<Rightarrow> (content_hash, place_of \<times> u64) btmap rep" where
  "content_paths E hashes s = bindE (all_states E) (\<lambda>states.
     folding (\<lambda>found h.
       if bt_has found h then ret found
       else bindE (content_path_with E (index_build E states) h) (\<lambda>hit. ret (case hit of
         Some x \<Rightarrow> bt_insert h x found
       | None \<Rightarrow> found))) bt_empty hashes) s"

text \<open>\<open>ContentSource for Replica\<close>.\<close>

definition locate :: "env \<Rightarrow> content_hash \<Rightarrow> place_of option rep" where
  "locate E h s = bindE (attempt (content_path E h)) (\<lambda>r. ret (case r of
     Inr (Some (p, _)) \<Rightarrow> Some p
   | _ \<Rightarrow> None)) s"

text \<open>\<open>stage\<close>, \<open>stage_from\<close>. A source of content tells where it is, if anywhere.\<close>

type_synonym content_source = "content_hash \<Rightarrow> place_of option"

definition stage_from :: "env \<Rightarrow> place_of \<Rightarrow> content_hash \<Rightarrow> string option rep" where
  "stage_from E from h s = stage_with E (max_file_size E) from h s"

definition stage :: "env \<Rightarrow> content_source \<Rightarrow> content_hash \<Rightarrow> string option rep" where
  "stage E src h s =
     bindE (staged E h) (\<lambda>there. case there of
       Some name \<Rightarrow> ret (Some name)
     | None \<Rightarrow> bindE (reading store_index) (\<lambda>ix. bindE (content_path_with E ix h) (\<lambda>at. case at of
         Some (from, _) \<Rightarrow> stage_from E from h
       | None \<Rightarrow> (case src h of Some from \<Rightarrow> stage_from E from h | None \<Rightarrow> ret None)))) s"

section \<open>Why a path is left alone\<close>

definition skip_reason :: "env \<Rightarrow> sync_filter \<Rightarrow> store_index \<Rightarrow> string \<Rightarrow> entry \<Rightarrow> skip_reason option" where
  "skip_reason E f ix rel w =
     (if \<not> allows f rel False then Some Ignored
      else if \<not> representable E rel then Some Unrepresentable
      else case e_content w of
        File _ len \<Rightarrow>
          if len > max_file_size E then Some (SkipTooLarge len (max_file_size E))
          else (case case_twin E ix rel of Some other \<Rightarrow> Some (CaseCollision other) | None \<Rightarrow> None)
      | Tombstone \<Rightarrow> None)"

definition occupied :: "env \<Rightarrow> string \<Rightarrow> disk_state \<Rightarrow> bool rep" where
  "occupied E rel d s =
     bindE (attempt (symlink_metadata E (native E rel))) (\<lambda>m. case m of
       Inl e \<Rightarrow> if e = Io NotFound then ret False else throw e
     | Inr n \<Rightarrow> (case n of
         RegFile b _ \<Rightarrow>
           if file_len b > max_file_size E then ret True
           else bindE (if trusted_stamp d (stamp_of n) then ret (d_hash d)
                       else bindE (hash_of_file E (native E rel)) (\<lambda>h. ret (Some h)))
             (\<lambda>h. ret (h \<noteq> d_hash d))
       | _ \<Rightarrow> ret True)) s"

text \<open>
  \<open>disk_seen\<close>: everything merged, except losers still waiting for a conflict copy that will be tried.
\<close>

definition disk_seen :: "env \<Rightarrow> sync_filter \<Rightarrow> path_state \<Rightarrow> version_vector rep" where
  "disk_seen E f st s =
     bindE (winner_of st) (\<lambda>w. folding (\<lambda>seen loser.
       let copy_rel = conflict_rel E (e_path loser) (e_dot loser) in
       if \<not> allows f copy_rel False \<or> \<not> representable E copy_rel then ret seen
       else bindE (get_state E copy_rel) (\<lambda>there.
         ret (if there = None then pin_out seen (e_dot loser) else seen)))
       (p_seen st) (losers st w)) s"

section \<open>Recording and joining\<close>

definition next_entry :: "env \<Rightarrow> string \<Rightarrow> content \<Rightarrow> version_vector \<Rightarrow> entry rep" where
  "next_entry E rel c ctx s =
     (let m = live_meta s;
          count = m_counter m + 1;
          h = tick (m_hlc m) (clock_ms E (step_no s));
          d = Dot (m_replica m) count
      in (Inr \<lparr>e_path = rel, e_content = c, e_hlc = h, e_dot = d, e_context = ctx, e_author = device_id E\<rparr>,
          s\<lparr>live_meta := m\<lparr>m_counter := count, m_hlc := h, m_vv := add_dot d (m_vv m)\<rparr>\<rparr>))"

text \<open>\<open>Replica::join\<close>.\<close>

definition join_update :: "env \<Rightarrow> path_update \<Rightarrow> disk_state option \<Rightarrow> path_state option rep" where
  "join_update E u local_disk s =
     bindE (get_state E (u_path u)) (\<lambda>old.
       case join (map_option (\<lambda>st. (p_versions st, p_seen st)) old) (u_versions u) (u_seen u) of
         None \<Rightarrow> ret None
       | Some (versions, seen) \<Rightarrow>
           let disk = (case local_disk of Some d \<Rightarrow> d
                       | None \<Rightarrow> (case old of Some st \<Rightarrow> p_disk st | None \<Rightarrow> disk_default));
               st = \<lparr>p_versions = versions, p_seen = seen, p_disk = disk\<rparr> in
           thenE (commit_state E (u_path u) st)
          (thenE (update (\<lambda>s. s\<lparr>pending_versions := True, report := (report s)\<lparr>changed := changed (report s) + 1\<rparr>\<rparr>))
          (ret (Some st)))) s"

section \<open>Writing\<close>

text \<open>One loser of \<open>ensure_conflict_copies\<close>; \<open>rec\<close> is \<open>reconcile_path\<close>.\<close>

definition copy_content :: "env \<Rightarrow> content_source \<Rightarrow> string \<Rightarrow> path_state \<Rightarrow> content_hash \<Rightarrow> string option rep" where
  "copy_content E src rel st h s =
     (if d_hash (p_disk st) = Some h then stage_with E (- 1) (InTree (native E rel)) h
      else bindE (reading store_index) (\<lambda>ix. bindE (content_path_with E ix h) (\<lambda>at.
        case (case at of Some (p, _) \<Rightarrow> Some p | None \<Rightarrow> src h) of
          Some from \<Rightarrow> stage_from E from h
        | None \<Rightarrow> ret None))) s"

definition holds_loser :: "env \<Rightarrow> string \<Rightarrow> content_hash \<Rightarrow> bool option rep" where
  "holds_loser E copy_rel h s =
     bindE (attempt (symlink_metadata E (native E copy_rel))) (\<lambda>m. case m of
       Inr (RegFile _ _) \<Rightarrow> bindE (hash_of_file E (native E copy_rel)) (\<lambda>g.
         ret (if g = h then Some True else None))
     | Inr _ \<Rightarrow> ret None
     | Inl e \<Rightarrow> if e = Io NotFound then ret (Some False) else throw e) s"

definition ensure_copy :: "env \<Rightarrow> (string \<Rightarrow> unit rep) \<Rightarrow> sync_filter \<Rightarrow> content_source
    \<Rightarrow> string \<Rightarrow> path_state \<Rightarrow> entry \<Rightarrow> unit rep" where
  "ensure_copy E rec f src rel st loser s =
     (case e_content loser of
        Tombstone \<Rightarrow> ret ()
      | File h _ \<Rightarrow>
          let copy_rel = conflict_rel E rel (e_dot loser) in
          if \<not> allows f copy_rel False then skip copy_rel Ignored
          else if \<not> representable E copy_rel then skip copy_rel Unrepresentable
          else bindE (get_state E copy_rel) (\<lambda>there.
            if there \<noteq> None then ret ()
            else bindE (holds_loser E copy_rel h) (\<lambda>holds. case holds of
              None \<Rightarrow> skip copy_rel Occupied
            | Some True \<Rightarrow> rec copy_rel
            | Some False \<Rightarrow> bindE (copy_content E src rel st h) (\<lambda>staged. case staged of
                None \<Rightarrow> skip copy_rel ContentUnavailable
              | Some name \<Rightarrow>
                  thenE (flush_versions E)
                 (thenE (place E name (native E copy_rel))
                 (thenE (update (\<lambda>s. s\<lparr>report := (report s)\<lparr>conflicts := conflicts (report s) @ [(rel, copy_rel)]\<rparr>\<rparr>))
                 (rec copy_rel))))))) s"

definition ensure_conflict_copies :: "env \<Rightarrow> (string \<Rightarrow> unit rep) \<Rightarrow> sync_filter \<Rightarrow> content_source
    \<Rightarrow> string \<Rightarrow> path_state \<Rightarrow> unit rep" where
  "ensure_conflict_copies E rec f src rel st s =
     (if length (p_versions st) < 2 then ret ()
      else bindE (winner_of st) (\<lambda>w. each (ensure_copy E rec f src rel st) (losers st w))) s"

text \<open>\<open>settle\<close>: make the file hold the winner, then record what it reflects.\<close>

definition write_winner :: "env \<Rightarrow> content_source \<Rightarrow> string \<Rightarrow> content \<Rightarrow> disk_state option rep" where
  "write_winner E src rel c s =
     (case c of
        Tombstone \<Rightarrow>
          thenE (flush_versions E)
         (bindE (attempt (remove_file E (native E rel))) (\<lambda>r. case r of
            Inl e \<Rightarrow> if e = Io NotFound then ret (Some disk_default) else throw e
          | Inr _ \<Rightarrow> ret (Some disk_default)))
      | File h _ \<Rightarrow> bindE (stage E src h) (\<lambda>staged. case staged of
          None \<Rightarrow> ret None
        | Some name \<Rightarrow>
            thenE (flush_versions E)
           (thenE (place E name (native E rel))
           (bindE (metadata E (native E rel)) (\<lambda>n. bindE (now_ns E) (\<lambda>now.
            ret (Some \<lparr>d_hash = Some h, d_seen = vv_new, d_mtime = fst (stamp_of n), d_len = snd (stamp_of n),
              d_checked = now\<rparr>))))))) s"

definition settle :: "env \<Rightarrow> sync_filter \<Rightarrow> content_source \<Rightarrow> string \<Rightarrow> path_state \<Rightarrow> unit rep" where
  "settle E f src rel st s =
     bindE (winner_of st) (\<lambda>w.
       if content_hash_of (e_content w) = d_hash (p_disk st)
       then bindE (disk_seen E f st) (\<lambda>seen.
         if seen \<noteq> d_seen (p_disk st)
         then commit_state E rel (st\<lparr>p_disk := (p_disk st)\<lparr>d_seen := seen\<rparr>\<rparr>)
         else ret ())
       else bindE (reading store_index) (\<lambda>ix. case skip_reason E f ix rel w of
         Some reason \<Rightarrow> skip rel reason
       | None \<Rightarrow> bindE (occupied E rel (p_disk st)) (\<lambda>taken.
           if taken then skip rel Occupied
           else bindE (write_winner E src rel (e_content w)) (\<lambda>written. case written of
             None \<Rightarrow> skip rel ContentUnavailable
           | Some d \<Rightarrow> bindE (disk_seen E f (st\<lparr>p_disk := d\<rparr>)) (\<lambda>seen.
               commit_state E rel (st\<lparr>p_disk := d\<lparr>d_seen := seen\<rparr>\<rparr>)))))) s"

definition integrate :: "env \<Rightarrow> (string \<Rightarrow> unit rep) \<Rightarrow> sync_filter \<Rightarrow> content_source
    \<Rightarrow> path_update \<Rightarrow> disk_state option \<Rightarrow> unit rep" where
  "integrate E rec f src u local_disk s =
     bindE (join_update E u local_disk) (\<lambda>joined. case joined of
       None \<Rightarrow> ret ()
     | Some st \<Rightarrow> thenE (ensure_conflict_copies E rec f src (u_path u) st) (settle E f src (u_path u) st)) s"

section \<open>Reconciling one path\<close>

text \<open>
  What \<open>reconcile_path\<close> finds at a path: nothing to look at (a symbolic link or a file over the
  limit, already reported), or the hash of the file (\<open>None\<close> for no regular file) and its stamp.
\<close>

definition look_at :: "env \<Rightarrow> string \<Rightarrow> disk_state \<Rightarrow> (content_hash option \<times> int \<times> u64) option rep" where
  "look_at E rel d s =
     bindE (attempt (symlink_metadata E (native E rel))) (\<lambda>m. case m of
       Inl e \<Rightarrow> if e = Io NotFound then ret (Some (None, 0, 0)) else throw e
     | Inr (Symlink _) \<Rightarrow> thenE (skip rel SkipSymlink) (ret None)
     | Inr Directory \<Rightarrow> ret (Some (None, 0, 0))
     | Inr (RegFile b t) \<Rightarrow>
         let stamp = stamp_of (RegFile b t) in
         if trusted_stamp d stamp then ret (Some (d_hash d, stamp))
         else if file_len b > max_file_size E
         then thenE (skip rel (SkipTooLarge (file_len b) (max_file_size E))) (ret None)
         else bindE (hash_of_file E (native E rel)) (\<lambda>h. ret (Some (Some h, stamp)))) s"

definition record_write :: "env \<Rightarrow> (string \<Rightarrow> unit rep) \<Rightarrow> sync_filter \<Rightarrow> content_source
    \<Rightarrow> string \<Rightarrow> path_state option \<Rightarrow> content_hash option \<Rightarrow> int \<times> u64 \<Rightarrow> unit rep" where
  "record_write E rec f src rel st file_hash stamp s =
     (let disk = (case st of Some st \<Rightarrow> p_disk st | None \<Rightarrow> disk_default);
          c = (case file_hash of Some h \<Rightarrow> File h (snd stamp) | None \<Rightarrow> Tombstone) in
      if st = None \<and> is_tombstone c then ret ()
      else bindE (if is_tombstone c \<and> d_hash disk \<noteq> None then pause_reason E else ret None) (\<lambda>paused. case paused of
        Some reason \<Rightarrow> throw (Paused reason)
      | None \<Rightarrow> bindE (next_entry E rel c (d_seen disk)) (\<lambda>e.
          thenE (update (\<lambda>s. s\<lparr>report := (report s)\<lparr>recorded := recorded (report s) @ [e]\<rparr>\<rparr>))
         (bindE (now_ns E) (\<lambda>now.
          let seen = add_dot (e_dot e) (e_context e) in
          integrate E rec f src \<lparr>u_path = rel, u_versions = [e], u_seen = seen\<rparr>
            (Some \<lparr>d_hash = file_hash, d_seen = seen, d_mtime = fst stamp, d_len = snd stamp, d_checked = now\<rparr>)))))) s"

text \<open>The file holds what the state already knows: refresh the stamp, then settle.\<close>

definition refresh_and_settle :: "env \<Rightarrow> (string \<Rightarrow> unit rep) \<Rightarrow> sync_filter \<Rightarrow> content_source
    \<Rightarrow> string \<Rightarrow> path_state \<Rightarrow> bool \<Rightarrow> content_hash option \<Rightarrow> int \<times> u64 \<Rightarrow> unit rep" where
  "refresh_and_settle E rec f src rel st stale file_hash stamp s =
     bindE (if stale
            then bindE (now_ns E) (\<lambda>now.
              let st = st\<lparr>p_disk := (p_disk st)\<lparr>d_hash := file_hash, d_mtime := fst stamp, d_len := snd stamp,
                d_checked := now\<rparr>\<rparr> in
              thenE (commit_state E rel st) (ret st))
            else ret st) (\<lambda>st.
     thenE (ensure_conflict_copies E rec f src rel st) (settle E f src rel st)) s"

definition reconcile_body :: "env \<Rightarrow> (string \<Rightarrow> unit rep) \<Rightarrow> sync_filter \<Rightarrow> content_source \<Rightarrow> string \<Rightarrow> unit rep" where
  "reconcile_body E rec f src rel s =
     (if \<not> allows f rel False \<or> \<not> representable E rel then ret ()
      else bindE (get_state E rel) (\<lambda>st.
        let disk = (case st of Some st \<Rightarrow> p_disk st | None \<Rightarrow> disk_default) in
        bindE (reading store_index) (\<lambda>ix.
        if d_hash disk = None \<and> case_twin E ix rel \<noteq> None
        then (case st of Some st \<Rightarrow> settle E f src rel st | None \<Rightarrow> ret ())
        else bindE (look_at E rel disk) (\<lambda>found. case found of
          None \<Rightarrow> ret ()
        | Some (file_hash, stamp) \<Rightarrow>
            if file_hash = d_hash disk
            then (case st of
                None \<Rightarrow> ret ()
              | Some st \<Rightarrow> refresh_and_settle E rec f src rel st
                  (file_hash \<noteq> None \<and> (stamp \<noteq> (d_mtime disk, d_len disk) \<or> is_racy disk)) file_hash stamp)
            else bindE (case st of None \<Rightarrow> ret None | Some st \<Rightarrow> bindE (winner_of st) (\<lambda>w. ret (Some w))) (\<lambda>w.
              case (st, w) of
                (Some st, Some w) \<Rightarrow>
                  if content_hash_of (e_content w) = file_hash
                  then refresh_and_settle E rec f src rel st True file_hash stamp
                  else record_write E rec f src rel (Some st) file_hash stamp
              | _ \<Rightarrow> record_write E rec f src rel None file_hash stamp))))) s"

text \<open>
  The recursion through conflict copies: a copy is reconciled only at a path without a state, where
  the single recorded version has no loser, so that two levels are enough.
\<close>

fun reconcile_path :: "nat \<Rightarrow> env \<Rightarrow> sync_filter \<Rightarrow> content_source \<Rightarrow> string \<Rightarrow> unit rep" where
  "reconcile_path 0 E f src rel s = throw OutOfFuel s"
| "reconcile_path (Suc n) E f src rel s = reconcile_body E (reconcile_path n E f src) f src rel s"

definition RECONCILE_DEPTH :: nat where
  "RECONCILE_DEPTH = 2"

abbreviation reconcile :: "env \<Rightarrow> sync_filter \<Rightarrow> content_source \<Rightarrow> string \<Rightarrow> unit rep" where
  "reconcile E f src rel \<equiv> reconcile_path RECONCILE_DEPTH E f src rel"

section \<open>Scanning\<close>

text \<open>
  The walk of \<open>scan_root\<close>: entries in path order, directories the filter excludes or that cannot be
  listed pruned, an entry that cannot be read reported. \<open>opened\<close> holds the directories entered.
\<close>

definition walk_entry :: "env \<Rightarrow> sync_filter \<Rightarrow> native_path list \<times> string btset \<Rightarrow> native_path \<times> node
    \<Rightarrow> (native_path list \<times> string btset) rep" where
  "walk_entry E f acc item s =
     (let (opened, rels) = acc; (p, n) = item in
      if p = [] \<or> butlast p \<notin> set opened then ret acc
      else case rel_from_native (ws_root E) p of
        None \<Rightarrow> ret acc
      | Some rel \<Rightarrow>
          if \<not> allows f rel (n = Directory) then ret acc
          else bindE (attempt (io_op E)) (\<lambda>r. case r of
            Inl _ \<Rightarrow> thenE (skip rel (SkipIo OtherIo)) (ret acc)
          | Inr _ \<Rightarrow> (case n of
              Directory \<Rightarrow> ret (p # opened, rels)
            | Symlink _ \<Rightarrow> thenE (skip rel SkipSymlink) (ret acc)
            | RegFile _ _ \<Rightarrow> ret (opened, bs_insert rel rels)))) s"

definition walk :: "env \<Rightarrow> sync_filter \<Rightarrow> string btset rep" where
  "walk E f s =
     bindE (is_dir E (ws_root E)) (\<lambda>there.
       if \<not> there then ret bt_empty
       else bindE (attempt (io_op E)) (\<lambda>r. case r of
         Inl _ \<Rightarrow> thenE (skip '''' (SkipIo OtherIo)) (ret bt_empty)
       | Inr _ \<Rightarrow> bindE (reading (\<lambda>s. entries (tree s))) (\<lambda>items.
           bindE (folding (walk_entry E f) ([ws_root E], bt_empty) items) (\<lambda>(_, rels). ret rels)))) s"

text \<open>The index and the report a call starts with, and the report it returns.\<close>

definition start_call :: "env \<Rightarrow> unit rep" where
  "start_call E s = (Inr (), s\<lparr>store_index := index_default, report := report_default\<rparr>)"

definition set_index :: "env \<Rightarrow> (string \<times> path_state) list \<Rightarrow> unit rep" where
  "set_index E states s = (Inr (), s\<lparr>store_index := index_build E states\<rparr>)"

definition scan_root :: "env \<Rightarrow> report rep" where
  "scan_root E s =
     bindE (load_filter E) (\<lambda>f. thenE (start_call E)
    (bindE (walk E f) (\<lambda>walked.
     bindE (all_states E) (\<lambda>states. thenE (set_index E states)
    (let rels = foldl (\<lambda>acc (rel, _). bs_insert rel acc) walked states in
     thenE (each (\<lambda>rel. tolerate_io (reconcile E f (\<lambda>_. None) rel) rel) (bt_keys rels))
    (reading report)))))) s"

datatype scan_outcome = Scanned report | PausedScan pause_reason

section \<open>Collecting staged content\<close>

definition held_in_workspace :: "env \<Rightarrow> store_index \<Rightarrow> content_hash \<Rightarrow> bool rep" where
  "held_in_workspace E ix h s =
     bindE (first_some (\<lambda>rel. bindE (get_state E rel) (\<lambda>st. case st of
         None \<Rightarrow> ret None
       | Some st \<Rightarrow>
           if is_racy (p_disk st) then ret None
           else bindE (attempt (metadata E (native E rel))) (\<lambda>m. ret (case m of
             Inr n \<Rightarrow> if stamp_of n = (d_mtime (p_disk st), d_len (p_disk st)) then Some () else None
           | Inl _ \<Rightarrow> None)))) (paths_with ix h)) (\<lambda>r. ret (r \<noteq> None)) s"

definition collect_one :: "env \<Rightarrow> store_index \<Rightarrow> content_hash btset \<Rightarrow> int
    \<Rightarrow> nat \<Rightarrow> content_hash \<times> string \<times> bytes \<times> int \<Rightarrow> nat rep" where
  "collect_one E ix referenced now removed file s =
     (let (h, name, _, mtime) = file in
      if now < mtime \<or> now - mtime < STAGING_GRACE_NS then ret removed
      else bindE (if bt_has referenced h then held_in_workspace E ix h else ret True) (\<lambda>unneeded.
        if \<not> unneeded then ret removed
        else bindE (attempt (io_op E)) (\<lambda>r. case r of
          Inl _ \<Rightarrow> ret removed
        | Inr _ \<Rightarrow> bindE (reading (\<lambda>s. bt_has (staging s) name)) (\<lambda>there.
            if there then thenE (drop_staged name) (ret (removed + 1)) else ret removed)))) s"

definition collect_staging :: "env \<Rightarrow> nat rep" where
  "collect_staging E s =
     bindE (finished E) (\<lambda>files.
       if files = [] then ret 0
       else bindE (all_states E) (\<lambda>states.
         let versions = concat (map (\<lambda>(_, st). p_versions st) states);
             referenced = foldl (\<lambda>acc v. case content_hash_of (e_content v) of
               Some h \<Rightarrow> bs_insert h acc | None \<Rightarrow> acc) bt_empty versions in
         bindE (reading (\<lambda>s. clock_ns E (step_no s))) (\<lambda>now.
           folding (collect_one E (index_build E states) referenced now) 0 files))) s"

definition collect_staging_quietly :: "env \<Rightarrow> unit rep" where
  "collect_staging_quietly E s = thenE (attempt (collect_staging E)) (ret ()) s"

definition scan :: "env \<Rightarrow> scan_outcome rep" where
  "scan E s =
     bindE (pause_reason E) (\<lambda>paused. case paused of
       Some reason \<Rightarrow> ret (PausedScan reason)
     | None \<Rightarrow> bindE (finish E (scan_root E)) (\<lambda>rep.
         thenE (collect_staging_quietly E) (ret (Scanned rep)))) s"

section \<open>Exchanging updates\<close>

definition delta_for :: "env \<Rightarrow> version_vector \<Rightarrow> path_update list rep" where
  "delta_for E peer s =
     bindE (store_all E) (\<lambda>states. ret (map (\<lambda>(path, st).
         \<lparr>u_path = path, u_versions = p_versions st, u_seen = p_seen st\<rparr>)
       (filter (\<lambda>(_, st). \<not> covers peer (p_seen st)) states))) s"

definition well_formed :: "path_update \<Rightarrow> bool" where
  "well_formed u \<longleftrightarrow> is_valid_rel (u_path u) \<and> u_versions u \<noteq> [] \<and>
     list_all (\<lambda>v. e_path v = u_path u \<and> 0 < counter (e_dot v)) (u_versions u)"

definition observe_versions :: "entry list \<Rightarrow> u64 \<Rightarrow> unit rep" where
  "observe_versions versions now s =
     (Inr (), s\<lparr>live_meta := (live_meta s)\<lparr>m_hlc := foldl (\<lambda>h v. observe h (e_hlc v) now) (m_hlc (live_meta s)) versions\<rparr>\<rparr>)"

definition apply_one :: "env \<Rightarrow> sync_filter \<Rightarrow> content_source \<Rightarrow> u64 \<Rightarrow> string btset \<Rightarrow> path_update \<Rightarrow> string btset rep" where
  "apply_one E f src now joined u s =
     (if \<not> well_formed u then ret joined
      else thenE (observe_versions (u_versions u) now)
          (thenE (tolerate_io (reconcile E f src (u_path u)) (u_path u))
          (bindE (join_update E u None) (\<lambda>st.
             ret (if st = None then joined else bs_insert (u_path u) joined))))) s"

definition settle_joined :: "env \<Rightarrow> sync_filter \<Rightarrow> content_source \<Rightarrow> string \<Rightarrow> unit rep" where
  "settle_joined E f src rel s =
     bindE (get_state E rel) (\<lambda>st. case st of
       None \<Rightarrow> ret ()
     | Some st \<Rightarrow> tolerate_io
         (thenE (ensure_conflict_copies E (reconcile E f src) f src rel st) (settle E f src rel st)) rel) s"

definition apply_updates :: "env \<Rightarrow> path_update list \<Rightarrow> content_source \<Rightarrow> report rep" where
  "apply_updates E updates src s =
     bindE (load_filter E) (\<lambda>f. thenE (start_call E)
    (bindE (all_states E) (\<lambda>states. thenE (set_index E states)
    (bindE (reading (\<lambda>s. clock_ms E (step_no s))) (\<lambda>now.
     bindE (folding (apply_one E f src now) bt_empty updates) (\<lambda>joined.
     thenE (each (settle_joined E f src) (bt_keys joined))
    (reading report))))))) s"

definition replica_apply :: "env \<Rightarrow> path_update list \<Rightarrow> content_source \<Rightarrow> report rep" where
  "replica_apply E updates src s =
     bindE (pause_reason E) (\<lambda>paused. case paused of
       Some reason \<Rightarrow> throw (Paused reason)
     | None \<Rightarrow> finish E (apply_updates E updates src)) s"

definition commit_session :: "env \<Rightarrow> version_vector \<Rightarrow> unit rep" where
  "commit_session E peer s =
     thenE (update (\<lambda>s. s\<lparr>live_meta := (live_meta s)\<lparr>m_vv := vv_merge (m_vv (live_meta s)) peer\<rparr>\<rparr>))
    (bindE (reading (\<lambda>s. (pending s, live_meta s))) (\<lambda>(pend, m).
       if pend = bt_empty then store_commit E m [] else flush E)) s"

definition fetch_missing_states :: "env \<Rightarrow> content_source \<Rightarrow> report rep" where
  "fetch_missing_states E src s =
     bindE (load_filter E) (\<lambda>f. thenE (start_call E)
    (bindE (all_states E) (\<lambda>states. thenE (set_index E states)
    (thenE (each (\<lambda>(rel, _). tolerate_io (reconcile E f src rel) rel) states)
    (reading report))))) s"

definition fetch_missing :: "env \<Rightarrow> content_source \<Rightarrow> report rep" where
  "fetch_missing E src s =
     bindE (pause_reason E) (\<lambda>paused. case paused of
       Some reason \<Rightarrow> throw (Paused reason)
     | None \<Rightarrow> finish E (fetch_missing_states E src)) s"

text \<open>\<open>unavailable\<close>: the content wanted, then what of it is nowhere to be found.\<close>

definition wanted_of :: "env \<Rightarrow> sync_filter \<Rightarrow> store_index \<Rightarrow> content_hash btset \<Rightarrow> string \<times> path_state \<Rightarrow> content_hash btset rep" where
  "wanted_of E f ix wanted item s =
     (let (rel, st) = item in
      bindE (winner_of st) (\<lambda>w.
        let wanted = (case e_content w of
            File h _ \<Rightarrow> if d_hash (p_disk st) \<noteq> Some h \<and> skip_reason E f ix rel w = None then bs_insert h wanted else wanted
          | Tombstone \<Rightarrow> wanted) in
        folding (\<lambda>wanted loser. case e_content loser of
            Tombstone \<Rightarrow> ret wanted
          | File h len \<Rightarrow>
              let copy_rel = conflict_rel E rel (e_dot loser) in
              if d_hash (p_disk st) \<noteq> Some h \<and> len \<le> max_file_size E \<and> allows f copy_rel False \<and> representable E copy_rel
              then bindE (get_state E copy_rel) (\<lambda>there. ret (if there = None then bs_insert h wanted else wanted))
              else ret wanted) wanted (losers st w))) s"

definition unavailable :: "env \<Rightarrow> content_hash list rep" where
  "unavailable E s =
     bindE (load_filter E) (\<lambda>f. bindE (all_states E) (\<lambda>states.
     let ix = index_build E states in
     bindE (folding (wanted_of E f ix) bt_empty states) (\<lambda>wanted.
     folding (\<lambda>missing h. bindE (content_path_with E ix h) (\<lambda>at.
       ret (if at = None then missing @ [h] else missing))) [] (bt_keys wanted)))) s"

section \<open>Opening\<close>

definition open_store :: "env \<Rightarrow> replica_id option \<Rightarrow> unit rep" where
  "open_store E rid s =
     thenE (io_op E) (thenE (db_op E)
    (bindE (reading (\<lambda>s. (db_created s, db_meta s, step_no s))) (\<lambda>(created, m, k).
       if \<not> created then
         thenE (db_op E) (update (\<lambda>s. s\<lparr>db_created := True, db_paths := bt_empty,
           db_meta := \<lparr>m_format = FORMAT_VERSION, m_replica = (case rid of Some r \<Rightarrow> r | None \<Rightarrow> fresh_id E k),
             m_counter = 0, m_hlc = hlc_default, m_vv = vv_new, m_root = ws_root E\<rparr>\<rparr>))
       else if m_format m > FORMAT_VERSION then throw (FormatTooNew (m_format m) FORMAT_VERSION)
       else if m_root m \<noteq> ws_root E
       then throw (RootMismatch (join_with ''/'' (m_root m)) (join_with ''/'' (ws_root E)))
       else db_op E))) s"

text \<open>\<open>ReplicaStore::relocate\<close>: opening the database of a workspace that has none is an error.\<close>

definition relocate :: "env \<Rightarrow> native_path \<Rightarrow> unit rep" where
  "relocate E root s =
     thenE (db_op E) (bindE (reading db_created) (\<lambda>created.
       if \<not> created then throw Store
       else thenE (db_op E) (update (\<lambda>s. s\<lparr>db_meta := (db_meta s)\<lparr>m_root := root\<rparr>\<rparr>)))) s"

definition open_replica :: "env \<Rightarrow> replica_id option \<Rightarrow> unit rep" where
  "open_replica E rid s =
     thenE (io_op E) (thenE (clear_partials E) (thenE (open_store E rid)
    (thenE (db_op E)
    (thenE (update (\<lambda>s. s\<lparr>live_meta := db_meta s, pending := bt_empty, pending_versions := False\<rparr>))
      (collect_staging_quietly E))))) s"

end
