(* ===== verification/ReplicaSteps.thy ===== *)
theory ReplicaSteps
  imports Replica
begin

text \<open>
  What the operations of a replica keep, whatever calls fail: staged content is verified, every path
  state has a version of its own path, what a path has seen only grows, the replica keeps its id,
  and an operation on one path leaves the states of others alone, except for new conflict copies. While
  joined versions wait to be stored, no file changes before they are.
\<close>

section \<open>Invariant and step relations\<close>

definition st_ok :: "string \<Rightarrow> path_state \<Rightarrow> bool" where
  "st_ok rel st \<longleftrightarrow> p_versions st \<noteq> [] \<and> (\<forall>v \<in> set (p_versions st). e_path v = rel)"

definition states_ok :: "replica \<Rightarrow> bool" where
  "states_ok s \<longleftrightarrow> (\<forall>rel st. bt_get (pending s) rel = Some st \<or> bt_get (db_paths s) rel = Some st \<longrightarrow> st_ok rel st)"

text \<open>What is pending has seen all that the stored state of its path has.\<close>

definition ahead :: "replica \<Rightarrow> bool" where
  "ahead s \<longleftrightarrow> (\<forall>rel st old. bt_get (pending s) rel = Some st \<longrightarrow> bt_get (db_paths s) rel = Some old \<longrightarrow>
     covers (p_seen st) (p_seen old))"

definition replica_inv :: "env \<Rightarrow> replica \<Rightarrow> bool" where
  "replica_inv E s \<longleftrightarrow> staging_ok E s \<and> states_ok s \<and> ahead s"

text \<open>The database forgets no path and nothing a path has seen.\<close>

definition db_grows :: "replica \<Rightarrow> replica \<Rightarrow> bool" where
  "db_grows s t \<longleftrightarrow> (\<forall>q st. bt_get (db_paths s) q = Some st \<longrightarrow>
     (\<exists>st'. bt_get (db_paths t) q = Some st' \<and> covers (p_seen st') (p_seen st)))"

lemma db_grows_same: "db_paths t = db_paths s \<Longrightarrow> db_grows s t"
  by (simp add: db_grows_def)

lemma db_grows_trans: "\<lbrakk>db_grows s t; db_grows t u\<rbrakk> \<Longrightarrow> db_grows s u"
  unfolding db_grows_def by (meson covers_trans)

text \<open>Every path of one table is in the other, which has seen as much of it.\<close>

definition kept_in :: "(string, path_state) btmap \<Rightarrow> (string, path_state) btmap \<Rightarrow> bool" where
  "kept_in m m' \<longleftrightarrow> (\<forall>q st. bt_get m q = Some st \<longrightarrow>
     (\<exists>st'. bt_get m' q = Some st' \<and> covers (p_seen st') (p_seen st)))"

lemma kept_in_refl [simp]: "kept_in m m"
  by (auto simp: kept_in_def)

lemma kept_in_trans: "\<lbrakk>kept_in l m; kept_in m n\<rbrakk> \<Longrightarrow> kept_in l n"
  unfolding kept_in_def by (meson covers_trans)

lemma db_grows_kept: "db_grows s t = kept_in (db_paths s) (db_paths t)"
  by (simp add: db_grows_def kept_in_def)

text \<open>
  While joined versions wait to be stored, files stay as they are, or all that was current is stored. The
  steps of an operation compose only together with what the database and the pending states keep.
\<close>

definition stored_first :: "replica \<Rightarrow> replica \<Rightarrow> bool" where
  "stored_first s t \<longleftrightarrow> (pending_versions s \<longrightarrow>
     pending_versions t \<and> tree t = tree s \<or> kept_in (current s) (db_paths t))"

lemma stored_first_same [simp]: "stored_first s s"
  by (simp add: stored_first_def)

lemma stored_first_quiet: "\<lbrakk>pending_versions t = pending_versions s; tree t = tree s\<rbrakk> \<Longrightarrow> stored_first s t"
  by (simp add: stored_first_def)

lemma stored_first_comp:
  assumes "stored_first s t" "stored_first t u" "kept_in (current s) (current t)" "db_grows t u"
  shows "stored_first s u"
  using assms unfolding stored_first_def db_grows_kept by (metis kept_in_trans)

text \<open>Nothing a lookup sees has changed.\<close>

definition unseen :: "env \<Rightarrow> replica \<Rightarrow> replica \<Rightarrow> bool" where
  "unseen E s t \<longleftrightarrow> (replica_inv E s \<longrightarrow> replica_inv E t \<and> db_grows s t) \<and> current t = current s \<and>
     m_replica (live_meta t) = m_replica (live_meta s) \<and> db_created t = db_created s \<and> partials_kept s t"

definition idle :: "env \<Rightarrow> replica \<Rightarrow> replica \<Rightarrow> bool" where
  "idle E s t \<longleftrightarrow> unseen E s t \<and> (replica_inv E s \<longrightarrow> stored_first s t)"

text \<open>Only the states of \<open>X\<close> may have changed, and new ones may have come.\<close>

definition grown :: "string set \<Rightarrow> env \<Rightarrow> replica \<Rightarrow> replica \<Rightarrow> bool" where
  "grown X E s t \<longleftrightarrow> (replica_inv E s \<longrightarrow> replica_inv E t \<and> db_grows s t) \<and>
     (\<forall>q st. q \<notin> X \<longrightarrow> bt_get (current s) q = Some st \<longrightarrow> bt_get (current t) q = Some st) \<and>
     (\<forall>q st. bt_get (current s) q = Some st \<longrightarrow>
        (\<exists>st'. bt_get (current t) q = Some st' \<and> covers (p_seen st') (p_seen st))) \<and>
     m_replica (live_meta t) = m_replica (live_meta s) \<and> db_created t = db_created s \<and> partials_kept s t"

definition step_on :: "string set \<Rightarrow> env \<Rightarrow> replica \<Rightarrow> replica \<Rightarrow> bool" where
  "step_on X E s t \<longleftrightarrow> grown X E s t \<and> (replica_inv E s \<longrightarrow> stored_first s t)"

lemma grownD:
  assumes "grown X E s t"
  shows "replica_inv E s \<Longrightarrow> replica_inv E t \<and> db_grows s t"
    and "\<lbrakk>q \<notin> X; bt_get (current s) q = Some st\<rbrakk> \<Longrightarrow> bt_get (current t) q = Some st"
    and "bt_get (current s) q = Some st \<Longrightarrow>
      \<exists>st'. bt_get (current t) q = Some st' \<and> covers (p_seen st') (p_seen st)"
    and "m_replica (live_meta t) = m_replica (live_meta s)"
    and "db_created t = db_created s"
    and "partials_kept s t"
  using assms by (simp_all add: grown_def)

lemma step_on_grown: "step_on X E s t \<Longrightarrow> grown X E s t"
  by (simp add: step_on_def)

lemmas step_onD = grownD [OF step_on_grown]

lemma step_on_stored_first: "\<lbrakk>step_on X E s t; replica_inv E s\<rbrakk> \<Longrightarrow> stored_first s t"
  by (simp add: step_on_def)

lemma step_on_same: "step_on X E s s"
  by (simp add: step_on_def grown_def db_grows_same par.same)

lemma step_onI:
  assumes "replica_inv E s \<Longrightarrow> replica_inv E t \<and> db_grows s t"
    and "\<And>q st. \<lbrakk>q \<notin> X; bt_get (current s) q = Some st\<rbrakk> \<Longrightarrow> bt_get (current t) q = Some st"
    and "\<And>q st. bt_get (current s) q = Some st \<Longrightarrow>
      \<exists>st'. bt_get (current t) q = Some st' \<and> covers (p_seen st') (p_seen st)"
    and "m_replica (live_meta t) = m_replica (live_meta s)"
    and "db_created t = db_created s"
    and "partials_kept s t"
    and "replica_inv E s \<Longrightarrow> stored_first s t"
  shows "step_on X E s t"
  using assms by (simp add: step_on_def grown_def)

lemma step_on_kept: "step_on X E s t \<Longrightarrow> kept_in (current s) (current t)"
  by (simp add: step_on_def grown_def kept_in_def)

lemma step_on_comp:
  assumes "step_on X E s t" "step_on X E t u"
  shows "step_on X E s u"
proof (rule step_onI)
  show "replica_inv E s \<Longrightarrow> replica_inv E u \<and> db_grows s u"
    using step_onD(1) [OF assms(1)] step_onD(1) [OF assms(2)] by (blast intro: db_grows_trans)
next
  fix q st
  assume q: "bt_get (current s) q = Some st"
  from step_onD(3) [OF assms(1) q] obtain st1 where
    1: "bt_get (current t) q = Some st1" "covers (p_seen st1) (p_seen st)" by blast
  from step_onD(3) [OF assms(2) 1(1)] obtain st2 where
    2: "bt_get (current u) q = Some st2" "covers (p_seen st2) (p_seen st1)" by blast
  with 1 show "\<exists>st'. bt_get (current u) q = Some st' \<and> covers (p_seen st') (p_seen st)"
    by (blast intro: covers_trans)
next
  assume inv: "replica_inv E s"
  with step_onD(1) [OF assms(1)] have inv': "replica_inv E t" by blast
  with step_onD(1) [OF assms(2)] have "db_grows t u" by blast
  with step_on_stored_first [OF assms(1) inv] step_on_stored_first [OF assms(2) inv'] step_on_kept [OF assms(1)]
  show "stored_first s u" by (rule stored_first_comp)
qed (simp_all add: step_onD(2) [OF assms(2)] step_onD(2) [OF assms(1)]
    step_onD(4,5) [OF assms(2)] step_onD(4,5) [OF assms(1)] par.comp [OF step_onD(6) [OF assms(1)] step_onD(6) [OF assms(2)]])

interpretation uns: step_relation "unseen E" for E
  by unfold_locales (auto simp: unseen_def intro: db_grows_same db_grows_trans par.same par.comp)

lemma idle_unseen: "idle E s t \<Longrightarrow> unseen E s t"
  by (simp add: idle_def)

lemma unseen_idle: "\<lbrakk>unseen E s t; replica_inv E s \<Longrightarrow> stored_first s t\<rbrakk> \<Longrightarrow> idle E s t"
  by (simp add: idle_def)

interpretation idl: step_relation "idle E" for E
proof
  show "idle E s s" for s by (simp add: idle_def uns.same)
  fix s t u assume st: "idle E s t" and tu: "idle E t u"
  show "idle E s u"
  proof (rule unseen_idle)
    show "unseen E s u" using st tu by (auto simp: idle_def intro: uns.comp)
    assume "replica_inv E s"
    with st tu show "stored_first s u"
      by (auto simp: idle_def unseen_def intro: stored_first_comp)
  qed
qed

interpretation stp: step_relation "step_on X E" for X E
  by unfold_locales (fact step_on_same, rule step_on_comp)

lemma unseen_grown: "unseen E s t \<Longrightarrow> grown X E s t"
  by (auto simp: unseen_def grown_def)

lemma idle_step: "idle E s t \<Longrightarrow> step_on X E s t"
  by (auto simp: idle_def unseen_def step_on_def grown_def)

lemma step_mono: "\<lbrakk>step_on X E s t; X \<subseteq> Y\<rbrakk> \<Longrightarrow> step_on Y E s t"
  unfolding step_on_def grown_def by blast

text \<open>A step on a path that had no state is a step on no path.\<close>

lemma step_new: "\<lbrakk>step_on {q} E s t; bt_get (current s) q = None\<rbrakk> \<Longrightarrow> step_on {} E s t"
proof (rule step_onI)
  assume s: "step_on {q} E s t" and none: "bt_get (current s) q = None"
  fix p st assume "bt_get (current s) p = Some st"
  moreover from this none have "p \<noteq> q" by auto
  ultimately show "bt_get (current t) p = Some st" using step_onD(2) [OF s] by simp
qed (simp_all add: step_onD step_on_stored_first)

lemma step_inv: "\<lbrakk>step_on X E s t; replica_inv E s\<rbrakk> \<Longrightarrow> replica_inv E t"
  by (simp add: step_on_def grown_def)

lemma idle_inv: "\<lbrakk>idle E s t; replica_inv E s\<rbrakk> \<Longrightarrow> replica_inv E t"
  by (simp add: idle_def unseen_def)

section \<open>Idle operations\<close>

lemmas inv_defs = idle_def unseen_def stored_first_def replica_inv_def staging_ok_def states_ok_def current_def ahead_def db_grows_def partials_kept_def

lemma same_replica: "disk.more t = disk.more s \<Longrightarrow>
    pending t = pending s \<and> pending_versions t = pending_versions s \<and> db_paths t = db_paths s \<and> live_meta t = live_meta s \<and> db_created t = db_created s" for s t :: replica
  by (cases s; cases t) simp

lemma quiet_unseen:
  assumes "disk.more t = disk.more s" "staging_ok E s \<longrightarrow> staging_ok E t" "partials_kept s t"
  shows "unseen E s t"
  using assms(2,3) same_replica [OF assms(1)]
  by (auto simp: unseen_def replica_inv_def states_ok_def current_def ahead_def intro: db_grows_same)

lemma quiet_idle:
  assumes "disk.more t = disk.more s" "staging_ok E s \<longrightarrow> staging_ok E t" "partials_kept s t" "tree t = tree s"
  shows "idle E s t"
  using quiet_unseen [OF assms(1-3)] same_replica [OF assms(1)] assms(4) by (auto intro: unseen_idle stored_first_quiet)

text \<open>When no joined versions wait, or everything is stored, any step is as good.\<close>

definition all_stored :: "replica \<Rightarrow> bool" where
  "all_stored s \<longleftrightarrow> \<not> pending_versions s \<or> pending s = bt_empty"

lemma unseen_stored: "\<lbrakk>unseen E s t; all_stored s\<rbrakk> \<Longrightarrow> idle E s t"
  by (auto simp: all_stored_def current_def bt_insert_all_def unseen_def stored_first_def db_grows_kept intro: unseen_idle)

lemma staging_step_idle: "\<lbrakk>staging_step E s t; partials_kept s t\<rbrakk> \<Longrightarrow> idle E s t"
  by (rule quiet_idle) (simp_all add: staging_step_def)

text \<open>What the file operations change: the tree, and of the staging directory the name they take from it.\<close>

definition removes :: "string \<Rightarrow> bool \<Rightarrow> 'a disk_scheme \<Rightarrow> 'a disk_scheme \<Rightarrow> bool" where
  "removes name writes s t \<longleftrightarrow> disk.more t = disk.more s \<and> (\<not> writes \<longrightarrow> tree t = tree s) \<and>
     (\<forall>n. bt_get (staging t) n = bt_get (staging s) n \<or> n = name \<and> bt_get (staging t) n = None)"

interpretation rem: step_relation "removes name w" for name w
  by (unfold_locales; simp add: removes_def) metis

lemma removes_unseen: "\<lbrakk>removes name w s t; \<not> is_partial name\<rbrakk> \<Longrightarrow> unseen E s t"
  by (rule quiet_unseen) (simp add: removes_def, simp add: removes_def staging_ok_def, metis option.distinct(1),
    simp add: removes_def partials_kept_def, metis)

lemma removes_idle: "\<lbrakk>removes name False s t; \<not> is_partial name\<rbrakk> \<Longrightarrow> idle E s t"
  using removes_unseen [of name False s t E] same_replica [of t s]
  by (auto simp: removes_def intro: unseen_idle stored_first_quiet)

lemma removes_current: "removes name w s t \<Longrightarrow> current t = current s" for s t :: replica
  using same_replica [of t s] by (simp add: removes_def current_def)

lemma keeps_removes_idle: "keeps (removes name False) m \<Longrightarrow> \<not> is_partial name \<Longrightarrow> keeps (idle E) m"
  unfolding keeps_def by (blast intro: removes_idle)

text \<open>So an operation that writes files is idle then.\<close>

lemma writes_idle:
  assumes "keeps (removes name w) m" "\<not> is_partial name"
  shows "guarded all_stored (idle E) m (\<lambda>_ _. True)"
  by (rule guardedI) (auto intro: unseen_stored removes_unseen [OF keepsE [OF assms(1)] assms(2)])

lemma no_name [simp]: "\<not> is_partial []"
  by (simp add: is_partial_def extension_def)

lemmas fs_idle = keeps_removes_idle [where name = "[]", OF _ no_name]

lemma io_op_removes: "keeps (removes name w) (io_op E')"
  by (simp add: keeps_def io_op_def removes_def)

lemma tree_removes: "removes name True s (s\<lparr>tree := x\<rparr>)"
  by (simp add: removes_def)

lemma staging_removes: "removes name w s (s\<lparr>staging := bt_remove name (staging s)\<rparr>)"
  by (auto simp: removes_def)

lemma io_result_removes: "keeps (removes name w) (io_result r)"
  by (cases r) (auto simp: io_result_def [abs_def] intro: rem.steps)

lemmas io_op_idle = fs_idle [OF io_op_removes] and io_result_idle = fs_idle [OF io_result_removes]

lemma report_idle: "idle E s (s\<lparr>report := x\<rparr>)"
  by (simp add: inv_defs)

lemma skip_idle: "keeps (idle E) (skip rel reason)"
  by (rule keepsI) (simp add: skip_def report_idle)

lemma db_op_idle: "keeps (idle E) (db_op E')"
  by (rule keepsI) (simp add: db_op_def inv_defs)

lemmas idle_ops = idl.steps io_op_idle io_result_idle skip_idle db_op_idle

lemmas rem_ops = rem.steps io_op_removes io_result_removes

lemma symlink_metadata_removes: "keeps (removes n w) (symlink_metadata E' p)"
  unfolding symlink_metadata_def [abs_def] by (intro rem_ops)

lemma metadata_removes: "keeps (removes n w) (metadata E' p)"
  unfolding metadata_def [abs_def] by (intro rem_ops symlink_metadata_removes)

lemma read_file_removes: "keeps (removes n w) (read_file E' p)"
  unfolding read_file_def [abs_def]
  by (intro rem_ops metadata_removes) (auto split: node.splits intro: rem_ops)

lemma hash_of_file_removes: "keeps (removes n w) (hash_of_file E' p)"
  unfolding hash_of_file_def [abs_def] by (intro rem_ops read_file_removes)

lemma is_dir_removes: "keeps (removes n w) (is_dir E' p)"
  unfolding is_dir_def [abs_def] by (intro rem_ops metadata_removes)

lemma set_node_removes: "keeps (removes n True) (set_node p nd)"
  unfolding set_node_def [abs_def] by (intro rem.update_r tree_removes)

lemma mkdir_removes: "keeps (removes n True) (mkdir E' p)"
  unfolding mkdir_def [abs_def]
  by (intro rem_ops) (auto split: option.splits node.splits intro: rem_ops set_node_removes)

lemma create_dir_all_removes: "keeps (removes n True) (create_dir_all E' p)"
  unfolding create_dir_all_def [abs_def] by (intro rem_ops mkdir_removes)

lemma rename_staged_removes: "keeps (removes name True) (rename_staged E' name dest)"
  unfolding rename_staged_def [abs_def]
  by (intro rem_ops keeps_control set_node_removes rem.update_r staging_removes)

lemma copy_staged_removes: "keeps (removes n True) (copy_staged E' name dest)"
  unfolding copy_staged_def [abs_def]
  by (intro rem_ops)
    (auto split: option.splits sum.splits prod.splits list.splits intro!: rem_ops set_node_removes)

lemma rename_file_removes: "keeps (removes n True) (rename_file E' src dest)"
  unfolding rename_file_def [abs_def]
  by (intro rem_ops) (auto split: sum.splits node.splits intro!: rem_ops rem.update_r tree_removes)

lemma remove_file_removes: "keeps (removes n True) (remove_file E' p)"
  unfolding remove_file_def [abs_def]
  by (intro rem_ops keeps_control symlink_metadata_removes rem.update_r tree_removes)

lemma sync_parent_removes: "keeps (removes n w) (sync_parent E' p)"
  unfolding sync_parent_def [abs_def] by (intro rem_ops keeps_control)

lemma place_removes: "keeps (removes name True) (place E' name dest)"
  unfolding place_def [abs_def]
  by (intro rem_ops keeps_control create_dir_all_removes rename_staged_removes sync_parent_removes copy_staged_removes
      rename_file_removes remove_file_removes rem.update_r staging_removes)

lemmas symlink_metadata_idle = fs_idle [OF symlink_metadata_removes]
  and metadata_idle = fs_idle [OF metadata_removes]
  and read_file_idle = fs_idle [OF read_file_removes]
  and hash_of_file_idle = fs_idle [OF hash_of_file_removes]
  and is_dir_idle = fs_idle [OF is_dir_removes]

lemmas remove_file_stored = writes_idle [OF remove_file_removes no_name]
  and place_stored = writes_idle [OF place_removes]

lemma stage_with_idle: "keeps (idle E) (stage_with E limit from h)"
  by (rule keepsI) (metis prod.collapse stage_with_result staging_step_idle keepsD stage_with_partials)

lemma staged_idle: "keeps (idle E) (staged E h)"
  unfolding staged_def [abs_def] by (intro idle_ops)

lemma load_filter_idle: "keeps (idle E) (load_filter E')"
  unfolding load_filter_def [abs_def] Let_def
  by (intro idle_ops metadata_idle)
    (auto split: sum.splits node.splits option.splits intro!: idle_ops read_file_idle)

section \<open>Lookups and flushing\<close>

lemma get_state_idle: "keeps (idle E) (get_state E' rel)"
  unfolding get_state_def [abs_def] store_get_def [abs_def] by (intro idle_ops keeps_control)

lemma all_states_idle: "keeps (idle E) (all_states E')"
  unfolding all_states_def [abs_def] store_all_def [abs_def] by (intro idle_ops keeps_control)

lemma flush_flushed: "guarded P (idle E) (flush E') (\<lambda>_. all_stored)"
proof (rule guardedI)
  fix s r t assume run: "flush E' s = (r, t)"
  let ?done = "\<lambda>n m. s\<lparr>step_no := n, db_meta := m, db_paths := bt_insert_all (entries (pending s)) (db_paths s),
      pending := bt_empty, pending_versions := False\<rparr>"
  have "unseen E s (?done n m)" for n m
    by (auto simp: unseen_def replica_inv_def staging_ok_def states_ok_def current_def bt_get_overlay
        ahead_def db_grows_def partials_kept_def split: option.splits)
  moreover have "stored_first s (?done n m)" for n m
    by (simp add: stored_first_def current_def)
  ultimately have flushed: "idle E s (?done n m)" for n m
    by (rule unseen_idle)
  have "idle E s (s\<lparr>step_no := n\<rparr>)" for n
    by (simp add: inv_defs)
  with flushed run show "idle E s t \<and> (\<forall>x. r = Inr x \<longrightarrow> all_stored t)"
    by (auto simp: flush_def bindE_def thenE_def store_commit_def db_op_def idl.same all_stored_def split: if_splits)
qed

lemma flush_idle: "keeps (idle E) (flush E')"
  by (rule keeps_guarded [OF flush_flushed])

text \<open>Joined versions are stored once they are flushed, so what writes files after that is idle too.\<close>

lemma flush_versions_flushed: "guarded P (idle E) (flush_versions E') (\<lambda>_. all_stored)"
  unfolding flush_versions_def [abs_def]
  by (rule idl.bindE_g [OF idl.reading_g [where Q = "\<lambda>b s. b = pending_versions s"]])
    (auto intro: flush_flushed idl.ret_g simp: all_stored_def)

lemma flush_versions_idle: "keeps (idle E) (flush_versions E')"
  by (rule keeps_guarded [OF flush_versions_flushed])

lemma after_flush:
  "guarded all_stored (idle E) m (\<lambda>_ _. True) \<Longrightarrow> keeps (idle E) (thenE (flush_versions E') m)"
  by (rule keeps_guarded [OF idl.thenE_g [OF flush_versions_flushed]])

lemma flush_place_idle: "\<not> is_partial name \<Longrightarrow> keeps (idle E) (thenE (flush_versions E') (place E'' name dest))"
  by (rule after_flush [OF place_stored])

lemmas idle_fs = symlink_metadata_idle metadata_idle read_file_idle hash_of_file_idle is_dir_idle
  stage_with_idle staged_idle load_filter_idle get_state_idle all_states_idle flush_idle flush_versions_idle

section \<open>Idle parts of the replica\<close>

lemma winner_of_idle: "keeps (idle E) (winner_of st)"
  unfolding winner_of_def [abs_def] by (intro idle_ops keeps_control)

lemma now_ns_idle: "keeps (idle E) (now_ns E')"
  by (rule keepsI) (simp add: now_ns_def idl.same)

lemma pause_reason_idle: "keeps (idle E) (pause_reason E')"
  unfolding pause_reason_def [abs_def] by (intro idle_ops keeps_control idle_fs)

lemma holds_content_idle: "keeps (idle E) (holds_content E h rel)"
  unfolding holds_content_def [abs_def] Let_def by (intro idle_ops keeps_control idle_fs)

lemma content_path_with_idle: "keeps (idle E) (content_path_with E ix h)"
  unfolding content_path_with_def [abs_def] by (intro idle_ops keeps_control idle_fs holds_content_idle)

lemma stage_from_idle: "keeps (idle E) (stage_from E from h)"
  unfolding stage_from_def [abs_def] by (rule stage_with_idle)

lemma stage_idle: "keeps (idle E) (stage E src h)"
  unfolding stage_def [abs_def]
  by (intro idle_ops keeps_control idle_fs content_path_with_idle stage_from_idle)

lemma occupied_idle: "keeps (idle E) (occupied E' rel d)"
  unfolding occupied_def [abs_def]
  by (intro idle_ops idle_fs) (auto split: sum.splits node.splits intro!: idle_ops keeps_control idle_fs)

lemma disk_seen_idle: "keeps (idle E) (disk_seen E' f st)"
  unfolding disk_seen_def [abs_def] Let_def by (intro idle_ops keeps_control idle_fs winner_of_idle)

lemma copy_content_idle: "keeps (idle E) (copy_content E src rel st h)"
  unfolding copy_content_def [abs_def]
  by (intro idle_ops keeps_control idle_fs content_path_with_idle stage_from_idle)

lemma holds_loser_idle: "keeps (idle E) (holds_loser E' rel h)"
  unfolding holds_loser_def [abs_def]
  by (intro idle_ops idle_fs) (auto split: sum.splits node.splits intro!: idle_ops keeps_control idle_fs)

text \<open>What staging returns is not the name of a partial file, so placing it takes none away.\<close>

definition unpartial :: "string option \<Rightarrow> bool" where
  "unpartial r \<longleftrightarrow> (\<forall>n. r = Some n \<longrightarrow> \<not> is_partial n)"

lemma unpartial_simps [simp]: "unpartial None" "unpartial (Some n) \<longleftrightarrow> \<not> is_partial n"
  by (auto simp: unpartial_def)

lemma stage_with_named: "guarded P (idle E) (stage_with E limit from h) (\<lambda>r _. unpartial r)"
proof (rule guardedI)
  fix s t :: replica and r assume run: "stage_with E limit from h s = (r, t)"
  have "idle E s t" by (rule keepsE [OF stage_with_idle run])
  moreover have "\<forall>x. r = Inr x \<longrightarrow> unpartial x" using stage_with_result [OF run, THEN conjunct2] unfolding unpartial_def by (metis hex_not_partial)
  ultimately show "idle E s t \<and> (\<forall>x. r = Inr x \<longrightarrow> unpartial x)" by blast
qed

lemma stage_named: "guarded P (idle E) (stage E src h) (\<lambda>r _. unpartial r)"
proof -
  have "guarded Q (idle E) (staged E h) (\<lambda>r _. unpartial r)" for Q
  proof (rule guardedI)
    fix s t :: replica and r assume run: "staged E h s = (r, t)"
    have "idle E s t" by (rule keepsE [OF staged_idle run])
    moreover have "\<forall>x. r = Inr x \<longrightarrow> unpartial x" using staged_result [OF run, THEN conjunct2] unfolding unpartial_def by (metis hex_not_partial)
    ultimately show "idle E s t \<and> (\<forall>x. r = Inr x \<longrightarrow> unpartial x)" by blast
  qed
  then show ?thesis
    unfolding stage_def [abs_def] stage_from_def [abs_def]
    by (intro idl.bindE_g [where B = "\<lambda>r _. unpartial r"]) (auto split: option.splits prod.splits
      intro!: idl.ret_g stage_with_named idl.bindE_g [OF guarded_keeps [OF idl.reading_r]]
        idl.bindE_g [OF guarded_keeps [OF content_path_with_idle]])
qed

lemma copy_content_named: "guarded P (idle E) (copy_content E src rel st h) (\<lambda>r _. unpartial r)"
  unfolding copy_content_def [abs_def] stage_from_def [abs_def]
  by (intro guarded_if stage_with_named idl.bindE_g [OF guarded_keeps [OF idl.reading_r]]
      idl.bindE_g [OF guarded_keeps [OF content_path_with_idle]] guarded_option idl.ret_g) simp

lemma keeps_named:
  assumes "\<And>P. guarded P (idle E) m (\<lambda>r _. unpartial r)" "\<And>x. unpartial x \<Longrightarrow> keeps (idle E) (f x)"
  shows "keeps (idle E) (bindE m f)"
proof (rule keeps_guarded [OF idl.bindE_g [OF assms(1)]])
  show "guarded (\<lambda>_. unpartial x) (idle E) (f x) (\<lambda>_ _. True)" for x
    using assms(2) [of x] by (cases "unpartial x") (auto intro: guarded_keeps, simp add: guarded_def)
qed

lemma write_winner_idle: "keeps (idle E) (write_winner E src rel c)"
proof (cases c)
  case Tombstone
  have "guarded all_stored (idle E) (bindE (attempt (remove_file E p)) (\<lambda>r. case r of
        Inl e \<Rightarrow> if e = Io NotFound then ret (Some disk_default) else throw e
      | Inr _ \<Rightarrow> ret (Some disk_default))) (\<lambda>_ _. True)" for p
    by (rule idl.bindE_g [OF writes_idle [OF rem.attempt_r [OF remove_file_removes] no_name]])
      (auto split: sum.splits intro!: idl.ret_g idl.throw_g)
  then show ?thesis unfolding write_winner_def [abs_def] Tombstone content.case by (rule after_flush)
next
  case (File h len)
  have "keeps (idle E) (thenE (flush_versions E) (thenE (place E name (native E rel)) (bindE (metadata E (native E rel)) m)))"
    if "\<not> is_partial name" "\<And>n. keeps (idle E) (m n)" for name and m :: "node \<Rightarrow> 'x rep"
    by (intro after_flush idl.thenE_g [OF place_stored] guarded_keeps idle_ops idle_fs that)
  note written = this
  show ?thesis unfolding write_winner_def [abs_def] File content.case
  proof (rule keeps_named [OF stage_named])
    fix staged :: "string option" assume "unpartial staged"
    then show "keeps (idle E) (case staged of None \<Rightarrow> ret None | Some name \<Rightarrow>
        thenE (flush_versions E) (thenE (place E name (native E rel))
          (bindE (metadata E (native E rel)) (\<lambda>n. bindE (now_ns E) (\<lambda>now.
            ret (Some \<lparr>d_hash = Some h, d_seen = vv_new, d_mtime = fst (stamp_of n), d_len = snd (stamp_of n),
              d_checked = now\<rparr>))))))"
      by (cases staged) (simp_all add: idl.ret_r written [OF _ idl.bindE_r [OF now_ns_idle idl.ret_r]])
  qed
qed

lemma look_at_idle: "keeps (idle E) (look_at E' rel d)"
  unfolding look_at_def [abs_def] Let_def
  by (intro idle_ops idle_fs) (auto split: sum.splits node.splits intro!: idle_ops keeps_control idle_fs)

section \<open>Operations that commit\<close>

lemma idle_current: "idle E s t \<Longrightarrow> current t = current s"
  by (simp add: idle_def unseen_def)

lemma states_ok_current: "\<lbrakk>states_ok s; bt_get (current s) rel = Some st\<rbrakk> \<Longrightarrow> st_ok rel st"
  unfolding states_ok_def by (auto simp: current_get split: option.splits)

lemma inv_current: "\<lbrakk>replica_inv E s; bt_get (current s) rel = Some st\<rbrakk> \<Longrightarrow> st_ok rel st"
  by (auto simp: replica_inv_def intro: states_ok_current)

text \<open>A state may be committed for a path when it is sound and keeps what the path has seen.\<close>

definition committable :: "env \<Rightarrow> string \<Rightarrow> path_state \<Rightarrow> replica \<Rightarrow> bool" where
  "committable E rel st s \<longleftrightarrow> replica_inv E s \<and> st_ok rel st \<and>
     (\<forall>old. bt_get (current s) rel = Some old \<longrightarrow> covers (p_seen st) (p_seen old))"

lemma committable_idle: "\<lbrakk>idle E s t; committable E rel st s\<rbrakk> \<Longrightarrow> committable E rel st t"
  by (simp add: committable_def idle_def unseen_def)

text \<open>An idle operation, whose result is not needed, before something that relies on a fact lookups decide.\<close>

lemma idle_guarded:
  "\<lbrakk>keeps (idle E) m; \<And>s t. \<lbrakk>idle E s t; P s\<rbrakk> \<Longrightarrow> P t\<rbrakk> \<Longrightarrow> guarded P (step_on X E) m (\<lambda>_. P)"
  by (rule guardedI) (metis idle_step keepsE)

lemma idle_steps: "keeps (idle E) m \<Longrightarrow> keeps (step_on X E) m"
  unfolding keeps_def by (blast intro: idle_step)

lemma after_idle:
  assumes m: "keeps (idle E) m" and P: "\<And>s t. \<lbrakk>idle E s t; P s\<rbrakk> \<Longrightarrow> P t"
    and f: "\<And>x. guarded P (step_on X E) (f x) Q"
  shows "guarded P (step_on X E) (bindE m f) Q"
  by (rule stp.bindE_g [OF idle_guarded [OF m P] f])

lemma then_idle:
  assumes m: "keeps (idle E) m" and P: "\<And>s t. \<lbrakk>idle E s t; P s\<rbrakk> \<Longrightarrow> P t"
    and n: "guarded P (step_on X E) n Q"
  shows "guarded P (step_on X E) (thenE m n) Q"
  by (rule stp.thenE_g [OF idle_guarded [OF m P] n])

lemma after_named:
  assumes m: "\<And>P. guarded P (idle E) m (\<lambda>r _. unpartial r)" and P: "\<And>s t. \<lbrakk>idle E s t; P s\<rbrakk> \<Longrightarrow> P t"
    and f: "\<And>x. unpartial x \<Longrightarrow> guarded P (step_on X E) (f x) Q"
  shows "guarded P (step_on X E) (bindE m f) Q"
proof (rule stp.bindE_g)
  show "guarded P (step_on X E) m (\<lambda>x s. P s \<and> unpartial x)"
    using m [of P] P unfolding guarded_def by (blast intro: idle_step)
  show "guarded (\<lambda>s. P s \<and> unpartial x) (step_on X E) (f x) Q" for x
    using f [of x] by (cases "unpartial x") (auto simp: guarded_def)
qed

lemma idle_true: "keeps (idle E) m \<Longrightarrow> guarded P (step_on X E) m (\<lambda>_ _. True)"
  by (rule guarded_keeps [OF idle_steps])

lemma commit_state_g:
  "guarded (committable E rel st) (step_on {rel} E) (commit_state E' rel st)
     (\<lambda>_ s. bt_get (current s) rel = Some st)"
proof (rule guardedI)
  fix s r t
  assume P: "committable E rel st s" and run: "commit_state E' rel st s = (r, t)"
  let ?u = "s\<lparr>pending := bt_insert rel st (pending s),
    store_index := index_record E' rel (d_hash (p_disk st)) (store_index s)\<rparr>"
  have cur: "bt_get (current ?u) q = (if q = rel then Some st else bt_get (current s) q)" for q
    by (simp add: current_get split: option.splits)
  have "covers (p_seen st) (p_seen old)" if "bt_get (db_paths s) rel = Some old" for old
    using P that by (auto simp: committable_def replica_inv_def ahead_def current_get split: option.splits intro: covers_trans)
  then have inv: "replica_inv E ?u"
    using P by (auto simp: committable_def replica_inv_def states_ok_def staging_ok_def ahead_def split: if_splits)
  have u: "step_on {rel} E s ?u"
    by (rule step_onI) (use P inv in \<open>auto simp: cur committable_def partials_kept_def intro: db_grows_same stored_first_quiet\<close>)
  have "idle E ?u t"
  proof (cases "MAX_PENDING \<le> size (bt_insert rel st (pending s))")
    case True
    with run have "flush E' ?u = (r, t)" by (simp add: commit_state_def runs)
    then show ?thesis by (rule keepsE [OF flush_idle])
  next
    case False
    with run show ?thesis by (simp add: commit_state_def runs idl.same)
  qed
  then show "step_on {rel} E s t \<and> (\<forall>x. r = Inr x \<longrightarrow> bt_get (current t) rel = Some st)"
    using u cur [of rel] by (auto simp: idle_current intro: stp.comp idle_step)
qed

lemma get_state_g:
  "guarded P (step_on X E) (get_state E' rel) (\<lambda>r s. (\<exists>u. P u \<and> idle E u s) \<and> r = bt_get (current s) rel)"
proof (rule guardedI)
  fix s r t assume P: "P s" and run: "get_state E' rel s = (r, t)"
  have "idle E s t" by (rule keepsE [OF get_state_idle run])
  with P get_state_current [OF run] show "step_on X E s t \<and>
      (\<forall>x. r = Inr x \<longrightarrow> (\<exists>u. P u \<and> idle E u t) \<and> x = bt_get (current t) rel)"
    by (auto simp: idle_current intro: idle_step)
qed

text \<open>The state of a path, read and still current.\<close>

definition at_state :: "env \<Rightarrow> string \<Rightarrow> path_state option \<Rightarrow> replica \<Rightarrow> bool" where
  "at_state E rel st s \<longleftrightarrow> replica_inv E s \<and> bt_get (current s) rel = st"

lemma at_state_idle: "\<lbrakk>idle E s t; at_state E rel st s\<rbrakk> \<Longrightarrow> at_state E rel st t"
  by (simp add: at_state_def idle_def unseen_def)

lemma at_state_other: "\<lbrakk>step_on {} E s t; at_state E rel (Some st) s\<rbrakk> \<Longrightarrow> at_state E rel (Some st) t"
  unfolding at_state_def by (simp add: step_onD)

lemma get_state_at: "guarded (replica_inv E) (step_on X E) (get_state E' rel) (\<lambda>r. at_state E rel r)"
  by (rule guarded_post [OF get_state_g]) (auto simp: at_state_def dest: idle_inv)

lemma get_state_again:
  "guarded (at_state E rel st) (step_on X E) (get_state E' rel) (\<lambda>r s. r = st \<and> at_state E rel st s)"
  by (rule guarded_post [OF get_state_g]) (auto simp: at_state_def idle_def unseen_def)

lemma at_state_committable:
  "\<lbrakk>at_state E rel (Some st) s; p_versions st' = p_versions st; p_seen st' = p_seen st\<rbrakk> \<Longrightarrow>
   committable E rel st' s"
  unfolding at_state_def committable_def using inv_current by (fastforce simp: st_ok_def)

section \<open>Joining\<close>

lemma sort_key_Nil: "sort_key k xs = [] \<longleftrightarrow> xs = []"
  by (metis set_empty set_sort)

lemma join_nonempty:
  "\<lbrakk>join old inc seen = Some (vs, v); \<And>ls w. old = Some (ls, w) \<Longrightarrow> ls \<noteq> []\<rbrakk> \<Longrightarrow> vs \<noteq> []"
  by (cases old) (auto simp: join_def Let_def sort_key_Nil split: if_splits prod.splits)

lemma set_push_incoming: "set (push_incoming l ls inc vs) \<subseteq> set vs \<union> set inc"
proof (induction inc arbitrary: vs)
  case Nil
  then show ?case by simp
next
  case (Cons e inc)
  have "set (push_incoming l ls inc ws) \<subseteq> set vs \<union> set (e # inc)" if "set ws \<subseteq> set vs \<union> {e}" for ws
    using Cons.IH [of ws] that by auto
  from this [of vs] this [of "vs @ [e]"] show ?case by (auto simp: Let_def)
qed

lemma set_join:
  "join old inc seen = Some (vs, v) \<Longrightarrow>
   set vs \<subseteq> (case old of None \<Rightarrow> {} | Some (ls, _) \<Rightarrow> set ls) \<union> set inc"
proof (cases old)
  case None
  assume "join old inc seen = Some (vs, v)"
  with None show ?thesis by (auto simp: join_def split: if_splits)
next
  case (Some p)
  obtain ls w where p: "p = (ls, w)" by (cases p)
  assume "join old inc seen = Some (vs, v)"
  with Some p have "vs = joined_versions ls w inc seen" by (auto simp: join_Some_iff Let_def split: if_splits)
  with Some p show ?thesis
    using set_push_incoming [of ls w inc "filter (\<lambda>e. \<not> covers_dot seen (e_dot e) \<or> has_dot inc (e_dot e)) ls"]
    by (auto simp: joined_versions_def)
qed

lemma join_seen: "join (Some (ls, w)) inc seen = Some (vs, v) \<Longrightarrow> v = vv_merge w seen"
  by (auto simp: join_Some_iff Let_def split: if_splits)

lemma join_seen_None: "join None inc seen = Some (vs, v) \<Longrightarrow> v = seen"
  by (auto simp: join_def split: if_splits)

lemma join_update_g:
  assumes path: "\<forall>v \<in> set (u_versions u). e_path v = u_path u"
  shows "guarded (replica_inv E) (step_on {u_path u} E) (join_update E' u d)
    (\<lambda>r s. replica_inv E s \<and> (\<forall>st. r = Some st \<longrightarrow> at_state E (u_path u) (Some st) s \<and> covers (p_seen st) (u_seen u)))"
  unfolding join_update_def [abs_def]
proof (rule stp.bindE_g [OF get_state_at])
  fix old :: "path_state option"
  let ?pair = "map_option (\<lambda>st. (p_versions st, p_seen st)) old"
  show "guarded (at_state E (u_path u) old) (step_on {u_path u} E)
     (case join ?pair (u_versions u) (u_seen u) of
         None \<Rightarrow> ret None
       | Some (versions, seen) \<Rightarrow>
           let disk = (case d of Some d \<Rightarrow> d
                       | None \<Rightarrow> (case old of Some st \<Rightarrow> p_disk st | None \<Rightarrow> disk_default));
               st = \<lparr>p_versions = versions, p_seen = seen, p_disk = disk\<rparr> in
           thenE (commit_state E' (u_path u) st)
          (thenE (update (\<lambda>s. s\<lparr>pending_versions := True, report := (report s)\<lparr>changed := changed (report s) + 1\<rparr>\<rparr>))
          (ret (Some st))))
     (\<lambda>r s. replica_inv E s \<and> (\<forall>st. r = Some st \<longrightarrow> at_state E (u_path u) (Some st) s \<and> covers (p_seen st) (u_seen u)))"
  proof (cases "join ?pair (u_versions u) (u_seen u)")
    case None
    show ?thesis unfolding None by (simp only: option.case, rule stp.ret_g) (simp add: at_state_def)
  next
    case (Some p)
    obtain vs v where p: "p = (vs, v)" by (cases p)
    let ?disk = "case d of Some d \<Rightarrow> d | None \<Rightarrow> (case old of Some st \<Rightarrow> p_disk st | None \<Rightarrow> disk_default)"
    let ?st = "\<lparr>p_versions = vs, p_seen = v, p_disk = ?disk\<rparr>"
    have com: "committable E (u_path u) ?st s" if at: "at_state E (u_path u) old s" for s
    proof -
      have old: "st_ok (u_path u) o'" if "old = Some o'" for o'
        using at that inv_current by (auto simp: at_state_def)
      have "vs \<noteq> []" by (rule join_nonempty [OF Some [unfolded p]]) (use old in \<open>auto simp: st_ok_def\<close>)
      moreover have "\<forall>e \<in> set vs. e_path e = u_path u"
        using set_join [OF Some [unfolded p]] path old by (cases old) (auto simp: st_ok_def)
      moreover have "covers v (p_seen o')" if "old = Some o'" for o'
        using join_seen Some p that by fastforce
      ultimately show ?thesis using at by (auto simp: committable_def st_ok_def at_state_def)
    qed
    have cov: "covers v (u_seen u)"
      using join_seen join_seen_None Some p by (cases old) fastforce+
    have "guarded (at_state E (u_path u) old) (step_on {u_path u} E) (commit_state E' (u_path u) ?st)
        (\<lambda>_. at_state E (u_path u) (Some ?st))"
    proof (rule guardedI)
      fix s r t
      assume at: "at_state E (u_path u) old s" and run: "commit_state E' (u_path u) ?st s = (r, t)"
      from guardedD [OF commit_state_g com [OF at] run] at
      show "step_on {u_path u} E s t \<and> (\<forall>x. r = Inr x \<longrightarrow> at_state E (u_path u) (Some ?st) t)"
        by (auto simp: at_state_def dest: step_inv)
    qed
    then show ?thesis
      unfolding Some p option.case prod.case Let_def
    proof (rule stp.thenE_g)
      let ?up = "\<lambda>s. s\<lparr>pending_versions := True, report := (report s)\<lparr>changed := changed (report s) + 1\<rparr>\<rparr>"
      have i: "idle E s (?up s)" for s
        by (simp add: inv_defs)
      show "guarded (at_state E (u_path u) (Some ?st)) (step_on {u_path u} E) (thenE (update ?up) (ret (Some ?st)))
          (\<lambda>r s. replica_inv E s \<and> (\<forall>st. r = Some st \<longrightarrow> at_state E (u_path u) (Some st) s \<and> covers (p_seen st) (u_seen u)))"
        by (rule then_idle [OF idl.update_r [OF i] at_state_idle stp.ret_g]) (use cov in \<open>auto simp: at_state_def\<close>)
    qed
  qed
qed

section \<open>Settling and copying\<close>

lemma settle_g:
  "guarded (at_state E rel (Some st)) (step_on {rel} E) (settle E f src rel st) (\<lambda>_ _. True)"
proof -
  have com: "guarded (at_state E rel (Some st)) (step_on {rel} E) (commit_state E rel (st\<lparr>p_disk := d\<rparr>)) (\<lambda>_ _. True)" for d
    by (rule guarded_pre [OF guarded_post [OF commit_state_g]]) (auto intro: at_state_committable)
  note rules = after_idle [OF _ at_state_idle] guarded_control
  show ?thesis
    unfolding settle_def [abs_def]
    by (intro after_idle [OF winner_of_idle at_state_idle] guarded_if
        after_idle [OF disk_seen_idle at_state_idle] com idle_true [OF idl.ret_r]
        after_idle [OF idl.reading_r at_state_idle] guarded_option idle_true [OF skip_idle]
        after_idle [OF occupied_idle at_state_idle] after_idle [OF write_winner_idle at_state_idle])
qed

lemma ensure_copy_g:
  assumes rec: "\<And>q. guarded (replica_inv E) (step_on {q} E) (rec q) (\<lambda>_ _. True)"
  shows "guarded (replica_inv E) (step_on {} E) (ensure_copy E rec f src rel st loser) (\<lambda>_ _. True)"
proof (cases "e_content loser")
  case Tombstone
  show ?thesis unfolding ensure_copy_def [abs_def] Tombstone content.case by (rule idle_true [OF idl.ret_r])
next
  case (File h len)
  let ?c = "conflict_rel E rel (e_dot loser)"
  have new: "guarded (at_state E ?c None) (step_on {} E) (rec ?c) (\<lambda>_ _. True)"
  proof (rule guardedI)
    fix s r t assume at: "at_state E ?c None s" and run: "rec ?c s = (r, t)"
    with guardedD [OF rec _ run] show "step_on {} E s t \<and> (\<forall>x. r = Inr x \<longrightarrow> True)"
      by (auto simp: at_state_def intro: step_new)
  qed
  have con: "keeps (idle E) (update (\<lambda>s. s\<lparr>report := g s\<rparr>))" for g
    by (rule idl.update_r) (rule report_idle)
  have body: "guarded (at_state E ?c there) (step_on {} E) (if there \<noteq> None then ret ()
      else bindE (holds_loser E ?c h) (\<lambda>holds. case holds of
        None \<Rightarrow> skip ?c Occupied
      | Some True \<Rightarrow> rec ?c
      | Some False \<Rightarrow> bindE (copy_content E src rel st h) (\<lambda>staged. case staged of
          None \<Rightarrow> skip ?c ContentUnavailable
        | Some name \<Rightarrow>
            thenE (flush_versions E) (thenE (place E name (native E ?c))
              (thenE (update (\<lambda>s. s\<lparr>report := (report s)\<lparr>conflicts := conflicts (report s) @ [(rel, ?c)]\<rparr>\<rparr>)) (rec ?c)))))) (\<lambda>_ _. True)"
    for there
  proof (cases there)
    case (Some y)
    show ?thesis by (intro guarded_if idle_true [OF idl.ret_r]) (use Some in auto)
  next
    case None
    have held: "guarded (at_state E ?c None) (step_on {} E) (case holds of
        None \<Rightarrow> skip ?c Occupied
      | Some True \<Rightarrow> rec ?c
      | Some False \<Rightarrow> bindE (copy_content E src rel st h) (\<lambda>staged. case staged of
          None \<Rightarrow> skip ?c ContentUnavailable
        | Some name \<Rightarrow>
            thenE (flush_versions E) (thenE (place E name (native E ?c))
              (thenE (update (\<lambda>s. s\<lparr>report := (report s)\<lparr>conflicts := conflicts (report s) @ [(rel, ?c)]\<rparr>\<rparr>)) (rec ?c))))) (\<lambda>_ _. True)"
      for holds
    proof (cases holds)
      case (Some b)
      show ?thesis
      proof (cases b)
        case True
        then have b: "b = True" by simp
        show ?thesis unfolding Some b option.case bool.case by (rule new)
      next
        case False
        then have b: "b = False" by simp
        show ?thesis unfolding Some b option.case bool.case
          by (rule after_named [OF copy_content_named at_state_idle])
            (auto split: option.splits intro!: idle_true [OF skip_idle]
              then_idle [OF flush_place_idle at_state_idle] then_idle [OF con at_state_idle] new
              simp: thenE_assoc [where m = "flush_versions E", symmetric])
      qed
    qed (simp only: option.case, rule idle_true [OF skip_idle])
    show ?thesis unfolding None
      by (intro guarded_if idle_true [OF idl.ret_r] after_idle [OF holds_loser_idle at_state_idle] held)
  qed
  show ?thesis
    unfolding ensure_copy_def [abs_def] File content.case Let_def
    by (intro guarded_if idle_true [OF skip_idle] stp.bindE_g [OF get_state_at] body)
qed

lemma ensure_conflict_copies_g:
  assumes rec: "\<And>q. guarded (replica_inv E) (step_on {q} E) (rec q) (\<lambda>_ _. True)"
  shows "guarded (at_state E rel (Some st)) (step_on {} E) (ensure_conflict_copies E rec f src rel st)
    (\<lambda>_. at_state E rel (Some st))"
proof -
  have one: "guarded (at_state E rel (Some st)) (step_on {} E) (ensure_copy E rec f src rel st l) (\<lambda>_. at_state E rel (Some st))" for l
  proof (rule guardedI)
    fix s r t
    assume at: "at_state E rel (Some st) s" and run: "ensure_copy E rec f src rel st l s = (r, t)"
    then have "step_on {} E s t" using guardedD [OF ensure_copy_g [OF rec] _ run] by (auto simp: at_state_def)
    with at show "step_on {} E s t \<and> (\<forall>x. r = Inr x \<longrightarrow> at_state E rel (Some st) t)"
      by (auto intro: at_state_other)
  qed
  show ?thesis
    unfolding ensure_conflict_copies_def [abs_def]
    by (intro guarded_if after_idle [OF winner_of_idle at_state_idle] stp.each_g one stp.ret_g) 
qed

lemma copies_then_settle_g:
  assumes rec: "\<And>q. guarded (replica_inv E) (step_on {q} E) (rec q) (\<lambda>_ _. True)"
  shows "guarded (at_state E rel (Some st)) (step_on {rel} E)
    (thenE (ensure_conflict_copies E rec f src rel st) (settle E f src rel st)) (\<lambda>_ _. True)"
  by (rule stp.thenE_g [OF guarded_rel [OF ensure_conflict_copies_g [OF rec]] settle_g])
    (auto intro: step_mono)

lemma integrate_g:
  assumes rec: "\<And>q. guarded (replica_inv E) (step_on {q} E) (rec q) (\<lambda>_ _. True)"
    and path: "\<forall>v \<in> set (u_versions u). e_path v = u_path u"
  shows "guarded (replica_inv E) (step_on {u_path u} E) (integrate E rec f src u d) (\<lambda>_ _. True)"
  unfolding integrate_def [abs_def]
proof (rule stp.bindE_g [OF join_update_g [OF path]])
  fix joined :: "path_state option"
  show "guarded (\<lambda>s. replica_inv E s \<and> (\<forall>st. joined = Some st \<longrightarrow> at_state E (u_path u) (Some st) s \<and> covers (p_seen st) (u_seen u)))
      (step_on {u_path u} E)
      (case joined of None \<Rightarrow> ret () | Some st \<Rightarrow>
        thenE (ensure_conflict_copies E rec f src (u_path u) st) (settle E f src (u_path u) st)) (\<lambda>_ _. True)"
  proof (cases joined)
    case None
    show ?thesis unfolding None option.case by (rule idle_true [OF idl.ret_r])
  next
    case (Some st)
    show ?thesis unfolding Some option.case
      by (rule guarded_pre [OF copies_then_settle_g [OF rec]]) simp
  qed
qed

section \<open>Reconciling\<close>

lemma next_entry_run: "next_entry E rel c ctx s = (r, t) \<Longrightarrow>
   idle E' s t \<and> (\<exists>e. r = Inr e \<and> e_path e = rel \<and> e_context e = ctx)"
  by (auto simp: next_entry_def Let_def inv_defs)

lemma next_entry_g:
  "guarded (replica_inv E) (step_on X E) (next_entry E' rel c ctx) (\<lambda>e s. replica_inv E s \<and> e_path e = rel)"
proof (rule guardedI)
  fix s r t assume "replica_inv E s" "next_entry E' rel c ctx s = (r, t)"
  with next_entry_run [of E' rel c ctx s r t E]
  show "step_on X E s t \<and> (\<forall>x. r = Inr x \<longrightarrow> replica_inv E t \<and> e_path x = rel)"
    by (auto intro: idle_step dest: idle_inv)
qed

lemma record_write_g:
  assumes rec: "\<And>q. guarded (replica_inv E) (step_on {q} E) (rec q) (\<lambda>_ _. True)"
  shows "guarded (replica_inv E) (step_on {rel} E) (record_write E rec f src rel st fh stamp) (\<lambda>_ _. True)"
proof -
  have con: "keeps (idle E) (update (\<lambda>s. s\<lparr>report := g s\<rparr>))" for g
    by (rule idl.update_r) (rule report_idle)
  have int: "guarded (\<lambda>s. replica_inv E s \<and> e_path e = rel) (step_on {rel} E)
      (integrate E rec f src \<lparr>u_path = rel, u_versions = [e], u_seen = v\<rparr> d) (\<lambda>_ _. True)" for e v d
  proof (cases "e_path e = rel")
    case True
    with integrate_g [OF rec, of "\<lparr>u_path = rel, u_versions = [e], u_seen = v\<rparr>"] show ?thesis
      by (auto elim: guarded_pre)
  qed (simp add: guarded_def)
  have P: "\<lbrakk>idle E s t; replica_inv E s \<and> e_path e = rel\<rbrakk> \<Longrightarrow> replica_inv E t \<and> e_path e = rel" for s t e
    by (auto dest: idle_inv)
  have paused: "keeps (idle E) (if b then pause_reason E else ret None)" for b
    by (intro keeps_if pause_reason_idle idl.ret_r)
  show ?thesis
    unfolding record_write_def [abs_def] Let_def
    by (intro guarded_if idle_true [OF idl.ret_r] after_idle [OF paused idle_inv] guarded_option idle_true [OF idl.throw_r]
        stp.bindE_g [OF next_entry_g] then_idle [OF con P] after_idle [OF now_ns_idle P] int)
qed

lemma refresh_and_settle_g:
  assumes rec: "\<And>q. guarded (replica_inv E) (step_on {q} E) (rec q) (\<lambda>_ _. True)"
  shows "guarded (at_state E rel (Some st)) (step_on {rel} E)
    (refresh_and_settle E rec f src rel st stale fh stamp) (\<lambda>_ _. True)"
proof -
  have com: "guarded (at_state E rel (Some st)) (step_on {rel} E)
      (thenE (commit_state E rel st') (ret st')) (\<lambda>x. at_state E rel (Some x))"
    if "p_versions st' = p_versions st" "p_seen st' = p_seen st" for st'
  proof (rule stp.thenE_g [where B = "at_state E rel (Some st')"])
    show "guarded (at_state E rel (Some st)) (step_on {rel} E) (commit_state E rel st') (\<lambda>_. at_state E rel (Some st'))"
    proof (rule guardedI)
      fix s r t assume at: "at_state E rel (Some st) s" and run: "commit_state E rel st' s = (r, t)"
      from guardedD [OF commit_state_g at_state_committable [OF at that] run] at
      show "step_on {rel} E s t \<and> (\<forall>x. r = Inr x \<longrightarrow> at_state E rel (Some st') t)"
        by (auto simp: at_state_def dest: step_inv)
    qed
  qed (rule stp.ret_g)
  have first: "guarded (at_state E rel (Some st)) (step_on {rel} E)
      (if stale then bindE (now_ns E) (\<lambda>now.
         let st = st\<lparr>p_disk := (p_disk st)\<lparr>d_hash := fh, d_mtime := fst stamp, d_len := snd stamp, d_checked := now\<rparr>\<rparr> in
         thenE (commit_state E rel st) (ret st)) else ret st) (\<lambda>x. at_state E rel (Some x))"
    unfolding Let_def by (intro guarded_if after_idle [OF now_ns_idle at_state_idle] com stp.ret_g) simp_all
  show ?thesis
    unfolding refresh_and_settle_def [abs_def]
    by (rule stp.bindE_g [OF first copies_then_settle_g [OF rec]])
qed

lemma reconcile_body_g:
  assumes rec: "\<And>q. guarded (replica_inv E) (step_on {q} E) (rec q) (\<lambda>_ _. True)"
  shows "guarded (replica_inv E) (step_on {rel} E) (reconcile_body E rec f src rel) (\<lambda>_ _. True)"
proof -
  have win: "keeps (idle E) (case st of None \<Rightarrow> ret None | Some st \<Rightarrow> bindE (winner_of st) (\<lambda>w. ret (Some w)))" for st
    by (cases st) (auto intro: idl.steps winner_of_idle)
  have rw: "guarded (at_state E rel st) (step_on {rel} E) (record_write E rec f src rel st' fh stamp) (\<lambda>_ _. True)" for st st' fh stamp
    by (rule guarded_pre [OF record_write_g [OF rec]]) (simp add: at_state_def)
  have ret: "guarded P (step_on {rel} E) (ret x) (\<lambda>_ _. True)" for P and x :: unit
    by (rule idle_true [OF idl.ret_r])
  have found: "guarded (at_state E rel st) (step_on {rel} E) (case found of
          None \<Rightarrow> ret ()
        | Some (file_hash, stamp) \<Rightarrow>
            if file_hash = h
            then (case st of
                None \<Rightarrow> ret ()
              | Some st \<Rightarrow> refresh_and_settle E rec f src rel st (c file_hash stamp) file_hash stamp)
            else bindE (case st of None \<Rightarrow> ret None | Some st \<Rightarrow> bindE (winner_of st) (\<lambda>w. ret (Some w))) (\<lambda>w.
              case (st, w) of
                (Some st, Some w) \<Rightarrow>
                  if content_hash_of (e_content w) = file_hash
                  then refresh_and_settle E rec f src rel st True file_hash stamp
                  else record_write E rec f src rel (Some st) file_hash stamp
              | _ \<Rightarrow> record_write E rec f src rel None file_hash stamp)) (\<lambda>_ _. True)" for found st h c
  proof (cases st)
    case None
    show ?thesis unfolding None option.case prod.case
      by (intro guarded_option guarded_prod guarded_if ret after_idle [OF win [of None, unfolded option.case] at_state_idle] rw)
  next
    case (Some st)
    show ?thesis unfolding Some option.case(2)
      by (intro guarded_option guarded_prod guarded_if ret refresh_and_settle_g [OF rec]
          after_idle [OF win [of "Some st", unfolded option.case] at_state_idle])
        (auto intro: rw refresh_and_settle_g [OF rec])
  qed
  have settle: "guarded (at_state E rel st) (step_on {rel} E) (case st of Some st \<Rightarrow> settle E f src rel st | None \<Rightarrow> ret ()) (\<lambda>_ _. True)" for st
    by (cases st) (auto simp only: option.case intro: ret settle_g)
  show ?thesis
    unfolding reconcile_body_def [abs_def] Let_def
    by (intro guarded_if ret stp.bindE_g [OF get_state_at] after_idle [OF idl.reading_r at_state_idle]
        settle after_idle [OF look_at_idle at_state_idle] found)
qed

lemma reconcile_path_g: "guarded (replica_inv E) (step_on {rel} E) (reconcile_path n E f src rel) (\<lambda>_ _. True)"
proof (induction n arbitrary: rel)
  case 0
  then show ?case by (simp add: guarded_def stp.same)
next
  case (Suc n)
  have "reconcile_path (Suc n) E f src rel = reconcile_body E (reconcile_path n E f src) f src rel"
    by (rule ext) simp
  with reconcile_body_g [OF Suc.IH] show ?case by simp
qed

section \<open>Whole calls\<close>

lemma tolerate_io_g:
  assumes "guarded P (step_on X E) m (\<lambda>_ _. True)"
  shows "guarded P (step_on X E) (tolerate_io m rel) (\<lambda>_ _. True)"
proof (rule guardedI)
  fix s r t assume P: "P s" and run: "tolerate_io m rel s = (r, t)"
  obtain q u where m: "m s = (q, u)" by (cases "m s")
  have su: "step_on X E s u" using guardedD [OF assms P m] by simp
  have "keeps (step_on X E) (case q of Inl (Io k) \<Rightarrow> skip rel (SkipIo k) | other \<Rightarrow> outcome other)"
    by (auto split: sum.splits error.splits intro: idle_steps skip_idle idl.steps)
  moreover have "(case q of Inl (Io k) \<Rightarrow> skip rel (SkipIo k) | other \<Rightarrow> outcome other) u = (r, t)"
    using run m by (simp add: tolerate_io_def runs)
  ultimately have "step_on X E u t" by (rule keepsE)
  with su show "step_on X E s t \<and> (\<forall>x. r = Inr x \<longrightarrow> True)" by (auto intro: stp.comp)
qed

text \<open>Steps on some paths are steps on any path.\<close>

lemma any_path: "guarded P (step_on X E) m Q \<Longrightarrow> guarded P (step_on UNIV E) m Q"
  by (erule guarded_rel, erule step_mono, rule subset_UNIV)

lemma inv_frame:
  assumes "guarded (replica_inv E) (step_on X E) m (\<lambda>_ _. True)"
  shows "guarded (replica_inv E) (step_on X E) m (\<lambda>_. replica_inv E)"
  using assms unfolding guarded_def by (meson step_inv)

lemma reconcile_any: "guarded (replica_inv E) (step_on UNIV E) (tolerate_io (reconcile_path n E f src rel) rel) (\<lambda>_. replica_inv E)"
  by (rule inv_frame [OF any_path [OF tolerate_io_g [OF reconcile_path_g]]])

lemma call_state_idle: "keeps (idle E) (start_call E')" "keeps (idle E) (set_index E' states)"
  "keeps (idle E) (observe_versions vs now)"
  by (auto intro!: keepsI simp: start_call_def set_index_def observe_versions_def inv_defs)

lemma walk_idle: "keeps (idle E) (walk E' f)"
proof -
  have "keeps (idle E) (walk_entry E' f acc item)" for acc item
    unfolding walk_entry_def [abs_def] Let_def
    by (intro keeps_prod keeps_control idle_ops) (auto split: node.splits intro!: idle_ops)
  then show ?thesis
    unfolding walk_def [abs_def] by (intro idle_ops keeps_control idle_fs)
qed

lemma all_states_g: "guarded (replica_inv E) (step_on UNIV E) (all_states E') (\<lambda>_. replica_inv E)"
  by (rule idle_guarded [OF all_states_idle idle_inv])

lemma scan_root_g: "guarded (replica_inv E) (step_on UNIV E) (scan_root E) (\<lambda>_ _. True)"
  unfolding scan_root_def [abs_def] Let_def
  by (intro after_idle [OF load_filter_idle idle_inv] then_idle [OF call_state_idle(1) idle_inv]
      after_idle [OF walk_idle idle_inv] after_idle [OF all_states_idle idle_inv]
      then_idle [OF call_state_idle(2) idle_inv] stp.thenE_g [OF stp.each_g] reconcile_any idle_true [OF idl.reading_r])

lemma finish_g:
  assumes "guarded P (step_on X E) m (\<lambda>_ _. True)"
  shows "guarded P (step_on X E) (finish E' m) (\<lambda>_ _. True)"
proof (rule guardedI)
  fix s r t assume P: "P s" and run: "finish E' m s = (r, t)"
  obtain q u where m: "m s = (q, u)" by (cases "m s")
  obtain q2 v where fl: "flush E' u = (q2, v)" by (cases "flush E' u")
  have "step_on X E s u" using guardedD [OF assms P m] by simp
  moreover have "step_on X E u v" by (rule idle_step [OF keepsE [OF flush_idle fl]])
  moreover have "t = v" using run m fl
    by (cases q; cases q2) (auto simp: finish_def runs)
  ultimately show "step_on X E s t \<and> (\<forall>x. r = Inr x \<longrightarrow> True)" by (auto intro: stp.comp)
qed

lemma held_in_workspace_idle: "keeps (idle E) (held_in_workspace E' ix h)"
  unfolding held_in_workspace_def [abs_def] by (intro idle_ops keeps_control idle_fs)

lemma drop_staged_idle: "\<not> is_partial name \<Longrightarrow> keeps (idle E) (drop_staged name)"
  unfolding drop_staged_def [abs_def] by (rule keeps_removes_idle [OF rem.update_r [OF staging_removes]])


lemma finished_names: "guarded P (idle E) (finished E') (\<lambda>files _. \<forall>(_, name, _) \<in> set files. \<not> is_partial name)"
  unfolding finished_def [abs_def]
  by (intro idl.thenE_g [OF guarded_keeps [OF io_op_idle]] idl.reading_g)
    (auto simp: finished_in_def split: option.splits dest: hash_name_unpartial [OF sym])

lemma collect_staging_idle: "keeps (idle E) (collect_staging E')"
proof -
  have one: "keeps (idle E) (collect_one E' ix refd now removed item)" if "case item of (_, name, _) \<Rightarrow> \<not> is_partial name"
    for ix refd now removed item
    using that unfolding collect_one_def [abs_def] Let_def
    by (auto split: prod.splits intro!: keeps_control idle_ops held_in_workspace_idle drop_staged_idle)
  show ?thesis
    unfolding collect_staging_def [abs_def] Let_def
  proof (rule keeps_guarded, rule idl.bindE_g [OF finished_names])
    fix files :: "(content_hash \<times> string \<times> bytes \<times> int) list"
    let ?m = "if files = [] then ret 0 else bindE (all_states E') (\<lambda>states.
         bindE (reading (\<lambda>s. clock_ns E' (step_no s))) (\<lambda>now.
           folding (collect_one E' (index_build E' states) (foldl (\<lambda>acc v. case content_hash_of (e_content v) of
               Some h \<Rightarrow> bs_insert h acc | None \<Rightarrow> acc) bt_empty (concat (map (\<lambda>(_, st). p_versions st) states))) now) 0 files))"
    show "guarded (\<lambda>_. \<forall>(_, name, _) \<in> set files. \<not> is_partial name) (idle E) ?m (\<lambda>_ _. True)"
    proof (cases "\<forall>(_, name, _) \<in> set files. \<not> is_partial name")
      case True
      then have "keeps (idle E) ?m" by (intro idle_ops keeps_control idle_fs one) auto
      then show ?thesis by (rule guarded_keeps)
    qed (auto simp: guarded_def)
  qed
qed

lemma collect_staging_quietly_idle: "keeps (idle E) (collect_staging_quietly E')"
  unfolding collect_staging_quietly_def [abs_def] by (intro idle_ops collect_staging_idle)

lemma scan_g: "guarded (replica_inv E) (step_on UNIV E) (scan E) (\<lambda>_ _. True)"
  unfolding scan_def [abs_def]
  by (intro after_idle [OF pause_reason_idle idle_inv] guarded_option idle_true [OF idl.ret_r]
      stp.bindE_g [OF inv_frame [OF finish_g [OF scan_root_g]]]
      then_idle [OF collect_staging_quietly_idle idle_inv])

lemma apply_one_g: "guarded (replica_inv E) (step_on UNIV E) (apply_one E f src now joined u) (\<lambda>_. replica_inv E)"
proof (cases "well_formed u")
  case False
  show ?thesis unfolding apply_one_def [abs_def] by (intro guarded_if stp.ret_g) (use False in auto)
next
  case True
  then have path: "\<forall>v \<in> set (u_versions u). e_path v = u_path u"
    by (auto simp: well_formed_def list_all_iff)
  note j = guarded_post [OF any_path [OF join_update_g [OF path]]]
  show ?thesis unfolding apply_one_def [abs_def]
    by (intro guarded_if stp.ret_g then_idle [OF call_state_idle(3) idle_inv] stp.thenE_g [OF reconcile_any]
        stp.bindE_g [OF j [where Q' = "\<lambda>_. replica_inv E"]]) auto
qed

lemma settle_joined_g: "guarded (replica_inv E) (step_on UNIV E) (settle_joined E f src rel) (\<lambda>_. replica_inv E)"
  unfolding settle_joined_def [abs_def]
proof (rule stp.bindE_g [OF get_state_at])
  fix st
  show "guarded (at_state E rel st) (step_on UNIV E) (case st of None \<Rightarrow> ret ()
     | Some st \<Rightarrow> tolerate_io
         (thenE (ensure_conflict_copies E (reconcile_path RECONCILE_DEPTH E f src) f src rel st) (settle E f src rel st)) rel)
     (\<lambda>_. replica_inv E)"
  proof (cases st)
    case None
    show ?thesis unfolding None option.case by (rule stp.ret_g) (simp add: at_state_def)
  next
    case (Some st)
    have "guarded (at_state E rel (Some st)) (step_on UNIV E) (tolerate_io
         (thenE (ensure_conflict_copies E (reconcile_path RECONCILE_DEPTH E f src) f src rel st) (settle E f src rel st)) rel) (\<lambda>_ _. True)"
      by (rule any_path [OF tolerate_io_g [OF copies_then_settle_g [OF reconcile_path_g]]])
    then show ?thesis unfolding Some option.case
      unfolding guarded_def at_state_def by (meson step_inv)
  qed
qed

lemma apply_updates_g: "guarded (replica_inv E) (step_on UNIV E) (apply_updates E us src) (\<lambda>_ _. True)"
  unfolding apply_updates_def [abs_def]
  by (intro after_idle [OF load_filter_idle idle_inv] then_idle [OF call_state_idle(1) idle_inv]
      after_idle [OF all_states_idle idle_inv] then_idle [OF call_state_idle(2) idle_inv]
      after_idle [OF idl.reading_r idle_inv] stp.bindE_g [OF stp.folding_g [where P = "\<lambda>_. replica_inv E"]] apply_one_g
      stp.thenE_g [OF stp.each_g] settle_joined_g idle_true [OF idl.reading_r])

lemma replica_apply_g: "guarded (replica_inv E) (step_on UNIV E) (replica_apply E us src) (\<lambda>_ _. True)"
  unfolding replica_apply_def [abs_def]
  by (intro after_idle [OF pause_reason_idle idle_inv] guarded_option idle_true [OF idl.throw_r]
      finish_g [OF apply_updates_g])

lemma fetch_missing_g: "guarded (replica_inv E) (step_on UNIV E) (fetch_missing E src) (\<lambda>_ _. True)"
proof -
  have "guarded (replica_inv E) (step_on UNIV E) (fetch_missing_states E src) (\<lambda>_ _. True)"
    unfolding fetch_missing_states_def [abs_def]
    by (intro after_idle [OF load_filter_idle idle_inv] then_idle [OF call_state_idle(1) idle_inv]
        after_idle [OF all_states_idle idle_inv] then_idle [OF call_state_idle(2) idle_inv]
        stp.thenE_g [OF stp.each_g] guarded_prod reconcile_any idle_true [OF idl.reading_r])
  then show ?thesis
    unfolding fetch_missing_def [abs_def]
    by (intro after_idle [OF pause_reason_idle idle_inv] guarded_option idle_true [OF idl.throw_r] finish_g)
qed

lemma store_commit_nil_idle: "idle E s (snd (store_commit E' m [] s))"
  by (auto simp: store_commit_def thenE_def bindE_def db_op_def inv_defs)

lemma commit_session_idle: "keeps (idle E) (commit_session E' peer)"
proof (rule keepsI)
  fix s :: replica
  let ?u = "s\<lparr>live_meta := (live_meta s)\<lparr>m_vv := vv_merge (m_vv (live_meta s)) peer\<rparr>\<rparr>"
  have "idle E s ?u" by (simp add: inv_defs)
  moreover have "idle E ?u (snd (commit_session E' peer s))"
    using keepsD [OF flush_idle [of E E'], of ?u] store_commit_nil_idle [of E ?u E' "live_meta ?u"]
    by (simp add: commit_session_def runs)
  ultimately show "idle E s (snd (commit_session E' peer s))" by (rule idl.comp)
qed

text \<open>A flush that succeeds leaves everything current in the database.\<close>

lemma flush_stored: "flush E s = (Inr (), t) \<Longrightarrow> pending t = bt_empty \<and> db_paths t = current t \<and> current t = current s"
proof -
  assume run: "flush E s = (Inr (), t)"
  have "pending t = bt_empty"
  proof (cases "pending s = bt_empty")
    case False
    with run show ?thesis by (auto simp: flush_def runs bindE_Inr thenE_Inr)
  qed (use run in \<open>simp add: flush_def runs\<close>)
  moreover have "current t = current s" by (rule idle_current [OF keepsE [OF flush_idle run]])
  moreover have "current t = db_paths t" if "pending t = bt_empty"
    using that by (simp add: current_def bt_insert_all_def)
  ultimately show ?thesis by simp
qed

lemma finish_stored:
  "finish E m s = (Inr x, t) \<Longrightarrow> \<exists>s1. m s = (Inr x, s1) \<and> db_paths t = current s1 \<and> current t = current s1 \<and> pending t = bt_empty"
proof -
  assume run: "finish E m s = (Inr x, t)"
  obtain q s1 where m: "m s = (q, s1)" by (cases "m s")
  obtain q2 s2 where fl: "flush E s1 = (q2, s2)" by (cases "flush E s1")
  have "q = Inr x \<and> q2 = Inr () \<and> t = s2"
    using run m fl by (cases q; cases q2) (auto simp: finish_def runs)
  with m fl flush_stored show ?thesis by metis
qed

end
