(* ===== verification/ReplicaDepth.thy ===== *)
theory ReplicaDepth
  imports ReplicaSteps
begin

text \<open>
  The recursion of \<open>reconcile_path\<close> through conflict copies: what it does at a path without a state
  does not depend on the recursive call, and everywhere else it recurses only into such paths.
\<close>

section \<open>The depth of the recursion\<close>

lemma join_single: "join None [e] v = Some ([e], v)"
  by (simp add: join_def)

lemma idle_get: "\<lbrakk>keeps (idle E) m; m s = (r, t)\<rbrakk> \<Longrightarrow> current t = current s"
  using keepsE idle_current by metis

lemma join_update_new:
  assumes "bt_get (current s) (u_path u) = None" "u_versions u = [e]" "join_update E u d s = (Inr r, t)"
  shows "\<exists>st. r = Some st \<and> p_versions st = [e]"
proof -
  obtain q s1 where g: "get_state E (u_path u) s = (q, s1)" by (cases "get_state E (u_path u) s")
  with get_state_current [OF g] assms(1) have "q = Inr None \<or> q = Inl Store" by auto
  with assms(2,3) g show ?thesis
    by (auto simp: join_update_def runs join_single Let_def thenE_Inr)
qed

lemma integrate_new:
  assumes "bt_get (current s) (u_path u) = None" "u_versions u = [e]"
  shows "integrate E rec f src u d s = integrate E rec' f src u d s"
proof -
  have "ensure_conflict_copies E rec f src (u_path u) st = ensure_conflict_copies E rec' f src (u_path u) st"
    if "p_versions st = [e]" for st
    using that by (auto simp: ensure_conflict_copies_def)
  then show ?thesis
    unfolding integrate_def
    by (intro bindE_eq) (use join_update_new [OF assms] in \<open>fastforce split: option.splits\<close>)
qed

lemma record_write_new:
  assumes "bt_get (current s) rel = None"
  shows "record_write E rec f src rel None fh stamp s = record_write E rec' f src rel None fh stamp s"
proof -
  have [simp]: "current (t\<lparr>report := x\<rparr>) = current t" for t x by (simp add: current_def)
  have ne: "current t' = current t" if "next_entry E rel c ctx t = (r, t')" for c ctx t r t'
    using next_entry_run [OF that] by (simp add: idle_current)
  have nw: "t' = t" if "now_ns E t = (r, t')" for t r t'
    using that by (simp add: now_ns_def)
  show ?thesis
  proof (cases fh)
    case None
    then show ?thesis by (simp add: record_write_def Let_def is_tombstone_def content_hash_of_def)
  next
    case (Some h)
    then show ?thesis
      unfolding record_write_def Let_def
      by (auto simp: is_tombstone_def content_hash_of_def runs assms dest!: ne nw intro!: bindE_eq thenE_eq integrate_new)
  qed
qed

lemma reconcile_body_new:
  assumes "bt_get (current s) rel = None"
  shows "reconcile_body E rec f src rel s = reconcile_body E rec' f src rel s"
proof -
  have got: "st = None \<and> current t = current s" if "get_state E rel s = (Inr st, t)" for st t
    using get_state_current [OF that] idle_get [OF get_state_idle that] assms by auto
  have look: "current t' = current t" if "look_at E rel d t = (r, t')" for d r t t'
    by (rule idle_get [OF look_at_idle that])
  show ?thesis
    unfolding reconcile_body_def Let_def
    by (intro if_eq bindE_eq refl)
      (auto simp: disk_default_def runs assms dest!: got look intro!: bindE_eq option_eq prod_eq if_eq record_write_new)
qed


text \<open>Two ways of recursing are alike when they agree wherever a path has no state.\<close>

definition rec_alike :: "(string \<Rightarrow> unit rep) \<Rightarrow> (string \<Rightarrow> unit rep) \<Rightarrow> bool" where
  "rec_alike rec rec' \<longleftrightarrow> (\<forall>q s. bt_get (current s) q = None \<longrightarrow> rec q s = rec' q s)"

lemma rec_alikeD: "\<lbrakk>rec_alike rec rec'; bt_get (current s) q = None\<rbrakk> \<Longrightarrow> rec q s = rec' q s"
  by (simp add: rec_alike_def)

lemma ensure_copy_alike:
  assumes "rec_alike rec rec'"
  shows "ensure_copy E rec f src rel st loser s = ensure_copy E rec' f src rel st loser s"
proof -
  have cur: "current t = current s" if "keeps (idle E) m" "m s = (r, t)" for m :: "'a rep" and s r t
    by (rule idle_get [OF that])
  have [simp]: "current (t\<lparr>report := x\<rparr>) = current t" for t x by (simp add: current_def)
  show ?thesis
  proof (cases "e_content loser")
    case (File h len)
    let ?c = "conflict_rel E rel (e_dot loser)"
    have got: "there = None \<longrightarrow> bt_get (current t) ?c = None" if "get_state E ?c s = (Inr there, t)" for there t
      using get_state_current [OF that] cur [OF get_state_idle that] by auto
    have hold: "current t' = current t" if "holds_loser E q h t = (r, t')" for q t r t'
      by (rule cur [OF holds_loser_idle that])
    have cop: "current t' = current t" if "copy_content E src rel st h t = (r, t')" for t r t'
      by (rule cur [OF copy_content_idle that])
    have flu: "current t' = current t" if "flush_versions E t = (r, t')" for t r t'
      by (rule cur [OF flush_versions_idle that])
    have pla: "current t' = current t" if "place E n p t = (r, t')" for n p t r t'
      using keepsE [OF place_removes that] by (rule removes_current)
    show ?thesis
      unfolding ensure_copy_def File content.case Let_def
      by (intro if_eq refl bindE_eq)
        (auto split: option.splits bool.splits dest!: hold cop flu pla got intro!: bindE_eq thenE_eq rec_alikeD [OF assms])
  qed (simp add: ensure_copy_def)
qed

lemma copies_alike:
  assumes "rec_alike rec rec'"
  shows "ensure_conflict_copies E rec f src rel st = ensure_conflict_copies E rec' f src rel st"
proof -
  have "ensure_copy E rec f src rel st = ensure_copy E rec' f src rel st"
    by (intro ext) (rule ensure_copy_alike [OF assms])
  then show ?thesis by (intro ext) (simp add: ensure_conflict_copies_def)
qed

lemma reconcile_body_alike:
  assumes "rec_alike rec rec'"
  shows "reconcile_body E rec f src rel = reconcile_body E rec' f src rel"
proof -
  note c = copies_alike [OF assms]
  have i: "integrate E rec f src u d = integrate E rec' f src u d" for u d
    by (intro ext) (simp only: integrate_def c)
  have "refresh_and_settle E rec f src rel st stale fh stamp = refresh_and_settle E rec' f src rel st stale fh stamp"
    for st stale fh stamp
    by (intro ext) (simp only: refresh_and_settle_def c)
  moreover have "record_write E rec f src rel st fh stamp = record_write E rec' f src rel st fh stamp" for st fh stamp
    by (intro ext) (simp only: record_write_def i)
  ultimately show ?thesis by (intro ext) (simp only: reconcile_body_def)
qed

lemma reconcile_path_Suc: "reconcile_path (Suc n) E f src = reconcile_body E (reconcile_path n E f src) f src"
  by (intro ext) simp

text \<open>
  C10: The recursion of \<open>reconcile_path\<close> through \<open>ensure_conflict_copies\<close> never goes deeper than one
  level: a conflict copy is reconciled only at a path that has no state yet, where the write it
  records is the only version and so has no loser to copy. Two levels do what any larger number of
  levels does, in every state and whatever calls fail, so the bound of the model is the code.
\<close>

theorem reconcile_depth_enough:
  "reconcile_path (RECONCILE_DEPTH + n) E f src rel = reconcile E f src rel"
proof -
  have "rec_alike (reconcile_path (Suc n) E f src) (reconcile_path (Suc 0) E f src)"
    unfolding rec_alike_def reconcile_path_Suc by (blast intro: reconcile_body_new)
  then have "reconcile_body E (reconcile_path (Suc n) E f src) f src = reconcile_body E (reconcile_path (Suc 0) E f src) f src"
    by (intro ext) (simp add: reconcile_body_alike)
  then show ?thesis by (simp only: RECONCILE_DEPTH_def numeral_2_eq_2 add_Suc add_0 reconcile_path_Suc)
qed

end
