(* ===== verification/ReplicaExamples.thy ===== *)
theory ReplicaExamples
  imports Replica
begin

text \<open>
  A replica to run the model on, and the equations that evaluate its operations on concrete states.
\<close>

definition ex_meta :: meta where
  "ex_meta = \<lparr>m_format = 1, m_replica = 5, m_counter = 0, m_hlc = hlc_default, m_vv = vv_new, m_root = [''ws'']\<rparr>"

text \<open>A workspace with its marker directory and one file, opened and not scanned yet.\<close>

definition ex_replica :: replica where
  "ex_replica = \<lparr>tree = bt_insert [''ws'', ''.app''] Directory (tree ex_disk), staging = bt_empty,
     next_partial = 0, step_no = 0, db_created = True, db_meta = ex_meta, db_paths = bt_empty,
     live_meta = ex_meta, pending = bt_empty, pending_versions = False,
     store_index = index_default, report = report_default\<rparr>"

text \<open>A peer's write of the file that the workspace has too.\<close>

definition ex_update :: path_update where
  "ex_update = \<lparr>u_path = ''f'', u_versions = [\<lparr>e_path = ''f'', e_content = File [9] 1, e_hlc = Hlc 5000 0,
     e_dot = Dot 9 1, e_context = vv_new, e_author = 4\<rparr>], u_seen = add_dot (Dot 9 1) vv_new\<rparr>"

text \<open>
  The replica after it recorded its file, with a directory in the place of that version's conflict copy.
\<close>

definition ex_own :: entry where
  "ex_own = \<lparr>e_path = ''f'', e_content = File [1, 2, 3, 4] 4, e_hlc = Hlc 1018 0, e_dot = Dot 5 1,
     e_context = bt_empty, e_author = 3\<rparr>"

definition ex_blocked :: replica where
  "ex_blocked = ex_replica\<lparr>tree := bt_insert [''ws'', ''f.conflict-5-1''] Directory (tree ex_replica),
     db_paths := bt_insert ''f'' \<lparr>p_versions = [ex_own], p_seen = add_dot (Dot 5 1) vv_new,
       p_disk = \<lparr>d_hash = Some [1, 2, 3, 4], d_seen = add_dot (Dot 5 1) vv_new, d_mtime = 5, d_len = 4,
         d_checked = 10 ^ 12\<rparr>\<rparr> bt_empty,
     live_meta := ex_meta\<lparr>m_counter := 1, m_hlc := Hlc 1018 0, m_vv := add_dot (Dot 5 1) vv_new\<rparr>\<rparr>"

lemma ex_env_simps:
  "io_fails ex_env = (\<lambda>_. False)" "read_sizes ex_env = (\<lambda>_. [2, 1])"
  "clock_ms ex_env = (\<lambda>k. 1000 + word_of_nat k)" "clock_ns ex_env = (\<lambda>k. 10 ^ 12 + int k)"
  "other_volume ex_env = False" "process_id ex_env = 7" "sha ex_env = (\<lambda>bs. bs)" "from_byte_suffix ex_env = unat"
  "show_grain ex_env = show_nat" "fresh_id ex_env = word_of_nat" "gitignore ex_env = (\<lambda>_. None)"
  "lowercase ex_env = id" "windows ex_env = False" "case_insensitive ex_env = False" "app_name ex_env = ''app''"
  "ws_root ex_env = [''ws'']" "device_id ex_env = 3" "max_file_size ex_env = 100"
  by (simp_all add: ex_env_def)

lemma reconcile_two:
  "reconcile_path 2 E f src rel s = reconcile_body E (reconcile_path (Suc 0) E f src) f src rel s"
  by (simp add: numeral_2_eq_2)

lemma digit_chars:
  "char_of (48 :: nat) = CHR ''0''" "char_of (49 :: nat) = CHR ''1''" "char_of (50 :: nat) = CHR ''2''"
  "char_of (51 :: nat) = CHR ''3''" "char_of (52 :: nat) = CHR ''4''" "char_of (53 :: nat) = CHR ''5''"
  "char_of (54 :: nat) = CHR ''6''" "char_of (55 :: nat) = CHR ''7''" "char_of (56 :: nat) = CHR ''8''"
  "char_of (57 :: nat) = CHR ''9''"
  by (simp_all add: char_of_def bit_iff_odd)

lemmas record_eval = digit_chars sat_sub_def is_ascii_alphabetic_def
  content_hash_of_def join_def winner_def max_by_key_def hlc_default_def tick_def vv_new_def add_dot_def vv_get_def
  covers_dot_def observe_def max_def less_eq_dot_def less_dot_def less_eq_hlc_def less_hlc_def winner_key_def MAX_DRIFT_MS_def
  needs_copy_def show_nat.simps of_file_def of_file_loop.simps READ_BUF_def conflict_path_def tagged_name_def display_id_def
  to_native_def push_def is_valid_rel_def rel_from_native_def valid_segment_def
  is_reserved_windows_name_def has_drive_def representable_on_def strip_prefix_def pin_out_def vv_merge_def

lemmas replica_eval =
  staging_eval bt_eval record_eval ret_def throw_def reading_def update_def outcome_def
  native_def representable_def conflict_rel_def now_ns_def stamp_of_def is_racy_def trusted_stamp_def tolerate_io_def
  winner_of_def losers_def pause_reason_def holds_content_def content_path_with_def content_path_def stage_from_def stage_def
  skip_reason_def occupied_def disk_seen_def next_entry_def join_update_def copy_content_def holds_loser_def ensure_copy_def
  ensure_conflict_copies_def write_winner_def settle_def integrate_def look_at_def record_write_def refresh_and_settle_def
  reconcile_body_def RECONCILE_DEPTH_def reconcile_two walk_entry_def walk_def start_call_def set_index_def scan_root_def
  held_in_workspace_def collect_one_def collect_staging_def collect_staging_quietly_def finished_def finished_in_def scan_def
  apply_one_def settle_joined_def apply_updates_def replica_apply_def observe_versions_def well_formed_def
  get_state_def all_states_def store_all_def store_get_def store_commit_def flush_def flush_versions_def finish_def
  commit_state_def db_op_def skip_def overlay_def index_build_def index_record_def case_twin_def paths_with_def set_at_def
  MAX_PENDING_def I64_MAX_def RACY_NS_def index_default_def report_default_def disk_default_def
  load_filter_def IGNORE_FILE_def allows_def is_embedded_conflict_def IGNORE_FILE_CONFLICT_PREFIX_def
  ex_env_simps ex_disk_def

lemma ex_scan_run: "fst (scan ex_env ex_replica) = Inr (Scanned
    \<lparr>recorded = [\<lparr>e_path = ''f'', e_content = File [1, 2, 3, 4] 4, e_hlc = Hlc 1011 0, e_dot = Dot 5 1,
       e_context = bt_empty, e_author = 3\<rparr>], changed = 1, conflicts = [], skipped = []\<rparr>)"
  by (simp add: replica_eval ex_replica_def ex_meta_def)

lemmas ex_state_defs = ex_replica_def ex_meta_def ex_update_def ex_own_def ex_blocked_def

lemma ex_apply_run: "fst (replica_apply ex_env [ex_update] (\<lambda>h. Some (Foreign h)) ex_blocked) =
    Inr \<lparr>recorded = [], changed = 1, conflicts = [], skipped = [(''f.conflict-5-1'', Occupied)]\<rparr>"
  by (simp add: replica_eval ex_state_defs)

end
