(* ===== verification/ReplicaCalls.thy ===== *)
theory ReplicaCalls
  imports ReplicaSteps ReplicaExamples
begin

text \<open>
  Whole calls of a replica and sequences of them: what the database holds is never lost, whatever
  fails or crashes; an update that was applied is stored; joined versions are stored before files change; a
  paused replica does nothing.
\<close>

section \<open>Sequences of calls\<close>

text \<open>
  What can happen to a replica: the calls of its public interface, the process opening it again (with
  what was in memory gone), and anything else changing the tree between calls. A crash in a call is
  the call with every effect from some step on failing, followed by \<open>Reopen\<close>.
\<close>

datatype event =
    Scan
  | Apply "path_update list" content_source
  | FetchMissing content_source
  | CommitSession version_vector
  | Reopen "replica_id option"
  | Outside "(native_path, node) btmap"

definition forget :: "replica \<Rightarrow> replica" where
  "forget s = s\<lparr>pending := bt_empty, pending_versions := False\<rparr>"

primrec run_event :: "env \<Rightarrow> event \<Rightarrow> replica \<Rightarrow> replica" where
  "run_event E Scan s = snd (scan E s)"
| "run_event E (Apply us src) s = snd (replica_apply E us src s)"
| "run_event E (FetchMissing src) s = snd (fetch_missing E src s)"
| "run_event E (CommitSession vv) s = snd (commit_session E vv s)"
| "run_event E (Reopen rid) s = snd (open_replica E rid (forget s))"
| "run_event E (Outside t) s = s\<lparr>tree := t\<rparr>"

fun run_events :: "(env \<times> event) list \<Rightarrow> replica \<Rightarrow> replica" where
  "run_events [] s = s"
| "run_events ((E, e) # es) s = run_events es (run_event E e s)"

text \<open>From an open replica: the invariant is kept, and the database forgets nothing.\<close>

definition durable :: "env \<Rightarrow> replica \<Rightarrow> replica \<Rightarrow> bool" where
  "durable E s t \<longleftrightarrow> (replica_inv E s \<and> db_created s \<longrightarrow> replica_inv E t \<and> db_created t \<and> db_grows s t)"

interpretation dur: step_relation "durable E" for E
  by unfold_locales (auto simp: durable_def intro: db_grows_same db_grows_trans)

lemma step_durable: "step_on X E s t \<Longrightarrow> durable E s t"
  by (simp add: durable_def step_onD)

lemma unseen_durable: "unseen E s t \<Longrightarrow> durable E s t"
  by (simp add: durable_def unseen_def)

lemma durable_guarded: "guarded (replica_inv E) (step_on X E) m Q \<Longrightarrow> keeps (durable E) m"
  by (rule keepsI) (metis durable_def guardedD prod.collapse step_durable)

lemma durable_idle: "keeps (idle E) m \<Longrightarrow> keeps (durable E) m"
  unfolding keeps_def by (blast intro: step_durable idle_step)

lemma open_store_durable: "keeps (durable E) (open_store E' rid)"
proof -
  have "durable E s (s\<lparr>db_created := True, db_paths := bt_empty, db_meta := m\<rparr>)" if "\<not> db_created s" for s m
    using that by (simp add: durable_def)
  then have "guarded (\<lambda>s. \<not> db_created s) (durable E) (update (\<lambda>s. s\<lparr>db_created := True, db_paths := bt_empty, db_meta := m\<rparr>)) (\<lambda>_ _. True)" for m
    by (simp add: guarded_def)
  then have new: "guarded (\<lambda>s. \<not> db_created s) (durable E) (thenE (db_op E') (update (\<lambda>s. s\<lparr>db_created := True, db_paths := bt_empty, db_meta := m\<rparr>))) (\<lambda>_ _. True)" for m
    by (rule dur.thenE_g [rotated]) (auto simp: guarded_def db_op_def durable_def inv_defs)


  note io = durable_idle [OF io_op_idle] durable_idle [OF db_op_idle]
  have "guarded (\<lambda>_. True) (durable E) (open_store E' rid) (\<lambda>_ _. True)"
    unfolding open_store_def [abs_def]
  proof (rule dur.thenE_g [OF guarded_keeps [OF io(1)]], rule dur.thenE_g [OF guarded_keeps [OF io(2)]])
    show "guarded (\<lambda>_. True) (durable E) (bindE (reading (\<lambda>s. (db_created s, db_meta s, step_no s))) (\<lambda>(created, m, k).
       if \<not> created then
         thenE (db_op E') (update (\<lambda>s. s\<lparr>db_created := True, db_paths := bt_empty,
           db_meta := \<lparr>m_format = FORMAT_VERSION, m_replica = (case rid of Some r \<Rightarrow> r | None \<Rightarrow> fresh_id E' k),
             m_counter = 0, m_hlc = hlc_default, m_vv = vv_new, m_root = ws_root E'\<rparr>\<rparr>))
       else if m_format m > FORMAT_VERSION then throw (FormatTooNew (m_format m) FORMAT_VERSION)
       else if m_root m \<noteq> ws_root E'
       then throw (RootMismatch (join_with ''/'' (m_root m)) (join_with ''/'' (ws_root E')))
       else db_op E')) (\<lambda>_ _. True)"
      by (rule dur.bindE_g [OF dur.reading_g [where Q = "\<lambda>x s. x = (db_created s, db_meta s, step_no s)"]])
        (auto intro: guarded_pre [OF new] dur.throw_g guarded_keeps [OF io(2)] split: prod.splits)
  qed
  then show ?thesis by (rule keeps_guarded)
qed

lemma outside_durable: "keeps (durable E) (update (\<lambda>s. s\<lparr>tree := x\<rparr>))"
  by (rule dur.update_r) (rule unseen_durable [OF removes_unseen [OF tree_removes no_name]])

lemma forget_durable: "durable E s (forget s)"
  by (auto simp: durable_def forget_def replica_inv_def staging_ok_def states_ok_def ahead_def db_grows_def)

lemma open_replica_durable: "keeps (durable E) (open_replica E rid)"
proof -
  have "durable E s (s\<lparr>live_meta := db_meta s, pending := bt_empty, pending_versions := False\<rparr>)" for s
    by (auto simp: durable_def replica_inv_def staging_ok_def states_ok_def ahead_def db_grows_def)
  moreover have "keeps (durable E) (clear_partials E)"
  proof (rule keepsI)
    fix s :: replica
    let ?t = "snd (clear_partials E s)"
    have st: "staging_step E s ?t" by (rule keepsD [OF clear_partials_step])
    then have "disk.more ?t = disk.more s" "staging_ok E s \<Longrightarrow> staging_ok E ?t" by (simp_all add: staging_step_def)
    with same_replica [of ?t s] show "durable E s ?t"
      by (auto simp: durable_def replica_inv_def states_ok_def ahead_def intro: db_grows_same)
  qed
  ultimately show ?thesis
    unfolding open_replica_def [abs_def]
    by (intro dur.thenE_r durable_idle [OF io_op_idle] durable_idle [OF db_op_idle] open_store_durable dur.update_r
        durable_idle [OF collect_staging_quietly_idle])
qed

lemmas calls_durable = durable_guarded [OF scan_g] durable_guarded [OF replica_apply_g] durable_guarded [OF fetch_missing_g]
  durable_idle [OF commit_session_idle] outside_durable open_replica_durable

lemma run_event_durable: "durable E s (run_event E e s)"
proof (cases e)
  case (Reopen rid)
  then show ?thesis
    using dur.comp [OF forget_durable keepsD [OF open_replica_durable]] by simp
next
  case (Outside x)
  then show ?thesis using keepsD [OF outside_durable, of E s x] by simp
qed (use calls_durable [THEN keepsD] in auto)

lemma durable_sha: "sha E = sha E' \<Longrightarrow> durable E = durable E'"
  by (intro ext) (simp add: durable_def replica_inv_def staging_ok_def)

lemma run_events_durable: "\<forall>(E', e) \<in> set es. sha E' = sha E \<Longrightarrow> durable E s (run_events es s)"
proof (induction es s rule: run_events.induct)
  case (1 s)
  then show ?case by (simp add: dur.same)
next
  case (2 E1 e es s)
  then have "durable E s (run_event E1 e s)" using run_event_durable [of E1 s e] durable_sha [of E1 E] by simp
  with 2 show ?case by (auto intro: dur.comp)
qed

section \<open>Updates are taken in\<close>

lemma push_incoming_Nil:
  "push_incoming l ls inc vs = [] \<Longrightarrow> vs = [] \<and> (\<forall>e \<in> set inc. covers_dot ls (e_dot e))"
proof (induction inc arbitrary: vs)
  case (Cons e inc)
  have "push_incoming l ls inc (if (\<not> covers_dot ls (e_dot e) \<or> has_dot l (e_dot e)) \<and> \<not> has_dot vs (e_dot e)
      then vs @ [e] else vs) = []" (is "push_incoming l ls inc ?ws = []")
    using Cons.prems by (simp add: Let_def)
  from Cons.IH [OF this] have ws: "?ws = []" "\<forall>e \<in> set inc. covers_dot ls (e_dot e)" by simp_all
  then have "vs = []" by (simp split: if_splits)
  moreover from this ws(1) have "covers_dot ls (e_dot e)" by (auto simp: dots_def split: if_splits)
  ultimately show ?case using ws(2) by simp
qed simp

text \<open>A join that brings nothing covers what it was offered.\<close>

lemma join_None_covered:
  assumes "join (Some (local, ls)) inc is = None" "inc \<noteq> []" "\<forall>e \<in> set inc. covers_dot is (e_dot e)"
  shows "\<forall>e \<in> set inc. covers_dot ls (e_dot e)"
proof -
  let ?kept = "filter (\<lambda>e. \<not> covers_dot is (e_dot e) \<or> has_dot inc (e_dot e)) local"
  consider "push_incoming local ls inc ?kept = []" | "vv_merge ls is = ls"
    using assms(1) by (auto simp: join_Some_iff Let_def joined_versions_def sort_key_Nil split: if_splits)
  then show ?thesis
  proof cases
    case 1
    with push_incoming_Nil [OF 1] show ?thesis by blast
  next
    case 2
    then have "covers ls is" using covers_mergeR [of ls "is"] by simp
    with assms(3) show ?thesis by (blast intro: covers_dot_mono)
  qed
qed

definition sound_update :: "path_update \<Rightarrow> bool" where
  "sound_update u \<longleftrightarrow> well_formed u \<and> (\<forall>v \<in> set (u_versions u). covers_dot (u_seen u) (e_dot v))"

text \<open>Every version of the update is covered by what its path has seen.\<close>

definition taken :: "(string, path_state) btmap \<Rightarrow> path_update \<Rightarrow> bool" where
  "taken m u \<longleftrightarrow> (\<exists>st. bt_get m (u_path u) = Some st \<and> (\<forall>v \<in> set (u_versions u). covers_dot (p_seen st) (e_dot v)))"

lemma taken_step: "\<lbrakk>step_on X E s t; taken (current s) u\<rbrakk> \<Longrightarrow> taken (current t) u"
  unfolding taken_def by (meson step_onD(3) covers_dot_mono)

lemma join_update_taken:
  assumes inv: "replica_inv E s" and u: "sound_update u" and run: "join_update E u d s = (Inr r, t)"
  shows "taken (current t) u"
proof -
  have path: "\<forall>v \<in> set (u_versions u). e_path v = u_path u" and ne: "u_versions u \<noteq> []"
    and cov: "\<forall>v \<in> set (u_versions u). covers_dot (u_seen u) (e_dot v)"
    using u by (auto simp: sound_update_def well_formed_def list_all_iff)
  note J = guardedD [OF join_update_g [OF path] inv run]
  show ?thesis
  proof (cases r)
    case (Some st)
    with J have "bt_get (current t) (u_path u) = Some st" "covers (p_seen st) (u_seen u)"
      by (auto simp: at_state_def)
    with cov show ?thesis by (auto simp: taken_def intro: covers_dot_mono)
  next
    case None
    from run obtain old s1 where g: "get_state E (u_path u) s = (Inr old, s1)"
      by (auto simp: join_update_def bindE_Inr)
    have t: "t = s1 \<and> join (map_option (\<lambda>st. (p_versions st, p_seen st)) old) (u_versions u) (u_seen u) = None"
      using run g None by (auto simp: join_update_def runs Let_def thenE_Inr split: option.splits prod.splits)
    have "old = bt_get (current s) (u_path u)" using get_state_current [OF g] by auto
    moreover have "current t = current s" using t keepsE [OF get_state_idle g] by (simp add: idle_current)
    moreover obtain st where st: "old = Some st" using t ne by (cases old) (auto simp: join_def)
    moreover have "\<forall>v \<in> set (u_versions u). covers_dot (p_seen st) (e_dot v)"
      by (rule join_None_covered [OF _ ne cov, of "p_versions st"]) (use t st in simp)
    ultimately show ?thesis unfolding taken_def by (metis (no_types))
  qed
qed

lemma apply_one_taken:
  assumes u: "sound_update u"
  shows "guarded (replica_inv E) (step_on UNIV E) (apply_one E f src now joined u) (\<lambda>_ s. replica_inv E s \<and> taken (current s) u)"
proof (rule guardedI)
  fix s r t assume inv: "replica_inv E s" and run: "apply_one E f src now joined u s = (r, t)"
  note g = guardedD [OF apply_one_g inv run]
  have "taken (current t) u" if "r = Inr x" for x
  proof -
    have "well_formed u" using u by (simp add: sound_update_def)
    with run that obtain s1 s2 s3 y where
      1: "observe_versions (u_versions u) now s = (Inr (), s1)"
         "tolerate_io (reconcile E f src (u_path u)) (u_path u) s1 = (Inr (), s2)"
         "join_update E u None s2 = (Inr y, t)"
      by (auto simp: apply_one_def thenE_Inr bindE_Inr)
    have "replica_inv E s1" using keepsE [OF call_state_idle(3) 1(1)] inv by (auto dest: idle_inv)
    then have "replica_inv E s2" using guardedD [OF reconcile_any _ 1(2)] by blast
    then show ?thesis by (rule join_update_taken [OF _ u 1(3)])
  qed
  with g show "step_on UNIV E s t \<and> (\<forall>x. r = Inr x \<longrightarrow> replica_inv E t \<and> taken (current t) u)" by blast
qed

lemma folding_taken:
  "guarded (replica_inv E) (step_on UNIV E) (folding (apply_one E f src now) joined us)
    (\<lambda>_ s. replica_inv E s \<and> (\<forall>u \<in> set us. sound_update u \<longrightarrow> taken (current s) u))"
proof (induction us arbitrary: joined)
  case Nil
  show ?case unfolding folding_eqs by (rule stp.ret_g) simp
next
  case (Cons u us)
  have rest: "guarded (\<lambda>s. replica_inv E s \<and> (sound_update u \<longrightarrow> taken (current s) u)) (step_on UNIV E)
      (folding (apply_one E f src now) b us)
      (\<lambda>_ s. replica_inv E s \<and> (\<forall>u \<in> set (u # us). sound_update u \<longrightarrow> taken (current s) u))" for b
  proof (rule guardedI)
    fix s r t
    assume s: "replica_inv E s \<and> (sound_update u \<longrightarrow> taken (current s) u)" and run: "folding (apply_one E f src now) b us s = (r, t)"
    from guardedD [OF Cons.IH _ run] s
    show "step_on UNIV E s t \<and> (\<forall>x. r = Inr x \<longrightarrow> replica_inv E t \<and> (\<forall>u \<in> set (u # us). sound_update u \<longrightarrow> taken (current t) u))"
      by (auto intro: taken_step)
  qed
  have "guarded (replica_inv E) (step_on UNIV E) (apply_one E f src now joined u)
      (\<lambda>_ s. replica_inv E s \<and> (sound_update u \<longrightarrow> taken (current s) u))"
  proof (cases "sound_update u")
    case True
    then show ?thesis using apply_one_taken by simp
  next
    case False
    then show ?thesis using apply_one_g by simp
  qed
  then show ?case unfolding folding_eqs by (rule stp.bindE_g [OF _ rest])
qed

lemma apply_updates_taken:
  "guarded (replica_inv E) (step_on UNIV E) (apply_updates E us src)
    (\<lambda>_ s. \<forall>u \<in> set us. sound_update u \<longrightarrow> taken (current s) u)"
proof -
  let ?Q = "\<lambda>s. replica_inv E s \<and> (\<forall>u \<in> set us. sound_update u \<longrightarrow> taken (current s) u)"
  have settle: "guarded ?Q (step_on UNIV E) (settle_joined E f src rel) (\<lambda>_. ?Q)" for f rel
    by (rule guarded_post [OF guarded_frame [OF guarded_pre [OF settle_joined_g]]])
      (auto intro: taken_step dest: step_inv)
  have report: "guarded ?Q (step_on UNIV E) (reading report) (\<lambda>_ s. \<forall>u \<in> set us. sound_update u \<longrightarrow> taken (current s) u)"
    by (rule stp.reading_g) simp
  show ?thesis
    unfolding apply_updates_def [abs_def]
    by (intro after_idle [OF load_filter_idle idle_inv] then_idle [OF call_state_idle(1) idle_inv]
        after_idle [OF all_states_idle idle_inv] then_idle [OF call_state_idle(2) idle_inv]
        after_idle [OF idl.reading_r idle_inv] stp.bindE_g [OF folding_taken]
        stp.thenE_g [OF stp.each_g [OF settle] report])
qed

section \<open>Properties\<close>

text \<open>
  C8: Nothing a replica has stored is ever lost. Take any sequence of scans, applied updates, fetches,
  session commits and reopenings, in which any effect may fail at any point (a crash is a failure of
  every effect from some point on, then a reopening), and in which anything else changes the files
  in between. Then the database still has a state for every path it had one for, and that state has
  seen everything the path had seen; every stored and pending state has a version and only versions
  of its own path; every staged file that carries a hash for a name has that hash.
\<close>

theorem nothing_stored_is_lost:
  assumes "replica_inv E s" "db_created s" "\<forall>(E', e) \<in> set es. sha E' = sha E"
  shows "replica_inv E (run_events es s) \<and> db_created (run_events es s) \<and> db_grows s (run_events es s)"
  using run_events_durable [OF assms(3), of s] assms(1,2) by (simp add: durable_def)

lemma ex_blocked_inv: "replica_inv ex_env ex_blocked"
  by (simp add: replica_inv_def staging_ok_def states_ok_def ahead_def ex_state_defs st_ok_def)

theorem nothing_stored_is_lost_witness:
  "\<exists>st. bt_get (db_paths (run_events [(ex_env, Scan), (ex_env\<lparr>io_fails := \<lambda>k. 9 < k\<rparr>, Apply [ex_update] (\<lambda>_. None)),
      (ex_env, Outside bt_empty), (ex_env, Reopen None), (ex_env, Scan)] ex_blocked)) ''f'' = Some st \<and>
    covers_dot (p_seen st) (Dot 5 1)"
proof -
  let ?es = "[(ex_env, Scan), (ex_env\<lparr>io_fails := \<lambda>k. 9 < k\<rparr>, Apply [ex_update] (\<lambda>_. None)),
      (ex_env, Outside bt_empty), (ex_env, Reopen None), (ex_env, Scan)]"
  have "db_grows ex_blocked (run_events ?es ex_blocked)"
    using nothing_stored_is_lost [OF ex_blocked_inv, of ?es] by (simp add: ex_state_defs del: run_events.simps)
  moreover obtain st where "bt_get (db_paths ex_blocked) ''f'' = Some st" "covers_dot (p_seen st) (Dot 5 1)"
    by (simp add: ex_state_defs covers_dot_add)
  ultimately show ?thesis unfolding db_grows_def by (blast intro: covers_dot_mono)
qed

lemma apply_stores:
  assumes "replica_inv E s" "replica_apply E us src s = (Inr rep, t)"
  shows "pending t = bt_empty \<and>
    (\<forall>u \<in> set us. sound_update u \<longrightarrow> taken (db_paths t) u) \<and>
    (\<forall>q st. bt_get (current s) q = Some st \<longrightarrow>
      (\<exists>st'. bt_get (db_paths t) q = Some st' \<and> covers (p_seen st') (p_seen st)))"
proof -
  obtain s1 where p: "pause_reason E s = (Inr None, s1)" and f: "finish E (apply_updates E us src) s1 = (Inr rep, t)"
    using assms(2) by (auto simp: replica_apply_def bindE_Inr split: option.splits)
  from finish_stored [OF f] obtain s2 where
    s2: "apply_updates E us src s1 = (Inr rep, s2)" "db_paths t = current s2" "current t = current s2" "pending t = bt_empty"
    by blast
  have "replica_inv E s1" using keepsE [OF pause_reason_idle p] assms(1) by (rule idle_inv)
  from guardedD [OF apply_updates_taken this s2(1)]
  have "\<forall>u \<in> set us. sound_update u \<longrightarrow> taken (current s2) u" by blast
  moreover have "step_on UNIV E s t" using guardedD [OF replica_apply_g assms(1,2)] by blast
  ultimately show ?thesis using s2 step_onD(3) by metis
qed

text \<open>
  C9: What was applied is stored. When \<open>apply\<close> returns a report, then for every well-formed update
  (whose vector covers its own versions, as every replica's does) the database holds a state of the
  path that covers every version the update brought, nothing is left pending, and no path has lost
  anything it had seen, stored or pending.
\<close>

theorem applied_updates_stored:
  assumes "replica_inv E s" "\<forall>u \<in> set us. well_formed u \<longrightarrow> sound_update u"
    "replica_apply E us src s = (Inr rep, t)"
  shows "pending t = bt_empty \<and>
    (\<forall>u \<in> set us. well_formed u \<longrightarrow> taken (db_paths t) u) \<and>
    (\<forall>q st. bt_get (current s) q = Some st \<longrightarrow>
      (\<exists>st'. bt_get (db_paths t) q = Some st' \<and> covers (p_seen st') (p_seen st)))"
  using apply_stores [OF assms(1,3)] assms(2) by blast

theorem applied_updates_stored_witness:
  "\<exists>rep t. replica_apply ex_env [ex_update] (\<lambda>h. Some (Foreign h)) ex_blocked = (Inr rep, t) \<and>
     taken (db_paths t) ex_update"
proof -
  obtain rep t where run: "replica_apply ex_env [ex_update] (\<lambda>h. Some (Foreign h)) ex_blocked = (Inr rep, t)"
    using ex_apply_run by (metis prod.collapse)
  have u: "well_formed ex_update" "sound_update ex_update"
    by (simp_all add: sound_update_def well_formed_def ex_update_def covers_dot_add is_valid_rel_def valid_segment_def has_drive_def)
  with applied_updates_stored [OF ex_blocked_inv _ run] run show ?thesis by auto
qed

section \<open>Joined versions and files\<close>

text \<open>
  What a call still has to do after it joined versions into the state \<open>st\<close> of a path: after \<open>integrate\<close> joined a
  local write, its conflict copies, its settling and the paths that come after it in the scan or fetch; after
  \<open>apply\<close> joined an update, the updates that come after it and the settling of all that were joined.
\<close>

definition rest_of_scan :: "env \<Rightarrow> nat \<Rightarrow> sync_filter \<Rightarrow> content_source \<Rightarrow> string \<Rightarrow> path_state \<Rightarrow> string list \<Rightarrow> report rep" where
  "rest_of_scan E n f src rel st rels =
     thenE (tolerate_io (thenE (ensure_conflict_copies E (reconcile_path n E f src) f src rel st) (settle E f src rel st)) rel)
    (thenE (each (\<lambda>rel. tolerate_io (reconcile E f src rel) rel) rels)
    (reading report))"

definition rest_of_apply :: "env \<Rightarrow> sync_filter \<Rightarrow> content_source \<Rightarrow> u64 \<Rightarrow> string btset \<Rightarrow> path_update list \<Rightarrow> report rep" where
  "rest_of_apply E f src now joined us =
     bindE (folding (apply_one E f src now) joined us) (\<lambda>joined.
     thenE (each (settle_joined E f src) (bt_keys joined))
    (reading report))"

lemma rest_of_scan_g: "guarded (at_state E rel (Some st)) (step_on UNIV E) (rest_of_scan E n f src rel st rels) (\<lambda>_ _. True)"
proof -
  have "guarded (at_state E rel (Some st)) (step_on UNIV E)
      (tolerate_io (thenE (ensure_conflict_copies E (reconcile_path n E f src) f src rel st) (settle E f src rel st)) rel)
      (\<lambda>_. replica_inv E)"
    by (rule guarded_post [OF guarded_frame [OF any_path [OF tolerate_io_g [OF copies_then_settle_g [OF reconcile_path_g]]]]])
      (auto simp: at_state_def dest: step_inv)
  then show ?thesis
    unfolding rest_of_scan_def
    by (rule stp.thenE_g) (intro stp.thenE_g [OF stp.each_g] reconcile_any idle_true [OF idl.reading_r])
qed

lemma rest_of_apply_g: "guarded (replica_inv E) (step_on UNIV E) (rest_of_apply E f src now joined us) (\<lambda>_ _. True)"
  unfolding rest_of_apply_def
  by (intro stp.bindE_g [OF stp.folding_g [where P = "\<lambda>_. replica_inv E"]] apply_one_g
      stp.thenE_g [OF stp.each_g] settle_joined_g idle_true [OF idl.reading_r])

lemma join_update_waits: "join_update E u d s = (Inr (Some st), t) \<Longrightarrow> pending_versions t"
  by (auto simp: join_update_def bindE_Inr thenE_Inr Let_def split: option.splits prod.splits)

text \<open>
  C14: Joined versions are stored before files change. When a join returned the new state of a path, then whatever the
  call does after it, and wherever that fails or stops: once any file of the workspace has changed, the database holds
  every state that was current after the join, that of the joined path included, or one that has seen all of it, and
  this before the flush at the end of the call. So a crash leaves no file whose joined version is not stored. A
  join that fails returns no state and is not covered: when its own commit fails after taking the state up, the
  versions wait unnoticed.
\<close>

theorem versions_stored_before_files:
  assumes "replica_inv E s" "\<forall>v \<in> set (u_versions u). e_path v = u_path u"
    and "join_update E u d s = (Inr (Some st), s1)"
    and "rest_of_scan E n f src (u_path u) st rels s1 = (r, t) \<or> rest_of_apply E f src now joined us s1 = (r, t)"
    and "tree t \<noteq> tree s1"
  shows "(\<forall>q old. bt_get (current s1) q = Some old \<longrightarrow>
      (\<exists>st'. bt_get (db_paths t) q = Some st' \<and> covers (p_seen st') (p_seen old))) \<and>
    bt_get (current s1) (u_path u) = Some st \<and> (sound_update u \<longrightarrow> taken (db_paths t) u)"
proof -
  have at: "at_state E (u_path u) (Some st) s1" and seen: "covers (p_seen st) (u_seen u)"
    using guardedD [OF join_update_g [OF assms(2)] assms(1,3)] by auto
  then have inv: "replica_inv E s1" and cur: "bt_get (current s1) (u_path u) = Some st" by (simp_all add: at_state_def)
  from assms(4) have "step_on UNIV E s1 t"
    using guardedD [OF rest_of_scan_g at] guardedD [OF rest_of_apply_g inv] by blast
  from step_on_stored_first [OF this inv] join_update_waits [OF assms(3)] assms(5)
  have kept: "kept_in (current s1) (db_paths t)" by (auto simp: stored_first_def)
  with cur obtain st' where st': "bt_get (db_paths t) (u_path u) = Some st'" "covers (p_seen st') (p_seen st)"
    unfolding kept_in_def by blast
  have "taken (db_paths t) u" if "sound_update u"
    using that st' seen unfolding taken_def sound_update_def by (meson covers_trans covers_dot_mono)
  with kept cur show ?thesis unfolding kept_in_def by blast
qed

definition ex_other :: path_update where
  "ex_other = \<lparr>u_path = ''g'', u_versions = [\<lparr>e_path = ''g'', e_content = File [9] 1, e_hlc = Hlc 5000 0,
     e_dot = Dot 9 1, e_context = vv_new, e_author = 4\<rparr>], u_seen = add_dot (Dot 9 1) vv_new\<rparr>"

theorem versions_stored_before_files_witness:
  "\<exists>st s1 r t. join_update ex_env ex_other None ex_replica = (Inr (Some st), s1) \<and>
     rest_of_scan ex_env 1 \<lparr>app_dir = ''.app'', ignored = None, on_windows = False\<rparr> (\<lambda>h. Some (Foreign h)) ''g'' st [] s1 = (r, t) \<and>
     tree t \<noteq> tree s1 \<and> taken (db_paths t) ex_other"
proof -
  let ?st = "\<lparr>p_versions = u_versions ex_other, p_seen = u_seen ex_other, p_disk = disk_default\<rparr>"
  let ?f = "\<lparr>app_dir = ''.app'', ignored = None, on_windows = False\<rparr>" and ?src = "\<lambda>h. Some (Foreign h)"
  have u: "u_path ex_other = ''g''" "\<forall>v \<in> set (u_versions ex_other). e_path v = u_path ex_other" "sound_update ex_other"
    by (simp_all add: ex_other_def sound_update_def well_formed_def covers_dot_add is_valid_rel_def valid_segment_def has_drive_def)
  have "fst (join_update ex_env ex_other None ex_replica) = Inr (Some ?st)"
    by (simp add: replica_eval ex_state_defs ex_other_def)
  then obtain s1 where j: "join_update ex_env ex_other None ex_replica = (Inr (Some ?st), s1)" by (metis prod.collapse)
  have inv: "replica_inv ex_env ex_replica"
    by (simp add: replica_inv_def staging_ok_def states_ok_def ahead_def ex_state_defs)
  let ?run = "rest_of_scan ex_env 1 ?f ?src ''g'' ?st []"
  have "bt_get (tree (snd (?run (snd (join_update ex_env ex_other None ex_replica))))) [''ws'', ''g''] \<noteq> None"
    by (simp add: replica_eval ex_state_defs ex_other_def rest_of_scan_def)
  moreover have "bt_get (tree (snd (join_update ex_env ex_other None ex_replica))) [''ws'', ''g''] = None"
    by (simp add: replica_eval ex_state_defs ex_other_def)
  moreover obtain r t where t: "?run s1 = (r, t)" by force
  ultimately have "tree t \<noteq> tree s1" using j by auto
  with versions_stored_before_files [OF inv u(2) j _ this, unfolded u(1)] t j u(3) show ?thesis by blast
qed

section \<open>Pausing\<close>

lemma all_states_run:
  "\<forall>k. \<not> io_fails E k \<Longrightarrow> \<exists>n. all_states E s = (Inr (entries (current s)), s\<lparr>step_no := n\<rparr>)"
proof -
  assume nf: "\<forall>k. \<not> io_fails E k"
  then have "store_all E s = (Inr (entries (db_paths s)), s\<lparr>step_no := step_no s + 1\<rparr>)"
    by (simp add: store_all_def runs db_op_def)
  moreover have "entries (current s) = entries (db_paths s)" if "pending s = bt_empty"
    using that by (simp add: current_def)
  ultimately show ?thesis
    by (auto simp: all_states_def runs overlay_entries current_def)
qed

lemma is_dir_run:
  "\<forall>k. \<not> io_fails E k \<Longrightarrow> \<exists>n. is_dir E p s = (Inr (stat (tree s) p = Inr Directory), s\<lparr>step_no := n\<rparr>)"
proof -
  assume nf: "\<forall>k. \<not> io_fails E k"
  then have io: "io_op E s = (Inr (), s\<lparr>step_no := step_no s + 1\<rparr>)" by (simp add: io_op_def)
  show ?thesis
  proof (cases "stat (tree s) p")
    case (Inl k)
    then have "symlink_metadata E p s = (Inl (Io k), s\<lparr>step_no := step_no s + 1\<rparr>)"
      by (simp add: symlink_metadata_def runs io io_result_def)
    with Inl show ?thesis by (auto simp: is_dir_def metadata_def runs)
  next
    case (Inr n)
    then have m: "symlink_metadata E p s = (Inr n, s\<lparr>step_no := step_no s + 1\<rparr>)"
      by (simp add: symlink_metadata_def runs io io_result_def)
    have "metadata E p s = (case follow n of Inl k \<Rightarrow> Inl (Io k) | Inr n \<Rightarrow> Inr n, s\<lparr>step_no := step_no s + 1\<rparr>)"
      by (simp add: metadata_def runs m io_result_def split: sum.splits)
    with Inr show ?thesis
      by (cases n) (auto simp: is_dir_def runs follow_def split: option.splits sum.splits)
  qed
qed

text \<open>Why the replica pauses, as its documentation says.\<close>

definition pause_spec :: "env \<Rightarrow> replica \<Rightarrow> pause_reason option" where
  "pause_spec E s =
     (let there = (\<lambda>p. stat (tree s) p = Inr Directory) in
      if \<not> (\<exists>q st. bt_get (current s) q = Some st \<and> d_hash (p_disk st) \<noteq> None) then None
      else if \<not> there (ws_root E) then Some RootMissing
      else if \<not> there (push (windows E) (ws_root E) (''.'' @ app_name E)) then Some MarkerMissing
      else None)"

lemma pause_reason_run:
  assumes nf: "\<forall>k. \<not> io_fails E k"
  shows "\<exists>n. pause_reason E s = (Inr (pause_spec E s), s\<lparr>step_no := n\<rparr>)"
proof -
  define m where "m = push (windows E) (ws_root E) (''.'' @ app_name E)"
  let ?m = m
  obtain n1 where 1: "is_dir E (ws_root E) s = (Inr (stat (tree s) (ws_root E) = Inr Directory), s\<lparr>step_no := n1\<rparr>)"
    using is_dir_run [OF nf] by blast
  obtain n2 where 2: "is_dir E ?m (s\<lparr>step_no := n1\<rparr>) = (Inr (stat (tree s) ?m = Inr Directory), s\<lparr>step_no := n2\<rparr>)"
    using is_dir_run [OF nf, of ?m "s\<lparr>step_no := n1\<rparr>"] by auto
  have cur: "current (s\<lparr>step_no := n\<rparr>) = current s" for n by (simp add: current_def)
  obtain n3 where 3: "all_states E (s\<lparr>step_no := n2\<rparr>) = (Inr (entries (current s)), s\<lparr>step_no := n3\<rparr>)"
    using all_states_run [OF nf, of "s\<lparr>step_no := n2\<rparr>"] cur by auto
  have held: "list_ex (\<lambda>(_, st). d_hash (p_disk st) \<noteq> None) (entries (current s)) \<longleftrightarrow>
      (\<exists>q st. bt_get (current s) q = Some st \<and> d_hash (p_disk st) \<noteq> None)"
    by (force simp: list_ex_iff bt_entries_iff)
  show ?thesis
    unfolding pause_reason_def pause_spec_def Let_def m_def [symmetric] held [symmetric]
    by (simp add: runs 1 2 3) blast
qed

text \<open>
  C15: A workspace that is gone pauses the replica instead of reading as deleted. With no call failing,
  the replica is paused exactly when it has recorded a file on disk and its root, or the marker
  directory in it, is not a directory; then a scan, an apply and a fetch return the reason and change
  nothing at all: not the files, not the staging directory, not the database or what is in memory.
\<close>

theorem paused_replica_inert:
  assumes "\<forall>k. \<not> io_fails E k"
  shows "fst (pause_reason E s) = Inr (pause_spec E s) \<and>
    (\<forall>reason. pause_spec E s = Some reason \<longrightarrow> (\<exists>n.
       scan E s = (Inr (PausedScan reason), s\<lparr>step_no := n\<rparr>) \<and>
       replica_apply E us src s = (Inl (Paused reason), s\<lparr>step_no := n\<rparr>) \<and>
       fetch_missing E src s = (Inl (Paused reason), s\<lparr>step_no := n\<rparr>)))"
proof -
  obtain n where "pause_reason E s = (Inr (pause_spec E s), s\<lparr>step_no := n\<rparr>)"
    using pause_reason_run [OF assms] by blast
  then show ?thesis by (auto simp: scan_def replica_apply_def fetch_missing_def runs)
qed

theorem paused_replica_inert_witness:
  "\<exists>n. replica_apply ex_env [ex_update] (\<lambda>_. None) (ex_blocked\<lparr>tree := bt_empty\<rparr>) =
     (Inl (Paused RootMissing), ex_blocked\<lparr>tree := bt_empty, step_no := n\<rparr>)"
proof -
  have "pause_spec ex_env (ex_blocked\<lparr>tree := bt_empty\<rparr>) = Some RootMissing"
    by (auto simp: pause_spec_def current_get ex_state_defs ex_env_simps stat_Inr)
  moreover have nf: "\<forall>k. \<not> io_fails ex_env k" by (simp add: ex_env_simps)
  ultimately show ?thesis
    using paused_replica_inert [OF nf, of "ex_blocked\<lparr>tree := bt_empty\<rparr>" "[ex_update]" "\<lambda>_. None"] by auto
qed

end
