(* ===== verification/ReplicaWrites.thy ===== *)
theory ReplicaWrites
  imports ReplicaSteps ReplicaExamples
begin

text \<open>
  What a replica does to the files of the workspace: settling a path writes nowhere but at the path,
  never over what it has not recorded, and leaves the winner's content.
\<close>

section \<open>Where writes go\<close>

text \<open>Only the destination, its temporary file, and missing directories.\<close>

definition writes_at :: "native_path \<Rightarrow> 'a disk_scheme \<Rightarrow> 'a disk_scheme \<Rightarrow> bool" where
  "writes_at dest s t \<longleftrightarrow> (\<forall>p. p \<noteq> dest \<and> p \<noteq> tmp_of dest \<longrightarrow> bt_get (tree t) p = bt_get (tree s) p \<or>
     bt_get (tree s) p = None \<and> bt_get (tree t) p = Some Directory)"

definition same_tree :: "'a disk_scheme \<Rightarrow> 'a disk_scheme \<Rightarrow> bool" where
  "same_tree s t \<longleftrightarrow> tree t = tree s"

text \<open>Nothing but the count of effects.\<close>

definition quiet :: "'a disk_scheme \<Rightarrow> 'a disk_scheme \<Rightarrow> bool" where
  "quiet s t \<longleftrightarrow> tree t = tree s \<and> staging t = staging s \<and> disk.more t = disk.more s"

interpretation qui: step_relation quiet
  by unfold_locales (auto simp: quiet_def)

lemma quiet_same: "keeps quiet m \<Longrightarrow> keeps same_tree m"
  by (simp add: keeps_def quiet_def same_tree_def)

interpretation wrt: step_relation "writes_at dest" for dest
  by (unfold_locales; simp add: writes_at_def) metis

interpretation sam: step_relation same_tree
  by unfold_locales (auto simp: same_tree_def)

lemma same_writes: "keeps same_tree m \<Longrightarrow> keeps (writes_at dest) m"
  by (simp add: keeps_def same_tree_def writes_at_def)

lemma same_updates: "(\<And>s. tree (f s) = tree s) \<Longrightarrow> keeps same_tree (update f)"
  by (simp add: keeps_def same_tree_def)

lemma io_op_quiet: "keeps quiet (io_op E)"
  by (simp add: keeps_def quiet_def io_op_def)

lemma staging_step_same: "staging_step E s t \<Longrightarrow> same_tree s t"
  by (simp add: staging_step_def same_tree_def)

lemma io_result_quiet: "keeps quiet (io_result r)"
  by (cases r) (auto simp: io_result_def [abs_def] intro: qui.steps)

lemmas quiet_ops = qui.steps io_op_quiet io_result_quiet

lemma symlink_metadata_quiet: "keeps quiet (symlink_metadata E p)"
  unfolding symlink_metadata_def [abs_def] by (intro quiet_ops)

lemma metadata_quiet: "keeps quiet (metadata E p)"
  unfolding metadata_def [abs_def] by (intro quiet_ops symlink_metadata_quiet)

lemma hash_of_file_quiet: "keeps quiet (hash_of_file E p)"
proof -
  have "keeps quiet (read_file E p)"
    unfolding read_file_def [abs_def]
    by (intro quiet_ops metadata_quiet) (auto split: node.splits intro: quiet_ops)
  then show ?thesis unfolding hash_of_file_def [abs_def] by (intro quiet_ops)
qed

lemma occupied_quiet: "keeps quiet (occupied E rel d)"
  unfolding occupied_def [abs_def]
  by (intro quiet_ops symlink_metadata_quiet)
    (auto split: sum.splits node.splits intro!: quiet_ops keeps_control hash_of_file_quiet)

lemmas io_op_same = quiet_same [OF io_op_quiet]
  and io_result_same = quiet_same [OF io_result_quiet]
  and symlink_metadata_same = quiet_same [OF symlink_metadata_quiet]
  and metadata_same = quiet_same [OF metadata_quiet]
  and hash_of_file_same = quiet_same [OF hash_of_file_quiet]
  and occupied_same = quiet_same [OF occupied_quiet]

lemmas same_ops = sam.steps io_op_same io_result_same


lemma db_op_quiet: "keeps quiet (db_op E)"
  by (simp add: keeps_def quiet_def db_op_def)

lemma get_state_quiet: "keeps quiet (get_state E rel)"
  unfolding get_state_def [abs_def] store_get_def [abs_def] by (intro quiet_ops keeps_control db_op_quiet)

lemmas db_op_same = quiet_same [OF db_op_quiet]
  and get_state_same = quiet_same [OF get_state_quiet]

lemma flush_same: "keeps same_tree (flush E)"
  unfolding flush_def [abs_def] store_commit_def [abs_def]
  by (intro same_ops keeps_prod keeps_control db_op_same same_updates) simp_all

lemma flush_versions_same: "keeps same_tree (flush_versions E)"
  unfolding flush_versions_def [abs_def] by (intro same_ops keeps_control flush_same)

lemma commit_state_same: "keeps same_tree (commit_state E rel st)"
  unfolding commit_state_def [abs_def]
  by (intro same_ops keeps_control flush_same same_updates) simp_all

lemma skip_same: "keeps same_tree (skip rel reason)"
  by (simp add: keeps_def same_tree_def skip_def)

lemma winner_of_same: "keeps same_tree (winner_of st)"
  unfolding winner_of_def [abs_def] by (intro same_ops keeps_control)

lemma now_ns_same: "keeps same_tree (now_ns E)"
  by (simp add: keeps_def same_tree_def now_ns_def)

lemma staged_quiet: "keeps quiet (staged E h)"
  unfolding staged_def [abs_def] by (intro quiet_ops keeps_control)

lemmas staged_same = quiet_same [OF staged_quiet]


lemma stage_with_same: "keeps same_tree (stage_with E limit from h)"
  by (rule keepsI) (metis prod.collapse stage_with_result staging_step_same)

lemma content_path_with_quiet: "keeps quiet (content_path_with E ix h)"
proof -
  have "keeps quiet (holds_content E h rel)" for rel
    unfolding holds_content_def [abs_def] Let_def
    by (intro quiet_ops keeps_control get_state_quiet metadata_quiet hash_of_file_quiet)
  then show ?thesis
    unfolding content_path_with_def [abs_def] by (intro quiet_ops keeps_control staged_quiet)
qed

lemmas content_path_with_same = quiet_same [OF content_path_with_quiet]


lemma stage_same: "keeps same_tree (stage E src h)"
  unfolding stage_def [abs_def] stage_from_def [abs_def]
  by (intro same_ops keeps_control staged_same content_path_with_same stage_with_same)

lemma disk_seen_same: "keeps same_tree (disk_seen E f st)"
  unfolding disk_seen_def [abs_def] Let_def by (intro same_ops keeps_control get_state_same winner_of_same)



lemmas same_all = symlink_metadata_same metadata_same hash_of_file_same db_op_same get_state_same flush_versions_same
  commit_state_same skip_same winner_of_same now_ns_same staged_same stage_same disk_seen_same occupied_same

section \<open>Placing a file\<close>

lemma set_node_writes: "keeps (writes_at dest) (set_node dest n)" "keeps (writes_at dest) (set_node (tmp_of dest) n)"
  by (auto simp: keeps_def set_node_def writes_at_def)

lemma mkdir_writes: "keeps (writes_at dest) (mkdir E p)"
proof (rule keepsI)
  fix s :: "'a disk_scheme"
  obtain r t where io: "io_op E s = (r, t)" by (cases "io_op E s")
  then have "tree t = tree s" by (auto simp: io_op_def)
  then show "writes_at dest s (snd (mkdir E p s))"
    using io by (cases r) (auto simp: mkdir_def runs set_node_def writes_at_def split: option.splits node.splits)
qed

lemma create_dir_all_writes: "keeps (writes_at dest) (create_dir_all E p)"
  unfolding create_dir_all_def [abs_def] by (intro wrt.steps mkdir_writes)

lemmas wrt_ops = wrt.steps same_writes [OF io_op_same] same_writes [OF io_result_same]

lemma drop_name_writes: "keeps (writes_at dest) (update (\<lambda>s. s\<lparr>staging := g s\<rparr>))"
  by (rule same_writes [OF same_updates]) simp

lemma rename_staged_writes: "keeps (writes_at dest) (rename_staged E name dest)"
  unfolding rename_staged_def [abs_def]
  by (intro wrt_ops keeps_control set_node_writes drop_name_writes)

lemma copy_staged_writes: "keeps (writes_at dest) (copy_staged E name (tmp_of dest))"
  unfolding copy_staged_def [abs_def]
  by (intro wrt_ops)
    (auto split: option.splits sum.splits prod.splits list.splits intro!: wrt_ops set_node_writes)

lemma rename_file_writes: "keeps (writes_at dest) (rename_file E (tmp_of dest) dest)"
  unfolding rename_file_def [abs_def]
  by (intro wrt_ops) (auto split: sum.splits node.splits intro!: wrt_ops wrt.update_r simp: writes_at_def)

lemma remove_file_writes: "p = dest \<or> p = tmp_of dest \<Longrightarrow> keeps (writes_at dest) (remove_file E p)"
  unfolding remove_file_def [abs_def]
  by (intro wrt_ops keeps_control same_writes [OF symlink_metadata_same] wrt.update_r) (auto simp: writes_at_def)

lemma place_writes: "keeps (writes_at dest) (place E name dest)"
  unfolding place_def [abs_def] sync_parent_def [abs_def]
  by (intro wrt_ops keeps_control create_dir_all_writes rename_staged_writes copy_staged_writes rename_file_writes
      remove_file_writes drop_name_writes) (auto intro: copy_staged_writes rename_file_writes)

lemma write_winner_writes: "keeps (writes_at (native E rel)) (write_winner E src rel c)"
  unfolding write_winner_def [abs_def]
  by (cases c) (auto split: sum.splits option.splits
      intro!: wrt_ops keeps_control remove_file_writes place_writes same_writes [OF flush_versions_same]
        same_writes [OF stage_same] same_writes [OF metadata_same] same_writes [OF now_ns_same])

section \<open>What a lookup of a file tells\<close>

lemma io_op_tree: "io_op E s = (r, t) \<Longrightarrow> tree t = tree s \<and> staging t = staging s \<and> (r = Inr () \<or> r = Inl (Io OtherIo))"
  by (auto simp: io_op_def)

lemma symlink_metadata_result:
  "symlink_metadata E p s = (r, t) \<Longrightarrow> (case r of
     Inr n \<Rightarrow> stat (tree s) p = Inr n
   | Inl e \<Rightarrow> e = Io NotFound \<longrightarrow> stat (tree s) p = Inl NotFound)"
  by (auto simp: symlink_metadata_def thenE_def bindE_def io_result_def
      dest!: io_op_tree split: prod.splits sum.splits if_splits)

lemma io_result_Inr: "io_result r s = (Inr x, t) \<longleftrightarrow> r = Inr x \<and> t = s"
  by (cases r) (auto simp: io_result_def)

lemma hash_of_file_result:
  assumes "hash_of_file E p s = (Inr h, t)"
  shows "\<exists>n b m. stat (tree s) p = Inr n \<and> follow n = Inr (RegFile b m) \<and> h = sha E b"
proof -
  obtain k where "read_file E p s = (Inr k, t)" and h: "h = of_bytes (sha E) k"
    using assms by (auto simp: hash_of_file_def bindE_Inr of_file_of_bytes)
  then obtain n t1 where n: "metadata E p s = (Inr n, t1)"
      "(case n of RegFile b _ \<Rightarrow> ret b | _ \<Rightarrow> throw (Io IsADirectory)) t1 = (Inr k, t)"
    by (auto simp: read_file_def bindE_Inr)
  then obtain m where "metadata E p s = (Inr (RegFile k m), t)" by (cases n) auto
  then obtain n' where n': "symlink_metadata E p s = (Inr n', t)" "follow n' = Inr (RegFile k m)"
    by (auto simp: metadata_def bindE_Inr io_result_Inr)
  with symlink_metadata_result [OF n'(1)] h show ?thesis by (auto simp: of_bytes_def)
qed

text \<open>
  The path is free, or holds the regular file that was recorded: by its hash, or by a stamp that is
  trusted.
\<close>

definition recorded_or_free :: "env \<Rightarrow> (native_path, node) btmap \<Rightarrow> string \<Rightarrow> disk_state \<Rightarrow> bool" where
  "recorded_or_free E tr rel d \<longleftrightarrow> (case stat tr (native E rel) of
     Inl k \<Rightarrow> k = NotFound
   | Inr (RegFile b m) \<Rightarrow> trusted_stamp d (stamp_of (RegFile b m)) \<or> d_hash d = Some (sha E b)
   | Inr _ \<Rightarrow> False)"

lemma occupied_result:
  assumes "occupied E rel d s = (Inr False, t)"
  shows "recorded_or_free E (tree s) rel d"
proof -
  obtain q s1 where m: "symlink_metadata E (native E rel) s = (q, s1)"
    by (cases "symlink_metadata E (native E rel) s")
  note M = symlink_metadata_result [OF m]
  have s1: "tree s1 = tree s" using keepsE [OF symlink_metadata_same m] by (simp add: same_tree_def)
  show ?thesis
  proof (cases q)
    case (Inl e)
    with assms m M show ?thesis
      by (auto simp: occupied_def runs recorded_or_free_def split: if_splits)
  next
    case (Inr n)
    with assms m obtain b mt where n: "n = RegFile b mt"
      by (cases n) (auto simp: occupied_def runs)
    show ?thesis
    proof (cases "trusted_stamp d (stamp_of n)")
      case True
      with M Inr n show ?thesis by (simp add: recorded_or_free_def)
    next
      case False
      with assms m Inr n obtain h where h: "hash_of_file E (native E rel) s1 = (Inr h, t)" "d_hash d = Some h"
        by (auto simp: occupied_def runs bindE_Inr split: if_splits)
      with hash_of_file_result [OF h(1)] M Inr n s1 show ?thesis
        by (auto simp: recorded_or_free_def follow_def)
    qed
  qed
qed

section \<open>Settling\<close>

text \<open>A settle that writes has found its path free or recorded, and writes there.\<close>

lemma settle_run:
  assumes "settle E f src rel st s = (r, t)"
  shows "same_tree s t \<or> (\<exists>w q s1 s2. winner (p_versions st) = Some w \<and> same_tree s s1 \<and>
      recorded_or_free E (tree s) rel (p_disk st) \<and> write_winner E src rel (e_content w) s1 = (q, s2) \<and>
      same_tree s2 t \<and> current s1 = current s \<and> pending_versions s1 = pending_versions s)"
proof -
  obtain q0 s0 where w0: "winner_of st s = (q0, s0)" by (cases "winner_of st s")
  have same0: "s0 = s" using w0 by (auto simp: winner_of_def split: option.splits)
  show ?thesis
  proof (cases q0)
    case (Inl e)
    with assms w0 same0 show ?thesis by (auto simp: settle_def runs same_tree_def)
  next
    case (Inr w)
    then have win: "winner (p_versions st) = Some w" using w0 by (auto simp: winner_of_def split: option.splits)
    show ?thesis
    proof (cases "content_hash_of (e_content w) = d_hash (p_disk st)")
      case True
      have "keeps same_tree (bindE (disk_seen E f st) (\<lambda>seen.
         if seen \<noteq> d_seen (p_disk st)
         then commit_state E rel (st\<lparr>p_disk := (p_disk st)\<lparr>d_seen := seen\<rparr>\<rparr>)
         else ret ()))" by (intro same_ops keeps_control same_all)
      from keepsE [OF this, of s r t] assms w0 Inr True same0 show ?thesis by (simp add: settle_def runs)
    next
      case False
      show ?thesis
      proof (cases "skip_reason E f (store_index s) rel w")
        case (Some x)
        with assms w0 Inr False same0 show ?thesis by (auto simp: settle_def runs skip_def same_tree_def)
      next
        case None
        obtain q1 s1 where oc: "occupied E rel (p_disk st) s = (q1, s1)" by (cases "occupied E rel (p_disk st) s")
        have s1: "same_tree s s1" by (rule keepsE [OF occupied_same oc])
        show ?thesis
        proof (cases "q1 = Inr False")
          case free: True
          obtain q s2 where ww: "write_winner E src rel (e_content w) s1 = (q, s2)"
            by (cases "write_winner E src rel (e_content w) s1")
          have rest: "keeps same_tree (case q of Inl e \<Rightarrow> throw e | Inr written \<Rightarrow> (case written of
             None \<Rightarrow> skip rel ContentUnavailable
           | Some d \<Rightarrow> bindE (disk_seen E f (st\<lparr>p_disk := d\<rparr>)) (\<lambda>seen.
               commit_state E rel (st\<lparr>p_disk := d\<lparr>d_seen := seen\<rparr>\<rparr>))))"
            by (intro same_ops keeps_control same_all)
          have "same_tree s2 t"
            using keepsE [OF rest, of s2 r t] assms w0 Inr False None oc free ww same0
            by (cases q) (simp_all add: settle_def runs)
          moreover have "idle E s s1" by (rule keepsE [OF occupied_idle oc])
          moreover have "pending_versions s1 = pending_versions s"
            using keepsE [OF occupied_quiet oc] same_replica [of s1 s] by (cases s, cases s1) (simp add: quiet_def)
          ultimately show ?thesis
            using s1 ww occupied_result oc free win idle_current by blast
        next
          case taken: False
          with assms w0 Inr False None oc same0 have "t = s1 \<or> (\<exists>x. skip rel x s1 = (r, t))"
            by (cases q1) (auto simp: settle_def runs)
          with s1 show ?thesis by (auto simp: same_tree_def skip_def)
        qed
      qed
    qed
  qed
qed

section \<open>Content in place\<close>

lemma placeable_dirs: "placeable tr p = Inr () \<Longrightarrow> list_all (\<lambda>q. bt_get tr q = Some Directory) (ancestors p)"
  by (auto simp: placeable_def stat_Inr split: sum.splits io_kind.splits node.splits if_splits)

lemma stat_insert:
  assumes "list_all (\<lambda>q. bt_get tr q = Some Directory) (ancestors p)"
  shows "stat (bt_insert p n tr) p = Inr n"
  using assms ancestors_shorter [of _ p] by (fastforce simp: stat_Inr list_all_iff)

text \<open>Making directories leaves the staging directory and the replica alone.\<close>

definition same_rest :: "'a disk_scheme \<Rightarrow> 'a disk_scheme \<Rightarrow> bool" where
  "same_rest s t \<longleftrightarrow> staging t = staging s \<and> disk.more t = disk.more s"

interpretation rst: step_relation same_rest
  by unfold_locales (auto simp: same_rest_def)

lemma io_op_rest: "keeps same_rest (io_op E)"
  by (simp add: keeps_def same_rest_def io_op_def)

lemma create_dir_all_rest: "keeps same_rest (create_dir_all E p)"
proof -
  have set: "keeps same_rest (set_node q n)" for q n by (simp add: keeps_def same_rest_def set_node_def)
  have "keeps same_rest (mkdir E q)" for q
    unfolding mkdir_def [abs_def]
    by (intro rst.steps io_op_rest) (auto split: option.splits node.splits intro: rst.steps set)
  then show ?thesis unfolding create_dir_all_def [abs_def] by (intro rst.steps)
qed

lemma rename_staged_result:
  assumes "rename_staged E name dest s = (r, t)" "bt_get (staging s) name = Some (b, m)"
  shows "(r = Inr () \<longrightarrow> stat (tree t) dest = Inr (RegFile b m)) \<and>
    (\<forall>e. r = Inl e \<longrightarrow> tree t = tree s \<and> staging t = staging s)"
proof -
  obtain q s1 where io: "io_op E s = (q, s1)" by (cases "io_op E s")
  note I = io_op_tree [OF io]
  show ?thesis
  proof (cases q)
    case (Inl e)
    with assms io I show ?thesis by (auto simp: rename_staged_def runs)
  next
    case (Inr u)
    show ?thesis
    proof (cases "other_volume E \<or> placeable (tree s) dest \<noteq> Inr ()")
      case True
      with assms io I Inr show ?thesis
        by (cases "placeable (tree s) dest") (auto simp: rename_staged_def runs io_result_def split: if_splits)
    next
      case False
      with assms io I Inr have "r = Inr ()" "tree t = bt_insert dest (RegFile b m) (tree s)"
        by (auto simp: rename_staged_def runs io_result_def set_node_def)
      with False stat_insert [OF placeable_dirs] show ?thesis by simp
    qed
  qed
qed

lemma copy_staged_result:
  assumes "copy_staged E name p s = (Inr (), t)" "bt_get (staging s) name = Some (b, m)"
  shows "\<exists>m. stat (tree t) p = Inr (RegFile b m)"
proof -
  obtain q s1 where io: "io_op E s = (q, s1)" by (cases "io_op E s")
  note I = io_op_tree [OF io]
  obtain u where "placeable (tree s) p = Inr u" using assms by (cases "placeable (tree s) p") (auto simp: copy_staged_def runs)
  moreover obtain v where "q = Inr v"
    using assms io calculation
    by (cases q) (auto simp: copy_staged_def runs thenE_Inr split: list.splits)
  ultimately have "tree t = bt_insert p (RegFile b (clock_ns E (step_no s))) (tree s)"
    using assms io I by (auto simp: copy_staged_def runs set_node_def)
  with \<open>placeable (tree s) p = Inr u\<close> stat_insert [OF placeable_dirs] show ?thesis by auto
qed

lemma rename_file_result:
  assumes "rename_file E p dest s = (Inr (), t)" "p \<noteq> dest"
  shows "\<exists>b m. stat (tree s) p = Inr (RegFile b m) \<and> stat (tree t) dest = Inr (RegFile b m)"
proof -
  obtain s1 where io: "io_op E s = (Inr (), s1)" and ok: "placeable (tree s1) dest = Inr ()"
    and rest: "(case stat (tree s1) p of
       Inr (RegFile b t) \<Rightarrow>
         update (\<lambda>s. s\<lparr>tree := bt_insert dest (RegFile b t) (bt_remove p (tree s))\<rparr>)
     | Inr _ \<Rightarrow> throw (Io OtherIo)
     | Inl k \<Rightarrow> throw (Io k)) s1 = (Inr (), t)"
    using assms(1) by (auto simp: rename_file_def thenE_Inr bindE_Inr io_result_Inr)
  then obtain b m where b: "stat (tree s1) p = Inr (RegFile b m)"
    "tree t = bt_insert dest (RegFile b m) (bt_remove p (tree s1))"
    by (auto split: sum.splits node.splits)
  have "bt_get (tree s1) p = Some (RegFile b m)" using b(1) by (simp add: stat_Inr)
  then have "list_all (\<lambda>q. bt_get (bt_remove p (tree s1)) q = Some Directory) (ancestors dest)"
    using placeable_dirs [OF ok] by (auto simp: list_all_iff)
  with b io_op_tree [OF io] show ?thesis by (auto simp: stat_insert)
qed

lemma tmp_of_differs: "tmp_of p \<noteq> p"
  by (cases "p = []") (auto simp: tmp_of_ne, simp add: tmp_of_def)

lemma place_result:
  assumes "place E name dest s = (Inr (), t)" "bt_get (staging s) name = Some (b, m)"
  shows "\<exists>m. stat (tree t) dest = Inr (RegFile b m)"
proof -
  let ?dirs = "if dest = [] then ret () else create_dir_all E (butlast dest)"
  obtain s1 where dirs: "?dirs s = (Inr (), s1)" using assms(1) by (auto simp: place_def thenE_Inr)
  have k: "keeps same_rest ?dirs" by (intro keeps_if rst.ret_r create_dir_all_rest)
  have st1: "bt_get (staging s1) name = Some (b, m)"
    using keepsD [OF k, of s] dirs assms(2) by (simp add: same_rest_def)
  obtain q s2 where ren: "rename_staged E name dest s1 = (q, s2)" by (cases "rename_staged E name dest s1")
  note R = rename_staged_result [OF ren st1]
  have sync: "tree v = tree u" if "sync_parent E dest u = (x, v)" for u v x
    using that io_op_tree by (auto simp: sync_parent_def split: if_splits)
  show ?thesis
  proof (cases q)
    case (Inr u)
    then have "sync_parent E dest s2 = (Inr (), t)" using assms(1) dirs ren by (simp add: place_def runs)
    from sync [OF this] R Inr show ?thesis by auto
  next
    case (Inl e)
    then have e: "e = Io CrossesDevices" using assms(1) dirs ren by (auto simp: place_def runs split: if_splits)
    let ?copy = "thenE (copy_staged E name (tmp_of dest)) (thenE (io_op E) (rename_file E (tmp_of dest) dest))"
    obtain q3 s3 where c: "?copy s2 = (q3, s3)" by (cases "?copy s2")
    have q3: "q3 = Inr ()" using assms(1) dirs ren Inl e c
      by (cases q3) (auto simp: place_def runs Let_def thenE_Inr)
    then obtain s4 s5 where c2: "copy_staged E name (tmp_of dest) s2 = (Inr (), s4)" "io_op E s4 = (Inr (), s5)"
      "rename_file E (tmp_of dest) dest s5 = (Inr (), s3)" using c by (auto simp: thenE_Inr)
    have "bt_get (staging s2) name = Some (b, m)" using R Inl st1 by simp
    from copy_staged_result [OF c2(1) this] obtain m' where "stat (tree s5) (tmp_of dest) = Inr (RegFile b m')"
      using io_op_tree [OF c2(2)] by auto
    with rename_file_result [OF c2(3) tmp_of_differs] have "stat (tree s3) dest = Inr (RegFile b m')" by auto
    moreover obtain s6 where s6: "sync_parent E dest s3 = (Inr (), s6)" and rest: "t = snd (thenE (io_op E) (update (\<lambda>s. s\<lparr>staging := bt_remove name (staging s)\<rparr>)) s6)"
      using assms(1) dirs ren Inl e c q3 by (fastforce simp: place_def runs Let_def thenE_Inr attempt_iff)
    moreover have "tree t = tree s6" unfolding rest
      by (auto simp: thenE_def bindE_def dest!: io_op_tree split: prod.splits sum.splits)
    ultimately show ?thesis using sync [OF s6] by auto
  qed
qed

lemma remove_file_result:
  assumes "remove_file E p s = (r, t)"
  shows "(r = Inr () \<longrightarrow> tree t = bt_remove p (tree s)) \<and> (r = Inl (Io NotFound) \<longrightarrow> tree t = tree s \<and> stat (tree s) p = Inl NotFound)"
proof -
  obtain q s1 where m: "symlink_metadata E p s = (q, s1)" by (cases "symlink_metadata E p s")
  have "tree s1 = tree s" using keepsE [OF symlink_metadata_same m] by (simp add: same_tree_def)
  with assms m symlink_metadata_result [OF m] show ?thesis
    by (cases q) (auto simp: remove_file_def runs split: if_splits)
qed

text \<open>What staging finds is in the staging directory.\<close>

lemma quiet_staging: "keeps quiet m \<Longrightarrow> keeps (staging_step E) m"
  by (auto simp: keeps_def quiet_def staging_step_def staging_ok_def)

lemma stage_g: "guarded P (staging_step E) (stage E src h) (\<lambda>r s. \<forall>name. r = Some name \<longrightarrow> name = to_hex h \<and> bt_has (staging s) name)"
    (is "guarded P ?R _ ?Q")
proof -
  have from_at: "guarded P ?R (stage_from E at h) ?Q" for P at
    unfolding stage_from_def [abs_def] by (rule guardedI) (use stage_with_result in blast)
  have "guarded P ?R (staged E h) ?Q" by (rule guardedI) (use staged_result in blast)
  moreover have cont: "guarded P ?R (bindE (content_path_with E ix h) (\<lambda>at. case at of
         Some (from, _) \<Rightarrow> stage_from E from h
       | None \<Rightarrow> (case src h of Some from \<Rightarrow> stage_from E from h | None \<Rightarrow> ret None))) ?Q" for P ix
    by (intro stg.bindE_g [OF guarded_keeps [OF quiet_staging [OF content_path_with_quiet]]]
        guarded_control from_at stg.ret_g) simp
  ultimately show ?thesis
    unfolding stage_def [abs_def]
    by (intro stg.bindE_g [where B = ?Q] guarded_option stg.ret_g stg.bindE_g [OF guarded_keeps [OF stg.reading_r]] cont) auto
qed

lemma stage_result:
  assumes "stage E src h s = (Inr (Some name), t)" "staging_ok E s"
  shows "\<exists>b m. bt_get (staging t) name = Some (b, m) \<and> sha E b = h"
proof -
  have "staging_ok E t" "name = to_hex h" "bt_has (staging t) name"
    using guardedD [OF stage_g [of "\<lambda>_. True"] _ assms(1)] assms(2) by (auto simp: staging_step_def)
  then show ?thesis by (auto simp: staging_ok_def bt_has_def)
qed

section \<open>Properties\<close>

text \<open>
  C12: Settling never writes over what was not recorded. Whatever fails, it touches only the file of
  its path, that file's temporary name beside it, and missing directories above; and it touches them
  only when the path was free, or held the regular file the path's state records, by its hash or by
  a stamp that can be trusted. Another file, a directory or a link at the path is left alone.
\<close>

theorem settle_never_overwrites:
  assumes "settle E f src rel st s = (r, t)"
  shows "writes_at (native E rel) s t \<and>
    (tree t \<noteq> tree s \<longrightarrow> recorded_or_free E (tree s) rel (p_disk st))"
proof -
  have ww: "writes_at (native E rel) s1 s2" if "write_winner E src rel c s1 = (q, s2)" for c s1 q s2
    by (rule keepsE [OF write_winner_writes that])
  from settle_run [OF assms] show ?thesis
  proof (elim disjE exE conjE)
    assume "same_tree s t"
    then show ?thesis by (simp add: same_tree_def writes_at_def)
  next
    fix w q s1 s2
    assume "same_tree s s1" "recorded_or_free E (tree s) rel (p_disk st)"
      "write_winner E src rel (e_content w) s1 = (q, s2)" "same_tree s2 t"
    with ww [of "e_content w" s1 q s2] show ?thesis by (simp add: same_tree_def writes_at_def)
  qed
qed

theorem settle_never_overwrites_witness:
  "\<exists>r t. settle ex_env \<lparr>app_dir = ''.app'', ignored = None, on_windows = False\<rparr> (\<lambda>h. Some (Foreign h)) ''f''
     \<lparr>p_versions = u_versions ex_update, p_seen = u_seen ex_update, p_disk = disk_default\<rparr> ex_replica = (r, t) \<and>
     bt_get (tree t) [''ws'', ''f''] = Some (RegFile [1, 2, 3, 4] 5)"
proof -
  let ?st = "\<lparr>p_versions = u_versions ex_update, p_seen = u_seen ex_update, p_disk = disk_default\<rparr>"
  obtain r t where run: "settle ex_env \<lparr>app_dir = ''.app'', ignored = None, on_windows = False\<rparr>
      (\<lambda>h. Some (Foreign h)) ''f'' ?st ex_replica = (r, t)" by (metis prod.collapse)
  have "\<not> recorded_or_free ex_env (tree ex_replica) ''f'' (p_disk ?st)"
    by (simp add: recorded_or_free_def replica_eval ex_state_defs)
  with settle_never_overwrites [OF run] have "tree t = tree ex_replica" by blast
  with run show ?thesis by (simp add: ex_state_defs ex_disk_def)
qed




text \<open>
  C13: What settling leaves is the winner. When the write of a winner succeeds over a verified staging
  directory, the path holds a regular file whose bytes have the winner's hash (whether the staged
  file was renamed into place or copied from another volume), or no file if the winner is a
  deletion, and the state that is recorded says so.
\<close>

theorem winner_is_written:
  assumes "write_winner E src rel c s = (Inr (Some d), t)" "staging_ok E s"
  shows "d_hash d = content_hash_of c \<and> (case c of
      File h _ \<Rightarrow> \<exists>b m. stat (tree t) (native E rel) = Inr (RegFile b m) \<and> sha E b = h
    | Tombstone \<Rightarrow> \<forall>n. stat (tree t) (native E rel) \<noteq> Inr n)"
proof (cases c)
  case Tombstone
  then obtain s1 r s2 where rm: "remove_file E (native E rel) s1 = (r, s2)"
      and rest: "(case r of Inl e \<Rightarrow> if e = Io NotFound then ret (Some disk_default) else throw e
          | Inr _ \<Rightarrow> ret (Some disk_default)) s2 = (Inr (Some d), t)"
    using assms(1) by (auto simp: write_winner_def thenE_Inr bindE_Inr attempt_iff)
  from rest have "t = s2" "d = disk_default" "r = Inr () \<or> r = Inl (Io NotFound)"
    by (cases r; simp split: if_splits)+
  moreover have "stat (bt_remove p tr) p \<noteq> Inr n" for p n and tr :: "(native_path, node) btmap" by (simp add: stat_Inr)
  ultimately show ?thesis using remove_file_result [OF rm] Tombstone
    by (auto simp: disk_default_def content_hash_of_def)
next
  case (File h len)
  then obtain name s1 s2 s3 n s4 now s5 where
    st: "stage E src h s = (Inr (Some name), s1)" and fl: "flush_versions E s1 = (Inr (), s2)"
    and pl: "place E name (native E rel) s2 = (Inr (), s3)" and me: "metadata E (native E rel) s3 = (Inr n, s4)"
    and no: "now_ns E s4 = (Inr now, t)" and d: "d_hash d = Some h"
    using assms(1) by (auto simp: write_winner_def thenE_Inr bindE_Inr split: option.splits)
  from stage_result [OF st assms(2)] obtain b m where b: "bt_get (staging s1) name = Some (b, m)" "sha E b = h" by blast
  have "staging s2 = staging s1" using keepsE [OF flush_versions_idle fl] fl
    by (auto simp: flush_versions_def bindE_Inr flush_def thenE_Inr store_commit_def db_op_def split: if_splits)
  with b have "\<exists>m. stat (tree s3) (native E rel) = Inr (RegFile b m)" by (auto intro: place_result [OF pl])
  moreover have "tree t = tree s3"
    using keepsE [OF metadata_same me] no by (auto simp: same_tree_def now_ns_def)
  ultimately have "\<exists>b m. stat (tree t) (native E rel) = Inr (RegFile b m) \<and> sha E b = h"
    using b(2) by (intro exI [of _ b]) simp
  with File d show ?thesis by (simp add: content_hash_of_def)
qed

theorem winner_is_written_witness:
  "\<exists>d t b m. write_winner ex_env (\<lambda>h. Some (Foreign h)) ''g'' (File [9] 1) ex_replica = (Inr (Some d), t) \<and>
     stat (tree t) [''ws'', ''g''] = Inr (RegFile b m) \<and> sha ex_env b = [9]"
proof -
  obtain r t where run: "write_winner ex_env (\<lambda>h. Some (Foreign h)) ''g'' (File [9] 1) ex_replica = (r, t)"
    by (metis prod.collapse)
  have "case fst (write_winner ex_env (\<lambda>h. Some (Foreign h)) ''g'' (File [9] 1) ex_replica) of Inr (Some _) \<Rightarrow> True | _ \<Rightarrow> False"
    by (simp add: replica_eval write_winner_def ex_state_defs)
  then obtain d where d: "r = Inr (Some d)" using run by (auto split: sum.splits option.splits)
  have "staging_ok ex_env ex_replica" "native ex_env ''g'' = [''ws'', ''g'']"
    by (simp_all add: staging_ok_def ex_replica_def native_def to_native_def push_def ex_env_simps)
  with winner_is_written [OF run [unfolded d]] run d show ?thesis by auto
qed

lemma next_covers_own:
  "\<lbrakk>next_entry E rel c ctx s = (Inr e, t); replica d = m_replica (live_meta s);
    counter d \<le> m_counter (live_meta s); m_counter (live_meta s) \<noteq> - 1\<rbrakk> \<Longrightarrow>
   covers_dot (add_dot (e_dot e) (e_context e)) d"
  using word_less_Suc [of "m_counter (live_meta s)"]
  by (auto simp: next_entry_def Let_def covers_dot_add intro: order_trans less_imp_le)

text \<open>
  A version of the replica's own that still waits for its conflict copy is lost by the next local
  write. \<open>disk_seen\<close> pins such a loser out of the context of that write, so that it is not superseded
  before its bytes are kept; but the write gets the replica's next counter, and a version vector that
  covers it covers every earlier counter of the replica too, whatever the context says. So the join
  drops the loser, here with a directory in the place of its copy: the file's first content is in no
  version and no file afterwards.
\<close>

theorem own_loser_is_superseded:
  "let s1 = snd (replica_apply ex_env [ex_update] (\<lambda>h. Some (Foreign h)) ex_blocked);
       s2 = snd (scan ex_env (s1\<lparr>tree := bt_insert [''ws'', ''f''] (RegFile [7, 7] 77) (tree s1)\<rparr>))
   in map_option (map e_content \<circ> p_versions) (bt_get (db_paths ex_blocked) ''f'') = Some [File [1, 2, 3, 4] 4] \<and>
      map_option (map e_content \<circ> p_versions) (bt_get (db_paths s1) ''f'') = Some [File [1, 2, 3, 4] 4, File [9] 1] \<and>
      map_option (map e_content \<circ> p_versions) (bt_get (db_paths s2) ''f'') = Some [File [7, 7] 2]"
proof -
  have "\<not> (2 :: u64) \<le> 1" by (simp add: word_le_nat_alt)
  then show ?thesis by (simp add: replica_eval ex_state_defs)
qed

end
