(* ===== verification/SessionFrame.thy ===== *)
theory SessionFrame
  imports Store
begin

text \<open>
  The wire format of a session (\<open>sapphire-framework-session/src/frame.rs\<close>, \<open>message.rs\<close>,
  \<open>error.rs\<close>, the limits of \<open>lib.rs\<close>). A frame is one tag byte, a four-byte big-endian length and the
  payload. The JSON text of a message is a parameter (\<open>enc\<close>, \<open>dec\<close>); bytes, lengths, limits and tags
  are the code's. A stream being read is what is left of it and how it ends; a stream being written is
  what went out, with every write and flush able to fail after any number of bytes.
\<close>

section \<open>Messages and errors\<close>

definition SESSION_FORMAT_VERSION :: u32 where
  "SESSION_FORMAT_VERSION = 2"

definition INLINE_LIMIT :: u64 where
  "INLINE_LIMIT = 64 * 1024"

definition MAX_FRAME_LEN :: nat where
  "MAX_FRAME_LEN = 16 * 1024 * 1024"

definition CHUNK :: nat where
  "CHUNK = 256 * 1024"

datatype message =
    Hello (hello_format: u32) (hello_workspace: grain_id) (hello_replica: replica_id) (hello_vv: version_vector) (hello_max: u64)
  | Updates "path_update list"
  | Done
  | Want content_hash
  | Missing content_hash
  | Aborted content_hash
  | Settled
  | Live "path_update list"
  | Refused string

datatype serror =
    SIo io_kind
  | Codec
  | Protocol string
  | FrameTooLarge nat nat
  | VersionMismatch u32 u32
  | Sync error
  | Closed
  | SRefused string

datatype frame =
    Control message
  | BlobStart content_hash u64
  | BlobChunk bytes
  | BlobEnd

text \<open>How messages become text, and errors too.\<close>

record wire =
  enc :: "message \<Rightarrow> bytes option"
  dec :: "bytes \<Rightarrow> message option"
  display :: "serror \<Rightarrow> string"

text \<open>What the code relies on: a message that was encoded decodes to itself.\<close>

definition codec_ok :: "wire \<Rightarrow> bool" where
  "codec_ok W \<longleftrightarrow> (\<forall>m b. enc W m = Some b \<longrightarrow> dec W b = Some m)"

section \<open>Big-endian numbers\<close>

fun be_bytes :: "nat \<Rightarrow> nat \<Rightarrow> bytes" where
  "be_bytes 0 x = []"
| "be_bytes (Suc n) x = be_bytes n (x div 256) @ [word_of_nat x]"

definition be_value :: "bytes \<Rightarrow> nat" where
  "be_value bs = foldl (\<lambda>a b. a * 256 + unat b) 0 bs"

lemma length_be_bytes [simp]: "length (be_bytes n x) = n"
  by (induction n arbitrary: x) auto

lemma be_bytes_numeral: "be_bytes (numeral k) x = be_bytes (pred_numeral k) (x div 256) @ [word_of_nat x]"
  by (subst numeral_eq_Suc, subst be_bytes.simps) (rule refl)

lemma be_value_snoc: "be_value (bs @ [b]) = be_value bs * 256 + unat b"
  by (simp add: be_value_def)

lemma be_roundtrip: "x < 256 ^ n \<Longrightarrow> be_value (be_bytes n x) = x"
proof (induction n arbitrary: x)
  case 0
  then show ?case by (simp add: be_value_def)
next
  case (Suc n)
  then have "x div 256 < 256 ^ n" by (simp add: less_mult_imp_div_less mult.commute)
  with Suc.IH show ?case by (simp add: be_value_snoc unat_of_nat)
qed

lemma be_value_bound: "be_value bs < 256 ^ length bs"
proof (induction bs rule: rev_induct)
  case Nil
  show ?case by (simp add: be_value_def)
next
  case (snoc b bs)
  have "unat b < 256" using unat_bound [of b] by simp
  with snoc show ?case by (simp add: be_value_snoc)
qed

section \<open>Writing\<close>

record sink =
  written :: bytes
  wr_step :: nat

text \<open>Which call to the transport fails, and after how many bytes: \<open>None\<close> is success.\<close>

type_synonym faults = "nat \<Rightarrow> nat option"

definition put_bytes :: "faults \<Rightarrow> bytes \<Rightarrow> ('z sink_scheme, serror, unit) op" where
  "put_bytes F bs s = (let s' = s\<lparr>wr_step := wr_step s + 1\<rparr> in
     case F (wr_step s) of
       None \<Rightarrow> (Inr (), s'\<lparr>written := written s @ bs\<rparr>)
     | Some k \<Rightarrow> (Inl (SIo OtherIo), s'\<lparr>written := written s @ take k bs\<rparr>))"

definition write_framed :: "faults \<Rightarrow> u8 \<Rightarrow> bytes \<Rightarrow> ('z sink_scheme, serror, unit) op" where
  "write_framed F tag payload s =
     (if length payload > MAX_FRAME_LEN then throw (FrameTooLarge (length payload) MAX_FRAME_LEN)
      else thenE (put_bytes F [tag])
          (thenE (put_bytes F (be_bytes 4 (length payload)))
          (thenE (put_bytes F payload) (put_bytes F [])))) s"

definition TAG_CONTROL :: u8 where "TAG_CONTROL = 0"
definition TAG_BLOB_START :: u8 where "TAG_BLOB_START = 1"
definition TAG_BLOB_CHUNK :: u8 where "TAG_BLOB_CHUNK = 2"
definition TAG_BLOB_END :: u8 where "TAG_BLOB_END = 3"

definition BLOB_START_LEN :: nat where
  "BLOB_START_LEN = HASH_LEN + 8"

lemmas tag_defs = TAG_CONTROL_def TAG_BLOB_START_def TAG_BLOB_CHUNK_def TAG_BLOB_END_def
lemmas limit_defs = MAX_FRAME_LEN_def CHUNK_def BLOB_START_LEN_def HASH_LEN_def

definition write_control :: "wire \<Rightarrow> faults \<Rightarrow> message \<Rightarrow> ('z sink_scheme, serror, unit) op" where
  "write_control W F msg s = (case enc W msg of
     None \<Rightarrow> throw Codec
   | Some payload \<Rightarrow> write_framed F TAG_CONTROL payload) s"

definition write_blob_start :: "faults \<Rightarrow> content_hash \<Rightarrow> u64 \<Rightarrow> ('z sink_scheme, serror, unit) op" where
  "write_blob_start F h len s = write_framed F TAG_BLOB_START (h @ be_bytes 8 (unat len)) s"

definition write_blob_chunk :: "faults \<Rightarrow> bytes \<Rightarrow> ('z sink_scheme, serror, unit) op" where
  "write_blob_chunk F bs s =
     (if length bs > CHUNK then throw (FrameTooLarge (length bs) CHUNK)
      else write_framed F TAG_BLOB_CHUNK bs) s"

definition write_blob_end :: "faults \<Rightarrow> ('z sink_scheme, serror, unit) op" where
  "write_blob_end F s = write_framed F TAG_BLOB_END [] s"

section \<open>Reading\<close>

text \<open>What is left of a stream, and how it ends: at a clean end, or with an error.\<close>

record source =
  rest :: bytes
  ending :: "io_kind option"

text \<open>\<open>read_exact\<close>, and \<open>read_u8\<close>, \<open>read_u32\<close> through it.\<close>

definition read_exact :: "nat \<Rightarrow> (source, serror, bytes) op" where
  "read_exact n s =
     (if n \<le> length (rest s) then (Inr (take n (rest s)), s\<lparr>rest := drop n (rest s)\<rparr>)
      else (Inl (SIo (case ending s of None \<Rightarrow> UnexpectedEof | Some k \<Rightarrow> k)), s\<lparr>rest := []\<rparr>))"

text \<open>The tag, with the end of the stream before it told apart.\<close>

definition read_tag :: "(source, serror, u8 option) op" where
  "read_tag s = bindE (attempt (read_exact 1)) (\<lambda>r. case r of
     Inr b \<Rightarrow> ret (Some (hd b))
   | Inl e \<Rightarrow> if e = SIo UnexpectedEof then ret None else throw e) s"

definition read_len :: "(source, serror, nat) op" where
  "read_len s = bindE (read_exact 4) (\<lambda>b. ret (be_value b)) s"

definition fits :: "nat \<Rightarrow> nat \<Rightarrow> serror + unit" where
  "fits len most = (if len > most then Inl (FrameTooLarge len most) else Inr ())"

definition exactly :: "nat \<Rightarrow> nat \<Rightarrow> string \<Rightarrow> serror + unit" where
  "exactly len want name = (if len \<noteq> want
     then Inl (Protocol (''a '' @ name @ '' frame of '' @ show_nat len @ '' bytes, expected '' @ show_nat want))
     else Inr ())"

definition length_ok :: "u8 \<Rightarrow> nat \<Rightarrow> serror + unit" where
  "length_ok tag len =
     (if tag = TAG_CONTROL then fits len MAX_FRAME_LEN
      else if tag = TAG_BLOB_START then exactly len BLOB_START_LEN ''BLOB_START''
      else if tag = TAG_BLOB_CHUNK then fits len CHUNK
      else if tag = TAG_BLOB_END then exactly len 0 ''BLOB_END''
      else Inl (Protocol (''unknown frame tag '' @ show_nat (unat tag))))"

definition decode_frame :: "wire \<Rightarrow> u8 \<Rightarrow> bytes \<Rightarrow> serror + frame" where
  "decode_frame W tag payload =
     (if tag = TAG_CONTROL then (case dec W payload of None \<Rightarrow> Inl Codec | Some m \<Rightarrow> Inr (Control m))
      else if tag = TAG_BLOB_START
      then Inr (BlobStart (take HASH_LEN payload) (word_of_nat (be_value (drop HASH_LEN payload))))
      else if tag = TAG_BLOB_CHUNK then Inr (BlobChunk payload)
      else Inr BlobEnd)"

definition read_frame :: "wire \<Rightarrow> (source, serror, frame option) op" where
  "read_frame W s =
     bindE read_tag (\<lambda>tag. case tag of
       None \<Rightarrow> ret None
     | Some tag \<Rightarrow> bindE read_len (\<lambda>len.
         thenE (outcome (length_ok tag len))
        (bindE (read_exact len) (\<lambda>payload.
         bindE (outcome (decode_frame W tag payload)) (\<lambda>f. ret (Some f)))))) s"

definition read_framed :: "(source, serror, (u8 \<times> bytes) option) op" where
  "read_framed s =
     bindE read_tag (\<lambda>tag. case tag of
       None \<Rightarrow> ret None
     | Some tag \<Rightarrow> bindE read_len (\<lambda>len.
         thenE (outcome (fits len MAX_FRAME_LEN))
        (bindE (read_exact len) (\<lambda>payload. ret (Some (tag, payload)))))) s"

section \<open>Whole streams\<close>

text \<open>The frames of a stream up to its end or the first error.\<close>

definition write_frame :: "wire \<Rightarrow> faults \<Rightarrow> frame \<Rightarrow> ('z sink_scheme, serror, unit) op" where
  "write_frame W F f = (case f of
     Control m \<Rightarrow> write_control W F m
   | BlobStart h len \<Rightarrow> write_blob_start F h len
   | BlobChunk bs \<Rightarrow> write_blob_chunk F bs
   | BlobEnd \<Rightarrow> write_blob_end F)"

fun frame_hash_ok :: "frame \<Rightarrow> bool" where
  "frame_hash_ok (BlobStart h _) \<longleftrightarrow> length h = HASH_LEN"
| "frame_hash_ok _ \<longleftrightarrow> True"

lemma read_exact_Inr: "read_exact n s = (Inr b, t) \<longleftrightarrow> length b = n \<and> rest s = b @ rest t \<and> ending t = ending s"
  by (cases t; cases s) (auto simp: read_exact_def append_eq_conv_conj)

lemma read_tag_Some: "read_tag s = (Inr (Some tag), t) \<longleftrightarrow> rest s = tag # rest t \<and> ending t = ending s"
proof -
  have "read_tag s = (Inr (Some tag), t) \<longleftrightarrow> (\<exists>b. read_exact 1 s = (Inr b, t) \<and> hd b = tag)"
    by (cases "read_exact 1 s"; cases "fst (read_exact 1 s)") (auto simp: read_tag_def runs)
  then show ?thesis by (auto simp: read_exact_Inr length_Suc_conv)
qed

lemma read_len_Inr: "read_len s = (Inr n, t) \<longleftrightarrow> (\<exists>b. length b = 4 \<and> n = be_value b \<and> rest s = b @ rest t \<and> ending t = ending s)"
  by (auto simp: read_len_def run_simps read_exact_Inr)

text \<open>A frame that is read is a tag, a length, and as many bytes as that.\<close>

lemma read_frame_Some:
  "read_frame W s = (Inr (Some f), t) \<longleftrightarrow> (\<exists>tag b payload. rest s = tag # b @ payload @ rest t \<and> ending t = ending s \<and>
     length b = 4 \<and> be_value b = length payload \<and> length_ok tag (length payload) = Inr () \<and> decode_frame W tag payload = Inr f)"
    (is "?l \<longleftrightarrow> ?r")
proof -
  have "?l \<longleftrightarrow> (\<exists>tag u n v payload. read_tag s = (Inr (Some tag), u) \<and> read_len u = (Inr n, v) \<and> length_ok tag n = Inr () \<and>
      read_exact n v = (Inr payload, t) \<and> decode_frame W tag payload = Inr f)"
    by (fastforce simp: read_frame_def run_simps split: option.splits)
  also have "\<dots> \<longleftrightarrow> ?r"
    unfolding read_tag_Some read_len_Inr read_exact_Inr by (rule iffI; clarsimp; metis source.select_convs)
  finally show ?thesis .
qed

lemma read_frame_shrinks: "read_frame W s = (Inr (Some f), t) \<Longrightarrow> length (rest t) < length (rest s)"
  by (auto simp: read_frame_Some)

function read_frames :: "wire \<Rightarrow> source \<Rightarrow> frame list \<times> serror option" where
  "read_frames W s = (case read_frame W s of
     (Inr (Some f), t) \<Rightarrow> (let (fs, e) = read_frames W t in (f # fs, e))
   | (Inr None, t) \<Rightarrow> ([], None)
   | (Inl e, t) \<Rightarrow> ([], Some e))"
  by pat_completeness auto
termination
  by (relation "measure (\<lambda>(W, s). length (rest s))") (auto dest: read_frame_shrinks [OF sym])

declare read_frames.simps [simp del]

text \<open>What one frame looks like on the wire.\<close>

definition packet :: "u8 \<Rightarrow> bytes \<Rightarrow> bytes" where
  "packet tag payload = tag # be_bytes 4 (length payload) @ payload"

definition content_of :: "wire \<Rightarrow> frame \<Rightarrow> (u8 \<times> bytes) option" where
  "content_of W f = (case f of
     Control m \<Rightarrow> map_option (Pair TAG_CONTROL) (enc W m)
   | BlobStart h len \<Rightarrow> Some (TAG_BLOB_START, h @ be_bytes 8 (unat len))
   | BlobChunk bs \<Rightarrow> Some (TAG_BLOB_CHUNK, bs)
   | BlobEnd \<Rightarrow> Some (TAG_BLOB_END, []))"

text \<open>A program that writes these bytes, or, when it fails, the first of them.\<close>

definition emits :: "('z sink_scheme, serror, unit) op \<Rightarrow> bytes \<Rightarrow> bool" where
  "emits m bs \<longleftrightarrow> (\<forall>s r t. m s = (r, t) \<longrightarrow>
     (\<exists>w. written t = written s @ w \<and> prefix w bs \<and> (r = Inr () \<longrightarrow> w = bs)))"

lemma emitsD:
  "\<lbrakk>emits m bs; m s = (r, t)\<rbrakk> \<Longrightarrow> \<exists>w. written t = written s @ w \<and> prefix w bs \<and> (r = Inr () \<longrightarrow> w = bs)"
  by (simp add: emits_def)

lemma emits_put: "emits (put_bytes F bs) bs"
  by (auto simp: emits_def put_bytes_def Let_def take_is_prefix split: option.splits)

lemma emits_throw: "emits (throw e) bs"
  by (simp add: emits_def)

lemma emits_then: "\<lbrakk>emits m a; emits n b\<rbrakk> \<Longrightarrow> emits (thenE m n) (a @ b)"
  unfolding emits_def
proof (intro allI impI)
  fix s r t
  assume m: "\<forall>s r t. m s = (r, t) \<longrightarrow> (\<exists>w. written t = written s @ w \<and> prefix w a \<and> (r = Inr () \<longrightarrow> w = a))"
    and n: "\<forall>s r t. n s = (r, t) \<longrightarrow> (\<exists>w. written t = written s @ w \<and> prefix w b \<and> (r = Inr () \<longrightarrow> w = b))"
    and run: "thenE m n s = (r, t)"
  obtain q u where mu: "m s = (q, u)" by (cases "m s")
  with m obtain w where w: "written u = written s @ w" "prefix w a" "q = Inr () \<longrightarrow> w = a" by blast
  show "\<exists>w. written t = written s @ w \<and> prefix w (a @ b) \<and> (r = Inr () \<longrightarrow> w = a @ b)"
  proof (cases q)
    case (Inl e)
    with run mu w show ?thesis by (auto simp: runs intro: prefix_prefix)
  next
    case (Inr x)
    with run mu have "n u = (r, t)" by (simp add: runs)
    with n obtain v where "written t = written u @ v" "prefix v b" "r = Inr () \<longrightarrow> v = b" by blast
    with w Inr show ?thesis by (auto simp: same_prefix_prefix)
  qed
qed

lemma emits_framed: "emits (write_framed F tag payload) (packet tag payload)"
proof -
  have "emits (thenE (put_bytes F [tag]) (thenE (put_bytes F (be_bytes 4 (length payload)))
      (thenE (put_bytes F payload) (put_bytes F [])))) ([tag] @ be_bytes 4 (length payload) @ payload @ [])"
    by (rule emits_then [OF emits_put emits_then [OF emits_put emits_then [OF emits_put emits_put]]])
  then show ?thesis by (auto simp: emits_def write_framed_def packet_def split: if_splits)
qed

lemma write_framed_fits:
  "\<lbrakk>write_framed F tag payload s = (r, t); r = Inr () \<or> written t \<noteq> written s\<rbrakk> \<Longrightarrow> length payload \<le> MAX_FRAME_LEN"
  by (auto simp: write_framed_def split: if_splits)

lemma frame_written:
  assumes "write_frame W F f s = (r, t)"
  shows "case content_of W f of
      None \<Rightarrow> r \<noteq> Inr () \<and> written t = written s
    | Some (tag, p) \<Rightarrow> \<exists>w. written t = written s @ w \<and> prefix w (packet tag p) \<and>
        (r = Inr () \<longrightarrow> w = packet tag p) \<and> (w \<noteq> [] \<longrightarrow> length p \<le> MAX_FRAME_LEN \<and> (tag = TAG_BLOB_CHUNK \<longrightarrow> length p \<le> CHUNK))"
proof -
  have framed: "\<exists>w. written t = written s @ w \<and> prefix w (packet tag p) \<and> (r = Inr () \<longrightarrow> w = packet tag p) \<and>
      (w \<noteq> [] \<longrightarrow> length p \<le> MAX_FRAME_LEN)"
    if "write_framed F tag p s = (r, t)" for tag p
    using emitsD [OF emits_framed that] write_framed_fits [OF that] by auto
  show ?thesis
  proof (cases f)
    case (Control m)
    with assms framed show ?thesis
      by (cases "enc W m") (auto simp: write_frame_def write_control_def content_of_def tag_defs)
  next
    case (BlobStart h len)
    with assms framed [of TAG_BLOB_START "h @ be_bytes 8 (unat len)"] show ?thesis
      by (simp add: write_frame_def write_blob_start_def content_of_def tag_defs)
  next
    case (BlobChunk bs)
    show ?thesis
    proof (cases "length bs \<le> CHUNK")
      case True
      with BlobChunk assms framed [of TAG_BLOB_CHUNK bs] show ?thesis
        by (simp add: write_frame_def write_blob_chunk_def content_of_def)
    next
      case False
      with BlobChunk assms show ?thesis
        by (auto simp: write_frame_def write_blob_chunk_def content_of_def intro!: exI [of _ "[]"])
    qed
  next
    case BlobEnd
    with assms framed [of TAG_BLOB_END "[]"] show ?thesis
      by (simp add: write_frame_def write_blob_end_def content_of_def tag_defs)
  qed
qed

lemma packet_ne [simp]: "packet tag p \<noteq> []"
  by (simp add: packet_def)

lemma emits_frame: "\<lbrakk>content_of W f = Some (tag, p); frame_hash_ok f; codec_ok W; length p \<le> MAX_FRAME_LEN;
    tag = TAG_BLOB_CHUNK \<longrightarrow> length p \<le> CHUNK\<rbrakk> \<Longrightarrow>
    read_frame W \<lparr>rest = packet tag p @ after, ending = d\<rparr> = (Inr (Some f), \<lparr>rest = after, ending = d\<rparr>)"
  unfolding read_frame_Some
proof (intro exI conjI)
  assume f: "content_of W f = Some (tag, p)" "frame_hash_ok f" "codec_ok W"
    and len: "length p \<le> MAX_FRAME_LEN" "tag = TAG_BLOB_CHUNK \<longrightarrow> length p \<le> CHUNK"
  show "be_value (be_bytes 4 (length p)) = length p" using len by (intro be_roundtrip) (simp add: limit_defs)
  show "length_ok tag (length p) = Inr ()" using f len
    by (auto simp: content_of_def length_ok_def tag_defs fits_def exactly_def limit_defs split: frame.splits)
  have "word_of_nat (be_value (be_bytes 8 (unat w))) = w" for w :: u64
    using unat_bound [of w] by (simp add: be_roundtrip)
  then show "decode_frame W tag p = Inr f" using f
    by (auto simp: content_of_def decode_frame_def tag_defs limit_defs codec_ok_def split: frame.splits option.splits)
qed (auto simp: packet_def)

text \<open>A part of a frame is never read as a frame.\<close>

lemma partial_frame_unread:
  assumes "prefix w (packet tag p)" "w \<noteq> packet tag p" "length p \<le> MAX_FRAME_LEN"
  shows "read_frame W \<lparr>rest = w, ending = d\<rparr> \<noteq> (Inr (Some f), t)"
proof
  assume "read_frame W \<lparr>rest = w, ending = d\<rparr> = (Inr (Some f), t)"
  then obtain tag' b q where w: "w = tag' # b @ q @ rest t" "length b = 4" "be_value b = length q"
    by (auto simp: read_frame_Some)
  with assms(1) obtain z where z: "packet tag p = w @ z" by (auto elim: prefixE)
  then have "packet tag p = tag' # (b @ q @ rest t @ z)" using w(1) by simp
  then have "be_bytes 4 (length p) @ p = b @ q @ rest t @ z" by (simp only: packet_def list.inject)
  then have "b = be_bytes 4 (length p)"
    using w(2) append_eq_append_conv [of "be_bytes 4 (length p)" b p "q @ rest t @ z"] length_be_bytes by metis
  moreover have "be_value (be_bytes 4 (length p)) = length p"
    using assms(3) by (intro be_roundtrip) (simp add: limit_defs)
  ultimately have "length q = length p" using w(3) by metis
  with w(1,2) have "5 + length p \<le> length w" by simp
  moreover have "length (packet tag p) = 5 + length p" by (simp add: packet_def)
  moreover have "length (packet tag p) = length w + length z" using z by simp
  ultimately have "length z = 0" by linarith
  with z assms(2) show False by simp
qed

lemma read_frames_more:
  assumes "read_frame W s = (Inr (Some f), t)" "read_frames W t = (fs, e)"
  shows "read_frames W s = (f # fs, e)"
  using assms by (subst read_frames.simps) simp

lemma read_frames_stop:
  assumes "\<And>f t. read_frame W s \<noteq> (Inr (Some f), t)"
  shows "fst (read_frames W s) = []"
  using assms by (subst read_frames.simps) (auto split: prod.splits sum.splits option.splits)

lemma read_frames_end: "read_frames W \<lparr>rest = [], ending = None\<rparr> = ([], None)"
  by (subst read_frames.simps) (simp add: read_frame_def read_tag_def read_exact_def runs bindE_def attempt_def)

lemma written_frames_read:
  assumes "codec_ok W" "\<forall>f \<in> set fs. frame_hash_ok f" "each (write_frame W F) fs s = (r, t)"
  shows "\<exists>w fs' e. written t = written s @ w \<and> read_frames W \<lparr>rest = w, ending = d\<rparr> = (fs', e) \<and> prefix fs' fs \<and>
    (r = Inr () \<longrightarrow> fs' = fs \<and> (d = None \<longrightarrow> e = None))"
  using assms(2,3)
proof (induction fs arbitrary: s)
  case Nil
  have "fst (read_frames W \<lparr>rest = [], ending = d\<rparr>) = []"
    by (rule read_frames_stop) (simp add: read_frame_Some)
  with Nil show ?case using read_frames_end by (cases "read_frames W \<lparr>rest = [], ending = d\<rparr>") auto
next
  case (Cons f fs)
  obtain q u where f: "write_frame W F f s = (q, u)" by (cases "write_frame W F f s")
  show ?case
  proof (cases "q = Inr ()")
    case True
    with frame_written [OF f] obtain tag p where p: "content_of W f = Some (tag, p)" "written u = written s @ packet tag p"
      "length p \<le> MAX_FRAME_LEN" "tag = TAG_BLOB_CHUNK \<longrightarrow> length p \<le> CHUNK"
      by (auto split: option.splits prod.splits)
    from True f Cons.prems have "each (write_frame W F) fs u = (r, t)" by (simp add: runs)
    from Cons.IH [OF _ this] Cons.prems obtain w fs' e where w: "written t = written u @ w"
      "read_frames W \<lparr>rest = w, ending = d\<rparr> = (fs', e)" "prefix fs' fs" "r = Inr () \<longrightarrow> fs' = fs \<and> (d = None \<longrightarrow> e = None)"
      by auto
    have "read_frame W \<lparr>rest = packet tag p @ w, ending = d\<rparr> = (Inr (Some f), \<lparr>rest = w, ending = d\<rparr>)"
      using Cons.prems by (intro emits_frame [OF p(1) _ assms(1) p(3,4)]) simp
    from read_frames_more [OF this w(2)] w p show ?thesis by (intro exI [of _ "packet tag p @ w"]) auto
  next
    case False
    then obtain x where x: "q = Inl x" by (cases q) auto
    with f Cons.prems have r: "r = Inl x" "t = u" by (auto simp: runs)
    show ?thesis
    proof (cases "content_of W f")
      case None
      with frame_written [OF f] r have "written t = written s" by simp
      moreover have "fst (read_frames W \<lparr>rest = [], ending = d\<rparr>) = []"
        by (rule read_frames_stop) (simp add: read_frame_Some)
      ultimately show ?thesis using r by (cases "read_frames W \<lparr>rest = [], ending = d\<rparr>") auto
    next
      case (Some tp)
      obtain tag p where tp: "tp = (tag, p)" by (cases tp)
      with frame_written [OF f] Some r obtain w where w: "written t = written s @ w" "prefix w (packet tag p)"
        "w \<noteq> [] \<longrightarrow> length p \<le> MAX_FRAME_LEN \<and> (tag = TAG_BLOB_CHUNK \<longrightarrow> length p \<le> CHUNK)" by auto
      have none: "read_frames W \<lparr>rest = w, ending = d\<rparr> = ([], snd (read_frames W \<lparr>rest = w, ending = d\<rparr>))"
        if "\<And>g v. read_frame W \<lparr>rest = w, ending = d\<rparr> \<noteq> (Inr (Some g), v)"
        using read_frames_stop [OF that] by (metis prod.collapse)
      consider "w = []" | "w \<noteq> []" "w = packet tag p" | "w \<noteq> []" "w \<noteq> packet tag p" by blast
      then show ?thesis
      proof cases
        case 1
        then show ?thesis using w(1) r none by (fastforce simp: read_frame_Some)
      next
        case 2
        have "read_frame W \<lparr>rest = w @ [], ending = d\<rparr> = (Inr (Some f), \<lparr>rest = [], ending = d\<rparr>)"
          unfolding 2 by (rule emits_frame) (use Some tp Cons.prems assms(1) w 2 in auto)
        moreover have "fst (read_frames W \<lparr>rest = [], ending = d\<rparr>) = []"
          by (rule read_frames_stop) (simp add: read_frame_Some)
        ultimately show ?thesis
          using w(1) r read_frames_more [of W "\<lparr>rest = w, ending = d\<rparr>" f "\<lparr>rest = [], ending = d\<rparr>"]
          by (cases "read_frames W \<lparr>rest = [], ending = d\<rparr>") (fastforce intro!: exI [of _ w])
      next
        case 3
        from none [OF partial_frame_unread [OF w(2) 3(2)]] w 3 r show ?thesis by fastforce
      qed

    qed
  qed
qed

lemma read_framed_Some:
  "read_framed s = (Inr (Some (tag, payload)), t) \<longleftrightarrow> (\<exists>b. rest s = tag # b @ payload @ rest t \<and> ending t = ending s \<and>
     length b = 4 \<and> be_value b = length payload \<and> length payload \<le> MAX_FRAME_LEN)" (is "?l \<longleftrightarrow> ?r")
proof -
  have "?l \<longleftrightarrow> (\<exists>u n v. read_tag s = (Inr (Some tag), u) \<and> read_len u = (Inr n, v) \<and> n \<le> MAX_FRAME_LEN \<and>
      read_exact n v = (Inr payload, t))"
    by (fastforce simp: read_framed_def run_simps fits_def split: option.splits if_splits)
  also have "\<dots> \<longleftrightarrow> ?r"
    unfolding read_tag_Some read_len_Inr read_exact_Inr by (rule iffI; clarsimp; metis source.select_convs)
  finally show ?thesis .
qed

lemma length_ok_bounds: "length_ok tag n = Inr () \<Longrightarrow> n \<le> MAX_FRAME_LEN \<and> (tag = TAG_BLOB_CHUNK \<longrightarrow> n \<le> CHUNK) \<and>
    (tag = TAG_BLOB_START \<longrightarrow> n = BLOB_START_LEN) \<and> (tag = TAG_BLOB_END \<longrightarrow> n = 0) \<and>
    (tag = TAG_CONTROL \<or> tag = TAG_BLOB_START \<or> tag = TAG_BLOB_CHUNK \<or> tag = TAG_BLOB_END)"
  by (auto simp: length_ok_def fits_def exactly_def tag_defs limit_defs split: if_splits)

section \<open>Properties\<close>

text \<open>
  A wire for examples: the messages without data, and wants, each with a text of its own.
\<close>

definition ex_wire :: wire where
  "ex_wire = \<lparr>enc = (\<lambda>m. case m of Done \<Rightarrow> Some [1] | Settled \<Rightarrow> Some [2] | Want h \<Rightarrow> Some (3 # h)
       | Missing h \<Rightarrow> Some (4 # h) | Aborted h \<Rightarrow> Some (5 # h) | _ \<Rightarrow> None),
     dec = (\<lambda>b. case b of [] \<Rightarrow> None | t # h \<Rightarrow>
       if t = 1 \<and> h = [] then Some Done else if t = 2 \<and> h = [] then Some Settled
       else if t = 3 then Some (Want h) else if t = 4 then Some (Missing h)
       else if t = 5 then Some (Aborted h) else None),
     display = (\<lambda>_. ''error'')\<rparr>"

lemma ex_wire_ok: "codec_ok ex_wire"
  by (auto simp: codec_ok_def ex_wire_def split: message.splits)

text \<open>
  C18: Frames arrive as they were sent. Whatever sequence of frames a side writes, and however the
  transport fails on the way, the reader at the other end sees a first part of that sequence and
  nothing else: no frame out of place, none cut short or put together from the pieces of others. When
  every write succeeded it sees them all, and if the stream was closed properly no error after them.
  The hypotheses are that messages decode to what was encoded and that the hashes are 32 bytes, as
  their type says.
\<close>

theorem frames_delivered:
  assumes "codec_ok W" "\<forall>f \<in> set fs. frame_hash_ok f"
    and "each (write_frame W F) fs \<lparr>written = [], wr_step = n\<rparr> = (r, t)"
  shows "\<exists>fs' e. read_frames W \<lparr>rest = written t, ending = d\<rparr> = (fs', e) \<and> prefix fs' fs \<and>
    (r = Inr () \<longrightarrow> fs' = fs \<and> (d = None \<longrightarrow> e = None))"
  using written_frames_read [OF assms] by auto

lemma ex_frames_sent:
  "each (write_frame ex_wire (\<lambda>_. None)) [Control (Want [9]), BlobChunk [7, 8], BlobEnd] \<lparr>written = [], wr_step = 0\<rparr> =
     (Inr (), \<lparr>written = [0, 0, 0, 0, 2, 3, 9, 2, 0, 0, 0, 2, 7, 8, 3, 0, 0, 0, 0], wr_step = 12\<rparr>)"
  by (simp add: write_frame_def write_control_def write_blob_chunk_def write_blob_end_def write_framed_def put_bytes_def
      thenE_def bindE_def ex_wire_def tag_defs limit_defs be_bytes_numeral)

theorem frames_delivered_witness:
  "read_frames ex_wire \<lparr>rest = [0, 0, 0, 0, 2, 3, 9, 2, 0, 0, 0, 2, 7, 8, 3, 0, 0, 0, 0], ending = None\<rparr> =
     ([Control (Want [9]), BlobChunk [7, 8], BlobEnd], None)"
  using frames_delivered [OF ex_wire_ok _ ex_frames_sent, of None] by auto

text \<open>
  Nothing that is read is larger than its kind allows, and both readers agree. When \<open>read_frame\<close>
  returns a frame, \<open>read_framed\<close> on the same stream returns its tag and payload and leaves the same
  rest; the payload is within \<open>MAX_FRAME_LEN\<close>, a piece of content within \<open>CHUNK\<close>, and a hash is 32
  bytes. A length beyond the limit is refused before a byte of the payload is read.
\<close>

theorem read_frame_bounded:
  "(read_frame W s = (Inr (Some f), t) \<longrightarrow>
      (\<exists>tag payload. read_framed s = (Inr (Some (tag, payload)), t) \<and> decode_frame W tag payload = Inr f \<and>
        length payload \<le> MAX_FRAME_LEN \<and>
        (case f of Control _ \<Rightarrow> True | BlobStart h _ \<Rightarrow> length h = 32 | BlobChunk bs \<Rightarrow> length bs \<le> CHUNK | BlobEnd \<Rightarrow> payload = []))) \<and>
   (read_frame W s = (Inl (FrameTooLarge n most), t) \<longrightarrow> n > most \<and> length (rest s) = 5 + length (rest t))"
proof (intro conjI impI)
  assume "read_frame W s = (Inr (Some f), t)"
  then obtain tag b payload where read: "rest s = tag # b @ payload @ rest t" "ending t = ending s" "length b = 4"
    "be_value b = length payload" and ok: "length_ok tag (length payload) = Inr ()" "decode_frame W tag payload = Inr f"
    by (auto simp: read_frame_Some)
  note bounds = length_ok_bounds [OF ok(1)]
  from read bounds have "read_framed s = (Inr (Some (tag, payload)), t)" by (auto simp: read_framed_Some)
  moreover have "case f of Control _ \<Rightarrow> True | BlobStart h _ \<Rightarrow> length h = 32 | BlobChunk bs \<Rightarrow> length bs \<le> CHUNK | BlobEnd \<Rightarrow> payload = []"
    using ok(2) bounds by (auto simp: decode_frame_def limit_defs tag_defs split: option.splits if_splits)
  ultimately show "\<exists>tag payload. read_framed s = (Inr (Some (tag, payload)), t) \<and> decode_frame W tag payload = Inr f \<and>
        length payload \<le> MAX_FRAME_LEN \<and>
        (case f of Control _ \<Rightarrow> True | BlobStart h _ \<Rightarrow> length h = 32 | BlobChunk bs \<Rightarrow> length bs \<le> CHUNK | BlobEnd \<Rightarrow> payload = [])"
    using ok bounds by blast
next
  assume run: "read_frame W s = (Inl (FrameTooLarge n most), t)"
  have E: "read_exact k u \<noteq> (Inl (FrameTooLarge n most), v)" for k u v
    by (auto simp: read_exact_def split: option.splits)
  have T: "read_tag u \<noteq> (Inl (FrameTooLarge n most), v)" for u v
    by (cases "read_exact 1 u"; cases "fst (read_exact 1 u)") (use E in \<open>auto simp: read_tag_def runs\<close>)
  have L: "read_len u \<noteq> (Inl (FrameTooLarge n most), v)" for u v
    using E by (auto simp: read_len_def run_simps)
  from run T L E obtain tag u k where tag: "read_tag s = (Inr (Some tag), u)" "read_len u = (Inr k, t)"
    "length_ok tag k = Inl (FrameTooLarge n most)"
    by (auto simp: read_frame_def run_simps decode_frame_def split: option.splits if_splits)
  then show "n > most" by (auto simp: length_ok_def fits_def exactly_def split: if_splits)
  from tag(1,2) show "length (rest s) = 5 + length (rest t)" by (auto simp: read_tag_Some read_len_Inr)
qed

theorem read_frame_bounded_witness:
  "\<exists>tag payload. read_framed \<lparr>rest = [2, 0, 0, 0, 2, 7, 8], ending = None\<rparr> =
       (Inr (Some (tag, payload)), \<lparr>rest = [], ending = None\<rparr>) \<and>
     decode_frame ex_wire tag payload = Inr (BlobChunk [7, 8]) \<and> length payload \<le> MAX_FRAME_LEN"
proof -
  have "read_frame ex_wire \<lparr>rest = [2, 0, 0, 0, 2, 7, 8], ending = None\<rparr> =
      (Inr (Some (BlobChunk [7, 8])), \<lparr>rest = [], ending = None\<rparr>)"
    by (simp add: read_frame_def read_tag_def read_len_def read_exact_def runs bindE_def attempt_def be_value_def
        length_ok_def fits_def decode_frame_def tag_defs limit_defs)
  with read_frame_bounded [of ex_wire "\<lparr>rest = [2, 0, 0, 0, 2, 7, 8], ending = None\<rparr>" "BlobChunk [7, 8]"
    "\<lparr>rest = [], ending = None\<rparr>"] show ?thesis by blast
qed

end
