(* ===== verification/SessionIncoming.thy ===== *)
theory SessionIncoming
  imports SessionFrame ReplicaSteps ReplicaExamples
begin

text \<open>
  Content arriving from the peer (\<open>sapphire-framework-session/src/incoming.rs\<close>): the blob that is
  open, if any, over the staging writer of the replication core. The state a session works on is the
  replica with the open blob; replica operations run inside it, their errors mapped.
\<close>

record receiver =
  rep :: replica
  open_blob :: "(content_hash \<times> staging_writer) option"

text \<open>An operation of the replica or its staging directory, with \<open>map_err\<close>.\<close>

definition on_replica :: "(error \<Rightarrow> serror) \<Rightarrow> 'a rep \<Rightarrow> ('b receiver_scheme, serror, 'a) op" where
  "on_replica err m s = (case m (rep s) of (r, d) \<Rightarrow>
     (case r of Inl e \<Rightarrow> Inl (err e) | Inr x \<Rightarrow> Inr x, s\<lparr>rep := d\<rparr>))"

definition start_error :: "error \<Rightarrow> serror" where
  "start_error e = (case e of
     TooLarge len most \<Rightarrow> Protocol (''content of '' @ show_nat (unat len) @ '' bytes exceeds the '' @ show_nat (unat most) @ ''-byte limit'')
   | other \<Rightarrow> Sync other)"

definition incoming_start :: "env \<Rightarrow> content_hash \<Rightarrow> u64 \<Rightarrow> ('b receiver_scheme, serror, unit) op" where
  "incoming_start E h len s = bindE (reading open_blob) (\<lambda>opened. case opened of
     Some (other, _) \<Rightarrow> throw (Protocol (''content '' @ to_hex h @ '' started while '' @ to_hex other @ '' is still open''))
   | None \<Rightarrow> bindE (on_replica start_error (stager_writer E (max_file_size E) h len)) (\<lambda>w.
       update (\<lambda>s. s\<lparr>open_blob := Some (h, w)\<rparr>))) s"

definition chunk_error :: "content_hash \<Rightarrow> error \<Rightarrow> serror" where
  "chunk_error h e = (case e of
     TooLarge _ _ \<Rightarrow> Protocol (''content '' @ to_hex h @ '' ran past its announced length'')
   | other \<Rightarrow> Sync other)"

definition incoming_chunk :: "env \<Rightarrow> bytes \<Rightarrow> ('b receiver_scheme, serror, unit) op" where
  "incoming_chunk E bs s = bindE (reading open_blob) (\<lambda>opened. case opened of
     None \<Rightarrow> throw (Protocol ''a content chunk with no content open'')
   | Some (h, w) \<Rightarrow> bindE (on_replica (chunk_error h) (writer_write E w bs)) (\<lambda>w.
       update (\<lambda>s. s\<lparr>open_blob := Some (h, w)\<rparr>))) s"

definition end_error :: "content_hash \<Rightarrow> error \<Rightarrow> serror" where
  "end_error h e = (case e of
     ContentMismatch _ \<Rightarrow> Protocol (''content does not match '' @ to_hex h)
   | other \<Rightarrow> Sync other)"

definition incoming_end :: "env \<Rightarrow> ('b receiver_scheme, serror, content_hash) op" where
  "incoming_end E s = bindE (reading open_blob) (\<lambda>opened.
     thenE (update (\<lambda>s. s\<lparr>open_blob := None\<rparr>)) (case opened of
       None \<Rightarrow> throw (Protocol ''a content end with no content open'')
     | Some (h, w) \<Rightarrow> thenE (on_replica (end_error h) (writer_finish E w)) (ret h))) s"

text \<open>Dropping the writer removes its partial file, if that can be done.\<close>

definition incoming_aborted :: "env \<Rightarrow> content_hash \<Rightarrow> ('b receiver_scheme, serror, unit) op" where
  "incoming_aborted E h s = bindE (reading open_blob) (\<lambda>opened. case opened of
     Some (other, w) \<Rightarrow>
       if other = h then thenE (update (\<lambda>s. s\<lparr>open_blob := None\<rparr>)) (on_replica Sync (writer_drop E w))
       else throw (Protocol (''content '' @ to_hex h @ '' was aborted but is not the content open''))
   | None \<Rightarrow> throw (Protocol (''content '' @ to_hex h @ '' was aborted but is not the content open''))) s"

text \<open>\<open>Drop\<close> of an \<open>Incoming\<close>: the open blob is discarded.\<close>

definition incoming_drop :: "env \<Rightarrow> ('b receiver_scheme, serror, unit) op" where
  "incoming_drop E s = bindE (reading open_blob) (\<lambda>opened. case opened of
     None \<Rightarrow> ret ()
   | Some (_, w) \<Rightarrow> thenE (update (\<lambda>s. s\<lparr>open_blob := None\<rparr>)) (on_replica Sync (writer_drop E w))) s"

section \<open>What receiving keeps\<close>

text \<open>
  The replica is sound, and the partial file of an open blob holds exactly the bytes its writer has
  hashed, for the hash that was announced. A write that failed may have left more in that file
  (\<open>receiver_base\<close>): the session then ends, and the blob is discarded.
\<close>

definition receiver_base :: "env \<Rightarrow> 'b receiver_scheme \<Rightarrow> bool" where
  "receiver_base E s \<longleftrightarrow> replica_inv E (rep s) \<and> (\<forall>h w. open_blob s = Some (h, w) \<longrightarrow> is_partial (w_partial w))"

definition blob_ok :: "env \<Rightarrow> (content_hash \<times> staging_writer) option \<Rightarrow> replica \<Rightarrow> bool" where
  "blob_ok E b d \<longleftrightarrow> (\<forall>h w. b = Some (h, w) \<longrightarrow> writer_ok w d \<and> w_hash w = h \<and> w_len w \<le> max_file_size E)"

definition receiver_inv :: "env \<Rightarrow> 'b receiver_scheme \<Rightarrow> bool" where
  "receiver_inv E s \<longleftrightarrow> receiver_base E s \<and> blob_ok E (open_blob s) (rep s)"

text \<open>Nothing the replica's lookups see is changed by receiving, and no staged content goes.\<close>

definition recv_step :: "env \<Rightarrow> 'b receiver_scheme \<Rightarrow> 'b receiver_scheme \<Rightarrow> bool" where
  "recv_step E s t \<longleftrightarrow> (receiver_base E s \<longrightarrow> receiver_base E t) \<and> receiver.more t = receiver.more s \<and>
     current (rep t) = current (rep s) \<and> live_meta (rep t) = live_meta (rep s) \<and> db_paths (rep t) = db_paths (rep s) \<and>
     tree (rep t) = tree (rep s) \<and>
     (\<forall>h. bt_has (staging (rep s)) (to_hex h) \<longrightarrow> bt_has (staging (rep t)) (to_hex h))"

interpretation rcv: step_relation "recv_step E" for E
  by unfold_locales (auto simp: recv_step_def)

lemma staging_recv:
  assumes "staging_step E (rep s) d" "\<forall>h w. b = Some (h, w) \<longrightarrow> is_partial (w_partial w)"
  shows "recv_step E s (s\<lparr>rep := d, open_blob := b\<rparr>)"
    and "\<lbrakk>receiver_inv E s; blob_ok E b d\<rbrakk> \<Longrightarrow> receiver_inv E (s\<lparr>rep := d, open_blob := b\<rparr>)"
proof -
  have st: "disk.more d = disk.more (rep s)" "staging_ok E (rep s) \<longrightarrow> staging_ok E d" "tree d = tree (rep s)"
    "\<forall>h. bt_has (staging (rep s)) (to_hex h) \<longrightarrow> bt_has (staging d) (to_hex h)"
    using assms(1) by (simp_all add: staging_step_def)
  note same = same_replica [OF st(1)]
  have base: "receiver_base E (s\<lparr>rep := d, open_blob := b\<rparr>)" if "receiver_base E s"
    using that st(2) same assms(2) by (simp add: receiver_base_def replica_inv_def states_ok_def ahead_def)
  with st same show "recv_step E s (s\<lparr>rep := d, open_blob := b\<rparr>)" by (simp add: recv_step_def current_def)
  from base show "\<lbrakk>receiver_inv E s; blob_ok E b d\<rbrakk> \<Longrightarrow> receiver_inv E (s\<lparr>rep := d, open_blob := b\<rparr>)"
    by (simp add: receiver_inv_def)
qed

lemma stager_writer_partial:
  fixes s t :: "'a disk_scheme"
  assumes "stager_writer E limit h len s = (Inr w, t)"
  shows "is_partial (w_partial w)"
proof -
  obtain s1 s2 :: "'a disk_scheme" where "create_partial E h s1 = (Inr (w_partial w), s2)"
    using assms by (auto simp: stager_writer_def run_simps split: if_splits)
  then have "create_partial_tries E (Suc (size (staging s1))) h s1 = (Inr (w_partial w), s2)"
    by (simp add: create_partial_def bindE_def)
  with create_partial_tries_result [OF this] show ?thesis by auto
qed

lemma same_blob: "s\<lparr>rep := d, open_blob := open_blob s\<rparr> = s\<lparr>rep := d\<rparr>" for s :: "'b receiver_scheme"
  by (cases s) simp

lemma blob_rep: "s\<lparr>open_blob := b, rep := d\<rparr> = s\<lparr>rep := d, open_blob := b\<rparr>" for s :: "'b receiver_scheme"
  by (cases s) simp

lemma receiver_writer:
  "\<lbrakk>receiver_inv E s; open_blob s = Some (h, w)\<rbrakk> \<Longrightarrow>
   writer_ok w (rep s) \<and> is_partial (w_partial w) \<and> w_hash w = h \<and> w_len w \<le> max_file_size E"
  by (simp add: receiver_inv_def receiver_base_def blob_ok_def)

lemma is_partial_bare: "is_partial n \<Longrightarrow> \<forall>h. n \<noteq> to_hex h"
  using hex_not_partial by blast

lemma incoming_start_g: "guarded (receiver_inv E) (recv_step E) (incoming_start E h len) (\<lambda>_. receiver_inv E)"
proof (rule guardedI)
  fix s t :: "'b receiver_scheme" and q
  assume inv: "receiver_inv E s" and run0: "incoming_start E h len s = (q, t)"
  obtain r d where run: "stager_writer E (max_file_size E) h len (rep s) = (r, d)"
    by (cases "stager_writer E (max_file_size E) h len (rep s)")
  note res = stager_writer_result [OF run]
  show "recv_step E s t \<and> (\<forall>x. q = Inr x \<longrightarrow> receiver_inv E t)"
  proof (cases "open_blob s")
    case (Some hw)
    with run0 show ?thesis by (cases hw) (auto simp: incoming_start_def runs bindE_def rcv.same)
  next
    case None
    show ?thesis
    proof (cases r)
      case (Inl e)
      with None run run0 have t: "t = s\<lparr>rep := d\<rparr>" "q = Inl (start_error e)"
        by (simp_all add: incoming_start_def on_replica_def bindE_def)
      have "recv_step E s (s\<lparr>rep := d, open_blob := open_blob s\<rparr>)" using res None by (intro staging_recv) auto
      with t show ?thesis by (simp add: same_blob)
    next
      case (Inr w)
      with None run run0 have t: "t = s\<lparr>rep := d, open_blob := Some (h, w)\<rparr>"
        by (simp add: incoming_start_def on_replica_def bindE_def)
      from Inr run stager_writer_partial have p: "is_partial (w_partial w)" by blast
      have st: "staging_step E (rep s) d" using res by simp
      have "blob_ok E (Some (h, w)) d" using res Inr by (simp add: blob_ok_def)
      with staging_recv [OF st, of "Some (h, w)"] inv p t show ?thesis by simp
    qed
  qed
qed

lemma incoming_chunk_g: "guarded (receiver_inv E) (recv_step E) (incoming_chunk E bs) (\<lambda>_. receiver_inv E)"
proof (rule guardedI)
  fix s t :: "'b receiver_scheme" and q
  assume inv: "receiver_inv E s" and run0: "incoming_chunk E bs s = (q, t)"
  show "recv_step E s t \<and> (\<forall>x. q = Inr x \<longrightarrow> receiver_inv E t)"
  proof (cases "open_blob s")
    case None
    with run0 show ?thesis by (auto simp: incoming_chunk_def bindE_def rcv.same)
  next
    case (Some hw)
    obtain h w where hw: "hw = (h, w)" by (cases hw)
    obtain r d where run: "writer_write E w bs (rep s) = (r, d)" by (cases "writer_write E w bs (rep s)")
    let ?b = "case r of Inl _ \<Rightarrow> Some (h, w) | Inr w' \<Rightarrow> Some (h, w')"
    have t: "t = s\<lparr>rep := d, open_blob := ?b\<rparr>" "\<And>x. q = Inr x \<Longrightarrow> \<exists>w'. r = Inr w'"
      using Some hw run run0 same_blob [of s d]
      by (cases r; simp add: incoming_chunk_def on_replica_def bindE_def)+
    have ok: "writer_ok w (rep s)" "is_partial (w_partial w)" "w_hash w = h" "w_len w \<le> max_file_size E"
      using receiver_writer [OF inv] Some hw by simp_all
    note res = writer_write_result [OF run ok(1)]
    have part: "\<forall>h w. ?b = Some (h, w) \<longrightarrow> is_partial (w_partial w)"
      using ok(2) run by (auto split: sum.splits dest: writer_write_partial)
    have "recv_step E s t" unfolding t by (rule staging_recv [OF _ part]) (use res in simp)
    moreover have "receiver_inv E t" if "q = Inr x" for x
    proof -
      obtain w' where w': "r = Inr w'" using t(2) [OF \<open>q = Inr x\<close>] by blast
      then have "blob_ok E ?b d" using res ok by (simp add: blob_ok_def)
      with staging_recv(2) [OF _ part inv] res t show ?thesis by blast
    qed
    ultimately show ?thesis by blast
  qed
qed

text \<open>An end succeeds only with the announced content staged.\<close>

lemma incoming_end_g: "guarded (receiver_inv E) (recv_step E) (incoming_end E)
    (\<lambda>h s. receiver_inv E s \<and> open_blob s = None \<and> bt_has (staging (rep s)) (to_hex h))"
proof (rule guardedI)
  fix s t :: "'b receiver_scheme" and q
  assume inv: "receiver_inv E s" and run0: "incoming_end E s = (q, t)"
  show "recv_step E s t \<and> (\<forall>h. q = Inr h \<longrightarrow> receiver_inv E t \<and> open_blob t = None \<and> bt_has (staging (rep t)) (to_hex h))"
  proof (cases "open_blob s")
    case None
    with run0 have t: "t = s\<lparr>open_blob := None\<rparr>" "\<exists>e. q = Inl e"
      by (auto simp: incoming_end_def bindE_def thenE_def)
    then have "t = s" using None by (cases s) simp
    with t(2) show ?thesis by (auto intro: rcv.same)
  next
    case (Some hw)
    obtain h w where hw: "hw = (h, w)" by (cases hw)
    obtain r d where run: "writer_finish E w (rep s) = (r, d)" by (cases "writer_finish E w (rep s)")
    have t: "t = s\<lparr>rep := d, open_blob := None\<rparr>" "\<And>x. q = Inr x \<Longrightarrow> x = h \<and> (\<exists>name. r = Inr name)"
      using Some hw run run0
      by (cases r; auto simp add: blob_rep incoming_end_def on_replica_def bindE_def thenE_def)+
    have ok: "writer_ok w (rep s)" "w_hash w = h" using receiver_writer [OF inv] Some hw by simp_all
    note res = writer_finish_result [OF run ok(1)]
    have "recv_step E s t" unfolding t by (rule staging_recv) (use res in auto)
    moreover have "receiver_inv E t" unfolding t by (rule staging_recv(2) [OF _ _ inv]) (use res in \<open>auto simp: blob_ok_def\<close>)
    ultimately show ?thesis using t res ok(2) by auto
  qed
qed

lemma incoming_close_g:
  assumes "receiver_base E s" "open_blob s = Some (h, w)" "writer_drop E w (rep s) = (r, d)"
  shows "recv_step E s (s\<lparr>rep := d, open_blob := None\<rparr>)"
    and "receiver_base E (s\<lparr>rep := d, open_blob := None\<rparr>)"
proof -
  have "bare w" using assms(1,2) by (simp add: receiver_base_def is_partial_bare)
  from writer_drop_step [OF this, of E "rep s"] have st: "staging_step E (rep s) d" using assms(3) by simp
  then show "recv_step E s (s\<lparr>rep := d, open_blob := None\<rparr>)" by (intro staging_recv) auto
  with assms(1) show "receiver_base E (s\<lparr>rep := d, open_blob := None\<rparr>)" by (simp add: recv_step_def)
qed

lemma base_none: "\<lbrakk>receiver_base E s; open_blob s = None\<rbrakk> \<Longrightarrow> receiver_inv E s"
  by (simp add: receiver_inv_def blob_ok_def)

lemma inv_base: "receiver_inv E s \<Longrightarrow> receiver_base E s"
  by (simp add: receiver_inv_def)

lemma incoming_aborted_g: "guarded (receiver_inv E) (recv_step E) (incoming_aborted E h)
    (\<lambda>_ s. receiver_inv E s \<and> open_blob s = None)"
proof (rule guardedI)
  fix s t :: "'b receiver_scheme" and q
  assume inv: "receiver_inv E s" and run0: "incoming_aborted E h s = (q, t)"
  show "recv_step E s t \<and> (\<forall>x. q = Inr x \<longrightarrow> receiver_inv E t \<and> open_blob t = None)"
  proof (cases "\<exists>w. open_blob s = Some (h, w)")
    case False
    with run0 have "t = s" "\<exists>e. q = Inl e"
      by (auto simp: incoming_aborted_def bindE_def split: option.splits prod.splits if_splits)
    then show ?thesis by (auto intro: rcv.same)
  next
    case True
    then obtain w where w: "open_blob s = Some (h, w)" by blast
    obtain r d where run: "writer_drop E w (rep s) = (r, d)" by (cases "writer_drop E w (rep s)")
    have t: "t = s\<lparr>rep := d, open_blob := None\<rparr>"
      using w run run0 by (auto simp add: blob_rep incoming_aborted_def on_replica_def bindE_def thenE_def)
    note c = incoming_close_g [OF inv_base [OF inv] w run]
    then show ?thesis unfolding t by (auto intro: base_none)
  qed
qed

lemma incoming_drop_g: "guarded (receiver_base E) (recv_step E) (incoming_drop E)
    (\<lambda>_ s. receiver_inv E s \<and> open_blob s = None)"
proof (rule guardedI)
  fix s t :: "'b receiver_scheme" and q
  assume base: "receiver_base E s" and run0: "incoming_drop E s = (q, t)"
  show "recv_step E s t \<and> (\<forall>x. q = Inr x \<longrightarrow> receiver_inv E t \<and> open_blob t = None)"
  proof (cases "open_blob s")
    case None
    with run0 base show ?thesis by (auto simp: incoming_drop_def bindE_def rcv.same intro: base_none)
  next
    case (Some hw)
    obtain h w where hw: "hw = (h, w)" by (cases hw)
    obtain r d where run: "writer_drop E w (rep s) = (r, d)" by (cases "writer_drop E w (rep s)")
    have t: "t = s\<lparr>rep := d, open_blob := None\<rparr>"
      using Some hw run run0 by (auto simp add: blob_rep incoming_drop_def on_replica_def bindE_def thenE_def)
    note c = incoming_close_g [OF base Some [unfolded hw] run]
    then show ?thesis unfolding t by (auto intro: base_none)
  qed
qed

end
