(* ===== verification/SessionWriter.thy ===== *)
theory SessionWriter
  imports SessionIncoming
begin

text \<open>
  The task that writes a session's half of the stream (\<open>sapphire-framework-session/src/writer.rs\<close>):
  two queues, urgent control messages before bulk, and content streamed from its file in chunks with
  urgent messages between them. What is queued while the task runs is the parameter \<open>A\<close>: what arrives
  at each look at the queues. What the reads of a file return is \<open>R\<close>; the task's view of time
  (\<open>Progress\<close>) has no part in what it writes.
\<close>

datatype out =
    OutControl message
  | OutBlob content_hash place_of u64

record outbox =
  urgent :: "message list"
  bulk :: "out list"

text \<open>\<open>Outbox::send\<close>, when the task is still there.\<close>

definition enqueue :: "out \<Rightarrow> outbox \<Rightarrow> outbox" where
  "enqueue item q = (case item of
     OutControl (Updates us) \<Rightarrow> q\<lparr>bulk := bulk q @ [item]\<rparr>
   | OutControl Done \<Rightarrow> q\<lparr>bulk := bulk q @ [item]\<rparr>
   | OutControl m \<Rightarrow> q\<lparr>urgent := urgent q @ [m]\<rparr>
   | OutBlob _ _ _ \<Rightarrow> q\<lparr>bulk := bulk q @ [item]\<rparr>)"

record writer_task = sink +
  queue :: outbox
  looks :: nat

type_synonym arrivals = "nat \<Rightarrow> out list"

text \<open>A look at the queues finds what was sent since the last one.\<close>

definition look :: "arrivals \<Rightarrow> (writer_task, serror, outbox) op" where
  "look A s = (let q = foldl (\<lambda>q item. enqueue item q) (queue s) (A (looks s))
     in (Inr q, s\<lparr>queue := q, looks := looks s + 1\<rparr>))"

text \<open>
  \<open>fill\<close>: reads until the buffer is full, the file ends or a read fails. A read gives at most what the
  buffer has room for.
\<close>

fun fill :: "nat \<Rightarrow> (io_kind + bytes) list \<Rightarrow> (io_kind + bytes) \<times> (io_kind + bytes) list" where
  "fill want [] = (Inr [], [])"
| "fill want (r # rs) =
     (if want = 0 then (Inr [], r # rs)
      else case r of
        Inl k \<Rightarrow> if k = Interrupted then fill want rs else (Inl k, rs)
      | Inr [] \<Rightarrow> (Inr [], rs)
      | Inr bs \<Rightarrow> (case fill (want - length (take want bs)) rs of
          (Inr later, rs') \<Rightarrow> (Inr (take want bs @ later), rs')
        | (Inl k, rs') \<Rightarrow> (Inl k, rs')))"

lemma fill_length: "fst (fill want rs) = Inr bs \<Longrightarrow> length bs \<le> want"
proof (induction want rs arbitrary: bs rule: fill.induct)
  case (2 want r rs)
  show ?case
  proof (cases "want = 0 \<or> r = Inr [] \<or> (\<exists>k. r = Inl k)")
    case True
    with 2 show ?thesis by (auto split: if_splits)
  next
    case False
    then obtain b cs where r: "r = Inr (b # cs)" "want \<noteq> 0" by (cases r) (auto simp: neq_Nil_conv)
    then obtain later where "fst (fill (want - length (take want (b # cs))) rs) = Inr later"
      "bs = take want (b # cs) @ later"
      using 2 by (auto split: prod.splits sum.splits)
    with "2.IH"(2) [OF r(2,1)] show ?thesis by fastforce
  qed
qed simp

text \<open>
  Draining the urgent messages between chunks. What arrives while it drains is as if it had been there
  at the look: the queues are in order, and only the urgent one is taken from.
\<close>

definition drain_urgent :: "wire \<Rightarrow> faults \<Rightarrow> arrivals \<Rightarrow> (writer_task, serror, unit) op" where
  "drain_urgent W F A s = bindE (look A) (\<lambda>q.
     thenE (update (\<lambda>s. s\<lparr>queue := (queue s)\<lparr>urgent := []\<rparr>\<rparr>)) (each (write_control W F) (urgent q))) s"

text \<open>
  The chunks of \<open>stream_blob\<close>; \<open>rs\<close> is what the reads of the open file return. A read error ends the
  loop like the end of the file (\<open>unwrap_or(0)\<close>).
\<close>

function stream_loop :: "wire \<Rightarrow> faults \<Rightarrow> arrivals \<Rightarrow> nat \<Rightarrow> (io_kind + bytes) list \<Rightarrow> nat \<Rightarrow> hasher
    \<Rightarrow> (writer_task, serror, nat \<times> hasher) op" where
  "stream_loop W F A len rs sent hs s =
     (if \<not> sent < len then ret (sent, hs)
      else case fill (min (len - sent) CHUNK) rs of
        (Inl _, _) \<Rightarrow> ret (sent, hs)
      | (Inr bs, rs') \<Rightarrow>
          if bs = [] then ret (sent, hs)
          else thenE (drain_urgent W F A) (thenE (write_blob_chunk F bs)
            (stream_loop W F A len rs' (sent + length bs) (hasher_update hs bs)))) s"
  by pat_completeness auto
termination
  by (relation "measure (\<lambda>(W, F, A, len, rs, sent, hs, s). len - sent)") (auto simp: thenE_def intro!: diff_less_mono2)

declare stream_loop.simps [simp del]

text \<open>\<open>stream_blob\<close>: \<open>None\<close> is a file that cannot be opened.\<close>

definition stream_blob :: "wire \<Rightarrow> faults \<Rightarrow> arrivals \<Rightarrow> (bytes \<Rightarrow> content_hash) \<Rightarrow> (io_kind + bytes) list option
    \<Rightarrow> content_hash \<Rightarrow> u64 \<Rightarrow> (writer_task, serror, unit) op" where
  "stream_blob W F A digest opened h len s = (case opened of
     None \<Rightarrow> write_control W F (Missing h)
   | Some rs \<Rightarrow> thenE (write_blob_start F h len)
       (bindE (stream_loop W F A (unat len) rs 0 hasher_new) (\<lambda>(sent, hs).
          if sent = unat len \<and> hasher_finish digest hs = h then write_blob_end F
          else write_control W F (Aborted h)))) s"

text \<open>
  One turn of \<open>run\<close>: the urgent queue first. With both queues empty the task waits. \<open>R\<close> tells what the
  file at a place returns when it is opened at this turn.
\<close>

type_synonym file_reads = "place_of \<Rightarrow> nat \<Rightarrow> (io_kind + bytes) list option"

definition writer_turn :: "wire \<Rightarrow> faults \<Rightarrow> arrivals \<Rightarrow> (bytes \<Rightarrow> content_hash) \<Rightarrow> file_reads
    \<Rightarrow> (writer_task, serror, unit) op" where
  "writer_turn W F A digest R s = bindE (look A) (\<lambda>q. case urgent q of
     m # ms \<Rightarrow> thenE (update (\<lambda>s. s\<lparr>queue := (queue s)\<lparr>urgent := ms\<rparr>\<rparr>)) (write_control W F m)
   | [] \<Rightarrow> (case bulk q of
       [] \<Rightarrow> ret ()
     | item # items \<Rightarrow> thenE (update (\<lambda>s. s\<lparr>queue := (queue s)\<lparr>bulk := items\<rparr>\<rparr>)) (case item of
         OutControl m \<Rightarrow> write_control W F m
       | OutBlob h path len \<Rightarrow> bindE (reading looks) (\<lambda>k. stream_blob W F A digest (R path k) h len)))) s"

fun writer_run :: "nat \<Rightarrow> wire \<Rightarrow> faults \<Rightarrow> arrivals \<Rightarrow> (bytes \<Rightarrow> content_hash) \<Rightarrow> file_reads
    \<Rightarrow> (writer_task, serror, unit) op" where
  "writer_run 0 W F A digest R s = ret () s"
| "writer_run (Suc n) W F A digest R s = thenE (writer_turn W F A digest R) (writer_run n W F A digest R) s"

section \<open>What a receiver accepts\<close>

text \<open>
  The specification of the receiving side of content: the hash and length announced and the bytes so
  far, while a blob is open. \<open>None\<close> as a result is a protocol error.
\<close>

type_synonym absorbing = "(content_hash \<times> nat \<times> bytes) option"

fun absorb :: "(bytes \<Rightarrow> content_hash) \<Rightarrow> absorbing \<Rightarrow> frame \<Rightarrow> absorbing option" where
  "absorb digest st (BlobStart h len) = (case st of None \<Rightarrow> Some (Some (h, unat len, [])) | Some _ \<Rightarrow> None)"
| "absorb digest st (BlobChunk bs) = (case st of
     Some (h, len, acc) \<Rightarrow> if length acc + length bs \<le> len then Some (Some (h, len, acc @ bs)) else None
   | None \<Rightarrow> None)"
| "absorb digest st BlobEnd = (case st of
     Some (h, len, acc) \<Rightarrow> if length acc = len \<and> digest acc = h then Some None else None
   | None \<Rightarrow> None)"
| "absorb digest st (Control m) = (case m of
     Aborted h \<Rightarrow> (case st of Some (g, _, _) \<Rightarrow> if g = h then Some None else None | None \<Rightarrow> None)
   | _ \<Rightarrow> Some st)"

fun absorbs :: "(bytes \<Rightarrow> content_hash) \<Rightarrow> absorbing \<Rightarrow> frame list \<Rightarrow> absorbing option" where
  "absorbs digest st [] = Some st"
| "absorbs digest st (f # fs) = (case absorb digest st f of None \<Rightarrow> None | Some st' \<Rightarrow> absorbs digest st' fs)"

lemma absorbs_append: "absorbs digest st (fs @ gs) = (case absorbs digest st fs of None \<Rightarrow> None | Some st' \<Rightarrow> absorbs digest st' gs)"
  by (induction fs arbitrary: st) (auto split: option.splits)

lemma absorbs_prefix: "\<lbrakk>absorbs digest st fs = Some st'; prefix gs fs\<rbrakk> \<Longrightarrow> absorbs digest st gs \<noteq> None"
  by (auto simp: prefix_def absorbs_append split: option.splits)

section \<open>What the task says\<close>

text \<open>
  The queues carry no \<open>Aborted\<close> of another origin: only \<open>stream_blob\<close> makes one, and what the session
  queues are the other messages.
\<close>

fun said_by_session :: "out \<Rightarrow> bool" where
  "said_by_session (OutControl (Aborted _)) \<longleftrightarrow> False"
| "said_by_session (OutBlob h _ _) \<longleftrightarrow> length h = HASH_LEN"
| "said_by_session _ \<longleftrightarrow> True"

fun plain_message :: "message \<Rightarrow> bool" where
  "plain_message (Aborted _) \<longleftrightarrow> False"
| "plain_message _ \<longleftrightarrow> True"

lemma said_control: "said_by_session (OutControl m) \<longleftrightarrow> plain_message m"
  by (cases m) auto

lemma absorb_plain [simp]: "plain_message m \<Longrightarrow> absorb digest st (Control m) = Some st"
  by (cases m) auto

lemma absorb_aborted [simp]: "absorb digest (Some (h, len, acc)) (Control (Aborted h)) = Some None"
  by simp

declare absorb.simps(4) [simp del]

definition queue_ok :: "outbox \<Rightarrow> bool" where
  "queue_ok q \<longleftrightarrow> list_all plain_message (urgent q) \<and> list_all said_by_session (bulk q)"

lemma queue_ok_enqueue: "\<lbrakk>queue_ok q; said_by_session item\<rbrakk> \<Longrightarrow> queue_ok (enqueue item q)"
  by (auto simp: queue_ok_def enqueue_def said_control split: out.splits message.splits)

lemma queue_ok_arrive: "\<lbrakk>queue_ok q; list_all said_by_session items\<rbrakk> \<Longrightarrow> queue_ok (foldl (\<lambda>q item. enqueue item q) q items)"
  by (induction items arbitrary: q) (auto intro: queue_ok_enqueue)

definition sink_of :: "writer_task \<Rightarrow> bytes \<times> nat" where
  "sink_of s = (written s, wr_step s)"

lemma put_bytes_sink:
  assumes "put_bytes F bs s = (q, u)"
  shows "queue u = queue s \<and> looks u = looks s" and "sink_of s' = sink_of s \<Longrightarrow> \<exists>u'. put_bytes F bs s' = (q, u') \<and> sink_of u' = sink_of u"
  using assms by (auto simp: put_bytes_def sink_of_def Let_def split: option.splits)

text \<open>An operation that only writes: the queues stay, and it depends on nothing but the sink.\<close>

definition only_writes :: "(writer_task, serror, 'a) op \<Rightarrow> bool" where
  "only_writes m \<longleftrightarrow> (\<forall>s q u. m s = (q, u) \<longrightarrow> queue u = queue s \<and> looks u = looks s \<and>
     (\<forall>s'. sink_of s' = sink_of s \<longrightarrow> (\<exists>u'. m s' = (q, u') \<and> sink_of u' = sink_of u)))"

lemma only_writes_put: "only_writes (put_bytes F bs)"
  unfolding only_writes_def using put_bytes_sink by blast

lemma only_writes_simps: "only_writes (ret x)" "only_writes (throw e)"
  by (auto simp: only_writes_def)

lemma only_writes_then: "\<lbrakk>only_writes m; only_writes n\<rbrakk> \<Longrightarrow> only_writes (thenE m n)"
  unfolding only_writes_def
proof (intro allI impI)
  fix s q u
  assume m: "\<forall>s q u. m s = (q, u) \<longrightarrow> queue u = queue s \<and> looks u = looks s \<and> (\<forall>s'. sink_of s' = sink_of s \<longrightarrow> (\<exists>u'. m s' = (q, u') \<and> sink_of u' = sink_of u))"
    and n: "\<forall>s q u. n s = (q, u) \<longrightarrow> queue u = queue s \<and> looks u = looks s \<and> (\<forall>s'. sink_of s' = sink_of s \<longrightarrow> (\<exists>u'. n s' = (q, u') \<and> sink_of u' = sink_of u))"
    and run: "thenE m n s = (q, u)"
  obtain q1 u1 where m1: "m s = (q1, u1)" by (cases "m s")
  note M = m [rule_format, OF m1]
  show "queue u = queue s \<and> looks u = looks s \<and> (\<forall>s'. sink_of s' = sink_of s \<longrightarrow> (\<exists>u'. thenE m n s' = (q, u') \<and> sink_of u' = sink_of u))"
  proof (cases q1)
    case (Inl e)
    with run m1 have "q = Inl e" "u = u1" by (auto simp: runs)
    with M Inl show ?thesis by (metis thenE_err)
  next
    case (Inr x)
    with run m1 have "n u1 = (q, u)" by (simp add: runs)
    note N = n [rule_format, OF this]
    have "\<exists>u'. thenE m n s' = (q, u') \<and> sink_of u' = sink_of u" if same: "sink_of s' = sink_of s" for s'
    proof -
      from M same obtain v where v: "m s' = (Inr x, v)" "sink_of v = sink_of u1" unfolding Inr by blast
      from N v(2) obtain u' where "n v = (q, u')" "sink_of u' = sink_of u" by blast
      with v show ?thesis by (auto simp: runs)
    qed
    with M N show ?thesis by auto
  qed
qed

lemma only_writes_frame: "only_writes (write_frame W F f)"
proof -
  have framed: "only_writes (write_framed F tag p)" for tag p
    unfolding write_framed_def [abs_def] by (cases "length p > MAX_FRAME_LEN") (auto intro!: only_writes_simps only_writes_then only_writes_put)
  show ?thesis
  proof (cases f)
    case (Control m)
    then show ?thesis by (cases "enc W m") (simp_all add: write_frame_def [abs_def] write_control_def [abs_def] framed only_writes_simps)
  next
    case (BlobChunk bs)
    then show ?thesis
      by (cases "length bs > CHUNK") (simp_all add: write_frame_def [abs_def] write_blob_chunk_def [abs_def] framed only_writes_simps)
  qed (simp_all add: write_frame_def [abs_def] write_blob_start_def [abs_def] write_blob_end_def [abs_def] framed)
qed

lemma only_writes_each: "(\<And>x. only_writes (f x)) \<Longrightarrow> only_writes (each f xs)"
  by (induction xs) (simp_all add: each_eqs only_writes_simps only_writes_then)

text \<open>
  What an operation writes is a sequence of frames, one write after another; a receiver in the state
  \<open>st\<close> accepts them all, and ends in a state that \<open>Q\<close> tells.
\<close>

definition talks :: "wire \<Rightarrow> faults \<Rightarrow> (bytes \<Rightarrow> content_hash) \<Rightarrow> absorbing \<Rightarrow> (writer_task, serror, 'a) op
    \<Rightarrow> ('a \<Rightarrow> absorbing \<Rightarrow> bool) \<Rightarrow> bool" where
  "talks W F digest st m Q \<longleftrightarrow> (\<forall>s r t. queue_ok (queue s) \<longrightarrow> m s = (r, t) \<longrightarrow> queue_ok (queue t) \<and>
     (\<exists>fs q u st'. each (write_frame W F) fs s = (q, u) \<and> sink_of u = sink_of t \<and>
        absorbs digest st fs = Some st' \<and> list_all frame_hash_ok fs \<and> (\<forall>x. r = Inr x \<longrightarrow> q = Inr () \<and> Q x st')))"

lemma talksI:
  "(\<And>s r t. \<lbrakk>queue_ok (queue s); m s = (r, t)\<rbrakk> \<Longrightarrow> queue_ok (queue t) \<and>
     (\<exists>fs q u st'. each (write_frame W F) fs s = (q, u) \<and> sink_of u = sink_of t \<and>
        absorbs digest st fs = Some st' \<and> list_all frame_hash_ok fs \<and> (\<forall>x. r = Inr x \<longrightarrow> q = Inr () \<and> Q x st'))) \<Longrightarrow> talks W F digest st m Q"
  by (simp add: talks_def)

lemma talksD:
  "\<lbrakk>talks W F digest st m Q; queue_ok (queue s); m s = (r, t)\<rbrakk> \<Longrightarrow> queue_ok (queue t) \<and>
     (\<exists>fs q u st'. each (write_frame W F) fs s = (q, u) \<and> sink_of u = sink_of t \<and>
        absorbs digest st fs = Some st' \<and> list_all frame_hash_ok fs \<and> (\<forall>x. r = Inr x \<longrightarrow> q = Inr () \<and> Q x st'))"
  by (simp add: talks_def)

lemma talks_silent:
  assumes "\<And>s r t. \<lbrakk>queue_ok (queue s); m s = (r, t)\<rbrakk> \<Longrightarrow> queue_ok (queue t) \<and> sink_of t = sink_of s \<and> (\<forall>x. r = Inr x \<longrightarrow> Q x st)"
  shows "talks W F digest st m Q"
proof (rule talksI)
  fix s r t assume "queue_ok (queue s)" "m s = (r, t)"
  from assms [OF this] show "queue_ok (queue t) \<and> (\<exists>fs q u st'. each (write_frame W F) fs s = (q, u) \<and> sink_of u = sink_of t \<and>
        absorbs digest st fs = Some st' \<and> list_all frame_hash_ok fs \<and> (\<forall>x. r = Inr x \<longrightarrow> q = Inr () \<and> Q x st'))"
    by (intro conjI exI [of _ "[]"]) auto
qed

lemma talks_ret: "Q x st \<Longrightarrow> talks W F digest st (ret x) Q"
  by (rule talks_silent) auto

lemma talks_reading: "(\<And>s. Q (f s) st) \<Longrightarrow> talks W F digest st (reading f) Q"
  by (rule talks_silent) auto

lemma talks_look: "\<lbrakk>\<forall>n. list_all said_by_session (A n); \<And>q. queue_ok q \<Longrightarrow> Q q st\<rbrakk> \<Longrightarrow> talks W F digest st (look A) Q"
  by (rule talks_silent) (auto simp: look_def sink_of_def Let_def intro: queue_ok_arrive)

lemma talks_pop:
  "\<lbrakk>list_all plain_message ms; Q () st\<rbrakk> \<Longrightarrow> talks W F digest st (update (\<lambda>s. s\<lparr>queue := (queue s)\<lparr>urgent := ms\<rparr>\<rparr>)) Q"
  "\<lbrakk>list_all said_by_session items; Q () st\<rbrakk> \<Longrightarrow> talks W F digest st (update (\<lambda>s. s\<lparr>queue := (queue s)\<lparr>bulk := items\<rparr>\<rparr>)) Q"
  by (rule talks_silent; auto simp: queue_ok_def sink_of_def)+

lemma talks_frame:
  assumes "absorb digest st f = Some st'" "Q () st'" "frame_hash_ok f"
  shows "talks W F digest st (write_frame W F f) Q"
proof (rule talksI)
  fix s t :: writer_task and r assume q: "queue_ok (queue s)" and run: "write_frame W F f s = (r, t)"
  have "each (write_frame W F) [f] s = (r, t)" using run by (cases r) (auto simp: runs)
  moreover have "queue t = queue s" using only_writes_frame [of W F f] run unfolding only_writes_def by blast
  then have "queue_ok (queue t)" using q by simp
  moreover have "absorbs digest st [f] = Some st'" "list_all frame_hash_ok [f]" using assms by simp_all
  moreover have "\<forall>x. r = Inr x \<longrightarrow> r = Inr () \<and> Q x st'" using assms(2) by simp
  ultimately show "queue_ok (queue t) \<and> (\<exists>fs q u st'. each (write_frame W F) fs s = (q, u) \<and> sink_of u = sink_of t \<and>
        absorbs digest st fs = Some st' \<and> list_all frame_hash_ok fs \<and> (\<forall>x. r = Inr x \<longrightarrow> q = Inr () \<and> Q x st'))" by blast
qed

lemma talks_control: "\<lbrakk>absorb digest st (Control m) = Some st'; Q () st'\<rbrakk> \<Longrightarrow> talks W F digest st (write_control W F m) Q"
  and talks_start: "\<lbrakk>absorb digest st (BlobStart h len) = Some st'; Q () st'; length h = HASH_LEN\<rbrakk> \<Longrightarrow> talks W F digest st (write_blob_start F h len) Q"
  and talks_chunk: "\<lbrakk>absorb digest st (BlobChunk bs) = Some st'; Q () st'\<rbrakk> \<Longrightarrow> talks W F digest st (write_blob_chunk F bs) Q"
  and talks_end: "\<lbrakk>absorb digest st BlobEnd = Some st'; Q () st'\<rbrakk> \<Longrightarrow> talks W F digest st (write_blob_end F) Q"
  using talks_frame [of digest st "Control m"] talks_frame [of digest st "BlobStart h len"]
    talks_frame [of digest st "BlobChunk bs"] talks_frame [of digest st BlobEnd]
  by (simp_all add: write_frame_def)

lemma each_append: "each f (xs @ ys) s = thenE (each f xs) (each f ys) s"
proof (induction xs arbitrary: s)
  case (Cons x xs)
  then show ?case by (cases "f x s"; cases "fst (f x s)") (auto simp: runs thenE_def bindE_def split: prod.splits sum.splits)
qed (simp add: runs thenE_def bindE_def)

lemma talks_bind:
  assumes m: "talks W F digest st m B" and f: "\<And>x st'. B x st' \<Longrightarrow> talks W F digest st' (f x) Q"
  shows "talks W F digest st (bindE m f) Q"
proof (rule talksI)
  fix s r t assume q: "queue_ok (queue s)" and run: "bindE m f s = (r, t)"
  obtain r1 s1 where m1: "m s = (r1, s1)" by (cases "m s")
  from talksD [OF m q m1] obtain fs q1 u st1 where fs: "each (write_frame W F) fs s = (q1, u)" "sink_of u = sink_of s1"
    "absorbs digest st fs = Some st1" "list_all frame_hash_ok fs" "\<forall>x. r1 = Inr x \<longrightarrow> q1 = Inr () \<and> B x st1" and q1: "queue_ok (queue s1)" by blast
  show "queue_ok (queue t) \<and> (\<exists>fs q u st'. each (write_frame W F) fs s = (q, u) \<and> sink_of u = sink_of t \<and>
        absorbs digest st fs = Some st' \<and> list_all frame_hash_ok fs \<and> (\<forall>x. r = Inr x \<longrightarrow> q = Inr () \<and> Q x st'))"
  proof (cases r1)
    case (Inl e)
    with run m1 have "r = Inl e" "t = s1" by (auto simp: runs)
    with fs q1 show ?thesis by blast
  next
    case (Inr x)
    with run m1 have "f x s1 = (r, t)" by (simp add: runs)
    from talksD [OF f [of x st1] q1 this] fs(5) Inr obtain gs q2 v st2 where gs: "each (write_frame W F) gs s1 = (q2, v)"
      "sink_of v = sink_of t" "absorbs digest st1 gs = Some st2" "list_all frame_hash_ok gs" "\<forall>x. r = Inr x \<longrightarrow> q2 = Inr () \<and> Q x st2" and qt: "queue_ok (queue t)"
      by blast
    have "only_writes (each (write_frame W F) gs)" by (rule only_writes_each [OF only_writes_frame])
    with gs(1) fs(2) obtain v' where
      "each (write_frame W F) gs u = (q2, v')" "sink_of v' = sink_of v" unfolding only_writes_def by metis
    then have "each (write_frame W F) (fs @ gs) s = (q2, v')" using fs(1,5) Inr by (simp add: each_append runs)
    moreover have "absorbs digest st (fs @ gs) = Some st2" using fs(3) gs(3) by (simp add: absorbs_append)
    moreover have "sink_of v' = sink_of t" using gs(2) \<open>sink_of v' = sink_of v\<close> by simp
    moreover have "list_all frame_hash_ok (fs @ gs)" using fs(4) gs(4) by simp
    ultimately show ?thesis using gs(5) qt by blast
  qed
qed

lemma talks_then:
  assumes "talks W F digest st m (\<lambda>_. B)" "\<And>st'. B st' \<Longrightarrow> talks W F digest st' n Q"
  shows "talks W F digest st (thenE m n) Q"
  unfolding thenE_def [abs_def] using assms by (rule talks_bind)

lemma said_arrivals_ok: "queue_ok q \<Longrightarrow> list_all plain_message (urgent q) \<and> list_all said_by_session (bulk q)"
  by (simp add: queue_ok_def)

lemma talks_each_control:
  "list_all plain_message ms \<Longrightarrow> talks W F digest st (each (write_control W F) ms) (\<lambda>_ st'. st' = st)"
proof (induction ms)
  case Nil
  then show ?case unfolding each_eqs by (intro talks_ret) simp
next
  case (Cons m ms)
  then show ?case unfolding each_eqs
    by (intro talks_then [OF talks_control]) auto
qed

lemma talks_drain:
  assumes "\<forall>n. list_all said_by_session (A n)"
  shows "talks W F digest st (drain_urgent W F A) (\<lambda>_ st'. st' = st)"
proof -
  have "talks W F digest st (thenE (update (\<lambda>s. s\<lparr>queue := (queue s)\<lparr>urgent := []\<rparr>\<rparr>)) (each (write_control W F) (urgent q)))
      (\<lambda>_ st'. st' = st)" if "queue_ok q" for q
    using that by (intro talks_then [where B = "\<lambda>st'. st' = st", OF talks_pop(1)]) (auto simp: queue_ok_def intro: talks_each_control)
  then show ?thesis unfolding drain_urgent_def [abs_def]
    by (intro talks_bind [where B = "\<lambda>q st'. queue_ok q \<and> st' = st", OF talks_look [OF assms]]) auto
qed

lemma stream_loop_eq: "stream_loop W F A len rs sent hs =
   (if \<not> sent < len then ret (sent, hs)
    else case fill (min (len - sent) CHUNK) rs of
      (Inl _, _) \<Rightarrow> ret (sent, hs)
    | (Inr bs, rs') \<Rightarrow>
        if bs = [] then ret (sent, hs)
        else thenE (drain_urgent W F A) (thenE (write_blob_chunk F bs)
          (stream_loop W F A len rs' (sent + length bs) (hasher_update hs bs))))"
  by (rule ext) (subst stream_loop.simps, rule refl)

lemma talks_stream:
  assumes A: "\<forall>n. list_all said_by_session (A n)"
  shows "\<lbrakk>length hs = sent; sent \<le> len\<rbrakk> \<Longrightarrow> talks W F digest (Some (h, len, hs)) (stream_loop W F A len rs sent hs)
    (\<lambda>(sent', hs') st'. st' = Some (h, len, hs') \<and> length hs' = sent' \<and> sent' \<le> len)"
proof (induction "len - sent" arbitrary: rs sent hs rule: less_induct)
  case less
  let ?Q = "\<lambda>(sent', hs') st'. st' = Some (h, len, hs') \<and> length hs' = sent' \<and> sent' \<le> len"
  have here: "talks W F digest (Some (h, len, hs)) (ret (sent, hs)) ?Q" using less.prems by (intro talks_ret) simp
  show ?case
  proof (cases "sent < len")
    case False
    with here show ?thesis by (simp add: stream_loop_eq [of W F A len rs sent hs])
  next
    case True
    obtain r rs' where fi: "fill (min (len - sent) CHUNK) rs = (r, rs')" by (cases "fill (min (len - sent) CHUNK) rs")
    show ?thesis
    proof (cases "\<exists>bs. r = Inr bs \<and> bs \<noteq> []")
      case False
      with here fi True show ?thesis by (cases r) (auto simp: stream_loop_eq [of W F A len rs sent hs])
    next
      case more: True
      then obtain bs where bs: "r = Inr bs" "bs \<noteq> []" by blast
      have le: "length bs \<le> min (len - sent) CHUNK" by (rule fill_length [of _ rs]) (simp add: fi bs)
      have "sent + length bs \<le> sent + (len - sent)" using le by (simp only: add_le_cancel_left min.bounded_iff)
      also have "\<dots> = len" using True by simp
      finally have fits: "sent + length bs \<le> len" .
      have "talks W F digest (Some (h, len, hs @ bs)) (stream_loop W F A len rs' (sent + length bs) (hs @ bs)) ?Q"
      proof (rule less.hyps)
        show "len - (sent + length bs) < len - sent" using True bs(2) by (intro diff_less_mono2) auto
        show "length (hs @ bs) = sent + length bs" using less.prems by simp
      qed (fact fits)
      moreover have "absorb digest (Some (h, len, hs)) (BlobChunk bs) = Some (Some (h, len, hs @ bs))"
        using less.prems fits by simp
      ultimately have "talks W F digest (Some (h, len, hs)) (thenE (drain_urgent W F A) (thenE (write_blob_chunk F bs)
          (stream_loop W F A len rs' (sent + length bs) (hasher_update hs bs)))) ?Q"
        unfolding hasher_update_def
        by (intro talks_then [OF talks_drain [OF A]]) (auto intro!: talks_then [OF talks_chunk])
      with fi bs True show ?thesis by (simp add: stream_loop_eq [of W F A len rs sent hs])
    qed
  qed
qed

lemma talks_blob:
  assumes A: "\<forall>n. list_all said_by_session (A n)" and hash: "length h = HASH_LEN"
  shows "talks W F digest None (stream_blob W F A digest opened h len) (\<lambda>_ st'. st' = None)"
proof (cases opened)
  case None
  then show ?thesis unfolding stream_blob_def [abs_def] by (auto intro: talks_control)
next
  case (Some rs)
  let ?B = "\<lambda>(sent', hs') st'. st' = Some (h, unat len, hs') \<and> length hs' = sent' \<and> sent' \<le> unat len"
  have fin: "talks W F digest st' (if sent = unat len \<and> hasher_finish digest hs = h then write_blob_end F
      else write_control W F (Aborted h)) (\<lambda>_ st'. st' = None)" if "?B (sent, hs) st'" for sent hs st'
    using that by (auto simp: hasher_finish_def intro!: talks_end talks_control)
  have loop: "talks W F digest (Some (h, unat len, [])) (stream_loop W F A (unat len) rs 0 hasher_new) ?B"
    unfolding hasher_new_def by (rule talks_stream [OF A]) simp_all
  have "talks W F digest (Some (h, unat len, [])) (bindE (stream_loop W F A (unat len) rs 0 hasher_new) (\<lambda>(sent, hs).
      if sent = unat len \<and> hasher_finish digest hs = h then write_blob_end F else write_control W F (Aborted h))) (\<lambda>_ st'. st' = None)"
  proof (rule talks_bind [OF loop])
    fix x and st' :: absorbing assume "?B x st'"
    then show "talks W F digest st' (case x of (sent, hs) \<Rightarrow>
      if sent = unat len \<and> hasher_finish digest hs = h then write_blob_end F else write_control W F (Aborted h)) (\<lambda>_ st'. st' = None)"
      using fin [of "fst x" "snd x" st'] by (cases x) simp
  qed
  then show ?thesis unfolding stream_blob_def [abs_def] Some
    by (auto intro!: talks_then [where B = "\<lambda>st'. st' = Some (h, unat len, [])", OF talks_start] simp: hash)
qed

lemma talks_turn:
  assumes A: "\<forall>n. list_all said_by_session (A n)"
  shows "talks W F digest None (writer_turn W F A digest R) (\<lambda>_ st'. st' = None)"
proof -
  let ?Q = "\<lambda>_ st'. st' = None"
  have item: "talks W F digest None (case item of OutControl m \<Rightarrow> write_control W F m
       | OutBlob h path len \<Rightarrow> bindE (reading looks) (\<lambda>k. stream_blob W F A digest (R path k) h len)) ?Q"
    if "said_by_session item" for item
    using that by (cases item)
      (auto simp: said_control intro!: talks_control talks_blob [OF A] talks_bind [where B = "\<lambda>_ st'. st' = None", OF talks_reading])
  have turn: "talks W F digest None (case urgent q of
     m # ms \<Rightarrow> thenE (update (\<lambda>s. s\<lparr>queue := (queue s)\<lparr>urgent := ms\<rparr>\<rparr>)) (write_control W F m)
   | [] \<Rightarrow> (case bulk q of
       [] \<Rightarrow> ret ()
     | item # items \<Rightarrow> thenE (update (\<lambda>s. s\<lparr>queue := (queue s)\<lparr>bulk := items\<rparr>\<rparr>)) (case item of
         OutControl m \<Rightarrow> write_control W F m
       | OutBlob h path len \<Rightarrow> bindE (reading looks) (\<lambda>k. stream_blob W F A digest (R path k) h len)))) ?Q"
    if "queue_ok q" for q
  proof (cases "urgent q")
    case (Cons m ms)
    with that show ?thesis
      by (auto simp: queue_ok_def intro!: talks_then [where B = "\<lambda>st'. st' = None", OF talks_pop(1)] talks_control)
  next
    case Nil
    show ?thesis
    proof (cases "bulk q")
      case (Cons item items)
      with that Nil item show ?thesis
        by (auto simp: queue_ok_def intro!: talks_then [where B = "\<lambda>st'. st' = None", OF talks_pop(2)])
    qed (use Nil in \<open>auto intro: talks_ret\<close>)
  qed
  show ?thesis unfolding writer_turn_def [abs_def]
    by (rule talks_bind [where B = "\<lambda>q st'. queue_ok q \<and> st' = None", OF talks_look [OF A]]) (auto intro: turn)
qed

lemma talks_run:
  assumes A: "\<forall>n. list_all said_by_session (A n)"
  shows "talks W F digest None (writer_run n W F A digest R) (\<lambda>_ st'. st' = None)"
proof (induction n)
  case 0
  have "writer_run 0 W F A digest R = ret ()" by (rule ext) simp
  then show ?case by (simp only: talks_ret)
next
  case (Suc n)
  have "writer_run (Suc n) W F A digest R = thenE (writer_turn W F A digest R) (writer_run n W F A digest R)" by (rule ext) simp
  then show ?case using Suc by (auto intro!: talks_then [OF talks_turn [OF A]])
qed

section \<open>Properties\<close>

text \<open>
  C19: What a session says, its peer accepts. Whatever is queued and whenever it arrives, whatever the
  files being sent return (they may be gone, be truncated, grow, change or fail to read), and however
  the transport fails, the frames the peer reads are accepted by the receiving side: content never
  starts inside other content, no chunk is outside content or past the announced length, every
  \<open>BLOB_END\<close> closes content of exactly the announced length and hash, and content that could not be
  sent is closed by an \<open>Aborted\<close> of its own hash. When no write failed, the stream ends between two
  pieces of content.
\<close>

theorem peer_accepts_stream:
  assumes "codec_ok W" "\<forall>n. list_all said_by_session (A n)"
    and "writer_run n W F A digest R \<lparr>written = [], wr_step = 0, queue = \<lparr>urgent = [], bulk = []\<rparr>, looks = 0\<rparr> = (r, t)"
  shows "\<exists>fs e st. read_frames W \<lparr>rest = written t, ending = d\<rparr> = (fs, e) \<and> absorbs digest None fs = Some st \<and>
    (r = Inr () \<longrightarrow> st = None \<and> (d = None \<longrightarrow> e = None))"
proof -
  let ?s = "\<lparr>written = [], wr_step = 0, queue = \<lparr>urgent = [], bulk = []\<rparr>, looks = 0\<rparr>"
  have "queue_ok (queue ?s)" by (simp add: queue_ok_def)
  from talksD [OF talks_run [OF assms(2)] this assms(3)] obtain gs q u st where
    gs: "each (write_frame W F) gs ?s = (q, u)" "sink_of u = sink_of t" "absorbs digest None gs = Some st"
    "list_all frame_hash_ok gs" "\<forall>x. r = Inr x \<longrightarrow> q = Inr () \<and> st = None" by blast
  from gs(4) have "\<forall>f \<in> set gs. frame_hash_ok f" by (simp add: list_all_iff)
  from written_frames_read [OF assms(1) this gs(1), of d] gs(2) obtain fs e where
    fs: "read_frames W \<lparr>rest = written t, ending = d\<rparr> = (fs, e)" "prefix fs gs"
    "q = Inr () \<longrightarrow> fs = gs \<and> (d = None \<longrightarrow> e = None)" by (auto simp: sink_of_def)
  from absorbs_prefix [OF gs(3) fs(2)] obtain st' where "absorbs digest None fs = Some st'" by auto
  with fs gs(3,5) show ?thesis by (cases "r = Inr ()") (auto intro!: exI [of _ fs] exI [of _ e])
qed

text \<open>A session that sends a file of two bytes, and asks for other content between its chunks.\<close>

definition ex_hash :: content_hash where
  "ex_hash = replicate 32 7"

definition ex_arrivals :: arrivals where
  "ex_arrivals n = (if n = 0 then [OutBlob ex_hash (Foreign []) 2, OutControl Done]
     else if n = 1 then [OutControl (Want ex_hash)] else [])"

theorem peer_accepts_stream_witness:
  "\<exists>fs e st. read_frames ex_wire \<lparr>rest = written (snd (writer_run 3 ex_wire (\<lambda>n. if n = 30 then Some 1 else None) ex_arrivals
       (\<lambda>_. ex_hash) (\<lambda>_ _. Some [Inr [1], Inl Interrupted, Inr [2]])
       \<lparr>written = [], wr_step = 0, queue = \<lparr>urgent = [], bulk = []\<rparr>, looks = 0\<rparr>)), ending = Some OtherIo\<rparr> = (fs, e) \<and>
     absorbs (\<lambda>_. ex_hash) None fs = Some st"
proof -
  let ?run = "writer_run 3 ex_wire (\<lambda>n. if n = 30 then Some 1 else None) ex_arrivals (\<lambda>_. ex_hash)
    (\<lambda>_ _. Some [Inr [1], Inl Interrupted, Inr [2]])
    \<lparr>written = [], wr_step = 0, queue = \<lparr>urgent = [], bulk = []\<rparr>, looks = 0\<rparr>"
  have "\<forall>n. list_all said_by_session (ex_arrivals n)"
    by (simp add: ex_arrivals_def ex_hash_def HASH_LEN_def)
  moreover have "?run = (fst ?run, snd ?run)" by simp
  ultimately show ?thesis using peer_accepts_stream [OF ex_wire_ok, of ex_arrivals] by meson
qed

end
