(* ===== verification/SessionContent.thy ===== *)
theory SessionContent
  imports SessionWriter
begin

text \<open>
  The receiving side (\<open>SessionIncoming\<close>) against its specification (\<open>absorb\<close> of \<open>SessionWriter\<close>): with
  no file operation failing, it accepts exactly the frames the specification accepts, and content ends
  staged under its hash.
\<close>

text \<open>The frames that are content, as the read loop hands them to \<open>Incoming\<close>.\<close>

definition take_frame :: "env \<Rightarrow> frame \<Rightarrow> ('b receiver_scheme, serror, unit) op" where
  "take_frame E f s = (case f of
     BlobStart h len \<Rightarrow> incoming_start E h len
   | BlobChunk bs \<Rightarrow> incoming_chunk E bs
   | BlobEnd \<Rightarrow> thenE (incoming_end E) (ret ())
   | Control m \<Rightarrow> (case m of Aborted h \<Rightarrow> incoming_aborted E h | _ \<Rightarrow> ret ())) s"

definition absorbing_of :: "'b receiver_scheme \<Rightarrow> absorbing" where
  "absorbing_of s = map_option (\<lambda>(h, w). (h, unat (w_len w), w_hasher w)) (open_blob s)"

text \<open>The writer's count is the number of bytes it has hashed, within the announced length.\<close>

definition counted :: "'b receiver_scheme \<Rightarrow> bool" where
  "counted s \<longleftrightarrow> (\<forall>h w. open_blob s = Some (h, w) \<longrightarrow>
     unat (w_written w) = length (w_hasher w) \<and> length (w_hasher w) \<le> unat (w_len w))"

lemma absorbing_None: "absorbing_of s = None \<longleftrightarrow> open_blob s = None"
  by (simp add: absorbing_of_def)

lemma take_frame_g: "guarded (receiver_inv E) (recv_step E) (take_frame E f) (\<lambda>_. receiver_inv E)"
proof -
  have fin: "guarded (receiver_inv E) (recv_step E) (thenE (incoming_end E) (ret ())) (\<lambda>_. receiver_inv E)"
    unfolding thenE_def [abs_def]
    by (rule rcv.bindE_g [OF incoming_end_g]) (auto intro: rcv.ret_g)
  have ab: "guarded (receiver_inv E) (recv_step E) (incoming_aborted E h) (\<lambda>_. receiver_inv E)" for h
    by (rule guarded_post [OF incoming_aborted_g]) simp
  show ?thesis unfolding take_frame_def [abs_def]
    by (cases f) (auto intro: incoming_start_g incoming_chunk_g fin rcv.ret_g ab split: message.splits)
qed

lemma start_plain:
  assumes nf: "\<forall>k. \<not> io_fails E k" and room: "size (staging (rep s)) < 2 ^ 64 - 1"
    and len: "len \<le> max_file_size E" and run: "incoming_start E h len s = (r, t)"
  shows "case open_blob s of
      None \<Rightarrow> r = Inr () \<and> absorbing_of t = Some (h, unat len, []) \<and> counted t
    | Some _ \<Rightarrow> \<exists>why. r = Inl (Protocol why)"
proof (cases "open_blob s")
  case (Some hw)
  with run show ?thesis by (cases hw) (auto simp: incoming_start_def bindE_def)
next
  case None
  obtain w d where w: "stager_writer E (max_file_size E) h len (rep s) = (Inr w, d)"
    using stager_writer_plain [OF nf room len] by blast
  with stager_writer_result [OF w] None run show ?thesis
    by (auto simp: incoming_start_def w on_replica_def bindE_def absorbing_of_def counted_def)
qed

lemma chunk_plain:
  assumes nf: "\<forall>k. \<not> io_fails E k" and inv: "receiver_inv E s" and c: "counted s"
    and small: "unat (max_file_size E) + length bs < 2 ^ 64" and run: "incoming_chunk E bs s = (r, t)"
  shows "case absorb (sha E) (absorbing_of s) (BlobChunk bs) of
      None \<Rightarrow> \<exists>why. r = Inl (Protocol why)
    | Some st \<Rightarrow> r = Inr () \<and> absorbing_of t = st \<and> counted t"
proof (cases "open_blob s")
  case None
  with run show ?thesis by (auto simp: incoming_chunk_def bindE_def absorbing_of_def)
next
  case (Some hw)
  obtain h w where hw: "open_blob s = Some (h, w)" using Some by (cases hw) auto
  note ok = receiver_writer [OF inv hw]
  have cnt: "unat (w_written w) = length (w_hasher w)" "length (w_hasher w) \<le> unat (w_len w)"
    using c hw by (auto simp: counted_def)
  have "length (w_hasher w) \<le> unat (max_file_size E)" using cnt(2) ok by (simp add: word_le_nat_alt)
  with small have total: "unat (sat_add (w_written w) (file_len bs)) = length (w_hasher w @ bs)"
    by (intro sat_add_len cnt) simp
  show ?thesis
  proof (cases "sat_add (w_written w) (file_len bs) \<le> w_len w")
    case True
    from writer_write_plain(1) [OF nf conjunct1 [OF ok] True] obtain d where
      w: "writer_write E w bs (rep s) = (Inr (w\<lparr>w_hasher := w_hasher w @ bs, w_written := sat_add (w_written w) (file_len bs)\<rparr>), d)"
      by blast
    have "length (w_hasher w) + length bs \<le> unat (w_len w)" using True total by (simp add: word_le_nat_alt)
    with hw run total show ?thesis
      by (auto simp: incoming_chunk_def w on_replica_def bindE_def absorbing_of_def counted_def)
  next
    case False
    note w = writer_write_plain(2) [OF nf conjunct1 [OF ok] False]
    have "\<not> length (w_hasher w) + length bs \<le> unat (w_len w)" using False total by (simp add: word_le_nat_alt)
    with hw run show ?thesis
      by (auto simp: incoming_chunk_def w on_replica_def bindE_def absorbing_of_def chunk_error_def)
  qed
qed

lemma end_plain:
  assumes nf: "\<forall>k. \<not> io_fails E k" and inv: "receiver_inv E s" and c: "counted s"
    and run: "incoming_end E s = (r, t)"
  shows "case absorb (sha E) (absorbing_of s) BlobEnd of
      None \<Rightarrow> \<exists>why. r = Inl (Protocol why)
    | Some st \<Rightarrow> (\<exists>h. r = Inr h) \<and> absorbing_of t = st \<and> counted t"
proof (cases "open_blob s")
  case None
  with run show ?thesis by (auto simp: incoming_end_def bindE_def thenE_def absorbing_of_def)
next
  case (Some hw)
  obtain h w where hw: "open_blob s = Some (h, w)" using Some by (cases hw) auto
  note ok = receiver_writer [OF inv hw]
  obtain q d where w: "writer_finish E w (rep s) = (q, d)" by (cases "writer_finish E w (rep s)")
  have "q = (if unat (w_len w) = length (w_hasher w) \<and> sha E (w_hasher w) = h then Inr (to_hex h) else Inl (ContentMismatch h))"
    using writer_finish_plain [OF nf conjunct1 [OF ok]] c hw ok w by (auto simp: counted_def)
  with hw run w show ?thesis
    by (auto simp: incoming_end_def bindE_def thenE_def on_replica_def absorbing_of_def counted_def end_error_def
        split: if_splits)
qed

lemma aborted_plain:
  assumes nf: "\<forall>k. \<not> io_fails E k" and inv: "receiver_inv E s" and run: "incoming_aborted E h s = (r, t)"
  shows "case absorb (sha E) (absorbing_of s) (Control (Aborted h)) of
      None \<Rightarrow> \<exists>why. r = Inl (Protocol why)
    | Some st \<Rightarrow> r = Inr () \<and> absorbing_of t = st \<and> counted t"
proof (cases "\<exists>w. open_blob s = Some (h, w)")
  case False
  with run show ?thesis
    by (auto simp: incoming_aborted_def bindE_def absorbing_of_def absorb.simps(4) split: option.splits prod.splits if_splits)
next
  case True
  then obtain w where hw: "open_blob s = Some (h, w)" by blast
  have "bare w" using receiver_writer [OF inv hw] by (simp add: is_partial_bare)
  from writer_drop_run [OF this, of E "rep s"] obtain d where w: "writer_drop E w (rep s) = (Inr (), d)" by blast
  with hw run show ?thesis
    by (auto simp: incoming_aborted_def bindE_def thenE_def on_replica_def absorbing_of_def counted_def)
qed

lemma ex_replica_inv: "replica_inv ex_env ex_replica"
  by (simp add: replica_inv_def staging_ok_def states_ok_def ahead_def ex_replica_def)

definition ex_receiver :: receiver where
  "ex_receiver = \<lparr>rep = ex_replica, open_blob = None\<rparr>"

lemma ex_receiver_inv: "receiver_inv ex_env ex_receiver"
  using ex_replica_inv by (simp add: receiver_inv_def receiver_base_def blob_ok_def ex_receiver_def)

section \<open>Properties\<close>

text \<open>
  C20: The receiver accepts exactly what its specification accepts. With no file operation failing and
  announced lengths within the limit, each content frame leads to the state the specification says (the
  hash and length announced, the bytes so far, or nothing open), and where the specification has no
  answer (content inside content, a chunk or an end with none open, a chunk past the length, an end
  short of it or of another hash, an abort of other content) the frame is a protocol error. The limits
  on sizes exclude lengths beyond 64 bits and a staging directory of \<open>2 ^ 64\<close> files.
\<close>

theorem incoming_refines:
  assumes "\<forall>k. \<not> io_fails E k" "receiver_inv E s" "counted s"
    and "size (staging (rep s)) < 2 ^ 64 - 1" "unat (max_file_size E) + CHUNK < 2 ^ 64"
    and "case f of BlobStart _ len \<Rightarrow> len \<le> max_file_size E | BlobChunk bs \<Rightarrow> length bs \<le> CHUNK | _ \<Rightarrow> True"
    and "take_frame E f s = (r, t)"
  shows "case absorb (sha E) (absorbing_of s) f of
      None \<Rightarrow> \<exists>why. r = Inl (Protocol why)
    | Some st \<Rightarrow> r = Inr () \<and> absorbing_of t = st \<and> receiver_inv E t \<and> counted t"
proof -
  have inv: "r = Inr () \<Longrightarrow> receiver_inv E t"
    using guardedD [OF take_frame_g assms(2,7)] by simp
  show ?thesis
  proof (cases f)
    case (Control m)
    show ?thesis
    proof (cases "plain_message m")
      case True
      then have "take_frame E f s = (Inr (), s)" unfolding Control by (cases m) (simp_all add: take_frame_def)
      with assms True show ?thesis by (simp add: Control)
    next
      case False
      then obtain h where m: "m = Aborted h" by (cases m) auto
      with assms(7) have "incoming_aborted E h s = (r, t)" by (simp add: Control take_frame_def)
      from aborted_plain [OF assms(1,2) this] inv show ?thesis by (auto simp: Control m split: option.splits)
    qed
  next
    case (BlobStart h len)
    with assms(7) have "incoming_start E h len s = (r, t)" by (simp add: take_frame_def)
    from start_plain [OF assms(1,4) _ this] assms(6) inv show ?thesis
      by (auto simp: BlobStart absorbing_of_def split: option.splits)
  next
    case (BlobChunk bs)
    with assms(7) have "incoming_chunk E bs s = (r, t)" by (simp add: take_frame_def)
    moreover have "unat (max_file_size E) + length bs < 2 ^ 64" using assms(5,6) BlobChunk by simp
    ultimately show ?thesis using chunk_plain [OF assms(1-3), of bs r t] inv
      by (auto simp: BlobChunk simp del: absorb.simps split: option.splits)
  next
    case BlobEnd
    with assms(7) have run: "thenE (incoming_end E) (ret ()) s = (r, t)" by (simp add: take_frame_def)
    obtain q u where q: "incoming_end E s = (q, u)" by (cases "incoming_end E s")
    with run have "t = u" "r = (case q of Inl e \<Rightarrow> Inl e | Inr _ \<Rightarrow> Inr ())" by (cases q; auto simp: runs)+
    with end_plain [OF assms(1-3) q] inv show ?thesis
      by (auto simp: BlobEnd simp del: absorb.simps split: option.splits)
  qed
qed

theorem incoming_refines_witness:
  "\<exists>t. take_frame ex_env (BlobStart [1, 2] 2) ex_receiver = (Inr (), t) \<and> absorbing_of t = Some ([1, 2], 2, [])"
proof -
  obtain r t where run: "take_frame ex_env (BlobStart [1, 2] 2) ex_receiver = (r, t)"
    by (cases "take_frame ex_env (BlobStart [1, 2] 2) ex_receiver")
  from incoming_refines [OF _ ex_receiver_inv _ _ _ _ run] run show ?thesis
    by (auto simp: ex_receiver_def ex_replica_def counted_def absorbing_of_def ex_env_simps CHUNK_def word_le_nat_alt)
qed

text \<open>
  Nothing a peer sends is staged under a hash it does not have. Whatever the frame and whatever
  fails, the workspace's files and the path states stay as they are, the replica stays sound (so all
  staged content has its hash) and keeps what was staged; an accepted \<open>BLOB_END\<close> leaves the content of
  the hash that was announced, staged under its name.
\<close>

theorem received_content_verified:
  assumes "receiver_inv E s" "take_frame E f s = (r, t)"
  shows "receiver_base E t \<and> tree (rep t) = tree (rep s) \<and> current (rep t) = current (rep s) \<and>
    (\<forall>g. bt_has (staging (rep s)) (to_hex g) \<longrightarrow> bt_has (staging (rep t)) (to_hex g)) \<and>
    (f = BlobEnd \<and> r = Inr () \<longrightarrow> (\<exists>h w b n. open_blob s = Some (h, w) \<and> open_blob t = None \<and>
       bt_get (staging (rep t)) (to_hex h) = Some (b, n) \<and> sha E b = h))"
proof -
  note step = guardedD [OF take_frame_g assms]
  have "\<exists>h w b n. open_blob s = Some (h, w) \<and> open_blob t = None \<and>
       bt_get (staging (rep t)) (to_hex h) = Some (b, n) \<and> sha E b = h" if f: "f = BlobEnd" "r = Inr ()"
  proof -
    obtain q u where q: "incoming_end E s = (q, u)" by (cases "incoming_end E s")
    with assms(2) f have "t = u" "\<exists>h. q = Inr h" by (cases q; auto simp: take_frame_def runs)+
    then obtain h where h: "q = Inr h" by blast
    from guardedD [OF incoming_end_g assms(1) q] h \<open>t = u\<close> have e: "receiver_inv E t" "open_blob t = None"
      "bt_has (staging (rep t)) (to_hex h)" by simp_all
    have "\<exists>w. open_blob s = Some (h, w)" using q h
      by (auto simp: incoming_end_def bindE_def thenE_def on_replica_def split: option.splits prod.splits sum.splits)
    with e show ?thesis
      by (fastforce simp: bt_has_def receiver_inv_def receiver_base_def replica_inv_def staging_ok_def)
  qed
  with step assms(1) show ?thesis by (auto simp: recv_step_def receiver_inv_def)
qed

lemma ex_blob_sent:
  "fst (thenE (take_frame ex_env (BlobStart [1, 2] 2)) (take_frame ex_env (BlobChunk [1, 2])) ex_receiver) = Inr ()"
  "fst (take_frame ex_env BlobEnd
     (snd (thenE (take_frame ex_env (BlobStart [1, 2] 2)) (take_frame ex_env (BlobChunk [1, 2])) ex_receiver))) = Inr ()"
  by (simp_all add: take_frame_def incoming_start_def incoming_chunk_def incoming_end_def on_replica_def ex_receiver_def
      replica_eval ex_state_defs word_le_nat_alt)

theorem received_content_verified_witness:
  "\<exists>(s :: receiver) t b n. take_frame ex_env BlobEnd s = (Inr (), t) \<and> bt_get (staging (rep t)) (to_hex [1, 2]) = Some (b, n) \<and>
     sha ex_env b = [1, 2]"
proof -
  let ?m = "thenE (take_frame ex_env (BlobStart [1, 2] 2)) (take_frame ex_env (BlobChunk [1, 2]))"
  let ?s = "snd (?m ex_receiver)"
  obtain t where run: "take_frame ex_env BlobEnd ?s = (Inr (), t)"
    using ex_blob_sent(2) by (metis prod.collapse)
  have "guarded (receiver_inv ex_env) (recv_step ex_env) ?m (\<lambda>_. receiver_inv ex_env)"
    by (rule rcv.thenE_g [OF take_frame_g take_frame_g])
  from guardedD [OF this ex_receiver_inv, of "Inr ()" ?s] ex_blob_sent(1) have "receiver_inv ex_env ?s"
    by (metis prod.collapse)
  from received_content_verified [OF this run] obtain h w b n where
    h: "open_blob ?s = Some (h, w)" "bt_get (staging (rep t)) (to_hex h) = Some (b, n)" "sha ex_env b = h" by auto
  have "map_option fst (open_blob ?s) = Some [1, 2]"
    by (simp add: take_frame_def incoming_start_def incoming_chunk_def on_replica_def ex_receiver_def
        replica_eval ex_state_defs word_le_nat_alt)
  with h have "bt_get (staging (rep t)) (to_hex [1, 2]) = Some (b, n) \<and> sha ex_env b = [1, 2]" by simp
  with run show ?thesis by blast
qed

end
