(* ===== verification/Session.thy ===== *)
theory Session
  imports SessionContent ReplicaCalls
begin

text \<open>
  One replication session (\<open>sapphire-framework-session/src/session.rs\<close>): the greeting, the pages one
  side sends, the loop that reads what the other sends, and the end. The state is the replica with the
  open blob (\<open>receiver\<close>) and the session's own variables; \<open>said\<close> is everything handed to the writer, in
  order. Whether the writer still takes what is sent is the parameter \<open>G\<close> (it is gone from some send
  on when a write failed). What is read is the frames, with other users of the replica getting through
  between them (\<open>Meanwhile\<close>: the replica is locked per step), and how the stream ends: the end of it, an
  error, or the idle timeout, which is the error \<open>read_or_idle\<close> makes of it.
\<close>

definition PAGE :: nat where
  "PAGE = 256"

record side = receiver +
  said :: "out list"
  wanted :: "content_hash btset"
  lacked :: "content_hash btset"
  total :: report
  received_count :: nat
  peer_done :: bool
  peer_settled :: bool
  settled :: bool

text \<open>Why the read loop stopped.\<close>

datatype stop =
    Complete
  | Gone
  | StopRefused string
  | StopProtocol string

record exchange =
  x_peer_vv :: version_vector
  x_sent_vv :: version_vector
  x_sent :: nat
  x_stop :: stop

record session_outcome =
  o_sent :: nat
  o_received :: nat
  o_report :: report

section \<open>Parts\<close>

definition send :: "(nat \<Rightarrow> bool) \<Rightarrow> out \<Rightarrow> ('z side_scheme, serror, unit) op" where
  "send G item s = (if G (length (said s)) then (Inl Closed, s) else (Inr (), s\<lparr>said := said s @ [item]\<rparr>))"

definition merge_report :: "report \<Rightarrow> report \<Rightarrow> report" where
  "merge_report into from =
     \<lparr>recorded = recorded into @ recorded from, changed = changed into + changed from,
      conflicts = conflicts into @ conflicts from, skipped = skipped into @ skipped from\<rparr>"

text \<open>\<open>inline_hashes\<close>, and the hashes of \<open>needed\<close>: the content of \<open>most\<close> bytes or less.\<close>

definition inline_hashes :: "path_update list \<Rightarrow> u64 \<Rightarrow> content_hash list" where
  "inline_hashes us most = concat (map (\<lambda>u. concat (map (\<lambda>v. case e_content v of
     File h len \<Rightarrow> if len \<le> most then [h] else []
   | Tombstone \<Rightarrow> []) (u_versions u))) us)"

definition needed :: "env \<Rightarrow> path_update list \<Rightarrow> ('b receiver_scheme, serror, content_hash list) op" where
  "needed E us s = (let hashes = inline_hashes us (max_file_size E) in
     bindE (on_replica Sync (content_paths E hashes)) (\<lambda>have_them.
       ret (filter (\<lambda>h. \<not> bt_has have_them h) hashes))) s"

definition answer :: "env \<Rightarrow> content_hash \<Rightarrow> ('b receiver_scheme, serror, out) op" where
  "answer E h s = bindE (attempt (on_replica Sync (content_path E h))) (\<lambda>r. ret (case r of
     Inr (Some (path, len)) \<Rightarrow> OutBlob h path len
   | _ \<Rightarrow> OutControl (Missing h))) s"

definition reason :: "wire \<Rightarrow> serror \<Rightarrow> string" where
  "reason W e = (case e of Protocol why \<Rightarrow> why | other \<Rightarrow> display W other)"

text \<open>\<open>wanted.insert(hash)\<close> and the \<open>Want\<close> that goes with it.\<close>

definition ask :: "(nat \<Rightarrow> bool) \<Rightarrow> content_hash \<Rightarrow> ('z side_scheme, serror, unit) op" where
  "ask G h s = bindE (reading wanted) (\<lambda>w. if bt_has w h then ret ()
     else thenE (update (\<lambda>s. s\<lparr>wanted := bs_insert h w\<rparr>)) (send G (OutControl (Want h)))) s"

definition answered :: "content_hash \<Rightarrow> (side, serror, unit) op" where
  "answered h s = (Inr (), s\<lparr>wanted := bt_remove h (wanted s)\<rparr>)"

definition lacking :: "content_hash \<Rightarrow> (side, serror, unit) op" where
  "lacking h s = (Inr (), s\<lparr>wanted := bt_remove h (wanted s), lacked := bs_insert h (lacked s)\<rparr>)"

section \<open>What a frame does\<close>

definition on_updates :: "env \<Rightarrow> (nat \<Rightarrow> bool) \<Rightarrow> path_update list \<Rightarrow> (side, serror, unit) op" where
  "on_updates E G us s =
     thenE (update (\<lambda>s. s\<lparr>received_count := received_count s + length us\<rparr>))
    (bindE (on_replica Sync (replica_apply E us (\<lambda>_. None))) (\<lambda>page.
     thenE (update (\<lambda>s. s\<lparr>total := merge_report (total s) page\<rparr>))
    (bindE (needed E us) (each (ask G))))) s"

definition on_done :: "env \<Rightarrow> (nat \<Rightarrow> bool) \<Rightarrow> (side, serror, unit) op" where
  "on_done E G s =
     thenE (update (\<lambda>s. s\<lparr>peer_done := True\<rparr>))
    (bindE (on_replica Sync (unavailable E)) (each (\<lambda>h.
       bindE (reading lacked) (\<lambda>l. if bt_has l h then ret () else ask G h)))) s"

text \<open>A result that stops the loop when it is an error (\<open>break Stop::Protocol(reason(e))\<close>).\<close>

definition or_stop :: "wire \<Rightarrow> (side, serror, 'a) op \<Rightarrow> ('a \<Rightarrow> (side, serror, unit) op) \<Rightarrow> (side, serror, stop option) op" where
  "or_stop W m f s = bindE (attempt m) (\<lambda>r. case r of
     Inl e \<Rightarrow> ret (Some (StopProtocol (reason W e)))
   | Inr x \<Rightarrow> thenE (f x) (ret None)) s"

definition on_message :: "env \<Rightarrow> wire \<Rightarrow> (nat \<Rightarrow> bool) \<Rightarrow> message \<Rightarrow> (side, serror, stop option) op" where
  "on_message E W G m s = (case m of
     Updates us \<Rightarrow> thenE (on_updates E G us) (ret None)
   | Done \<Rightarrow> thenE (on_done E G) (ret None)
   | Settled \<Rightarrow> thenE (update (\<lambda>s. s\<lparr>peer_settled := True\<rparr>)) (ret None)
   | Want h \<Rightarrow> bindE (answer E h) (\<lambda>reply. thenE (send G reply) (ret None))
   | Missing h \<Rightarrow> thenE (lacking h) (ret None)
   | Aborted h \<Rightarrow> or_stop W (incoming_aborted E h) (\<lambda>_. lacking h)
   | Live _ \<Rightarrow> ret (Some (StopProtocol ''a Live push before the initial exchange finished''))
   | Refused why \<Rightarrow> ret (Some (StopRefused why))
   | Hello _ _ _ _ _ \<Rightarrow> ret (Some (StopProtocol ''a second Hello''))) s"

definition on_frame :: "env \<Rightarrow> wire \<Rightarrow> (nat \<Rightarrow> bool) \<Rightarrow> frame \<Rightarrow> (side, serror, stop option) op" where
  "on_frame E W G f s = (case f of
     Control m \<Rightarrow> on_message E W G m
   | BlobStart h len \<Rightarrow> or_stop W (incoming_start E h len) (\<lambda>_. ret ())
   | BlobChunk bs \<Rightarrow> or_stop W (incoming_chunk E bs) (\<lambda>_. ret ())
   | BlobEnd \<Rightarrow> or_stop W (incoming_end E) answered) s"

text \<open>The want list can no longer grow: say so, once.\<close>

definition settle_up :: "(nat \<Rightarrow> bool) \<Rightarrow> (side, serror, unit) op" where
  "settle_up G s = (if peer_done s \<and> wanted s = bt_empty \<and> \<not> settled s
     then thenE (update (\<lambda>s. s\<lparr>settled := True\<rparr>)) (send G (OutControl Settled)) else ret ()) s"

section \<open>The read loop\<close>

datatype input =
    Frame frame
  | Meanwhile event

definition complete :: "side \<Rightarrow> bool" where
  "complete s \<longleftrightarrow> peer_done s \<and> peer_settled s \<and> wanted s = bt_empty"

fun exchange_loop :: "env \<Rightarrow> wire \<Rightarrow> (nat \<Rightarrow> bool) \<Rightarrow> input list \<Rightarrow> serror option \<Rightarrow> (side, serror, stop) op" where
  "exchange_loop E W G [] e s =
     (if complete s then ret Complete else case e of None \<Rightarrow> ret Gone | Some err \<Rightarrow> throw err) s"
| "exchange_loop E W G (Meanwhile ev # ins) e s =
     (if complete s then ret Complete
      else thenE (update (\<lambda>s. s\<lparr>rep := run_event E ev (rep s)\<rparr>)) (exchange_loop E W G ins e)) s"
| "exchange_loop E W G (Frame f # ins) e s =
     (if complete s then ret Complete
      else bindE (on_frame E W G f) (\<lambda>stop. case stop of
        Some why \<Rightarrow> ret why
      | None \<Rightarrow> thenE (settle_up G) (exchange_loop E W G ins e))) s"

section \<open>Greeting\<close>

definition greet :: "env \<Rightarrow> (nat \<Rightarrow> bool) \<Rightarrow> grain_id \<Rightarrow> (side, serror, unit) op" where
  "greet E G ws s = bindE (reading (\<lambda>s. live_meta (rep s))) (\<lambda>m.
     send G (OutControl (Hello SESSION_FORMAT_VERSION ws (m_replica m) (m_vv m) (max_file_size E)))) s"

text \<open>
  What the first frame says; \<open>Inl\<close> is a read error or the \<open>HELLO_TIMEOUT\<close>. \<open>dbg\<close> prints a frame for
  the error (\<open>{other:?}\<close>).
\<close>

definition check_hello :: "env \<Rightarrow> (nat \<Rightarrow> bool) \<Rightarrow> (frame option \<Rightarrow> string) \<Rightarrow> grain_id \<Rightarrow> serror + frame option
    \<Rightarrow> (side, serror, version_vector \<times> u64) op" where
  "check_hello E G dbg ws hello s = (case hello of
     Inl e \<Rightarrow> throw e
   | Inr (Some (Control (Hello format theirs _ vv most))) \<Rightarrow>
       if format \<noteq> SESSION_FORMAT_VERSION
       then thenE (attempt (send G (OutControl (Refused (''session format '' @ show_nat (unat format) @ '', expected ''
              @ show_nat (unat SESSION_FORMAT_VERSION))))) :: (side, serror, serror + unit) op)
            (throw (VersionMismatch SESSION_FORMAT_VERSION format))
       else if theirs \<noteq> ws
       then thenE (attempt (send G (OutControl (Refused (''this stream is for workspace '' @ show_grain E ws @ '', not ''
              @ show_grain E theirs)))) :: (side, serror, serror + unit) op)
            (throw (Protocol (''workspace mismatch: the peer is syncing '' @ show_grain E theirs
              @ '', this session is for '' @ show_grain E ws)))
       else ret (vv, most)
   | Inr (Some (Control (Refused why))) \<Rightarrow> throw (SRefused why)
   | Inr other \<Rightarrow> throw (Protocol (''expected Hello, got '' @ dbg other))) s"

section \<open>What this side sends\<close>

function chunks_of :: "nat \<Rightarrow> 'a list \<Rightarrow> 'a list list" where
  "chunks_of n xs = (if xs = [] \<or> n = 0 then [] else take n xs # chunks_of n (drop n xs))"
  by pat_completeness auto
termination by (relation "measure (\<lambda>(n, xs). length xs)") auto

declare chunks_of.simps [simp del]

text \<open>One page, with the content it inlines in front of it.\<close>

definition page_items :: "u64 \<Rightarrow> (content_hash, place_of \<times> u64) btmap \<Rightarrow> path_update list \<Rightarrow> out list" where
  "page_items most inline page = concat (map (\<lambda>h. case bt_get inline h of
     Some (path, len) \<Rightarrow> [OutBlob h path len]
   | None \<Rightarrow> []) (inline_hashes page most)) @ [OutControl (Updates page)]"

definition outgoing :: "u64 \<Rightarrow> (content_hash, place_of \<times> u64) btmap \<Rightarrow> path_update list \<Rightarrow> out list" where
  "outgoing most inline delta = concat (map (page_items most inline) (chunks_of PAGE delta)) @ [OutControl Done]"

definition plan_outgoing :: "env \<Rightarrow> version_vector \<Rightarrow> u64 \<Rightarrow> (side, serror, version_vector \<times> nat \<times> out list) op" where
  "plan_outgoing E peer_vv peer_max s =
     bindE (on_replica Sync (delta_for E peer_vv)) (\<lambda>delta.
     let most = min INLINE_LIMIT peer_max in
     bindE (attempt (on_replica Sync (content_paths E (inline_hashes delta most)))) (\<lambda>r.
     let inline = (case r of Inr m \<Rightarrow> m | Inl (_ :: serror) \<Rightarrow> bt_empty) in
     bindE (reading (\<lambda>s. m_vv (live_meta (rep s)))) (\<lambda>vv.
     ret (vv, length delta, outgoing most inline delta)))) s"

section \<open>The session\<close>

definition fresh_locals :: "side \<Rightarrow> side" where
  "fresh_locals s = s\<lparr>open_blob := None, wanted := bt_empty, lacked := bt_empty, total := report_default, received_count := 0,
     peer_done := False, peer_settled := False, settled := False\<rparr>"

definition initial_exchange :: "env \<Rightarrow> wire \<Rightarrow> (nat \<Rightarrow> bool) \<Rightarrow> (frame option \<Rightarrow> string) \<Rightarrow> grain_id
    \<Rightarrow> serror + frame option \<Rightarrow> input list \<Rightarrow> serror option \<Rightarrow> (side, serror, exchange) op" where
  "initial_exchange E W G dbg ws hello ins e s =
     thenE (greet E G ws)
    (bindE (check_hello E G dbg ws hello) (\<lambda>(peer_vv, peer_max).
     bindE (plan_outgoing E peer_vv peer_max) (\<lambda>(sent_vv, sent, items).
     thenE (update fresh_locals)
    (bindE (attempt (thenE (each (send G) items) (exchange_loop E W G ins e))) (\<lambda>looped.
     bindE (case looped of
         Inr stop \<Rightarrow> ret stop
       | Inl err \<Rightarrow> if err = Closed then ret Gone else throw err) (\<lambda>stop.
     ret \<lparr>x_peer_vv = peer_vv, x_sent_vv = sent_vv, x_sent = sent, x_stop = stop\<rparr>)))))) s"

definition materialise :: "env \<Rightarrow> version_vector \<Rightarrow> (side, serror, unit) op" where
  "materialise E peer_vv s =
     bindE (on_replica Sync (fetch_missing E (\<lambda>_. None))) (\<lambda>fetched.
     thenE (update (\<lambda>s. s\<lparr>total := merge_report (total s) fetched\<rparr>))
       (on_replica Sync (commit_session E peer_vv))) s"

definition outcome_of :: "nat \<Rightarrow> side \<Rightarrow> session_outcome" where
  "outcome_of sent s = \<lparr>o_sent = sent, o_received = received_count s, o_report = total s\<rparr>"

text \<open>The open blob is dropped with the rest of the exchange before it is decided how it ended.\<close>

definition run_session :: "env \<Rightarrow> wire \<Rightarrow> (nat \<Rightarrow> bool) \<Rightarrow> (frame option \<Rightarrow> string) \<Rightarrow> grain_id
    \<Rightarrow> serror + frame option \<Rightarrow> input list \<Rightarrow> serror option \<Rightarrow> (side, serror, session_outcome) op" where
  "run_session E W G dbg ws hello ins e s =
     bindE (attempt (initial_exchange E W G dbg ws hello ins e)) (\<lambda>r.
     thenE (incoming_drop E)
    (bindE (outcome r) (\<lambda>x. case x_stop x of
       Complete \<Rightarrow> thenE (materialise E (x_peer_vv x)) (reading (outcome_of (x_sent x)))
     | Gone \<Rightarrow> reading (outcome_of (x_sent x))
     | StopRefused why \<Rightarrow> throw (SRefused why)
     | StopProtocol why \<Rightarrow> throw (Protocol why)))) s"

section \<open>What a session keeps\<close>

text \<open>
  The replica stays sound, and what it has stored and seen only grows.
\<close>

definition sess :: "env \<Rightarrow> 'b receiver_scheme \<Rightarrow> 'b receiver_scheme \<Rightarrow> bool" where
  "sess E s t \<longleftrightarrow> (receiver_base E s \<longrightarrow> receiver_base E t \<and> db_grows (rep s) (rep t)) \<and>
     (\<forall>q st. bt_get (current (rep s)) q = Some st \<longrightarrow>
        (\<exists>st'. bt_get (current (rep t)) q = Some st' \<and> covers (p_seen st') (p_seen st)))"

interpretation ses: step_relation "sess E" for E
proof
  show "sess E s s" for s :: "'b receiver_scheme" by (auto simp: sess_def intro: db_grows_same)
  show "sess E s t \<Longrightarrow> sess E t u \<Longrightarrow> sess E s u" for s t u :: "'b receiver_scheme"
    unfolding sess_def by (meson covers_trans db_grows_trans)
qed

lemma recv_sess: "recv_step E s t \<Longrightarrow> sess E s t"
  by (auto simp: recv_step_def sess_def intro: db_grows_same)

lemma step_sess:
  assumes "grown X E (rep s) d" "receiver_base E s"
  shows "sess E s (s\<lparr>rep := d\<rparr>)"
    and "receiver_inv E s \<Longrightarrow> receiver_inv E (s\<lparr>rep := d\<rparr>)"
proof -
  have inv: "replica_inv E (rep s)" using assms(2) by (simp add: receiver_base_def)
  note step = grownD [OF assms(1)]
  have base: "receiver_base E (s\<lparr>rep := d\<rparr>)" using assms(2) step(1) inv by (simp add: receiver_base_def)
  with step inv show "sess E s (s\<lparr>rep := d\<rparr>)" by (simp add: sess_def)
  show "receiver_inv E (s\<lparr>rep := d\<rparr>)" if "receiver_inv E s"
  proof -
    have "writer_ok w d" if "open_blob s = Some (h, w)" for h w
      using receiver_writer [OF \<open>receiver_inv E s\<close> that] step(6) by (auto simp: writer_ok_def partials_kept_def)
    with that base show ?thesis by (auto simp: receiver_inv_def blob_ok_def)
  qed
qed

lemma on_replica_g:
  assumes "guarded (replica_inv E) (step_on X E) m Q"
  shows "guarded (receiver_inv E) (sess E) (on_replica err m) (\<lambda>x s. receiver_inv E s \<and> Q x (rep s))"
proof (rule guardedI)
  fix s t :: "'b receiver_scheme" and r
  assume inv: "receiver_inv E s" and run: "on_replica err m s = (r, t)"
  obtain q d where q: "m (rep s) = (q, d)" by (cases "m (rep s)")
  have base: "receiver_base E s" using inv by (rule inv_base)
  then have "replica_inv E (rep s)" by (simp add: receiver_base_def)
  from guardedD [OF assms this q] step_on_grown have st: "grown X E (rep s) d" "\<forall>x. q = Inr x \<longrightarrow> Q x d" by auto
  have t: "t = s\<lparr>rep := d\<rparr>" "\<And>x. r = Inr x \<Longrightarrow> q = Inr x" using run q by (cases q; simp add: on_replica_def)+
  have "receiver_inv E t" unfolding t(1) by (rule step_sess(2) [OF st(1) base inv])
  moreover have "sess E s t" unfolding t(1) by (rule step_sess(1) [OF st(1) base])
  moreover have "\<forall>x. r = Inr x \<longrightarrow> Q x (rep t)" using t st(2) by simp
  ultimately show "sess E s t \<and> (\<forall>x. r = Inr x \<longrightarrow> receiver_inv E t \<and> Q x (rep t))" by blast
qed

lemma on_replica_step:
  assumes "guarded (replica_inv E) (step_on X E) m (\<lambda>_ _. True)"
  shows "guarded (receiver_inv E) (sess E) (on_replica err m) (\<lambda>_. receiver_inv E)"
  by (rule guarded_post [OF on_replica_g [OF assms]]) simp

lemma on_replica_idle:
  assumes "keeps (idle E) m"
  shows "guarded (receiver_inv E) (sess E) (on_replica err m) (\<lambda>_. receiver_inv E)"
  by (rule on_replica_step [where X = "{}", OF idle_true [OF assms]])

text \<open>An update of the session's own variables.\<close>

lemma locals_g:
  assumes "\<And>s. rep (f s) = rep s" "\<And>s. open_blob (f s) = open_blob s"
  shows "guarded (receiver_inv E) (sess E) (update f) (\<lambda>_. receiver_inv E)"
proof (rule ses.update_g)
  fix s
  show "sess E s (f s)" using assms by (auto simp: sess_def receiver_base_def intro: db_grows_same)
  assume "receiver_inv E s"
  then show "receiver_inv E (f s)" using assms by (simp add: receiver_inv_def receiver_base_def)
qed

lemma locals_inv: "\<lbrakk>rep t = rep s; open_blob t = open_blob s\<rbrakk> \<Longrightarrow> receiver_inv E t = receiver_inv E s"
  by (simp add: receiver_base_def receiver_inv_def)

lemma locals_sess: "\<lbrakk>rep t = rep s; open_blob t = open_blob s\<rbrakk> \<Longrightarrow> sess E s t"
  by (auto simp: sess_def receiver_base_def intro: db_grows_same)

lemma send_g: "guarded (receiver_inv E) (sess E) (send G item) (\<lambda>_. receiver_inv E)"
proof (rule guardedI)
  fix s t r assume "receiver_inv E s" and run: "send G item s = (r, t)"
  moreover have "rep t = rep s" "open_blob t = open_blob s" using run by (auto simp: send_def split: if_splits)
  ultimately show "sess E s t \<and> (\<forall>x. r = Inr x \<longrightarrow> receiver_inv E t)" by (simp add: locals_sess locals_inv [of t s])
qed

lemma answered_eq: "answered h = update (\<lambda>s. s\<lparr>wanted := bt_remove h (wanted s)\<rparr>)"
  and lacking_eq: "lacking h = update (\<lambda>s. s\<lparr>wanted := bt_remove h (wanted s), lacked := bs_insert h (lacked s)\<rparr>)"
  by (simp_all add: fun_eq_iff answered_def lacking_def)

lemma answered_g: "guarded (receiver_inv E) (sess E) (answered h) (\<lambda>_. receiver_inv E)"
  and lacking_g: "guarded (receiver_inv E) (sess E) (lacking h) (\<lambda>_. receiver_inv E)"
  unfolding answered_eq lacking_eq by (rule locals_g; simp)+

lemma ask_g: "guarded (receiver_inv E) (sess E) (ask G h) (\<lambda>_. receiver_inv E)"
  unfolding ask_def [abs_def]
  by (intro ses.reading_then_g guarded_if ses.ret_g ses.thenE_g [OF locals_g] send_g) simp_all

lemma settle_up_g: "guarded (receiver_inv E) (sess E) (settle_up G) (\<lambda>_. receiver_inv E)"
proof -
  have "guarded (receiver_inv E) (sess E) (thenE (update (\<lambda>s :: side. s\<lparr>settled := True\<rparr>)) (send G (OutControl Settled))) (\<lambda>_. receiver_inv E)"
    by (intro ses.thenE_g [OF locals_g] send_g) simp_all
  then show ?thesis unfolding guarded_def settle_up_def by (simp add: ses.same)
qed

lemma content_paths_idle: "keeps (idle E) (content_paths E hs)"
  unfolding content_paths_def [abs_def] by (intro idle_ops keeps_control idle_fs content_path_with_idle)

lemma content_path_idle: "keeps (idle E) (content_path E h)"
  unfolding content_path_def [abs_def] by (intro idle_ops idle_fs content_path_with_idle)

lemma unavailable_idle: "keeps (idle E) (unavailable E)"
proof -
  have "keeps (idle E) (wanted_of E f ix w item)" for f ix w item
    unfolding wanted_of_def [abs_def] Let_def
    by (intro keeps_prod keeps_control idle_ops idle_fs winner_of_idle) (auto split: content.splits intro!: keeps_control idle_ops idle_fs)
  then show ?thesis
    unfolding unavailable_def [abs_def] Let_def by (intro idle_ops keeps_control idle_fs content_path_with_idle)
qed

lemma delta_for_idle: "keeps (idle E) (delta_for E' vv)"
  unfolding delta_for_def [abs_def] store_all_def [abs_def] by (intro idle_ops)

lemma needed_g: "guarded (receiver_inv E) (sess E) (needed E us) (\<lambda>_. receiver_inv E)"
  unfolding needed_def [abs_def] Let_def
  by (intro ses.bindE_g [OF on_replica_idle [OF content_paths_idle]] ses.ret_g) auto

lemma on_updates_g: "guarded (receiver_inv E) (sess E) (on_updates E G us) (\<lambda>_. receiver_inv E)"
  unfolding on_updates_def [abs_def]
  by (intro ses.thenE_g [OF locals_g] ses.bindE_g [OF on_replica_step [OF replica_apply_g]]
      ses.bindE_g [OF needed_g] ses.each_g ask_g) simp_all

lemma on_done_g: "guarded (receiver_inv E) (sess E) (on_done E G) (\<lambda>_. receiver_inv E)"
  unfolding on_done_def [abs_def]
  by (intro ses.thenE_g [OF locals_g] ses.bindE_g [OF on_replica_idle [OF unavailable_idle]] ses.each_g
      ses.reading_then_g guarded_if ses.ret_g ask_g) simp_all

text \<open>A frame that does not stop the loop leaves the receiver sound.\<close>

abbreviation going :: "env \<Rightarrow> stop option \<Rightarrow> side \<Rightarrow> bool" where
  "going E stop s \<equiv> (stop = None \<longrightarrow> receiver_inv E s)"

lemma or_stop_g:
  assumes "guarded (receiver_inv E) (sess E) m (\<lambda>_. receiver_inv E)"
    and "\<And>x. guarded (receiver_inv E) (sess E) (f x) (\<lambda>_. receiver_inv E)"
  shows "guarded (receiver_inv E) (sess E) (or_stop W m f) (going E)"
  unfolding or_stop_def [abs_def]
proof (rule ses.bindE_g [OF ses.attempt_any_g [OF assms(1)]])
  fix r :: "serror + 'a"
  show "guarded (\<lambda>s. \<forall>x. r = Inr x \<longrightarrow> receiver_inv E s) (sess E)
      (case r of Inl e \<Rightarrow> ret (Some (StopProtocol (reason W e))) | Inr x \<Rightarrow> thenE (f x) (ret None)) (going E)"
  proof (cases r)
    case (Inl e)
    then show ?thesis by (simp add: ses.ret_g)
  next
    case (Inr x)
    have "guarded (receiver_inv E) (sess E) (thenE (f x) (ret None)) (going E)"
      by (intro ses.thenE_g [OF assms(2)] ses.ret_g) simp
    with Inr show ?thesis by simp
  qed
qed

lemma going_on: "guarded (receiver_inv E) (sess E) m (\<lambda>_. receiver_inv E) \<Longrightarrow>
    guarded (receiver_inv E) (sess E) (thenE m (ret None)) (going E)"
  by (intro ses.thenE_g ses.ret_g) auto

lemma attempt_replica_g:
  assumes "keeps (idle E) m"
  shows "guarded (receiver_inv E) (sess E) (attempt (on_replica err m)) (\<lambda>_. receiver_inv E)"
proof (rule guardedI)
  fix s t :: "'b receiver_scheme" and r
  assume inv: "receiver_inv E s" and run: "attempt (on_replica err m) s = (r, t)"
  obtain q d where q: "m (rep s) = (q, d)" by (cases "m (rep s)")
  have t: "t = s\<lparr>rep := d\<rparr>" using run q by (auto simp: attempt_def on_replica_def split: prod.splits)
  have "grown {} E (rep s) d" by (rule step_on_grown [OF idle_step [OF keepsE [OF assms q]]])
  from step_sess [OF this inv_base [OF inv]] inv show "sess E s t \<and> (\<forall>x. r = Inr x \<longrightarrow> receiver_inv E t)"
    unfolding t by blast
qed

lemma answer_g: "guarded (receiver_inv E) (sess E) (answer E h) (\<lambda>_. receiver_inv E)"
  unfolding answer_def [abs_def]
  by (rule ses.bindE_g [OF attempt_replica_g [OF content_path_idle]]) (rule ses.ret_g)

lemma on_message_g: "guarded (receiver_inv E) (sess E) (on_message E W G m) (going E)"
  unfolding on_message_def [abs_def]
  by (cases m)
    (auto intro!: going_on on_updates_g on_done_g lacking_g locals_g ses.ret_g or_stop_g
       guarded_rel [OF guarded_post [OF incoming_aborted_g] recv_sess] ses.bindE_g [OF answer_g] send_g)

lemma on_frame_g: "guarded (receiver_inv E) (sess E) (on_frame E W G f) (going E)"
  unfolding on_frame_def [abs_def]
  by (cases f)
    (auto intro!: on_message_g or_stop_g ses.ret_g answered_g guarded_rel [OF incoming_start_g recv_sess]
       guarded_rel [OF incoming_chunk_g recv_sess] guarded_rel [OF guarded_post [OF incoming_end_g] recv_sess])

text \<open>Other users of the replica, other than a process that opens it anew.\<close>

fun same_process :: "input \<Rightarrow> bool" where
  "same_process (Meanwhile (Reopen _)) \<longleftrightarrow> False"
| "same_process _ \<longleftrightarrow> True"

lemma run_event_step:
  assumes "replica_inv E s" "same_process (Meanwhile ev)"
  shows "grown UNIV E s (run_event E ev s)"
proof -
  have g: "grown UNIV E s (snd (m s))" if "guarded (replica_inv E) (step_on UNIV E) m (\<lambda>_ _. True)" for m :: "'x rep"
    using guardedD [OF that assms(1)] step_on_grown by (metis prod.collapse)
  show ?thesis
  proof (cases ev)
    case (CommitSession vv)
    then show ?thesis using step_on_grown [OF idle_step [OF keepsD [OF commit_session_idle]]] by simp
  next
    case (Outside x)
    then show ?thesis using unseen_grown [OF removes_unseen [OF tree_removes no_name]] by simp
  next
    case (Reopen rid)
    with assms(2) show ?thesis by simp
  qed (use g [OF scan_g] g [OF replica_apply_g] g [OF fetch_missing_g] in simp_all)
qed

lemma meanwhile_g:
  assumes "same_process (Meanwhile ev)"
  shows "guarded (receiver_inv E) (sess E) (update (\<lambda>s. s\<lparr>rep := run_event E ev (rep s)\<rparr>)) (\<lambda>_. receiver_inv E)"
proof (rule ses.update_g)
  fix s assume inv: "receiver_inv E s"
  then have "replica_inv E (rep s)" by (simp add: receiver_inv_def receiver_base_def)
  note step = step_sess [OF run_event_step [OF this assms] inv_base [OF inv]]
  from step(1) show "sess E s (s\<lparr>rep := run_event E ev (rep s)\<rparr>)" .
  show "receiver_inv E (s\<lparr>rep := run_event E ev (rep s)\<rparr>)" by (rule step(2) [OF inv])
qed

lemma exchange_loop_eqs:
  "exchange_loop E W G (Meanwhile ev # ins) e = (\<lambda>s. (if complete s then ret Complete
      else thenE (update (\<lambda>s. s\<lparr>rep := run_event E ev (rep s)\<rparr>)) (exchange_loop E W G ins e)) s)"
  "exchange_loop E W G (Frame f # ins) e = (\<lambda>s. (if complete s then ret Complete
      else bindE (on_frame E W G f) (\<lambda>stop. case stop of
        Some why \<Rightarrow> ret why
      | None \<Rightarrow> thenE (settle_up G) (exchange_loop E W G ins e))) s)"
  by (simp_all add: fun_eq_iff)

lemma guarded_state_if:
  "\<lbrakk>guarded P R m Q; guarded P R n Q\<rbrakk> \<Longrightarrow> guarded P R (\<lambda>s. (if c s then m else n) s) Q"
  by (auto simp: guarded_def)

lemma loop_g:
  "list_all same_process ins \<Longrightarrow> guarded (receiver_inv E) (sess E) (exchange_loop E W G ins e) (\<lambda>_ _. True)"
proof (induction ins)
  case Nil
  have "exchange_loop E W G [] e = (\<lambda>s. (if complete s then ret Complete
      else case e of None \<Rightarrow> ret Gone | Some err \<Rightarrow> throw err) s)" by (simp add: fun_eq_iff)
  then show ?case by (simp only:, intro guarded_state_if) (auto split: option.splits intro: ses.ret_g ses.throw_g)
next
  case (Cons i ins)
  then have rest: "guarded (receiver_inv E) (sess E) (exchange_loop E W G ins e) (\<lambda>_ _. True)" by simp
  show ?case
  proof (cases i)
    case (Meanwhile ev)
    with Cons.prems have "same_process (Meanwhile ev)" by simp
    with rest show ?thesis unfolding Meanwhile exchange_loop_eqs
      by (intro guarded_state_if ses.ret_g ses.thenE_g [OF meanwhile_g]) simp_all
  next
    case (Frame f)
    have "guarded (going E stop) (sess E) (case stop of Some why \<Rightarrow> ret why
        | None \<Rightarrow> thenE (settle_up G) (exchange_loop E W G ins e)) (\<lambda>_ _. True)" for stop
      by (cases stop) (auto intro!: ses.ret_g ses.thenE_g [OF settle_up_g rest])
    then show ?thesis unfolding Frame exchange_loop_eqs
      by (intro guarded_state_if ses.ret_g ses.bindE_g [OF on_frame_g]) simp_all
  qed
qed

lemma greet_g: "guarded (receiver_inv E) (sess E) (greet E G ws) (\<lambda>_. receiver_inv E)"
  unfolding greet_def [abs_def] by (intro ses.reading_then_g send_g)

lemma attempt_send_g:
  "guarded (receiver_inv E) (sess E) (thenE (attempt (send G item) :: (side, serror, serror + unit) op) (throw e)) Q"
proof -
  have "keeps (sess E) (send G item)"
    by (rule keepsI) (auto simp: send_def ses.same locals_sess)
  then show ?thesis
    by (intro ses.thenE_g [OF guarded_keeps [OF ses.attempt_r]] ses.throw_g)
qed

lemma check_hello_g: "guarded (receiver_inv E) (sess E) (check_hello E G dbg ws hello) (\<lambda>_. receiver_inv E)"
  unfolding check_hello_def [abs_def]
  by (auto split: sum.splits option.splits frame.splits message.splits
      intro!: ses.throw_g ses.ret_g attempt_send_g)

lemma plan_outgoing_g: "guarded (receiver_inv E) (sess E) (plan_outgoing E vv most) (\<lambda>_. receiver_inv E)"
  unfolding plan_outgoing_def [abs_def] Let_def
  by (intro ses.bindE_g [OF on_replica_idle [OF delta_for_idle]] ses.bindE_g [OF attempt_replica_g [OF content_paths_idle]]
      ses.reading_then_g ses.ret_g)

lemma fresh_g: "guarded (receiver_inv E) (sess E) (update fresh_locals) (\<lambda>_. receiver_inv E)"
proof (rule ses.update_g)
  fix s :: side assume "receiver_inv E s"
  then show "receiver_inv E (fresh_locals s)" "sess E s (fresh_locals s)"
    by (auto simp: fresh_locals_def receiver_inv_def receiver_base_def blob_ok_def sess_def intro: db_grows_same)
qed

lemma initial_exchange_g:
  assumes "list_all same_process ins"
  shows "guarded (receiver_inv E) (sess E) (initial_exchange E W G dbg ws hello ins e) (\<lambda>_ _. True)"
proof -
  have loop: "guarded (receiver_inv E) (sess E) (attempt (thenE (each (send G) items) (exchange_loop E W G ins e))) (\<lambda>_ _. True)" for items
    by (intro ses.attempt_true_g [where Q = "\<lambda>_ _. True"] ses.thenE_g [OF ses.each_g] send_g loop_g [OF assms])
  have stopped: "guarded (\<lambda>_. True) (sess E) (bindE (case looped of
         Inr stop \<Rightarrow> ret stop
       | Inl err \<Rightarrow> if err = Closed then ret Gone else throw err) (\<lambda>stop. ret (x stop))) (\<lambda>_ _. True)"
    for looped :: "serror + stop" and x :: "stop \<Rightarrow> exchange"
    by (intro ses.bindE_g ses.ret_g guarded_sum guarded_if ses.throw_g) simp_all

  show ?thesis unfolding initial_exchange_def [abs_def]
    by (intro ses.thenE_g [OF greet_g] ses.bindE_g [OF check_hello_g] guarded_prod ses.bindE_g [OF plan_outgoing_g]
        ses.thenE_g [OF fresh_g] ses.bindE_g [OF loop] stopped)
qed

lemma materialise_g: "guarded (receiver_inv E) (sess E) (materialise E vv) (\<lambda>_. receiver_inv E)"
  unfolding materialise_def [abs_def]
  by (intro ses.bindE_g [OF on_replica_step [OF fetch_missing_g]] ses.thenE_g [OF locals_g]
      on_replica_idle [OF commit_session_idle]) simp_all

text \<open>Dropping the open blob leaves the receiver sound, whatever went before.\<close>

lemma after_exchange_g:
  assumes "list_all same_process ins"
  shows "guarded (receiver_inv E) (sess E) (attempt (initial_exchange E W G dbg ws hello ins e)) (\<lambda>_. receiver_base E)"
  unfolding guarded_def
proof (intro allI impI)
  fix s r t assume inv: "receiver_inv E s" and run: "attempt (initial_exchange E W G dbg ws hello ins e) s = (r, t)"
  from guardedD [OF ses.attempt_true_g [OF initial_exchange_g [OF assms]] inv run] have "sess E s t" by simp
  with inv_base [OF inv] show "sess E s t \<and> (\<forall>x. r = Inr x \<longrightarrow> receiver_base E t)" by (simp add: sess_def)
qed

lemma drop_g: "guarded (receiver_base E) (sess E) (incoming_drop E) (\<lambda>_ s. receiver_inv E s \<and> open_blob s = None)"
  by (rule guarded_rel [OF incoming_drop_g recv_sess])

lemma run_session_g:
  assumes "list_all same_process ins"
  shows "guarded (receiver_inv E) (sess E) (run_session E W G dbg ws hello ins e) (\<lambda>_ _. True)"
proof -
  have over: "guarded (\<lambda>s. receiver_inv E s \<and> open_blob s = None) (sess E) (bindE (outcome r) (\<lambda>x. case x_stop x of
       Complete \<Rightarrow> thenE (materialise E (x_peer_vv x)) (reading (outcome_of (x_sent x)))
     | Gone \<Rightarrow> reading (outcome_of (x_sent x))
     | StopRefused why \<Rightarrow> throw (SRefused why)
     | StopProtocol why \<Rightarrow> throw (Protocol why))) (\<lambda>_ _. True)" for r :: "serror + exchange"
  proof (rule ses.bindE_g [where B = "\<lambda>_. receiver_inv E", OF ses.outcome_g])
    fix x
    show "guarded (receiver_inv E) (sess E) (case x_stop x of
       Complete \<Rightarrow> thenE (materialise E (x_peer_vv x)) (reading (outcome_of (x_sent x)))
     | Gone \<Rightarrow> reading (outcome_of (x_sent x))
     | StopRefused why \<Rightarrow> throw (SRefused why)
     | StopProtocol why \<Rightarrow> throw (Protocol why)) (\<lambda>_ _. True)"
      by (cases "x_stop x") (auto intro: ses.thenE_g [OF materialise_g] ses.reading_g ses.throw_g)
  qed simp
  show ?thesis unfolding run_session_def [abs_def]
    by (intro ses.bindE_g [OF after_exchange_g [OF assms]] ses.thenE_g [where B = "\<lambda>s. receiver_inv E s \<and> open_blob s = None", OF drop_g] over)
qed

section \<open>Every page is taken in\<close>

text \<open>The updates of the pages that come before the peer's \<open>Done\<close>.\<close>

fun before_done :: "input list \<Rightarrow> path_update list" where
  "before_done [] = []"
| "before_done (Meanwhile _ # ins) = before_done ins"
| "before_done (Frame f # ins) = (case f of
     Control Done \<Rightarrow> []
   | Control (Updates us) \<Rightarrow> us @ before_done ins
   | _ \<Rightarrow> before_done ins)"

definition all_taken :: "path_update list \<Rightarrow> 'b receiver_scheme \<Rightarrow> bool" where
  "all_taken us s \<longleftrightarrow> (\<forall>u \<in> set us. sound_update u \<longrightarrow> taken (db_paths (rep s)) u)"

lemma all_taken_sess: "\<lbrakk>sess E s t; receiver_base E s; all_taken us s\<rbrakk> \<Longrightarrow> all_taken us t"
  unfolding all_taken_def taken_def sess_def db_grows_def by (meson covers_dot_mono)

lemma on_updates_takes:
  assumes "receiver_inv E s" "on_updates E G us s = (Inr (), t)"
  shows "all_taken us t"
proof -
  let ?s = "s\<lparr>received_count := received_count s + length us\<rparr>"
  let ?more = "\<lambda>page. thenE (update (\<lambda>s. s\<lparr>total := merge_report (total s) page\<rparr>)) (bindE (needed E us) (each (ask G)))"
  from assms(2) obtain page s1 where ap: "on_replica Sync (replica_apply E us (\<lambda>_. None)) ?s = (Inr page, s1)"
    and more: "?more page s1 = (Inr (), t)" by (auto simp: on_updates_def runs bindE_Inr)
  have inv: "receiver_inv E ?s" using assms(1) by (simp add: receiver_inv_def receiver_base_def)
  have inv1: "receiver_inv E s1" using guardedD [OF on_replica_step [OF replica_apply_g] inv ap] by simp
  from ap have "replica_apply E us (\<lambda>_. None) (rep ?s) = (Inr page, rep s1)"
    by (auto simp: on_replica_def split: prod.splits sum.splits)
  from apply_stores [OF _ this] inv have taken: "all_taken us s1"
    by (simp add: all_taken_def receiver_inv_def receiver_base_def)
  have "guarded (receiver_inv E) (sess E) (?more page) (\<lambda>_. receiver_inv E)"
    by (intro ses.thenE_g [OF locals_g] ses.bindE_g [OF needed_g] ses.each_g ask_g) simp_all
  from guardedD [OF this inv1 more] have "sess E s1 t" by simp
  from all_taken_sess [OF this inv_base [OF inv1] taken] show ?thesis .
qed

text \<open>Only a \<open>Done\<close> makes the peer done.\<close>

definition same_done :: "side \<Rightarrow> side \<Rightarrow> bool" where
  "same_done s t \<longleftrightarrow> peer_done t = peer_done s"

interpretation sdn: step_relation same_done
  by unfold_locales (auto simp: same_done_def)

lemma receiver_same_done: "keeps same_done (on_replica err m)"
  by (auto simp: keeps_def same_done_def on_replica_def split: prod.splits)

lemma locals_done: "(\<And>s. peer_done (f s) = peer_done s) \<Longrightarrow> keeps same_done (update f)"
  by (simp add: keeps_def same_done_def)

lemma send_done: "keeps same_done (send G item)"
  by (auto simp: keeps_def same_done_def send_def)

lemma ask_done: "keeps same_done (ask G h)"
  unfolding ask_def [abs_def] by (intro sdn.steps keeps_control send_done locals_done) simp

lemmas done_ops = sdn.steps receiver_same_done send_done ask_done

lemma incoming_done: "keeps same_done (incoming_start E h len)" "keeps same_done (incoming_chunk E bs)"
  "keeps same_done (incoming_end E)" "keeps same_done (incoming_aborted E h)"
  unfolding incoming_start_def [abs_def] incoming_chunk_def [abs_def] incoming_end_def [abs_def] incoming_aborted_def [abs_def]
  by (intro done_ops keeps_control keeps_prod locals_done; simp)+

lemma or_stop_done: "\<lbrakk>keeps same_done m; \<And>x. keeps same_done (f x)\<rbrakk> \<Longrightarrow> keeps same_done (or_stop W m f)"
  unfolding or_stop_def [abs_def] by (intro done_ops keeps_control)

lemma on_updates_done: "keeps same_done (on_updates E G us)"
  unfolding on_updates_def [abs_def] needed_def [abs_def] Let_def by (intro done_ops locals_done) simp_all

lemma on_frame_done: "f \<noteq> Control Done \<Longrightarrow> keeps same_done (on_frame E W G f)"
  unfolding on_frame_def [abs_def] on_message_def [abs_def] answer_def [abs_def] answered_eq lacking_eq
  by (cases f)
    (auto split: message.splits intro!: done_ops or_stop_done incoming_done on_updates_done locals_done)

lemma settle_up_done: "keeps same_done (settle_up G)"
  by (auto simp: keeps_def same_done_def settle_up_def send_def thenE_def bindE_def)

lemma all_taken_append: "all_taken (us @ vs) s \<longleftrightarrow> all_taken us s \<and> all_taken vs s"
  by (auto simp: all_taken_def)

lemma or_stop_why: "or_stop W m f s = (Inr (Some why), t) \<Longrightarrow> \<exists>x. why = StopProtocol x"
  by (cases "m s"; cases "fst (m s)") (auto simp: or_stop_def runs thenE_Inr)

lemma on_frame_why: "on_frame E W G f s = (Inr (Some why), t) \<Longrightarrow> why \<noteq> Complete \<and> why \<noteq> Gone"
  by (auto simp: on_frame_def on_message_def bindE_Inr thenE_Inr split: frame.splits message.splits
      dest: or_stop_why)

lemma loop_takes:
  "\<lbrakk>list_all same_process ins;
    exchange_loop E W G ins e s = (Inr Complete, t); receiver_inv E s; \<not> peer_done s\<rbrakk> \<Longrightarrow>
   all_taken (before_done ins) t"
proof (induction ins arbitrary: s)
  case Nil
  then show ?case by (simp add: all_taken_def)
next
  case (Cons i ins)
  have going: "\<not> complete s" using Cons.prems(4) by (simp add: complete_def)
  show ?case
  proof (cases i)
    case (Meanwhile ev)
    let ?s = "s\<lparr>rep := run_event E ev (rep s)\<rparr>"
    have "same_process (Meanwhile ev)" using Cons.prems(1) Meanwhile by simp
    from guardedD [OF meanwhile_g [OF this] Cons.prems(3), of "Inr ()" ?s] have "receiver_inv E ?s" by simp
    with Cons going Meanwhile show ?thesis by (auto simp: runs)
  next
    case (Frame f)
    obtain stop s1 where f: "on_frame E W G f s = (Inr stop, s1)"
      and rest: "(case stop of Some why \<Rightarrow> ret why | None \<Rightarrow> thenE (settle_up G) (exchange_loop E W G ins e)) s1 = (Inr Complete, t)"
      using Cons.prems(2) going Frame by (auto simp: bindE_Inr)
    note step = guardedD [OF on_frame_g Cons.prems(3) f]
    show ?thesis
    proof (cases "f = Control Done")
      case True
      then show ?thesis by (simp add: Frame all_taken_def)
    next
      case False
      have d1: "\<not> peer_done s1" using keepsE [OF on_frame_done [OF False] f] Cons.prems(4) by (simp add: same_done_def)
      show ?thesis
      proof (cases stop)
        case (Some why)
        with rest have "why = Complete" by simp
        with on_frame_why f Some show ?thesis by blast
      next
        case None
        with rest obtain s2 where up: "settle_up G s1 = (Inr (), s2)" and loop: "exchange_loop E W G ins e s2 = (Inr Complete, t)"
          by (auto simp: thenE_Inr)
        have inv1: "receiver_inv E s1" using step None by simp
        note st2 = guardedD [OF settle_up_g inv1 up]
        have inv2: "receiver_inv E s2" using st2 by simp
        have d2: "\<not> peer_done s2" using keepsE [OF settle_up_done up] d1 by (simp add: same_done_def)
        have "list_all same_process ins" using Cons.prems(1) by simp
        have later: "all_taken (before_done ins) t"
          by (rule Cons.IH [OF _ loop inv2 d2]) (use Cons.prems(1) in simp)
        show ?thesis
        proof (cases "\<exists>us. f = Control (Updates us)")
          case True
          then obtain us where us: "f = Control (Updates us)" by blast
          have "on_updates E G us s = (Inr (), s1)" using f us by (auto simp: on_frame_def on_message_def thenE_Inr)
          from on_updates_takes [OF Cons.prems(3) this] have "all_taken us s1" .
          moreover have "sess E s1 t"
            using st2 guardedD [OF loop_g inv2 loop] Cons.prems(1) ses.comp by auto
          ultimately have "all_taken us t" using all_taken_sess inv_base [OF inv1] by blast
          with later show ?thesis by (simp add: Frame us all_taken_append)
        next
          case other: False
          have "before_done (Frame f # ins) = before_done ins"
            using False other by (auto split: frame.splits message.splits)
          with later show ?thesis by (simp add: Frame)
        qed
      qed
    qed
  qed
qed

lemma commit_session_meta: "commit_session E vv d = (Inr (), d') \<Longrightarrow> covers (m_vv (db_meta d')) vv"
  by (auto simp: commit_session_def flush_def store_commit_def db_op_def runs thenE_Inr bindE_Inr
      split: if_splits)

lemma materialise_meta:
  assumes "materialise E vv s = (Inr (), t)"
  shows "covers (m_vv (db_meta (rep t))) vv"
proof -
  obtain s1 where "on_replica Sync (commit_session E vv) s1 = (Inr (), t)"
    using assms by (auto simp: materialise_def bindE_Inr thenE_Inr)
  then have "commit_session E vv (rep s1) = (Inr (), rep t)"
    by (auto simp: on_replica_def split: prod.splits sum.splits)
  then show ?thesis by (rule commit_session_meta)
qed

lemma initial_exchange_Inr:
  assumes "initial_exchange E W G dbg ws hello ins e s = (Inr x, t)"
  shows "\<exists>s1 s2 s3 s4 most sent_vv sent items looped. greet E G ws s = (Inr (), s1) \<and>
     check_hello E G dbg ws hello s1 = (Inr (x_peer_vv x, most), s2) \<and>
     plan_outgoing E (x_peer_vv x) most s2 = (Inr (sent_vv, sent, items), s3) \<and>
     thenE (each (send G) items) (exchange_loop E W G ins e) (fresh_locals s3) = (looped, s4) \<and> t = s4 \<and>
     (looped = Inr (x_stop x) \<or> looped = Inl Closed \<and> x_stop x = Gone)"
proof -
  obtain s1 vv most s2 sent_vv sent items s3 looped s4 where
    run: "greet E G ws s = (Inr (), s1)" "check_hello E G dbg ws hello s1 = (Inr (vv, most), s2)"
      "plan_outgoing E vv most s2 = (Inr (sent_vv, sent, items), s3)"
      "thenE (each (send G) items) (exchange_loop E W G ins e) (fresh_locals s3) = (looped, s4)"
    and out: "bindE (case looped of Inr stop \<Rightarrow> ret stop | Inl err \<Rightarrow> if err = Closed then ret Gone else throw err)
      (\<lambda>stop. ret \<lparr>x_peer_vv = vv, x_sent_vv = sent_vv, x_sent = sent, x_stop = stop\<rparr>) s4 = (Inr x, t)"
    using assms by (auto simp: initial_exchange_def thenE_Inr bindE_Inr attempt_iff)
  from out have "t = s4" "x_peer_vv x = vv" "looped = Inr (x_stop x) \<or> looped = Inl Closed \<and> x_stop x = Gone"
    by (auto simp: bindE_Inr split: sum.splits if_splits)
  with run show ?thesis by blast
qed

lemma check_hello_Inr:
  assumes "check_hello E G dbg ws hello s = (Inr (vv, most), t)"
  shows "t = s \<and> (\<exists>rid. hello = Inr (Some (Control (Hello SESSION_FORMAT_VERSION ws rid vv most))))"
  using assms
  by (auto simp: check_hello_def thenE_Inr split: sum.splits option.splits frame.splits message.splits if_splits)

section \<open>A session run\<close>

text \<open>A peer that sends a new file's state, is asked for the content, sends it, and is done.\<close>

definition ex_side :: side where
  "ex_side = \<lparr>rep = ex_replica, open_blob = None, said = [], wanted = bt_empty, lacked = bt_empty, total = report_default,
     received_count = 0, peer_done = False, peer_settled = False, settled = False\<rparr>"

lemma ex_side_inv: "receiver_inv ex_env ex_side"
  using ex_replica_inv by (simp add: receiver_inv_def receiver_base_def blob_ok_def ex_side_def)

definition ex_hello :: "serror + frame option" where
  "ex_hello = Inr (Some (Control (Hello 2 8 9 (add_dot (Dot 9 1) vv_new) 100)))"

definition ex_new :: path_update where
  "ex_new = \<lparr>u_path = ''g'', u_versions = [\<lparr>e_path = ''g'', e_content = File [9] 1, e_hlc = Hlc 5000 0,
     e_dot = Dot 9 1, e_context = vv_new, e_author = 4\<rparr>], u_seen = add_dot (Dot 9 1) vv_new\<rparr>"

lemma bt_remove_only: "bt_remove k (bt_insert k v bt_empty) = bt_empty"
  by (rule bt_eqI) simp

definition ex_inputs :: "input list" where
  "ex_inputs = [Frame (Control (Updates [ex_new])), Frame (BlobStart [9] 1), Frame (BlobChunk [9]), Frame BlobEnd, Frame (Control Done), Frame (Control Settled)]"

lemmas session_eval = initial_exchange_def greet_def check_hello_def plan_outgoing_def fresh_locals_def outgoing_def page_items_def
  chunks_of.simps on_frame_def on_message_def on_updates_def on_done_def or_stop_def settle_up_def needed_def answer_def ask_def
  answered_def lacking_def send_def merge_report_def inline_hashes_def complete_def run_session_def materialise_def outcome_of_def
  on_replica_def incoming_start_def incoming_chunk_def incoming_end_def incoming_drop_def SESSION_FORMAT_VERSION_def INLINE_LIMIT_def
  delta_for_def content_paths_def unavailable_def fetch_missing_def commit_session_def ex_new_def bt_remove_only wanted_of_def bt_has_def fetch_missing_states_def

lemma ex_new_sound: "sound_update ex_new"
  by (simp add: ex_new_def sound_update_def well_formed_def record_eval)

lemma ex_session_run:
  "fst (initial_exchange ex_env ex_wire (\<lambda>_. False) (\<lambda>_. []) 8 ex_hello ex_inputs None ex_side) =
     Inr \<lparr>x_peer_vv = add_dot (Dot 9 1) vv_new, x_sent_vv = vv_new, x_sent = 0, x_stop = Complete\<rparr>"
  "fst (run_session ex_env ex_wire (\<lambda>_. False) (\<lambda>_. []) 8 ex_hello ex_inputs None ex_side) =
     Inr \<lparr>o_sent = 0, o_received = 1, o_report = \<lparr>recorded = [], changed = 1, conflicts = [],
       skipped = [(''g'', ContentUnavailable)]\<rparr>\<rparr>"
  by (simp_all add: session_eval replica_eval ex_state_defs ex_side_def ex_hello_def ex_inputs_def word_le_nat_alt)

lemma ex_inputs_plain: "list_all same_process ex_inputs"
  by (simp add: ex_inputs_def)

section \<open>Properties\<close>

text \<open>
  C17: A session cannot harm the replica. Whatever the peer sends, in whatever order and however it ends,
  whatever file or database operation fails on the way, whenever the writer dies, and with any calls of
  other users of the replica in between, the replica stays sound (all staged content has its hash,
  every stored state is well-formed), the database forgets no path, and every path has seen at least
  what it had seen before.
\<close>

theorem session_keeps_replica:
  assumes "receiver_inv E s" "list_all same_process ins"
    and "run_session E W G dbg ws hello ins e s = (r, t)"
  shows "replica_inv E (rep t) \<and> db_grows (rep s) (rep t) \<and>
    (\<forall>q st. bt_get (current (rep s)) q = Some st \<longrightarrow>
       (\<exists>st'. bt_get (current (rep t)) q = Some st' \<and> covers (p_seen st') (p_seen st)))"
proof -
  have "sess E s t" using guardedD [OF run_session_g [OF assms(2)] assms(1,3)] by blast
  then show ?thesis using inv_base [OF assms(1)] unfolding sess_def receiver_base_def by blast
qed

text \<open>
  C16: A completed session has taken in what the peer sent. If the exchange completed and the session returns,
  then every sound update (well formed, its vector covering its own versions, as every replica's does) of every
  page that came before the peer's \<open>Done\<close> is covered by the stored state of its path, whatever else the
  peer sent; and the committed version vector covers the peer's, which is the one of a \<open>Hello\<close> of this
  format and workspace.
\<close>

theorem completed_session_takes_all:
  assumes "receiver_inv E s" "list_all same_process ins"
    and "initial_exchange E W G dbg ws hello ins e s = (Inr x, s1)" "x_stop x = Complete"
    and "run_session E W G dbg ws hello ins e s = (Inr out, t)"
  shows "(\<forall>u \<in> set (before_done ins). sound_update u \<longrightarrow> taken (db_paths (rep t)) u) \<and>
    covers (m_vv (db_meta (rep t))) (x_peer_vv x) \<and>
    (\<exists>rid most. hello = Inr (Some (Control (Hello SESSION_FORMAT_VERSION ws rid (x_peer_vv x) most))))"
proof -
  from initial_exchange_Inr [OF assms(3)] assms(4) obtain a1 a2 a3 most sent_vv sent items where
    gr: "greet E G ws s = (Inr (), a1)" and ch: "check_hello E G dbg ws hello a1 = (Inr (x_peer_vv x, most), a2)"
    and pl: "plan_outgoing E (x_peer_vv x) most a2 = (Inr (sent_vv, sent, items), a3)"
    and lo: "thenE (each (send G) items) (exchange_loop E W G ins e) (fresh_locals a3) = (Inr Complete, s1)"
    by auto
  have "receiver_inv E a1" using guardedD [OF greet_g assms(1) gr] by simp
  from guardedD [OF check_hello_g this ch] have "receiver_inv E a2" by simp
  from guardedD [OF plan_outgoing_g this pl] have "receiver_inv E a3" by simp
  then have i3: "receiver_inv E (fresh_locals a3)"
    using guardedD [OF fresh_g, of E a3 "Inr ()"] by simp
  obtain a4 where se: "each (send G) items (fresh_locals a3) = (Inr (), a4)" and lp: "exchange_loop E W G ins e a4 = (Inr Complete, s1)"
    using lo by (auto simp: thenE_Inr)
  have i4: "receiver_inv E a4" using guardedD [OF ses.each_g [OF send_g] i3 se] by simp
  have "keeps same_done (each (send G) items)" by (intro sdn.each_r send_done)
  from keepsE [OF this se] have "\<not> peer_done a4" by (simp add: same_done_def fresh_locals_def)
  from loop_takes [OF assms(2) lp i4 this] have took: "all_taken (before_done ins) s1" .
  obtain a5 where dr: "incoming_drop E s1 = (Inr (), a5)" and ma: "materialise E (x_peer_vv x) a5 = (Inr (), t)"
    using assms(3-5) by (auto simp: run_session_def runs thenE_Inr bindE_Inr)
  have b1: "receiver_base E s1"
    using guardedD [OF loop_g [OF assms(2)] i4 lp] inv_base [OF i4] by (simp add: sess_def)
  from guardedD [OF drop_g b1 dr] have d: "sess E s1 a5" "receiver_inv E a5" by auto
  from guardedD [OF materialise_g d(2) ma] have "sess E a5 t" by simp
  with d(1) have "sess E s1 t" by (rule ses.comp)
  from all_taken_sess [OF this b1 took] materialise_meta [OF ma] check_hello_Inr [OF ch] show ?thesis
    by (auto simp: all_taken_def)
qed

text \<open>
  A session that did not complete commits nothing of the peer's. When the exchange failed, the peer
  went away, refused or broke the protocol, the replica's database and version vector and the
  workspace's files are, when \<open>run_session\<close> returns, as the exchange left them; the result says which
  it was.
\<close>

theorem incomplete_session_commits_nothing:
  assumes "receiver_inv E s" "list_all same_process ins"
    and "initial_exchange E W G dbg ws hello ins e s = (q, s1)" "\<forall>x. q = Inr x \<longrightarrow> x_stop x \<noteq> Complete"
    and "run_session E W G dbg ws hello ins e s = (r, t)"
  shows "db_paths (rep t) = db_paths (rep s1) \<and> db_meta (rep t) = db_meta (rep s1) \<and>
    live_meta (rep t) = live_meta (rep s1) \<and> tree (rep t) = tree (rep s1) \<and>
    (case q of
      Inl err \<Rightarrow> r = Inl err
    | Inr x \<Rightarrow> (case x_stop x of
        StopRefused why \<Rightarrow> r = Inl (SRefused why)
      | StopProtocol why \<Rightarrow> r = Inl (Protocol why)
      | _ \<Rightarrow> r = Inr (outcome_of (x_sent x) t)))"
proof -
  have base: "receiver_base E s1"
    using guardedD [OF initial_exchange_g [OF assms(2)] assms(1,3)] inv_base [OF assms(1)] by (simp add: sess_def)
  obtain u d where dr: "incoming_drop E s1 = (u, d)" by (cases "incoming_drop E s1")
  have same: "u = Inr () \<and> disk.more (rep d) = disk.more (rep s1) \<and> tree (rep d) = tree (rep s1)"
  proof (cases "open_blob s1")
    case None
    with dr show ?thesis by (auto simp: incoming_drop_def bindE_def)
  next
    case (Some hw)
    obtain h w where hw: "hw = (h, w)" by (cases hw)
    with base Some have "bare w" by (simp add: receiver_base_def is_partial_bare)
    from writer_drop_run [OF this, of E "rep s1"] obtain v where
      "writer_drop E w (rep s1) = (Inr (), v)" "staging_step E (rep s1) v" by blast
    with dr Some hw show ?thesis
      by (auto simp: incoming_drop_def on_replica_def bindE_def thenE_def staging_step_def)
  qed
  have "run_session E W G dbg ws hello ins e s = bindE (outcome q) (\<lambda>x. case x_stop x of
       Complete \<Rightarrow> thenE (materialise E (x_peer_vv x)) (reading (outcome_of (x_sent x)))
     | Gone \<Rightarrow> reading (outcome_of (x_sent x))
     | StopRefused why \<Rightarrow> throw (SRefused why)
     | StopProtocol why \<Rightarrow> throw (Protocol why)) d"
    using dr same by (simp add: run_session_def runs assms(3))
  with assms(4,5) have "t = d \<and> (case q of
      Inl err \<Rightarrow> r = Inl err
    | Inr x \<Rightarrow> (case x_stop x of
        StopRefused why \<Rightarrow> r = Inl (SRefused why)
      | StopProtocol why \<Rightarrow> r = Inl (Protocol why)
      | _ \<Rightarrow> r = Inr (outcome_of (x_sent x) t)))"
    by (cases q) (auto simp: bindE_def split: stop.splits)
  moreover have "db_meta (rep d) = db_meta (rep s1)" using same by (cases "rep d"; cases "rep s1") simp
  ultimately show ?thesis using same same_replica [of "rep d" "rep s1"] by simp
qed

theorem session_keeps_replica_witness:
  "replica_inv ex_env (rep (snd (run_session ex_env ex_wire (\<lambda>n. n = 2) (\<lambda>_. []) 8 ex_hello ex_inputs (Some (SIo OtherIo)) ex_side)))"
  using session_keeps_replica [OF ex_side_inv, of ex_inputs ex_wire "\<lambda>n. n = 2" "\<lambda>_. []" 8 ex_hello "Some (SIo OtherIo)"]
  by (metis ex_inputs_plain prod.collapse)

theorem completed_session_takes_all_witness:
  "\<exists>t out. run_session ex_env ex_wire (\<lambda>_. False) (\<lambda>_. []) 8 ex_hello ex_inputs None ex_side = (Inr out, t) \<and>
     taken (db_paths (rep t)) ex_new \<and> covers (m_vv (db_meta (rep t))) (add_dot (Dot 9 1) vv_new)"
proof -
  let ?i = "initial_exchange ex_env ex_wire (\<lambda>_. False) (\<lambda>_. []) 8 ex_hello ex_inputs None ex_side"
  let ?r = "run_session ex_env ex_wire (\<lambda>_. False) (\<lambda>_. []) 8 ex_hello ex_inputs None ex_side"
  obtain x s1 where x: "?i = (Inr x, s1)" "x_stop x = Complete" "x_peer_vv x = add_dot (Dot 9 1) vv_new"
    using ex_session_run(1) by (cases ?i) auto
  obtain out t where run: "?r = (Inr out, t)"
    using ex_session_run(2) by (cases ?r) auto
  have "ex_new \<in> set (before_done ex_inputs)" by (simp add: ex_inputs_def)
  with completed_session_takes_all [OF ex_side_inv ex_inputs_plain x(1,2) run] x(3) run ex_new_sound
  show ?thesis by auto
qed

theorem incomplete_session_commits_nothing_witness:
  "\<exists>t. run_session ex_env ex_wire (\<lambda>_. False) (\<lambda>_. []) 8 ex_hello [Frame (Control (Live []))] None ex_side =
       (Inl (Protocol ''a Live push before the initial exchange finished''), t) \<and> db_paths (rep t) = bt_empty"
proof -
  let ?i = "initial_exchange ex_env ex_wire (\<lambda>_. False) (\<lambda>_. []) 8 ex_hello [Frame (Control (Live []))] None ex_side"
  let ?r = "run_session ex_env ex_wire (\<lambda>_. False) (\<lambda>_. []) 8 ex_hello [Frame (Control (Live []))] None ex_side"
  have run: "fst ?i = Inr \<lparr>x_peer_vv = add_dot (Dot 9 1) vv_new, x_sent_vv = vv_new, x_sent = 0,
      x_stop = StopProtocol ''a Live push before the initial exchange finished''\<rparr> \<and> db_paths (rep (snd ?i)) = bt_empty"
    by (simp add: session_eval replica_eval ex_state_defs ex_side_def ex_hello_def word_le_nat_alt)
  obtain q s1 where i: "?i = (q, s1)" by (cases ?i)
  obtain r t where r: "?r = (r, t)" by (cases ?r)
  have "\<forall>x. q = Inr x \<longrightarrow> x_stop x \<noteq> Complete" "list_all same_process [Frame (Control (Live []))]" using run i by auto
  from incomplete_session_commits_nothing [OF ex_side_inv this(2) i this(1) r] run i r show ?thesis by auto
qed

end
