(* ===== verification/SessionLive.thy ===== *)
theory SessionLive
  imports Session "HOL-Library.Multiset"
begin

text \<open>
  The live phase (\<open>sapphire-framework-session/src/live.rs\<close>): after a completed exchange the session
  stays open, takes \<open>Live\<close> batches in as they arrive and announces each on a broadcast once every hash
  it was waiting on has been answered. The state is the session's with the variables of the reading
  task. As in the exchange, what is read is the frames, with other users of the replica in between;
  when the stream ends or fails the task breaks out of its loop.
\<close>

record waiting =
  batch :: "path_update list"
  outstanding :: "content_hash btset"

text \<open>\<open>announced\<close> is what was sent on the broadcast; \<open>known\<close> is the shared \<open>peer_vv\<close>.\<close>

record live = side +
  batches :: "waiting list"
  known :: version_vector
  announced :: "path_update list list"
  still_open :: bool

text \<open>
  How a turn of the task's loop ends: it goes on (and says whether content landed), it breaks out, or it
  returns from the task.
\<close>

datatype turn = Going bool | Left | Vanished

section \<open>One frame\<close>

definition learn :: "path_update list \<Rightarrow> version_vector \<Rightarrow> version_vector" where
  "learn us vv = foldl (\<lambda>vv u. vv_merge vv (u_seen u)) vv us"

definition await :: "(nat \<Rightarrow> bool) \<Rightarrow> content_hash list \<Rightarrow> (live, serror, content_hash btset) op" where
  "await G missing s = folding (\<lambda>out h. thenE (ask G h) (ret (bs_insert h out))) bt_empty missing s"

definition on_live :: "env \<Rightarrow> (nat \<Rightarrow> bool) \<Rightarrow> path_update list \<Rightarrow> (live, serror, turn) op" where
  "on_live E G us s =
     thenE (update (\<lambda>s. s\<lparr>known := learn us (known s)\<rparr>))
    (bindE (attempt (thenE (on_replica Sync (replica_apply E us (\<lambda>_. None))) (needed E us))) (\<lambda>r. case r of
       Inl _ \<Rightarrow> ret Left
     | Inr missing \<Rightarrow> bindE (attempt (await G missing)) (\<lambda>r. case r of
         Inl _ \<Rightarrow> ret Vanished
       | Inr out \<Rightarrow> thenE (update (\<lambda>s. s\<lparr>batches := batches s @ [\<lparr>batch = us, outstanding = out\<rparr>]\<rparr>))
           (ret (Going False))))) s"

definition remember :: "content_hash \<Rightarrow> (live, serror, unit) op" where
  "remember h s = (Inr (), s\<lparr>wanted := bt_remove h (wanted s),
     batches := map (\<lambda>w. w\<lparr>outstanding := bt_remove h (outstanding w)\<rparr>) (batches s)\<rparr>)"

definition or_leave :: "(live, serror, 'a) op \<Rightarrow> ('a \<Rightarrow> (live, serror, turn) op) \<Rightarrow> (live, serror, turn) op" where
  "or_leave m f s = bindE (attempt m) (\<lambda>r. case r of Inl _ \<Rightarrow> ret Left | Inr x \<Rightarrow> f x) s"

definition live_frame :: "env \<Rightarrow> (nat \<Rightarrow> bool) \<Rightarrow> frame \<Rightarrow> (live, serror, turn) op" where
  "live_frame E G f s = (case f of
     Control (Live us) \<Rightarrow> on_live E G us
   | Control (Want h) \<Rightarrow> bindE (answer E h) (\<lambda>reply. or_leave (send G reply) (\<lambda>_. ret (Going False)))
   | BlobStart h len \<Rightarrow> or_leave (incoming_start E h len) (\<lambda>_. ret (Going False))
   | BlobChunk bs \<Rightarrow> or_leave (incoming_chunk E bs) (\<lambda>_. ret (Going False))
   | BlobEnd \<Rightarrow> or_leave (incoming_end E) (\<lambda>h. thenE (remember h) (ret (Going True)))
   | Control (Missing h) \<Rightarrow> thenE (remember h) (ret (Going False))
   | Control (Aborted h) \<Rightarrow> or_leave (incoming_aborted E h) (\<lambda>_. thenE (remember h) (ret (Going False)))
   | Control _ \<Rightarrow> ret Left) s"

section \<open>The loop\<close>

text \<open>\<open>pending.retain\<close>: every batch that waits on nothing is announced, in order.\<close>

definition settled_batch :: "waiting \<Rightarrow> bool" where
  "settled_batch w \<longleftrightarrow> outstanding w = bt_empty"

definition announce :: "(live, serror, unit) op" where
  "announce s = (Inr (), s\<lparr>announced := announced s @ map batch (filter settled_batch (batches s)),
     batches := filter (\<lambda>w. \<not> settled_batch w) (batches s)\<rparr>)"

definition live_turn :: "env \<Rightarrow> (nat \<Rightarrow> bool) \<Rightarrow> frame \<Rightarrow> (live, serror, turn) op" where
  "live_turn E G f s = bindE (live_frame E G f) (\<lambda>t. case t of
     Going wrote \<Rightarrow>
       bindE (attempt (if wrote then thenE (on_replica Sync (fetch_missing E (\<lambda>_. None))) (ret ()) else ret ())) (\<lambda>r. case r of
         Inl (_ :: serror) \<Rightarrow> ret Left
       | Inr _ \<Rightarrow> thenE announce (ret t))
   | _ \<Rightarrow> ret t) s"

definition shut :: "(live, serror, unit) op" where
  "shut s = (Inr (), s\<lparr>still_open := False\<rparr>)"

fun live_loop :: "env \<Rightarrow> (nat \<Rightarrow> bool) \<Rightarrow> input list \<Rightarrow> (live, serror, unit) op" where
  "live_loop E G [] s = shut s"
| "live_loop E G (Meanwhile ev # ins) s =
     thenE (update (\<lambda>s. s\<lparr>rep := run_event E ev (rep s)\<rparr>)) (live_loop E G ins) s"
| "live_loop E G (Frame f # ins) s = bindE (live_turn E G f) (\<lambda>t. case t of
     Going _ \<Rightarrow> live_loop E G ins
   | Left \<Rightarrow> shut
   | Vanished \<Rightarrow> ret ()) s"

section \<open>The handle\<close>

text \<open>The exchange dropped with an error takes its open blob with it.\<close>

definition open_live :: "env \<Rightarrow> wire \<Rightarrow> (nat \<Rightarrow> bool) \<Rightarrow> (frame option \<Rightarrow> string) \<Rightarrow> grain_id
    \<Rightarrow> serror + frame option \<Rightarrow> input list \<Rightarrow> serror option \<Rightarrow> (side, serror, session_outcome \<times> version_vector) op" where
  "open_live E W G dbg ws hello ins e s =
     bindE (attempt (bindE (initial_exchange E W G dbg ws hello ins e) (\<lambda>x. case x_stop x of
         Gone \<Rightarrow> throw (Protocol ''the peer left before the exchange finished'')
       | StopRefused why \<Rightarrow> throw (SRefused why)
       | StopProtocol why \<Rightarrow> throw (Protocol why)
       | Complete \<Rightarrow> thenE (materialise E (x_peer_vv x))
           (reading (\<lambda>s. (outcome_of (x_sent x) s, vv_merge (x_peer_vv x) (x_sent_vv x))))))) (\<lambda>r. case r of
       Inl err \<Rightarrow> thenE (incoming_drop E) (throw err)
     | Inr y \<Rightarrow> ret y) s"

definition go_live :: "version_vector \<Rightarrow> side \<Rightarrow> live" where
  "go_live vv s = side.extend (s\<lparr>wanted := bt_empty\<rparr>) (live.fields [] vv [] True)"

definition push_batch :: "(nat \<Rightarrow> bool) \<Rightarrow> path_update list \<Rightarrow> (live, serror, unit) op" where
  "push_batch G us s = (if \<not> still_open s then throw (Protocol ''the session is closed'')
     else bindE (attempt (send G (OutControl (Live us)))) (\<lambda>r. case r of
       Inl (_ :: serror) \<Rightarrow> throw (Protocol ''the session is closed'')
     | Inr _ \<Rightarrow> ret ())) s"

section \<open>What the task keeps\<close>

text \<open>
  Every batch it holds or has announced is stored, and known to the peer; the relation says so of every
  step, whether or not it fails.
\<close>

definition all_batches :: "live \<Rightarrow> path_update list set" where
  "all_batches s = set (announced s) \<union> batch ` set (batches s)"

definition stored :: "live \<Rightarrow> bool" where
  "stored s \<longleftrightarrow> (\<forall>us \<in> all_batches s. all_taken us s \<and> (\<forall>u \<in> set us. covers (known s) (u_seen u)))"

definition live_step :: "env \<Rightarrow> live \<Rightarrow> live \<Rightarrow> bool" where
  "live_step E s t \<longleftrightarrow> sess E s t \<and> covers (known t) (known s) \<and> set (announced s) \<subseteq> set (announced t) \<and>
     (receiver_base E s \<longrightarrow> stored s \<longrightarrow> stored t)"

interpretation lst: step_relation "live_step E" for E
proof
  show "live_step E s s" for s :: live by (simp add: live_step_def ses.same covers_refl)
  show "live_step E s t \<Longrightarrow> live_step E t u \<Longrightarrow> live_step E s u" for s t u :: live
    unfolding live_step_def by (meson ses.comp covers_trans sess_def subset_trans)
qed

text \<open>Most operations leave the task's own books alone.\<close>

definition quiet :: "live \<Rightarrow> live \<Rightarrow> bool" where
  "quiet s t \<longleftrightarrow> batches t = batches s \<and> known t = known s \<and> announced t = announced s \<and> still_open t = still_open s \<and>
     wanted t = wanted s \<and> set (said s) \<subseteq> set (said t)"

interpretation qui: step_relation quiet
  by unfold_locales (auto simp: quiet_def)

lemma quiet_live: "\<lbrakk>sess E s t; batches t = batches s; known t = known s; announced t = announced s\<rbrakk> \<Longrightarrow> live_step E s t"
  by (auto simp: live_step_def stored_def all_batches_def covers_refl all_taken_sess)

lemma quiet_replica: "keeps quiet (on_replica err m)"
  by (auto simp: keeps_def quiet_def on_replica_def split: prod.splits)

lemma quiet_update: "(\<And>s. quiet s (f s)) \<Longrightarrow> keeps quiet (update f)"
  by (simp add: keeps_def)

lemmas quiet_ops = qui.steps quiet_replica

lemma quiet_incoming: "keeps quiet (incoming_start E h len)" "keeps quiet (incoming_chunk E bs)"
  "keeps quiet (incoming_end E)" "keeps quiet (incoming_aborted E h)" "keeps quiet (needed E us)" "keeps quiet (answer E h)"
  unfolding incoming_start_def [abs_def] incoming_chunk_def [abs_def] incoming_end_def [abs_def] incoming_aborted_def [abs_def]
    needed_def [abs_def] answer_def [abs_def] Let_def
  by (intro quiet_ops keeps_control keeps_prod quiet_update; simp add: quiet_def)+

lemma quiet_send: "keeps quiet (send G item)"
  by (auto simp: keeps_def quiet_def send_def)

text \<open>
  While the task goes on, what it wants is exactly what its batches wait for, and each such hash has been
  asked for.
\<close>

definition waits :: "live \<Rightarrow> bool" where
  "waits s \<longleftrightarrow> (\<forall>h. bt_has (wanted s) h \<longleftrightarrow> (\<exists>w \<in> set (batches s). bt_has (outstanding w) h)) \<and>
     (\<forall>h. bt_has (wanted s) h \<longrightarrow> OutControl (Want h) \<in> set (said s))"

definition alive :: "env \<Rightarrow> live \<Rightarrow> bool" where
  "alive E s \<longleftrightarrow> receiver_inv E s \<and> waits s"

lemma waits_quiet: "\<lbrakk>waits s; quiet s t\<rbrakk> \<Longrightarrow> waits t"
  by (auto simp: waits_def quiet_def)

lemma quiet_g:
  assumes "guarded (receiver_inv E) (sess E) m Q" "keeps quiet m"
  shows "guarded (alive E) (live_step E) m (\<lambda>x s. Q x s \<and> waits s)"
proof (rule guardedI)
  fix s t :: live and r
  assume inv: "alive E s" and run: "m s = (r, t)"
  from guardedD [OF assms(1) _ run] inv have S: "sess E s t" "\<forall>x. r = Inr x \<longrightarrow> Q x t" by (auto simp: alive_def)
  have q: "quiet s t" by (rule keepsE [OF assms(2) run])
  from S q inv show "live_step E s t \<and> (\<forall>x. r = Inr x \<longrightarrow> Q x t \<and> waits t)"
    by (auto simp: alive_def quiet_live quiet_def intro: waits_quiet [of s])
qed

lemma quiet_alive:
  "\<lbrakk>guarded (receiver_inv E) (sess E) m (\<lambda>_. receiver_inv E); keeps quiet m\<rbrakk> \<Longrightarrow> guarded (alive E) (live_step E) m (\<lambda>_. alive E)"
  by (rule guarded_post [OF quiet_g]) (auto simp: alive_def)

text \<open>A batch that is taken in.\<close>

lemma learn_Cons: "learn (u # us) vv = learn us (vv_merge vv (u_seen u))"
  by (simp add: learn_def)

lemma learn_covers: "covers (learn us vv) vv \<and> (\<forall>u \<in> set us. covers (learn us vv) (u_seen u))"
proof (induction us arbitrary: vv)
  case (Cons u us)
  have "covers (vv_merge vv (u_seen u)) vv" "covers (vv_merge vv (u_seen u)) (u_seen u)"
    by simp_all
  with Cons [of "vv_merge vv (u_seen u)"] show ?case unfolding learn_Cons by (auto intro: covers_trans)
qed (simp add: learn_def)

lemma ask_run:
  fixes s t :: live
  assumes "ask G h s = (r, t)"
  shows "sess E s t \<and> batches t = batches s \<and> known t = known s \<and> announced t = announced s \<and> still_open t = still_open s \<and>
    rep t = rep s \<and> open_blob t = open_blob s \<and> set (said s) \<subseteq> set (said t) \<and>
    (r = Inr () \<longrightarrow> (\<forall>g. bt_has (wanted t) g \<longleftrightarrow> bt_has (wanted s) g \<or> g = h) \<and>
      (\<forall>g. bt_has (wanted t) g \<longrightarrow> bt_has (wanted s) g \<or> OutControl (Want g) \<in> set (said t)))"
  using assms
  by (auto simp: ask_def send_def bindE_def thenE_def bt_has_def locals_sess split: if_splits)

lemma await_run:
  assumes "await G missing s = (r, t)"
  shows "sess E s t \<and> batches t = batches s \<and> known t = known s \<and> announced t = announced s \<and>
    rep t = rep s \<and> open_blob t = open_blob s \<and> set (said s) \<subseteq> set (said t) \<and>
    (\<forall>out. r = Inr out \<longrightarrow> (\<forall>g. bt_has (wanted t) g \<longleftrightarrow> bt_has (wanted s) g \<or> bt_has out g) \<and>
      (\<forall>g. bt_has (wanted t) g \<longrightarrow> bt_has (wanted s) g \<or> OutControl (Want g) \<in> set (said t)) \<and>
      (\<forall>g. bt_has out g \<longleftrightarrow> g \<in> set missing))"
proof -
  define f where "f = (\<lambda>out h. thenE (ask G h) (ret (bs_insert h out)) :: (live, serror, content_hash btset) op)"
  have "sess E s t \<and> batches t = batches s \<and> known t = known s \<and> announced t = announced s \<and>
    rep t = rep s \<and> open_blob t = open_blob s \<and> set (said s) \<subseteq> set (said t) \<and>
    (\<forall>out. r = Inr out \<longrightarrow>
      (\<forall>g. bt_has (wanted t) g \<longleftrightarrow> bt_has (wanted s) g \<or> g \<in> set missing) \<and>
      (\<forall>g. bt_has (wanted t) g \<longrightarrow> bt_has (wanted s) g \<or> OutControl (Want g) \<in> set (said t)) \<and>
      (\<forall>g. bt_has out g \<longleftrightarrow> bt_has out0 g \<or> g \<in> set missing))"
    if "folding f out0 missing s = (r, t)" for out0
    using that
  proof (induction missing arbitrary: out0 s)
    case Nil
    then show ?case by (auto simp: ses.same)
  next
    case (Cons h hs)
    obtain q u where a: "ask G h s = (q, u)" by (cases "ask G h s")
    note A = ask_run [OF a, of E]
    show ?case
    proof (cases q)
      case (Inl e)
      with a Cons.prems have "r = Inl e" "t = u" unfolding f_def folding.simps thenE_def by (simp_all add: bindE_def)
      with A show ?thesis by simp
    next
      case (Inr x)
      with a Cons.prems have "folding f (bs_insert h out0) hs u = (r, t)" unfolding f_def folding.simps thenE_def by (simp add: bindE_def)
      note B = Cons.IH [OF this]
      have "sess E s u" "sess E u t" using A B by simp_all
      then have "sess E s t" by (rule ses.comp)
      have ins: "bt_has (bs_insert h out0) g \<longleftrightarrow> g = h \<or> bt_has out0 g" for g by (simp add: bt_has_def)
      from A Inr have A2: "\<forall>g. bt_has (wanted u) g \<longleftrightarrow> bt_has (wanted s) g \<or> g = h"
        "\<forall>g. bt_has (wanted u) g \<longrightarrow> bt_has (wanted s) g \<or> OutControl (Want g) \<in> set (said u)"
        and said: "set (said s) \<subseteq> set (said u)" "set (said u) \<subseteq> set (said t)" using B by simp_all
      show ?thesis
      proof (intro conjI allI impI)
        fix out g assume out: "r = Inr out"
        show "bt_has (wanted t) g \<longleftrightarrow> bt_has (wanted s) g \<or> g \<in> set (h # hs)" using B out A2(1) by auto
        show "bt_has out g \<longleftrightarrow> bt_has out0 g \<or> g \<in> set (h # hs)" using B out ins by auto
        assume "bt_has (wanted t) g"
        with B out have "bt_has (wanted u) g \<or> OutControl (Want g) \<in> set (said t)" by simp
        with A2(2) said(2) show "bt_has (wanted s) g \<or> OutControl (Want g) \<in> set (said t)" by blast
      next
        show "set (said s) \<subseteq> set (said t)" using said by (rule subset_trans)
      qed (use \<open>sess E s t\<close> A B in simp_all)
    qed
  qed
  from this [of bt_empty] assms show ?thesis unfolding await_def f_def by (auto simp: bt_has_def)
qed

lemma stored_append:
  "\<lbrakk>stored s; all_taken us s; \<forall>u \<in> set us. covers (known s) (u_seen u)\<rbrakk> \<Longrightarrow>
   stored (s\<lparr>batches := batches s @ [\<lparr>batch = us, outstanding = out\<rparr>]\<rparr>)"
  by (auto simp: stored_def all_batches_def all_taken_def)

lemma stored_known: "\<lbrakk>stored s; covers vv (known s)\<rbrakk> \<Longrightarrow> stored (s\<lparr>known := vv\<rparr>)"
  unfolding stored_def all_batches_def all_taken_def by simp (meson covers_trans)

lemma apply_takes:
  assumes "receiver_inv E s"
    and "on_replica err (replica_apply E us src) s = (Inr page, t)"
  shows "all_taken us t"
proof -
  from assms(2) have "replica_apply E us src (rep s) = (Inr page, rep t)"
    by (auto simp: on_replica_def split: prod.splits sum.splits)
  from apply_stores [OF _ this] assms(1) show ?thesis
    by (simp add: all_taken_def receiver_inv_def receiver_base_def)
qed

lemma on_live_step:
  assumes inv: "alive E s"
    and run: "on_live E G us s = (r, t)"
  shows "live_step E s t \<and> (\<forall>b. r = Inr (Going b) \<longrightarrow> alive E t)"
proof -
  let ?s = "s\<lparr>known := learn us (known s)\<rparr>"
  let ?m = "thenE (on_replica Sync (replica_apply E us (\<lambda>_. None))) (needed E us) :: (live, serror, content_hash list) op"
  have i0: "alive E ?s" using inv by (simp add: alive_def waits_def locals_inv [of ?s s])
  have st0: "live_step E s ?s"
    using locals_sess [of ?s s E] learn_covers [of us "known s"] stored_known [of s "learn us (known s)"]
    by (simp add: live_step_def)
  have m_g: "guarded (receiver_inv E) (sess E) ?m (\<lambda>_. receiver_inv E)"
    by (rule ses.thenE_g [OF on_replica_step [OF replica_apply_g] needed_g])
  have m_q: "keeps quiet ?m" by (intro quiet_ops quiet_incoming)
  obtain q s1 where m: "?m ?s = (q, s1)" by (cases "?m ?s")
  from guardedD [OF quiet_alive [OF m_g m_q] i0 m] have st1: "live_step E ?s s1" "\<forall>x. q = Inr x \<longrightarrow> alive E s1" by auto
  have q1: "quiet ?s s1" by (rule keepsE [OF m_q m])
  show ?thesis
  proof (cases q)
    case (Inl e)
    with run m have "t = s1" "r = Inr Left" by (simp_all add: on_live_def runs)
    with lst.comp [OF st0 st1(1)] show ?thesis by simp
  next
    case (Inr missing)
    obtain p s2 where aw: "await G missing s1 = (p, s2)" by (cases "await G missing s1")
    note A = await_run [OF aw, of E]
    have st2: "live_step E s1 s2" using A by (intro quiet_live) simp_all
    have stored: "all_taken us s2"
    proof -
      from m Inr obtain page a where ap: "on_replica Sync (replica_apply E us (\<lambda>_. None)) ?s = (Inr page, a)"
        and ne: "needed E us a = (Inr missing, s1)" by (auto simp: thenE_Inr)
      have ia: "receiver_inv E ?s" using i0 by (simp add: alive_def)
      have ta: "all_taken us a" by (rule apply_takes [OF ia ap])
      have i1: "receiver_inv E a" using guardedD [OF on_replica_step [OF replica_apply_g] ia ap] by simp
      have "sess E a s1" using guardedD [OF needed_g i1 ne] by simp
      moreover have "sess E s1 s2" using A by simp
      ultimately have "sess E a s2" by (rule ses.comp)
      from all_taken_sess [OF this inv_base [OF i1] ta] show ?thesis .
    qed
    have kn: "\<forall>u \<in> set us. covers (known s2) (u_seen u)"
      using A q1 learn_covers [of us "known s"] by (simp add: quiet_def)
    have st: "live_step E s s2" by (rule lst.comp [OF lst.comp [OF st0 st1(1)] st2])
    show ?thesis
    proof (cases p)
      case (Inl e)
      with run m Inr aw have "t = s2" "r = Inr Vanished" by (simp_all add: on_live_def runs)
      with st show ?thesis by simp
    next
      case out: (Inr out)
      let ?t = "s2\<lparr>batches := batches s2 @ [\<lparr>batch = us, outstanding = out\<rparr>]\<rparr>"
      from run m Inr aw out have t: "t = ?t" "r = Inr (Going False)" by (simp_all add: on_live_def runs)
      have "live_step E s2 ?t"
        using locals_sess [of ?t s2 E] stored_append [OF _ stored kn]
        by (auto simp: live_step_def)
      moreover have "receiver_inv E ?t"
      proof -
        have "alive E s1" using st1 Inr by simp
        moreover have "receiver_inv E ?t = receiver_inv E s1" using A by (intro locals_inv) simp_all
        ultimately show ?thesis by (simp add: alive_def)
      qed
      moreover have "waits ?t"
      proof -
        have w1: "waits s1" using st1 Inr by (simp add: alive_def)
        have A2: "batches s2 = batches s1" "set (said s1) \<subseteq> set (said s2)"
          "\<And>g. bt_has (wanted s2) g \<longleftrightarrow> bt_has (wanted s1) g \<or> bt_has out g"
          "\<And>g. bt_has (wanted s2) g \<Longrightarrow> bt_has (wanted s1) g \<or> OutControl (Want g) \<in> set (said s2)"
          using A out by simp_all
        have "OutControl (Want g) \<in> set (said s2)" if "bt_has (wanted s2) g" for g
          using A2(2) A2(4) [OF that] w1 by (auto simp: waits_def)
        moreover have "bt_has (wanted s2) g \<longleftrightarrow> (\<exists>w \<in> set (batches ?t). bt_has (outstanding w) g)" for g
          using w1 A2(1,3) by (auto simp: waits_def)
        ultimately show ?thesis by (simp add: waits_def)
      qed
      ultimately show ?thesis using lst.comp [OF st] t by (simp add: alive_def)
    qed
  qed
qed

lemma remember_step: "alive E s \<Longrightarrow> remember h s = (r, t) \<Longrightarrow> live_step E s t \<and> alive E t"
proof -
  assume inv: "alive E s" and run: "remember h s = (r, t)"
  have t: "rep t = rep s" "open_blob t = open_blob s" "known t = known s" "announced t = announced s" "said t = said s"
    "wanted t = bt_remove h (wanted s)" "batches t = map (\<lambda>w. w\<lparr>outstanding := bt_remove h (outstanding w)\<rparr>) (batches s)"
    using run by (auto simp: remember_def)
  have "batch ` set (batches t) = batch ` set (batches s)" by (simp add: t image_image)
  with t have "live_step E s t"
    by (auto simp: live_step_def locals_sess stored_def all_batches_def all_taken_def)
  moreover have "waits t" using inv by (auto simp: alive_def waits_def t bt_has_def)
  moreover have "receiver_inv E t" using inv by (simp add: alive_def locals_inv [of t s] t)
  ultimately show ?thesis by (simp add: alive_def)
qed

lemma remember_g: "guarded (alive E) (live_step E) (remember h) (\<lambda>_. alive E)"
  by (rule guardedI) (blast dest: remember_step)

definition going_alive :: "env \<Rightarrow> turn \<Rightarrow> live \<Rightarrow> bool" where
  "going_alive E t s \<longleftrightarrow> (\<forall>b. t = Going b \<longrightarrow> alive E s)"

lemma going_alive_simps [simp]: "going_alive E (Going b) s \<longleftrightarrow> alive E s" "going_alive E Left s" "going_alive E Vanished s"
  by (simp_all add: going_alive_def)

lemma or_leave_g:
  assumes "guarded (alive E) (live_step E) m (\<lambda>_. alive E)"
    and "\<And>x. guarded (alive E) (live_step E) (f x) (going_alive E)"
  shows "guarded (alive E) (live_step E) (or_leave m f) (going_alive E)"
  unfolding or_leave_def [abs_def]
proof (rule lst.bindE_g [OF lst.attempt_any_g [OF assms(1)]])
  fix r :: "serror + 'a"
  show "guarded (\<lambda>s. \<forall>x. r = Inr x \<longrightarrow> alive E s) (live_step E) (case r of Inl _ \<Rightarrow> ret Left | Inr x \<Rightarrow> f x) (going_alive E)"
    using assms(2) by (cases r) (auto intro: lst.ret_g)
qed

lemma going_ret: "guarded (alive E) (live_step E) (ret (Going b)) (going_alive E)"
  by (auto intro: lst.ret_g)

lemma remembered: "guarded (alive E) (live_step E) (thenE (remember h) (ret (Going b))) (going_alive E)"
  by (intro lst.thenE_g [OF remember_g] going_ret)

lemma incoming_alive:
  "guarded (alive E) (live_step E) (incoming_start E h len) (\<lambda>_. alive E)"
  "guarded (alive E) (live_step E) (incoming_chunk E bs) (\<lambda>_. alive E)"
  "guarded (alive E) (live_step E) (incoming_end E) (\<lambda>_. alive E)"
  "guarded (alive E) (live_step E) (incoming_aborted E h) (\<lambda>_. alive E)"
  by (intro quiet_alive quiet_incoming guarded_rel [OF incoming_start_g recv_sess] guarded_rel [OF incoming_chunk_g recv_sess]
      guarded_rel [OF guarded_post [OF incoming_end_g] recv_sess] guarded_rel [OF guarded_post [OF incoming_aborted_g] recv_sess]; simp)+

lemma live_frame_g:
  "guarded (alive E) (live_step E) (live_frame E G f) (going_alive E)"
proof (cases f)
  case (Control m)
  show ?thesis
  proof (cases m)
    case (Live us)
    have "guarded (alive E) (live_step E) (on_live E G us) (going_alive E)"
      by (intro guardedI) (use on_live_step in \<open>fastforce simp: going_alive_def\<close>)
    with Control Live show ?thesis unfolding live_frame_def [abs_def] by simp
  qed (use Control in \<open>unfold live_frame_def [abs_def], simp_all,
      auto intro!: lst.ret_g remembered or_leave_g going_ret incoming_alive
        lst.bindE_g [OF quiet_alive [OF answer_g]] quiet_incoming quiet_alive send_g quiet_send\<close>)
qed (unfold live_frame_def [abs_def], auto intro!: or_leave_g going_ret remembered incoming_alive)

lemma announce_step: "alive E s \<Longrightarrow> announce s = (r, t) \<Longrightarrow>
    live_step E s t \<and> alive E t \<and> (\<forall>w \<in> set (batches t). outstanding w \<noteq> bt_empty)"
proof -
  assume inv: "alive E s" and run: "announce s = (r, t)"
  have t: "rep t = rep s" "open_blob t = open_blob s" "known t = known s" "said t = said s" "wanted t = wanted s"
    "announced t = announced s @ map batch (filter settled_batch (batches s))"
    "batches t = filter (\<lambda>w. \<not> settled_batch w) (batches s)"
    using run by (auto simp: announce_def)
  have "all_batches t = all_batches s" by (auto simp: all_batches_def t)
  with t have "live_step E s t" by (simp add: live_step_def locals_sess stored_def all_taken_def)
  moreover have "waits t" using inv by (auto simp: alive_def waits_def t settled_batch_def bt_has_def)
  moreover have "receiver_inv E t" using inv by (simp add: alive_def locals_inv [of t s] t)
  ultimately show ?thesis by (auto simp: alive_def t settled_batch_def)
qed

definition turned :: "env \<Rightarrow> turn \<Rightarrow> live \<Rightarrow> bool" where
  "turned E t s \<longleftrightarrow> (\<forall>b. t = Going b \<longrightarrow> alive E s \<and> (\<forall>w \<in> set (batches s). outstanding w \<noteq> bt_empty))"

lemma turned_simps [simp]: "turned E Left s" "turned E Vanished s"
  "turned E (Going b) s \<longleftrightarrow> alive E s \<and> (\<forall>w \<in> set (batches s). outstanding w \<noteq> bt_empty)"
  by (simp_all add: turned_def)

lemma live_turn_g:
  "guarded (alive E) (live_step E) (live_turn E G f) (turned E)"
  unfolding live_turn_def [abs_def]
proof (rule lst.bindE_g [OF live_frame_g])
  fix t
  have fetch: "guarded (alive E) (live_step E)
      (if wrote then thenE (on_replica Sync (fetch_missing E (\<lambda>_. None))) (ret ()) else ret ()) (\<lambda>_. alive E)" for wrote
    by (intro guarded_if lst.ret_g lst.thenE_g [OF quiet_alive [OF on_replica_step [OF fetch_missing_g] quiet_replica]])
  have an: "guarded (alive E) (live_step E) (thenE announce (ret t)) (turned E)"
    by (rule lst.thenE_g [where B = "\<lambda>s. alive E s \<and> (\<forall>w \<in> set (batches s). outstanding w \<noteq> bt_empty)"])
      (auto intro!: guardedI lst.ret_g simp: turned_def dest: announce_step)
  have after: "guarded (\<lambda>s. \<forall>x. r = Inr x \<longrightarrow> alive E s) (live_step E)
      (case r of Inl (_ :: serror) \<Rightarrow> ret Left | Inr _ \<Rightarrow> thenE announce (ret t)) (turned E)" for r :: "serror + unit"
    using an by (cases r) (auto intro: lst.ret_g)
  show "guarded (going_alive E t) (live_step E) (case t of
     Going wrote \<Rightarrow>
       bindE (attempt (if wrote then thenE (on_replica Sync (fetch_missing E (\<lambda>_. None))) (ret ()) else ret ())) (\<lambda>r. case r of
         Inl (_ :: serror) \<Rightarrow> ret Left
       | Inr _ \<Rightarrow> thenE announce (ret t))
   | _ \<Rightarrow> ret t) (turned E)"
  proof (cases t)
    case (Going wrote)
    have "guarded (alive E) (live_step E) (bindE
        (attempt (if wrote then thenE (on_replica Sync (fetch_missing E (\<lambda>_. None))) (ret ()) else ret ())) (\<lambda>r. case r of
         Inl (_ :: serror) \<Rightarrow> ret Left | Inr _ \<Rightarrow> thenE announce (ret t))) (turned E)"
      by (rule lst.bindE_g [OF lst.attempt_any_g [OF fetch] after])
    moreover have "going_alive E (Going wrote) = alive E" by (simp add: fun_eq_iff)
    ultimately show ?thesis unfolding Going by (simp only: turn.case)
  qed (simp_all add: lst.ret_g)
qed

text \<open>The state after the inputs, if the task still goes on then.\<close>

fun live_after :: "env \<Rightarrow> (nat \<Rightarrow> bool) \<Rightarrow> input list \<Rightarrow> live \<Rightarrow> live option" where
  "live_after E G [] s = Some s"
| "live_after E G (Meanwhile ev # ins) s = live_after E G ins (s\<lparr>rep := run_event E ev (rep s)\<rparr>)"
| "live_after E G (Frame f # ins) s = (case live_turn E G f s of
     (Inr (Going _), t) \<Rightarrow> live_after E G ins t
   | _ \<Rightarrow> None)"

lemma live_loop_after: "live_after E G ins s = Some t \<Longrightarrow> live_loop E G (ins @ later) s = live_loop E G later t"
  by (induction E G ins s rule: live_after.induct) (auto simp: runs bindE_def split: prod.splits sum.splits turn.splits)

lemma live_after_append: "live_after E G ins s = Some t \<Longrightarrow> live_after E G (ins @ later) s = live_after E G later t"
  by (induction E G ins s rule: live_after.induct) (auto split: prod.splits sum.splits turn.splits)

lemma meanwhile_live:
  assumes "alive E s" "same_process (Meanwhile ev)"
  shows "live_step E s (s\<lparr>rep := run_event E ev (rep s)\<rparr>) \<and> alive E (s\<lparr>rep := run_event E ev (rep s)\<rparr>)"
proof -
  have "guarded (alive E) (live_step E) (update (\<lambda>s. s\<lparr>rep := run_event E ev (rep s)\<rparr>)) (\<lambda>_. alive E)"
    by (intro quiet_alive meanwhile_g [OF assms(2)] quiet_update) (simp add: quiet_def)
  from guardedD [OF this assms(1)] show ?thesis by simp
qed

lemma live_after_step:
  "\<lbrakk>alive E s; list_all same_process ins; live_after E G ins s = Some t\<rbrakk> \<Longrightarrow>
   live_step E s t \<and> alive E t"
proof (induction ins arbitrary: s)
  case Nil
  then show ?case by (simp add: lst.same)
next
  case (Cons i ins)
  show ?case
  proof (cases i)
    case (Meanwhile ev)
    with Cons meanwhile_live [OF Cons.prems(1)] lst.comp show ?thesis by (auto simp del: same_process.simps) blast
  next
    case (Frame f)
    with Cons.prems obtain b u where u: "live_turn E G f s = (Inr (Going b), u)" "live_after E G ins u = Some t"
      by (auto split: prod.splits sum.splits turn.splits)
    from guardedD [OF live_turn_g Cons.prems(1) u(1)] have step: "live_step E s u" "alive E u" by auto
    with Cons.IH [OF step(2) _ u(2)] Cons.prems show ?thesis by (auto intro: lst.comp)
  qed
qed

lemma shut_step: "shut s = (r, t) \<Longrightarrow> live_step E s t"
  by (rule quiet_live) (auto simp: shut_def locals_sess)

lemma live_loop_step:
  "\<lbrakk>alive E s; list_all same_process ins; live_loop E G ins s = (r, t)\<rbrakk> \<Longrightarrow> live_step E s t"
proof (induction ins arbitrary: s)
  case Nil
  then show ?case by (simp add: shut_step)
next
  case (Cons i ins)
  show ?case
  proof (cases i)
    case (Meanwhile ev)
    with Cons.prems have same: "same_process (Meanwhile ev)" by simp
    note step = meanwhile_live [OF Cons.prems(1) this]
    from Meanwhile Cons.prems have "live_loop E G ins (s\<lparr>rep := run_event E ev (rep s)\<rparr>) = (r, t)" by (simp add: runs)
    from Cons.IH [OF conjunct2 [OF step] _ this] step Cons.prems lst.comp show ?thesis by auto
  next
    case (Frame f)
    obtain q u where turn: "live_turn E G f s = (q, u)" by (cases "live_turn E G f s")
    note T = guardedD [OF live_turn_g Cons.prems(1) turn]
    show ?thesis
    proof (cases "\<exists>b. q = Inr (Going b)")
      case True
      with Frame turn Cons.prems have "live_loop E G ins u = (r, t)" by (auto simp: runs)
      with Cons.IH [of u] T True Cons.prems show ?thesis by (auto intro: lst.comp)
    next
      case False
      have "live_step E u t"
      proof (cases q)
        case (Inr x)
        with False Frame turn Cons.prems show ?thesis
          by (cases x) (auto simp: runs lst.same intro: shut_step)
      qed (use Frame turn Cons.prems in \<open>simp add: runs lst.same\<close>)
      with T show ?thesis by (auto intro: lst.comp)
    qed
  qed
qed

section \<open>Every batch once\<close>

definition total_batches :: "live \<Rightarrow> path_update list multiset" where
  "total_batches s = mset (announced s) + mset (map batch (batches s))"

definition same_total :: "live \<Rightarrow> live \<Rightarrow> bool" where
  "same_total s t \<longleftrightarrow> total_batches t = total_batches s"

interpretation tot: step_relation same_total
  by unfold_locales (auto simp: same_total_def)

lemma quiet_total: "keeps quiet m \<Longrightarrow> keeps same_total m"
  by (auto simp: keeps_def quiet_def same_total_def total_batches_def)

lemma remember_total: "keeps same_total (remember h)"
  by (auto simp: keeps_def same_total_def total_batches_def remember_def comp_def)

lemma mset_filter_split: "mset (map f (filter P xs)) + mset (map f (filter (\<lambda>x. \<not> P x) xs)) = mset (map f xs)"
  by (induction xs) auto

lemma announce_total: "keeps same_total announce"
  using mset_filter_split [of batch settled_batch]
  by (auto simp: keeps_def same_total_def total_batches_def announce_def add.assoc)

lemma or_leave_total: "\<lbrakk>keeps same_total m; \<And>x. keeps same_total (f x)\<rbrakk> \<Longrightarrow> keeps same_total (or_leave m f)"
  unfolding or_leave_def [abs_def] by (intro tot.steps keeps_control)

lemmas total_ops = tot.steps or_leave_total remember_total quiet_total [OF quiet_send] quiet_incoming [THEN quiet_total]
  quiet_total [OF quiet_replica]

lemma live_frame_total: "\<forall>us. f \<noteq> Control (Live us) \<Longrightarrow> keeps same_total (live_frame E G f)"
  unfolding live_frame_def [abs_def] by (cases f) (auto split: message.splits intro!: total_ops)

lemma on_live_total: "on_live E G us s = (Inr (Going b), t) \<Longrightarrow> total_batches t = total_batches s + {#us#}"
proof -
  assume run: "on_live E G us s = (Inr (Going b), t)"
  let ?s = "s\<lparr>known := learn us (known s)\<rparr>"
  obtain q s1 where m: "thenE (on_replica Sync (replica_apply E us (\<lambda>_. None))) (needed E us) ?s = (q, s1)" by force
  with run obtain missing where q: "q = Inr missing" by (cases q) (auto simp: on_live_def runs)
  obtain p s2 where aw: "await G missing s1 = (p, s2)" by force
  with run m q obtain out where p: "p = Inr out" by (cases p) (auto simp: on_live_def runs)
  from run m q aw p have t: "t = s2\<lparr>batches := batches s2 @ [\<lparr>batch = us, outstanding = out\<rparr>]\<rparr>" by (simp add: on_live_def runs)
  have "keeps quiet (thenE (on_replica Sync (replica_apply E us (\<lambda>_. None))) (needed E us) :: (live, serror, content_hash list) op)"
    by (intro quiet_ops quiet_incoming)
  from keepsE [OF this m] have "quiet ?s s1" .
  with await_run [OF aw, of E] p show ?thesis by (simp add: total_batches_def quiet_def t)
qed

text \<open>The \<open>Live\<close> batches among the inputs.\<close>

fun lives :: "input list \<Rightarrow> path_update list list" where
  "lives [] = []"
| "lives (Frame (Control (Live us)) # ins) = us # lives ins"
| "lives (_ # ins) = lives ins"

lemma lives_other: "\<forall>us. f \<noteq> Control (Live us) \<Longrightarrow> lives (Frame f # ins) = lives ins"
  by (cases "Frame f # ins" rule: lives.cases) auto

lemma live_turn_total:
  assumes "live_turn E G f s = (Inr (Going b), t)"
  shows "total_batches t = total_batches s + mset (lives [Frame f])"
proof -
  obtain s1 s2 u where f: "live_frame E G f s = (Inr (Going b), s1)" and an: "announce s2 = (Inr (), t)"
    and fe: "(if b then thenE (on_replica Sync (fetch_missing E (\<lambda>_. None))) (ret ()) else ret ()) s1 = (u, s2)"
  proof -
    obtain q s1 where q: "live_frame E G f s = (q, s1)" by force
    with assms obtain b' where b': "q = Inr (Going b')" by (cases q) (auto simp: live_turn_def runs split: turn.splits)
    obtain u s2 where u: "(if b' then thenE (on_replica Sync (fetch_missing E (\<lambda>_. None))) (ret ()) else ret ()) s1 = (u, s2)" by force
    with assms q b' obtain x where "u = Inr x" by (cases u) (auto simp: live_turn_def runs)
    with assms q b' u that show thesis by (auto simp: live_turn_def runs thenE_Inr)
  qed
  have "keeps same_total (if b then thenE (on_replica Sync (fetch_missing E (\<lambda>_. None))) (ret ()) else ret ())"
    by (intro keeps_control total_ops)
  from keepsE [OF this fe] keepsE [OF announce_total an] have eq: "total_batches t = total_batches s1"
    by (simp add: same_total_def)
  show ?thesis
  proof (cases "\<exists>us. f = Control (Live us)")
    case True
    with f eq on_live_total show ?thesis by (auto simp: live_frame_def)
  next
    case False
    then have "lives [Frame f] = []" by (simp add: lives_other)
    moreover have "total_batches s1 = total_batches s"
      using keepsE [OF live_frame_total f] False by (simp add: same_total_def)
    ultimately show ?thesis using eq by simp
  qed
qed

lemma live_after_total:
  "live_after E G ins s = Some t \<Longrightarrow> total_batches t = total_batches s + mset (lives ins)"
proof (induction E G ins s rule: live_after.induct)
  case (2 E G ev ins s)
  then show ?case by (simp add: total_batches_def)
next
  case (3 E G f ins s)
  then obtain b u where u: "live_turn E G f s = (Inr (Going b), u)" "live_after E G ins u = Some t"
    by (auto split: prod.splits sum.splits turn.splits)
  have "mset (lives (Frame f # ins)) = mset (lives [Frame f]) + mset (lives ins)"
    by (cases "Frame f # ins" rule: lives.cases) auto
  with "3.IH" [of "Inr (Going b)" u "Going b"] u live_turn_total [OF u(1)] show ?case by simp
qed simp

lemma live_after_rested:
  assumes "alive E s" "list_all same_process ins" "live_after E G ins s = Some t"
    and "\<forall>w \<in> set (batches s). outstanding w \<noteq> bt_empty"
  shows "\<forall>w \<in> set (batches t). outstanding w \<noteq> bt_empty"
  using assms
proof (induction ins arbitrary: s)
  case (Cons i ins)
  show ?case
  proof (cases i)
    case (Meanwhile ev)
    let ?s = "s\<lparr>rep := run_event E ev (rep s)\<rparr>"
    have "alive E ?s" using meanwhile_live [OF Cons.prems(1), of ev] Cons.prems(2) Meanwhile by simp
    from Cons.IH [OF this] Cons.prems Meanwhile show ?thesis by simp
  next
    case (Frame f)
    with Cons.prems obtain b u where u: "live_turn E G f s = (Inr (Going b), u)" "live_after E G ins u = Some t"
      by (auto split: prod.splits sum.splits turn.splits)
    from guardedD [OF live_turn_g Cons.prems(1) u(1)] have "alive E u" "\<forall>w \<in> set (batches u). outstanding w \<noteq> bt_empty"
      by auto
    from Cons.IH [OF this(1) _ u(2) this(2)] Cons.prems show ?thesis by simp
  qed
qed simp

text \<open>A hash that the peer does not have is an answer too.\<close>

lemma missing_turn:
  "live_turn E G (Control (Missing h)) s = (Inr (Going False), snd (announce (snd (remember h s))))"
  by (simp add: live_turn_def live_frame_def bindE_def thenE_def attempt_def remember_def announce_def)

definition missing_all :: "content_hash list \<Rightarrow> input list" where
  "missing_all hs = map (\<lambda>h. Frame (Control (Missing h))) hs"

lemma missing_run:
  "\<exists>t. live_after E G (missing_all hs) s = Some t \<and> (\<forall>g. bt_has (wanted t) g \<longleftrightarrow> bt_has (wanted s) g \<and> g \<notin> set hs)"
proof (induction hs arbitrary: s)
  case Nil
  then show ?case by (simp add: missing_all_def)
next
  case (Cons h hs)
  let ?s = "snd (announce (snd (remember h s)))"
  have "bt_has (wanted ?s) g \<longleftrightarrow> bt_has (wanted s) g \<and> g \<noteq> h" for g
    by (auto simp: announce_def remember_def bt_has_def)
  with Cons [of ?s] show ?case by (auto simp: missing_all_def missing_turn)
qed

lemma missing_plain: "list_all same_process (missing_all hs)" "lives (missing_all hs) = []"
  by (induction hs) (auto simp: missing_all_def)

lemma go_live_simps [simp]:
  "rep (go_live vv s) = rep s" "open_blob (go_live vv s) = open_blob s" "said (go_live vv s) = said s"
  "wanted (go_live vv s) = bt_empty" "batches (go_live vv s) = []" "known (go_live vv s) = vv" "announced (go_live vv s) = []"
  "still_open (go_live vv s)"
  by (simp_all add: go_live_def side.defs live.defs)

lemma go_live_alive: "receiver_inv E s \<Longrightarrow> alive E (go_live vv s)"
  by (auto simp: alive_def waits_def bt_has_def receiver_inv_def receiver_base_def)

lemma go_live_stored: "stored (go_live vv s)"
  by (simp add: stored_def all_batches_def)

lemma drop_none: "open_blob s = None \<Longrightarrow> incoming_drop E s = (Inr (), s)"
  by (simp add: incoming_drop_def bindE_def)

lemma materialise_blob: "materialise E vv s = (r, t) \<Longrightarrow> open_blob t = open_blob s"
  by (auto simp: materialise_def on_replica_def bindE_def thenE_def split: prod.splits sum.splits)

interpretation sop: step_relation "\<lambda>s t. still_open t = still_open s"
  by unfold_locales auto

lemma has_none: "m = bt_empty \<longleftrightarrow> (\<forall>g. \<not> bt_has m g)"
  by (auto simp: bt_has_def bt_empty_iff)

section \<open>Properties\<close>

text \<open>
  C22: A live session announces only what is stored. From its start on, whatever frames arrive, whatever
  fails and whoever else uses the replica meanwhile, and however the task ends, every sound update (well
  formed, its vector covering its own versions) of every announced batch is covered by the stored state of
  its path; of every update, sound or not, the peer is known to have what it says it has seen, as it is
  of everything the peer had at the start; and the replica keeps its invariant and forgets nothing. The other uses of
  the replica are those of the same process: no reopening.
\<close>

theorem announced_batches_stored:
  assumes "receiver_inv E s" "list_all same_process ins"
    and "live_loop E G ins (go_live vv s) = (r, t)"
  shows "(\<forall>us \<in> set (announced t). \<forall>u \<in> set us. (sound_update u \<longrightarrow> taken (db_paths (rep t)) u) \<and> covers (known t) (u_seen u)) \<and>
    covers (known t) vv \<and> replica_inv E (rep t) \<and> db_grows (rep s) (rep t)"
proof -
  have base: "receiver_base E (go_live vv s)" "replica_inv E (rep s)"
    using inv_base [OF assms(1)] by (simp_all add: receiver_base_def)
  have step: "live_step E (go_live vv s) t"
    by (rule live_loop_step [OF go_live_alive [OF assms(1)] assms(2,3)])
  then have st: "stored t" using base go_live_stored by (simp add: live_step_def)
  have "sess E (go_live vv s) t" "covers (known t) vv" using step by (simp_all add: live_step_def)
  with base have "replica_inv E (rep t)" "db_grows (rep s) (rep t)"
    unfolding sess_def by (simp_all add: receiver_base_def)
  moreover have "(sound_update u \<longrightarrow> taken (db_paths (rep t)) u) \<and> covers (known t) (u_seen u)"
    if "us \<in> set (announced t)" "u \<in> set us" for us u
    using st that by (auto simp: stored_def all_batches_def all_taken_def)
  ultimately show ?thesis using \<open>covers (known t) vv\<close> by blast
qed

text \<open>
  C21: Every batch is announced, once. When a task is still going after some inputs, each hash it waits
  for has been asked of the peer; and once the peer has answered each of them, if only with \<open>Missing\<close>,
  the task is still going, no batch is left waiting, and the batches announced are exactly the \<open>Live\<close>
  batches that arrived, each as often as it arrived.
\<close>

theorem every_batch_announced:
  assumes "receiver_inv E s" "list_all same_process ins"
    and "live_after E G ins (go_live vv s) = Some s1" "set (bt_keys (wanted s1)) \<subseteq> set hs"
  shows "(\<forall>h \<in> set (bt_keys (wanted s1)). OutControl (Want h) \<in> set (said s1)) \<and>
    (\<exists>t. live_after E G (ins @ missing_all hs) (go_live vv s) = Some t \<and> batches t = [] \<and>
      mset (announced t) = mset (lives ins))"
proof -
  note start = go_live_alive [OF assms(1), of vv]
  have a1: "alive E s1" using live_after_step [OF start assms(2,3)] by simp
  have r1: "\<forall>w \<in> set (batches s1). outstanding w \<noteq> bt_empty"
    by (rule live_after_rested [OF start assms(2,3)]) simp
  obtain t where t: "live_after E G (missing_all hs) s1 = Some t"
    "\<And>g. bt_has (wanted t) g \<longleftrightarrow> bt_has (wanted s1) g \<and> g \<notin> set hs" using missing_run by blast
  have a2: "alive E t" using live_after_step [OF a1 missing_plain(1) t(1)] by simp
  have r2: "\<forall>w \<in> set (batches t). outstanding w \<noteq> bt_empty"
    by (rule live_after_rested [OF a1 missing_plain(1) t(1) r1])
  have "\<not> bt_has (wanted t) g" for g using t(2) assms(4) by (auto simp: bt_keys_iff)
  with a2 have "\<forall>w \<in> set (batches t). outstanding w = bt_empty"
    by (simp add: alive_def waits_def has_none)
  with r2 have none: "batches t = []" by (cases "batches t") auto
  have "total_batches t = mset (lives ins)"
    using live_after_total [OF assms(3)] live_after_total [OF t(1)] missing_plain(2) by (simp add: total_batches_def)
  with none have "mset (announced t) = mset (lives ins)" by (simp add: total_batches_def)
  moreover have "live_after E G (ins @ missing_all hs) (go_live vv s) = Some t"
    using live_after_append [OF assms(3)] t(1) by simp
  moreover have "\<forall>h \<in> set (bt_keys (wanted s1)). OutControl (Want h) \<in> set (said s1)"
    using a1 by (auto simp: alive_def waits_def bt_keys_iff)
  ultimately show ?thesis using none by blast
qed

text \<open>
  A live session opens exactly where a session would succeed. With no content open when the exchange
  ends: an exchange that failed, was refused or broke the protocol gives the same error to both; one that
  completed is materialised and committed with the same result; a peer that left is a success that
  commits nothing for \<open>run_session\<close> and an error for \<open>open_live_session\<close>. The peer is then taken to have
  what it said and what was sent.
\<close>

theorem live_opens_as_session:
  assumes "initial_exchange E W G dbg ws hello ins e s = (q, s1)" "open_blob s1 = None"
    and "open_live E W G dbg ws hello ins e s = (r, t)"
  shows "case q of
      Inl err \<Rightarrow> r = Inl err \<and> t = s1 \<and> run_session E W G dbg ws hello ins e s = (Inl err, s1)
    | Inr x \<Rightarrow> if x_stop x = Gone
        then r = Inl (Protocol ''the peer left before the exchange finished'') \<and> t = s1 \<and>
          run_session E W G dbg ws hello ins e s = (Inr (outcome_of (x_sent x) s1), s1)
        else run_session E W G dbg ws hello ins e s = (map_sum id fst r, t) \<and>
          (\<forall>out vv. r = Inr (out, vv) \<longrightarrow> x_stop x = Complete \<and> vv = vv_merge (x_peer_vv x) (x_sent_vv x))"
proof (cases q)
  case (Inl err)
  with assms show ?thesis by (simp add: open_live_def run_session_def runs drop_none)
next
  case (Inr x)
  show ?thesis
  proof (cases "x_stop x")
    case Complete
    obtain p s2 where m: "materialise E (x_peer_vv x) s1 = (p, s2)" by (cases "materialise E (x_peer_vv x) s1")
    have "open_blob s2 = None" using materialise_blob [OF m] assms(2) by simp
    with assms Inr Complete m show ?thesis
      by (cases p) (auto simp: open_live_def run_session_def runs drop_none)
  qed (use assms Inr in \<open>auto simp: open_live_def run_session_def runs drop_none\<close>)
qed

text \<open>
  A task that finds its writer gone does not say so. When a batch needs content and the \<open>Want\<close> for
  it cannot be queued any more, the task returns at once: it reads nothing after that frame, announces
  nothing, and leaves \<open>is_open\<close> as it was, though every other way for it to end clears it.
\<close>

theorem lost_writer_stays_open:
  assumes "on_live E G us s = (Inr Vanished, t)"
  shows "live_loop E G (Frame (Control (Live us)) # ins) s = (Inr (), t) \<and> still_open t = still_open s \<and>
    announced t = announced s \<and> batches t = batches s"
proof -
  let ?s = "s\<lparr>known := learn us (known s)\<rparr>"
  let ?m = "thenE (on_replica Sync (replica_apply E us (\<lambda>_. None))) (needed E us) :: (live, serror, content_hash list) op"
  obtain q s1 where m: "?m ?s = (q, s1)" by force
  with assms obtain missing where q: "q = Inr missing" by (cases q) (auto simp: on_live_def runs)
  have "keeps quiet ?m" by (intro quiet_ops quiet_incoming)
  from keepsE [OF this m] have q1: "quiet ?s s1" .
  obtain p s2 where aw: "await G missing s1 = (p, s2)" by force
  with assms m q obtain x where p: "p = Inl x" by (cases p) (auto simp: on_live_def runs)
  with assms m q aw have t: "t = s2" by (simp add: on_live_def runs)
  have "still_open s2 = still_open s1"
  proof -
    have "keeps (\<lambda>s t. still_open t = still_open s) (await G missing)"
      unfolding await_def [abs_def] ask_def [abs_def]
      by (intro sop.steps keeps_control) (auto simp: keeps_def send_def)
    from keepsE [OF this aw] show ?thesis .
  qed
  with q1 await_run [OF aw, of E] t have "still_open t = still_open s \<and> announced t = announced s \<and> batches t = batches s"
    by (simp add: quiet_def)
  with assms show ?thesis by (simp add: live_turn_def live_frame_def runs)
qed

section \<open>A live session run\<close>

lemmas live_eval = live_turn_def live_frame_def on_live_def await_def remember_def or_leave_def announce_def settled_batch_def
  learn_def go_live_def side.defs live.defs

definition ex_live :: live where
  "ex_live = go_live vv_new ex_side"

lemma ex_live_run:
  "map_option (\<lambda>s. (bt_keys (wanted s), said s, announced s)) (live_after ex_env (\<lambda>_. False) [Frame (Control (Live [ex_new]))] ex_live)
     = Some ([[9]], [OutControl (Want [9])], [])"
  "map_option announced (live_after ex_env (\<lambda>_. False) [Frame (Control (Live [ex_new])), Frame (Control (Missing [9]))] ex_live)
     = Some [[ex_new]]"
  "fst (on_live ex_env (\<lambda>_. True) [ex_new] ex_live) = Inr Vanished"
  by (simp_all add: ex_live_def live_eval session_eval replica_eval ex_state_defs ex_side_def word_le_nat_alt)

lemma ex_exchange_closed:
  "open_blob (snd (initial_exchange ex_env ex_wire (\<lambda>_. False) (\<lambda>_. []) 8 ex_hello ex_inputs None ex_side)) = None"
  by (simp add: session_eval replica_eval ex_state_defs ex_side_def ex_hello_def ex_inputs_def word_le_nat_alt)

theorem announced_batches_stored_witness:
  "\<exists>t. live_loop ex_env (\<lambda>_. False) [Frame (Control (Live [ex_new])), Frame (Control (Missing [9]))] ex_live = (Inr (), t) \<and>
     announced t = [[ex_new]] \<and> taken (db_paths (rep t)) ex_new"
proof -
  let ?ins = "[Frame (Control (Live [ex_new])), Frame (Control (Missing [9]))]"
  obtain u where u: "live_after ex_env (\<lambda>_. False) ?ins ex_live = Some u" "announced u = [[ex_new]]"
    using ex_live_run(2) by (cases "live_after ex_env (\<lambda>_. False) ?ins ex_live") auto
  from live_loop_after [OF u(1), of "[]"] have run: "live_loop ex_env (\<lambda>_. False) ?ins ex_live = (Inr (), u\<lparr>still_open := False\<rparr>)"
    by (simp add: shut_def)
  have ins: "list_all same_process ?ins" by simp
  show ?thesis
    using announced_batches_stored [OF ex_side_inv ins run [unfolded ex_live_def]] run u(2) ex_new_sound by simp
qed

theorem every_batch_announced_witness:
  "\<exists>t. live_after ex_env (\<lambda>_. False) ([Frame (Control (Live [ex_new]))] @ missing_all [[9]]) ex_live = Some t \<and>
     batches t = [] \<and> mset (announced t) = {#[ex_new]#}"
proof -
  let ?ins = "[Frame (Control (Live [ex_new]))]"
  obtain u where u: "live_after ex_env (\<lambda>_. False) ?ins ex_live = Some u" "bt_keys (wanted u) = [[9]]"
    using ex_live_run(1) by (cases "live_after ex_env (\<lambda>_. False) ?ins ex_live") auto
  have ins: "list_all same_process ?ins" by simp
  show ?thesis
    using every_batch_announced [OF ex_side_inv ins u(1) [unfolded ex_live_def], of "[[9]]"] u(2)
    unfolding ex_live_def by (simp add: ex_live_def)
qed

theorem live_opens_as_session_witness:
  "\<exists>out vv t. open_live ex_env ex_wire (\<lambda>_. False) (\<lambda>_. []) 8 ex_hello ex_inputs None ex_side = (Inr (out, vv), t) \<and>
     run_session ex_env ex_wire (\<lambda>_. False) (\<lambda>_. []) 8 ex_hello ex_inputs None ex_side = (Inr out, t)"
proof -
  let ?i = "initial_exchange ex_env ex_wire (\<lambda>_. False) (\<lambda>_. []) 8 ex_hello ex_inputs None ex_side"
  let ?o = "open_live ex_env ex_wire (\<lambda>_. False) (\<lambda>_. []) 8 ex_hello ex_inputs None ex_side"
  let ?r = "run_session ex_env ex_wire (\<lambda>_. False) (\<lambda>_. []) 8 ex_hello ex_inputs None ex_side"
  obtain x s1 where i: "?i = (Inr x, s1)" "x_stop x = Complete" using ex_session_run(1) by (cases ?i) auto
  obtain r t where o: "?o = (r, t)" by (cases ?o)
  have "open_blob s1 = None" using ex_exchange_closed i by simp
  from live_opens_as_session [OF i(1) this o] i(2) have "?r = (map_sum id fst r, t)" by simp
  with ex_session_run(2) o show ?thesis by (cases r) auto
qed

theorem lost_writer_stays_open_witness:
  "\<exists>t. live_loop ex_env (\<lambda>_. True) [Frame (Control (Live [ex_new]))] ex_live = (Inr (), t) \<and> still_open t"
proof -
  obtain t where "on_live ex_env (\<lambda>_. True) [ex_new] ex_live = (Inr Vanished, t)"
    using ex_live_run(3) by (cases "on_live ex_env (\<lambda>_. True) [ex_new] ex_live") auto
  from lost_writer_stays_open [OF this, of "[]"] show ?thesis by (auto simp: ex_live_def)
qed

end
