(* ===== verification/LivePeers.thy ===== *)
theory LivePeers
  imports SessionLive
begin

text \<open>
  The live session table of a synced workspace (\<open>sapphire-framework-server/src/sync/live.rs\<close>): one open
  session per peer, the claim a dialer takes on a peer, what a local commit or a received batch is pushed
  to, and the rule by which both ends of a pair keep the same one of two streams. A session is the live
  session's state; \<open>G\<close> tells for each device whether its writer is still there.
\<close>

record live_peers =
  lp_me :: grain_id
  sessions :: "(grain_id, live) btmap"
  dialing :: "grain_id btset"

definition live_peers_new :: "grain_id \<Rightarrow> live_peers" where
  "live_peers_new d = \<lparr>lp_me = d, sessions = bt_empty, dialing = bt_empty\<rparr>"

definition begin_dial :: "grain_id \<Rightarrow> live_peers \<Rightarrow> bool \<times> live_peers" where
  "begin_dial d p = (\<not> bt_has (dialing p) d, p\<lparr>dialing := bs_insert d (dialing p)\<rparr>)"

definition end_dial :: "grain_id \<Rightarrow> live_peers \<Rightarrow> live_peers" where
  "end_dial d p = p\<lparr>dialing := bt_remove d (dialing p)\<rparr>"

text \<open>How long a dialer waits, in seconds, after the \<open>n\<close>-th failure.\<close>

definition DIAL_BACKOFF_MAX :: nat where
  "DIAL_BACKOFF_MAX = 5 * 60"

definition dial_backoff :: "nat \<Rightarrow> nat" where
  "dial_backoff n = min (2 ^ min n 9) DIAL_BACKOFF_MAX"

text \<open>One session of a fan-out.\<close>

definition skips :: "path_update list \<Rightarrow> grain_id option \<Rightarrow> grain_id \<Rightarrow> live \<Rightarrow> bool" where
  "skips us source d s \<longleftrightarrow> source = Some d \<or> list_all (\<lambda>u. covers (known s) (u_seen u)) us"

definition fan_one :: "(grain_id \<Rightarrow> nat \<Rightarrow> bool) \<Rightarrow> path_update list \<Rightarrow> grain_id option \<Rightarrow> grain_id \<times> live \<Rightarrow> grain_id \<times> live" where
  "fan_one G us source item = (case item of (d, s) \<Rightarrow>
     (d, if skips us source d s then s else snd (push_batch (G d) us s)))"

definition fan_out :: "(grain_id \<Rightarrow> nat \<Rightarrow> bool) \<Rightarrow> path_update list \<Rightarrow> grain_id option \<Rightarrow> live_peers \<Rightarrow> live_peers" where
  "fan_out G us source p = (if us = [] then p
     else p\<lparr>sessions := bt_insert_all
       (map (fan_one G us source) (entries (bt_filter (\<lambda>(_, s). still_open s) (sessions p)))) bt_empty\<rparr>)"

text \<open>\<open>insert\<close>; \<open>None\<close> is a stream that lost the tie-break. The subscription is to the session kept.\<close>

definition insert_session :: "grain_id \<Rightarrow> live \<Rightarrow> bool \<Rightarrow> live_peers \<Rightarrow> live option \<times> live_peers" where
  "insert_session d s outbound p = (if (lp_me p < d) \<noteq> outbound then (None, p)
     else (Some s, p\<lparr>sessions := bt_insert d s (sessions p)\<rparr>))"

definition devices_open :: "live_peers \<Rightarrow> grain_id list" where
  "devices_open p = map fst (filter (\<lambda>(_, s). still_open s) (entries (sessions p)))"

definition has_session :: "grain_id \<Rightarrow> live_peers \<Rightarrow> bool" where
  "has_session d p = (case bt_get (sessions p) d of None \<Rightarrow> False | Some s \<Rightarrow> still_open s)"

definition drop_connections :: "live_peers \<Rightarrow> live_peers" where
  "drop_connections p = p\<lparr>sessions := bt_empty\<rparr>"

definition retain_sessions :: "(grain_id \<Rightarrow> bool) \<Rightarrow> live_peers \<Rightarrow> live_peers" where
  "retain_sessions keep p = p\<lparr>sessions := bt_filter (\<lambda>(d, _). keep d) (sessions p)\<rparr>"

text \<open>\<open>catch_up\<close>: what the replica has and the peer of a session has not seen.\<close>

definition catch_up :: "env \<Rightarrow> (grain_id \<Rightarrow> nat \<Rightarrow> bool) \<Rightarrow> grain_id \<Rightarrow> replica \<Rightarrow> live_peers \<Rightarrow> live_peers" where
  "catch_up E G d rs p = (case bt_get (sessions p) d of
     None \<Rightarrow> p
   | Some s \<Rightarrow> (case delta_for E (known s) rs of
       (Inr delta, _) \<Rightarrow> if delta = [] then p
         else p\<lparr>sessions := bt_insert d (snd (push_batch (G d) delta s)) (sessions p)\<rparr>
     | (Inl _, _) \<Rightarrow> p))"

section \<open>What the table keeps\<close>

lemma push_books: "announced (snd (push_batch G us s)) = announced s \<and> batches (snd (push_batch G us s)) = batches s \<and>
    known (snd (push_batch G us s)) = known s \<and> rep (snd (push_batch G us s)) = rep s \<and>
    still_open (snd (push_batch G us s)) = still_open s"
  by (simp add: push_batch_def send_def bindE_def attempt_def)

lemma push_said: "said (snd (push_batch G us s)) =
    (if still_open s \<and> \<not> G (length (said s)) then said s @ [OutControl (Live us)] else said s)"
  by (simp add: push_batch_def send_def bindE_def attempt_def)

lemma fan_entries:
  assumes "distinct (map fst kvs)"
  shows "bt_get (bt_insert_all (map (\<lambda>(k, v). (k, f k v)) kvs) m) k =
    (case map_of kvs k of None \<Rightarrow> bt_get m k | Some v \<Rightarrow> Some (f k v))"
  using assms by (induction kvs arbitrary: m) (auto simp: map_of_eq_None_iff [symmetric] split: option.splits)

lemma map_of_entries: "map_of (entries m) k = bt_get m k"
proof (cases "bt_get m k")
  case None
  then have "k \<notin> fst ` set (entries m)" by (auto simp: bt_entries_iff)
  with None show ?thesis by (simp add: map_of_eq_None_iff)
next
  case (Some v)
  then show ?thesis by (simp add: bt_entries_iff bt_entries_distinct)
qed

lemma fan_out_get:
  assumes "us \<noteq> []"
  shows "bt_get (sessions (fan_out G us source p)) d = (case bt_get (sessions p) d of
      None \<Rightarrow> None
    | Some s \<Rightarrow> if still_open s then Some (snd (fan_one G us source (d, s))) else None)"
proof -
  define m where "m = bt_filter (\<lambda>(_, s). still_open s) (sessions p)"
  have one: "fan_one G us source = (\<lambda>(k, v). (k, snd (fan_one G us source (k, v))))"
    by (auto simp: fan_one_def)
  have "bt_get (sessions (fan_out G us source p)) d = bt_get (bt_insert_all (map (fan_one G us source) (entries m)) bt_empty) d"
    using assms by (simp add: fan_out_def m_def)
  also have "\<dots> = bt_get (bt_insert_all (map (\<lambda>(k, v). (k, snd (fan_one G us source (k, v)))) (entries m)) bt_empty) d"
    by (subst one) (rule refl)
  also have "\<dots> = (case bt_get m d of None \<Rightarrow> None | Some v \<Rightarrow> Some (snd (fan_one G us source (d, v))))"
    by (simp add: fan_entries [OF bt_entries_distinct] map_of_entries split: option.split)
  finally show ?thesis by (auto simp: m_def bt_get_filter split: option.splits)
qed


lemma fan_one_eq: "snd (fan_one G us source (d, s)) =
    (if skips us source d s \<or> \<not> still_open s \<or> G d (length (said s)) then s
     else s\<lparr>said := said s @ [OutControl (Live us)]\<rparr>)"
  by (simp add: fan_one_def push_batch_def send_def bindE_def attempt_def)

text \<open>Streams are numbered; what an end makes of those offered to it, in order.\<close>

fun offers :: "grain_id \<Rightarrow> (live \<times> bool) list \<Rightarrow> live_peers \<Rightarrow> live_peers" where
  "offers d [] p = p"
| "offers d ((s, outbound) # xs) p = offers d xs (snd (insert_session d s outbound p))"

lemma offers_me: "lp_me (offers d xs p) = lp_me p"
  by (induction d xs p rule: offers.induct) (simp_all add: insert_session_def)

definition survives :: "live_peers \<Rightarrow> grain_id \<Rightarrow> bool \<Rightarrow> bool" where
  "survives p d outbound \<longleftrightarrow> (lp_me p < d) = outbound"

lemma insert_survives: "insert_session d s outbound p =
    (if survives p d outbound then (Some s, p\<lparr>sessions := bt_insert d s (sessions p)\<rparr>) else (None, p))"
  by (simp add: insert_session_def survives_def)

lemma offers_skip: "\<forall>x \<in> set xs. \<not> survives p d (snd x) \<Longrightarrow> offers d xs p = p"
  by (induction d xs p rule: offers.induct) (simp_all add: insert_survives)

lemma offers_append: "offers d (xs @ ys) p = offers d ys (offers d xs p)"
  by (induction d xs p rule: offers.induct) simp_all

lemma survives_offers [simp]: "survives (offers d xs p) e = survives p e"
  by (simp add: fun_eq_iff survives_def offers_me)

lemma offers_one:
  assumes "\<forall>i \<in> set xs. survives p d (out i) \<longrightarrow> i = k" "k \<in> set xs" "survives p d (out k)"
  shows "bt_get (sessions (offers d (map (\<lambda>i. (end_of i, out i)) xs) p)) d = Some (end_of k)"
proof -
  let ?o = "map (\<lambda>i. (end_of i, out i))"
  obtain xs1 xs2 where xs: "xs = xs1 @ k # xs2" "k \<notin> set xs2" using split_list_last [OF assms(2)] by blast
  define q where "q = offers d (?o (xs1 @ [k])) p"
  have q: "bt_get (sessions q) d = Some (end_of k)"
    using assms(3) by (simp add: q_def offers_append insert_survives)
  have "\<not> survives q d (out i)" if "i \<in> set xs2" for i
    using assms(1) xs that by (auto simp: q_def simp del: map_append)
  then have "offers d (?o xs2) q = q" by (intro offers_skip) auto
  then have "offers d (?o xs) p = q" by (simp add: xs(1) q_def offers_append)
  with q show ?thesis by simp
qed

section \<open>Properties\<close>

text \<open>
  C25: Both ends of a pair keep the same stream. Two hosts dial each other, so several streams between
  them may come up, and each host's accept and dial paths offer them to its table in an order of their
  own. For every stream the two ends give the same verdict; and as the host with the lower id claims the
  peer before it dials, so that at most one of the streams is its own, that stream is the one in both
  tables, whatever the two orders and whatever the tables held before.
\<close>

theorem one_stream_survives:
  assumes "lp_me p = a" "lp_me q = b" "a \<noteq> b" "\<forall>i. dialler i \<in> {a, b}"
    and "k \<in> set xs" "k \<in> set ys" "dialler k = min a b"
    and "\<forall>i \<in> set xs \<union> set ys. dialler i = min a b \<longrightarrow> i = (k :: nat)"
  shows "bt_get (sessions (offers b (map (\<lambda>i. (at_a i, dialler i = a)) xs) p)) b = Some (at_a k) \<and>
    bt_get (sessions (offers a (map (\<lambda>i. (at_b i, dialler i = b)) ys) q)) a = Some (at_b k) \<and>
    (\<forall>i. (fst (insert_session b (at_a i) (dialler i = a) p) = None) = (fst (insert_session a (at_b i) (dialler i = b) q) = None))"
proof (intro conjI allI)
  have ends: "dialler i = a \<or> dialler i = b" for i using assms(4) by auto
  have side_a: "survives p b (dialler i = a) \<longleftrightarrow> dialler i = min a b" for i
    using assms(1,3) ends [of i] by (auto simp: min_def survives_def)
  have side_b: "survives q a (dialler i = b) \<longleftrightarrow> dialler i = min a b" for i
    using assms(2,3) ends [of i] by (auto simp: min_def survives_def)
  have only: "dialler i = min a b \<longrightarrow> i = k" if "i \<in> set xs \<union> set ys" for i
    using assms(8) that by blast
  show "bt_get (sessions (offers b (map (\<lambda>i. (at_a i, dialler i = a)) xs) p)) b = Some (at_a k)"
    by (rule offers_one [OF _ assms(5)]) (simp add: side_a only, rule side_a [THEN iffD2, OF assms(7)])
  show "bt_get (sessions (offers a (map (\<lambda>i. (at_b i, dialler i = b)) ys) q)) a = Some (at_b k)"
    by (rule offers_one [OF _ assms(6)]) (simp add: side_b only, rule side_b [THEN iffD2, OF assms(7)])
  show "(fst (insert_session b (at_a i) (dialler i = a) p) = None) = (fst (insert_session a (at_b i) (dialler i = b) q) = None)" for i
    by (simp add: insert_survives side_a side_b)
qed

text \<open>
  A fan-out reaches exactly the peers that lack the batch. Closed sessions leave the table; of the
  open ones, the batch's source and the peers known to have all of it are left alone, and to every other
  one whose writer is still there the whole batch is queued, once.
\<close>

theorem fan_out_reaches:
  "bt_get (sessions (fan_out W us source p)) d = (case bt_get (sessions p) d of
      None \<Rightarrow> None
    | Some s \<Rightarrow> if us = [] then Some s
        else if \<not> still_open s then None
        else if source = Some d \<or> (\<forall>u \<in> set us. covers (known s) (u_seen u)) \<or> W d (length (said s)) then Some s
        else Some (s\<lparr>said := said s @ [OutControl (Live us)]\<rparr>))"
proof (cases "us = []")
  case False
  then show ?thesis
    by (auto simp: fan_out_get fan_one_eq skips_def list_all_iff split: option.split)
qed (auto simp: fan_out_def split: option.split)

text \<open>
  What a peer sent is never pushed back to it. Whatever the reading task of a device's session went
  through since it went live, and whichever device the updates are said to come from, a fan-out of
  updates that the task has announced puts nothing on that session.
\<close>

theorem received_never_echoed:
  assumes "receiver_inv E s" "list_all same_process ins"
    and "live_after E G ins (go_live vv s) = Some t" "bt_get (sessions p) d = Some t"
    and "set us \<subseteq> (\<Union>b \<in> set (announced t). set b)" "us \<noteq> []"
  shows "bt_get (sessions (fan_out W us source p)) d = (if still_open t then Some t else None)"
proof -
  have "live_step E (go_live vv s) t"
    using live_after_step [OF go_live_alive [OF assms(1)] assms(2,3)] by simp
  moreover have "receiver_base E (go_live vv s)" using inv_base [OF assms(1)] by (simp add: receiver_base_def)
  ultimately have "stored t" using go_live_stored by (simp add: live_step_def)
  then have "\<forall>b \<in> set (announced t). \<forall>u \<in> set b. covers (known t) (u_seen u)"
    unfolding stored_def all_batches_def by blast
  with assms(5) have "\<forall>u \<in> set us. covers (known t) (u_seen u)" by fast
  with assms(4,6) show ?thesis by (simp add: fan_out_get fan_one_eq skips_def list_all_iff)
qed

section \<open>Examples\<close>

definition ex_pair :: "grain_id \<Rightarrow> live_peers" where
  "ex_pair d = live_peers_new d"

theorem one_stream_survives_witness:
  "bt_get (sessions (offers 5 (map (\<lambda>i. (ex_live\<lparr>received_count := i\<rparr>, i = 1)) [2, 1]) (ex_pair 3))) 5 = Some (ex_live\<lparr>received_count := 1\<rparr>) \<and>
   bt_get (sessions (offers 3 (map (\<lambda>i. (ex_live\<lparr>received_count := i + 10\<rparr>, i \<noteq> 1)) [1, 2]) (ex_pair 5))) 3 = Some (ex_live\<lparr>received_count := 11\<rparr>)"
  using one_stream_survives [of "ex_pair 3" 3 "ex_pair 5" 5 "\<lambda>i. if i = 1 then 3 else 5" 1 "[2, 1]" "[1, 2]"
    "\<lambda>i. ex_live\<lparr>received_count := i\<rparr>" "\<lambda>i. ex_live\<lparr>received_count := i + 10\<rparr>"]
  by (simp add: ex_pair_def live_peers_new_def if_distrib cong: if_cong)


theorem received_never_echoed_witness:
  "\<exists>t. announced t = [[ex_new]] \<and> still_open t \<and>
     bt_get (sessions (fan_out (\<lambda>_ _. False) [ex_new] None ((ex_pair 3)\<lparr>sessions := bt_insert 5 t bt_empty\<rparr>))) 5 = Some t"
proof -
  let ?ins = "[Frame (Control (Live [ex_new])), Frame (Control (Missing [9]))]"
  obtain u where u: "live_after ex_env (\<lambda>_. False) ?ins ex_live = Some u" "announced u = [[ex_new]]"
    using ex_live_run(2) by (cases "live_after ex_env (\<lambda>_. False) ?ins ex_live") auto
  have "map_option still_open (live_after ex_env (\<lambda>_. False) ?ins ex_live) = Some True"
    by (simp add: ex_live_def live_eval session_eval replica_eval ex_state_defs ex_side_def word_le_nat_alt)
  with u have op: "still_open u" by simp
  have ins: "list_all same_process ?ins" by simp
  have "bt_get (sessions (fan_out (\<lambda>_ _. False) [ex_new] None ((ex_pair 3)\<lparr>sessions := bt_insert 5 u bt_empty\<rparr>))) 5 = Some u"
    using received_never_echoed [OF ex_side_inv ins u(1) [unfolded ex_live_def],
      of "(ex_pair 3)\<lparr>sessions := bt_insert 5 u bt_empty\<rparr>" 5 "[ex_new]" "\<lambda>_ _. False" None] u(2) op by simp
  with u op show ?thesis by blast
qed

end
