(* ===== verification/Election.thy ===== *)
theory Election
  imports BTreeMap VersionVector "HOL-Library.Option_ord"
begin

text \<open>
  Who is a workspace's primary and secondary device (\<open>sapphire-framework-bridge/src/election.rs\<close>), from
  the Hellos a bridge has heard (\<open>hello.rs\<close>: \<open>Neighbours\<close>, \<open>electable\<close>), and which peers a host then
  links with (\<open>sapphire-framework-server/src/sync/topology.rs\<close>). An \<open>Instant\<close> is a number of
  nanoseconds; \<open>duration_since\<close> saturates at zero, as subtraction on these numbers does.
\<close>

section \<open>The election\<close>

record candidate =
  c_device :: grain_id
  c_priority :: u8
  c_availability :: "u8 option"
  claims_primary :: bool
  claims_secondary :: bool

record roles =
  primary :: "grain_id option"
  secondary :: "grain_id option"

definition no_roles :: roles where
  "no_roles = \<lparr>primary = None, secondary = None\<rparr>"

definition rank :: "candidate \<Rightarrow> u8 \<times> u8 option \<times> grain_id" where
  "rank c = (c_priority c, c_availability c, c_device c)"

definition best :: "candidate list \<Rightarrow> (candidate \<Rightarrow> bool) \<Rightarrow> grain_id option" where
  "best pool pick = map_option c_device (max_by_key rank (filter pick pool))"

definition or_else :: "'a option \<Rightarrow> 'a option \<Rightarrow> 'a option" where
  "or_else a b = (case a of None \<Rightarrow> b | Some x \<Rightarrow> Some x)"

definition elect :: "candidate list \<Rightarrow> bool \<Rightarrow> roles" where
  "elect candidates promote =
     (let eligible = filter (\<lambda>c. c_priority c > 0) candidates;
          first = or_else (best eligible claims_primary)
            (or_else (if promote then best eligible claims_secondary else None) (best eligible (\<lambda>_. True)));
          others = filter (\<lambda>c. Some (c_device c) \<noteq> first) eligible
      in \<lparr>primary = first, secondary = or_else (best others claims_secondary) (best others (\<lambda>_. True))\<rparr>)"

section \<open>Hellos\<close>

record hello =
  h_device :: grain_id
  h_priority :: u8
  h_availability :: "u8 option"
  h_hosting :: "grain_id list"
  h_primary :: "grain_id list"
  h_secondary :: "grain_id list"

text \<open>\<open>Neighbours\<close>: what each peer said last, and when.\<close>

type_synonym neighbours = "(grain_id, hello \<times> nat) btmap"

definition heard :: "hello \<Rightarrow> nat \<Rightarrow> neighbours \<Rightarrow> neighbours" where
  "heard h at n = bt_insert (h_device h) (h, at) n"

definition forget :: "grain_id \<Rightarrow> neighbours \<Rightarrow> neighbours" where
  "forget d n = bt_remove d n"

definition reachable :: "nat \<Rightarrow> nat \<Rightarrow> neighbours \<Rightarrow> hello list" where
  "reachable now dead n = map fst (filter (\<lambda>(_, at). now - at < dead) (map snd (entries n)))"

text \<open>The ledger's devices, with whether they are retired.\<close>

definition electable :: "hello list \<Rightarrow> (grain_id \<times> bool) list \<Rightarrow> hello list" where
  "electable hs ledger = filter (\<lambda>h. list_ex (\<lambda>(d, retired). d = h_device h \<and> \<not> retired) ledger) hs"

section \<open>The elector\<close>

record own =
  o_priority :: u8
  o_availability :: "u8 option"
  o_hosting :: "grain_id list"

record elector =
  el_me :: grain_id
  el_wait :: nat
  el_since :: "(grain_id, nat) btmap"
  my_primary :: "grain_id btset"
  seen_primary :: "grain_id btset"
  my_secondary :: "grain_id btset"

definition elector_new :: "grain_id \<Rightarrow> nat \<Rightarrow> elector" where
  "elector_new d w = \<lparr>el_me = d, el_wait = w, el_since = bt_empty, my_primary = bt_empty, seen_primary = bt_empty,
     my_secondary = bt_empty\<rparr>"

definition set_claim :: "grain_id btset \<Rightarrow> grain_id \<Rightarrow> bool \<Rightarrow> grain_id btset" where
  "set_claim claims ws on = (if on then bs_insert ws claims else bt_remove ws claims)"

definition retain :: "grain_id list \<Rightarrow> (grain_id, 'v) btmap \<Rightarrow> (grain_id, 'v) btmap" where
  "retain hosting m = bt_filter (\<lambda>(ws, _). ws \<in> set hosting) m"

text \<open>The first lines of \<open>step\<close>: what is not hosted any more is forgotten, what is new starts waiting.\<close>

definition refresh :: "nat \<Rightarrow> own \<Rightarrow> elector \<Rightarrow> elector" where
  "refresh now own e = e\<lparr>
     el_since := foldl (\<lambda>m ws. if bt_has m ws then m else bt_insert ws now m) (retain (o_hosting own) (el_since e)) (o_hosting own),
     my_primary := retain (o_hosting own) (my_primary e),
     seen_primary := retain (o_hosting own) (seen_primary e),
     my_secondary := retain (o_hosting own) (my_secondary e)\<rparr>"

definition candidate_of :: "grain_id \<Rightarrow> hello \<Rightarrow> candidate" where
  "candidate_of ws h = \<lparr>c_device = h_device h, c_priority = h_priority h, c_availability = h_availability h,
     claims_primary = ws \<in> set (h_primary h), claims_secondary = ws \<in> set (h_secondary h)\<rparr>"

definition own_candidate :: "own \<Rightarrow> elector \<Rightarrow> grain_id \<Rightarrow> candidate" where
  "own_candidate own e ws = \<lparr>c_device = el_me e, c_priority = o_priority own, c_availability = o_availability own,
     claims_primary = bt_has (my_primary e) ws, claims_secondary = bt_has (my_secondary e) ws\<rparr>"

definition waited :: "nat \<Rightarrow> elector \<Rightarrow> grain_id \<Rightarrow> bool" where
  "waited now e ws \<longleftrightarrow> now - (case bt_get (el_since e) ws of Some t \<Rightarrow> t | None \<Rightarrow> now) \<ge> el_wait e"

definition candidates_for :: "nat \<Rightarrow> own \<Rightarrow> hello list \<Rightarrow> elector \<Rightarrow> grain_id \<Rightarrow> candidate list" where
  "candidates_for now own peers e ws =
     map (candidate_of ws) (filter (\<lambda>h. h_device h \<noteq> el_me e \<and> ws \<in> set (h_hosting h)) peers) @
     (if waited now e ws then [own_candidate own e ws] else [])"

text \<open>The body of \<open>step\<close>'s loop, for one workspace.\<close>

definition step_ws :: "nat \<Rightarrow> own \<Rightarrow> hello list \<Rightarrow> grain_id \<Rightarrow> elector \<Rightarrow> elector \<times> roles" where
  "step_ws now own peers ws e =
     (let cs = candidates_for now own peers e ws;
          e1 = (if list_ex claims_primary cs then e\<lparr>seen_primary := bs_insert ws (seen_primary e)\<rparr> else e);
          elected = elect cs (bt_has (seen_primary e1) ws);
          e2 = (if waited now e ws then e1\<lparr>
              my_primary := set_claim (my_primary e1) ws (primary elected = Some (el_me e)),
              my_secondary := set_claim (my_secondary e1) ws (secondary elected = Some (el_me e))\<rparr> else e1);
          e3 = (if bt_has (my_primary e2) ws then e2\<lparr>seen_primary := bs_insert ws (seen_primary e2)\<rparr> else e2)
      in (e3, if bt_has (seen_primary e3) ws then elected else no_roles))"

fun step_all :: "nat \<Rightarrow> own \<Rightarrow> hello list \<Rightarrow> grain_id list \<Rightarrow> elector \<times> (grain_id, roles) btmap \<Rightarrow> elector \<times> (grain_id, roles) btmap" where
  "step_all now own peers [] (e, rs) = (e, rs)"
| "step_all now own peers (ws # wss) (e, rs) =
     (case step_ws now own peers ws e of (e', r) \<Rightarrow> step_all now own peers wss (e', bt_insert ws r rs))"

definition hello_of :: "own \<Rightarrow> elector \<Rightarrow> hello" where
  "hello_of own e = \<lparr>h_device = el_me e, h_priority = o_priority own, h_availability = o_availability own,
     h_hosting = o_hosting own, h_primary = bt_keys (my_primary e), h_secondary = bt_keys (my_secondary e)\<rparr>"

definition elector_step :: "nat \<Rightarrow> own \<Rightarrow> hello list \<Rightarrow> elector \<Rightarrow> elector \<times> hello \<times> (grain_id, roles) btmap" where
  "elector_step now own peers e =
     (case step_all now own peers (o_hosting own) (refresh now own e, bt_empty) of (e', rs) \<Rightarrow> (e', hello_of own e', rs))"

section \<open>Links\<close>

datatype link = Dial | Await | Skip

datatype topology = Star grain_id "grain_id option" | Mesh

definition is_hub :: "roles option \<Rightarrow> grain_id \<Rightarrow> bool" where
  "is_hub r d \<longleftrightarrow> (case r of None \<Rightarrow> False | Some r \<Rightarrow> primary r = Some d \<or> secondary r = Some d)"

definition link_for :: "grain_id \<Rightarrow> grain_id \<Rightarrow> roles option \<Rightarrow> link" where
  "link_for me peer r =
     (let star = (case r of None \<Rightarrow> False | Some r \<Rightarrow> primary r \<noteq> None) in
      if star \<and> \<not> is_hub r me \<and> \<not> is_hub r peer then Skip
      else if me < peer then Dial else Await)"

definition may_close_skipped :: "grain_id \<Rightarrow> roles option \<Rightarrow> grain_id list \<Rightarrow> bool" where
  "may_close_skipped me r open_to = (case r of None \<Rightarrow> True | Some _ \<Rightarrow> is_hub r me \<or> list_ex (is_hub r) open_to)"

definition topology_of :: "roles option \<Rightarrow> topology" where
  "topology_of r = (case r of None \<Rightarrow> Mesh | Some r \<Rightarrow>
     (case primary r of Some d \<Rightarrow> Star d (secondary r) | None \<Rightarrow> Mesh))"

section \<open>The best candidate\<close>

lemma best_Some:
  assumes "best pool pick = Some d"
  shows "\<exists>c \<in> set pool. c_device c = d \<and> pick c \<and> (\<forall>x \<in> set pool. pick x \<longrightarrow> rank x \<le> rank c)"
proof -
  from assms obtain c where c: "max_by_key rank (filter pick pool) = Some c" "d = c_device c" by (auto simp: best_def)
  from max_by_key_Some [OF c(1)] c(2) show ?thesis by auto
qed

lemma best_None: "best pool pick = None \<longleftrightarrow> (\<forall>c \<in> set pool. \<not> pick c)"
  by (auto simp: best_def filter_empty_conv)

lemma rank_inj: "rank c = rank d \<Longrightarrow> c_device c = c_device d"
  by (simp add: rank_def)

lemma best_set:
  assumes "set xs = set ys" "inj_on c_device (set xs)"
  shows "best xs pick = best ys pick"
proof -
  have "inj_on rank (set (filter pick xs))" using assms(2) by (auto simp: inj_on_def dest: rank_inj)
  with assms(1) show ?thesis by (simp add: best_def max_by_key_set [of "filter pick xs" "filter pick ys"])
qed

lemma best_only:
  assumes "c \<in> set pool" "pick c" "\<forall>x \<in> set pool. pick x \<longrightarrow> c_device x = c_device c"
  shows "best pool pick = Some (c_device c)"
proof (cases "best pool pick")
  case None
  with assms show ?thesis by (auto simp: best_None)
next
  case (Some d)
  with best_Some [OF Some] assms(3) show ?thesis by auto
qed

lemma or_else_simps [simp]: "or_else None b = b" "or_else (Some x) b = Some x"
  by (simp_all add: or_else_def)

lemma or_else_None [simp]: "or_else a b = None \<longleftrightarrow> a = None \<and> b = None"
  by (cases a) auto

text \<open>The candidates as a set decide, when no device stands twice.\<close>

lemma elect_set:
  assumes "set cs = set cs'" "inj_on c_device (set cs)"
  shows "elect cs p = elect cs' p"
proof -
  have *: "best (filter f cs) g = best (filter f cs') g" for f g
    by (rule best_set) (use assms in \<open>auto simp: inj_on_def\<close>)
  show ?thesis by (simp add: elect_def Let_def * filter_filter)
qed

definition eligible :: "candidate list \<Rightarrow> candidate set" where
  "eligible cs = {c \<in> set cs. c_priority c > 0}"

text \<open>The best of a set by rank among those that satisfy \<open>pick\<close>.\<close>

definition best_of :: "candidate set \<Rightarrow> (candidate \<Rightarrow> bool) \<Rightarrow> grain_id \<Rightarrow> bool" where
  "best_of S pick d \<longleftrightarrow> (\<exists>c \<in> S. c_device c = d \<and> pick c \<and> (\<forall>x \<in> S. pick x \<longrightarrow> rank x \<le> rank c))"

lemma best_best_of: "best pool pick = Some d \<Longrightarrow> best_of (set pool) pick d"
  using best_Some by (fastforce simp: best_of_def)

lemma best_holds:
  "best pool pick = Some d \<Longrightarrow> (\<exists>c \<in> set pool. pick c) \<and> best_of (set pool) pick d"
  "best pool pick = None \<Longrightarrow> \<not> (\<exists>c \<in> set pool. pick c)"
  using best_best_of best_Some by (fastforce simp: best_None)+

lemma first_cases:
  "case or_else (best e P) (or_else (if p then best e S else None) (best e (\<lambda>_. True))) of
     None \<Rightarrow> set e = {}
   | Some d \<Rightarrow> if \<exists>c \<in> set e. P c then best_of (set e) P d
       else if p \<and> (\<exists>c \<in> set e. S c) then best_of (set e) S d
       else best_of (set e) (\<lambda>_. True) d"
  using best_holds [of e P] best_holds [of e S] best_holds [of e "\<lambda>_. True"]
  by (cases "best e P"; cases "best e S"; cases "best e (\<lambda>_. True)") simp_all

lemma primary_cases:
  "case primary (elect cs p) of
     None \<Rightarrow> eligible cs = {}
   | Some d \<Rightarrow> if \<exists>c \<in> eligible cs. claims_primary c then best_of (eligible cs) claims_primary d
       else if p \<and> (\<exists>c \<in> eligible cs. claims_secondary c) then best_of (eligible cs) claims_secondary d
       else best_of (eligible cs) (\<lambda>_. True) d"
proof -
  have "eligible cs = set (filter (\<lambda>c. c_priority c > 0) cs)" by (auto simp: eligible_def)
  with first_cases [of "filter (\<lambda>c. c_priority c > 0) cs" claims_primary p claims_secondary] show ?thesis
    by (simp only: elect_def Let_def roles.select_convs)
qed

lemma secondary_cases:
  "let others = {c \<in> eligible cs. Some (c_device c) \<noteq> primary (elect cs p)} in
   case secondary (elect cs p) of
     None \<Rightarrow> others = {}
   | Some d \<Rightarrow> if \<exists>c \<in> others. claims_secondary c then best_of others claims_secondary d else best_of others (\<lambda>_. True) d"
proof -
  define q where "q = primary (elect cs p)"
  define o' where "o' = filter (\<lambda>c. Some (c_device c) \<noteq> q) (filter (\<lambda>c. c_priority c > 0) cs)"
  have o: "{c \<in> eligible cs. Some (c_device c) \<noteq> q} = set o'" by (auto simp: eligible_def o'_def)
  have eq: "secondary (elect cs p) = or_else (best o' claims_secondary) (best o' (\<lambda>_. True))"
    by (simp add: elect_def Let_def q_def o'_def)
  show ?thesis
    using first_cases [of o' claims_secondary False claims_secondary]
    unfolding q_def [symmetric] o Let_def eq by (cases "or_else (best o' claims_secondary) (best o' (\<lambda>_. True))") simp_all
qed

section \<open>Claims keep the roles\<close>

text \<open>The candidates once every one of them claims what was elected, and nothing else.\<close>

definition claiming :: "roles \<Rightarrow> candidate \<Rightarrow> candidate" where
  "claiming r c = c\<lparr>claims_primary := primary r = Some (c_device c), claims_secondary := secondary r = Some (c_device c)\<rparr>"

lemma claiming_simps [simp]:
  "c_device (claiming r c) = c_device c" "c_priority (claiming r c) = c_priority c"
  "claims_primary (claiming r c) \<longleftrightarrow> primary r = Some (c_device c)"
  "claims_secondary (claiming r c) \<longleftrightarrow> secondary r = Some (c_device c)"
  by (simp_all add: claiming_def)

lemma best_of_in: "best_of S pick d \<Longrightarrow> \<exists>c \<in> S. c_device c = d"
  by (auto simp: best_of_def)

lemma elected_eligible:
  "primary (elect cs p) = Some d \<Longrightarrow> \<exists>c \<in> eligible cs. c_device c = d"
  "secondary (elect cs p) = Some d \<Longrightarrow> \<exists>c \<in> eligible cs. c_device c = d \<and> primary (elect cs p) \<noteq> Some d"
proof -
  show "primary (elect cs p) = Some d \<Longrightarrow> \<exists>c \<in> eligible cs. c_device c = d"
    using primary_cases [of cs p] by (auto dest: best_of_in split: if_splits)
  assume s: "secondary (elect cs p) = Some d"
  let ?o = "{c \<in> eligible cs. Some (c_device c) \<noteq> primary (elect cs p)}"
  have "\<exists>c \<in> ?o. c_device c = d"
    using secondary_cases [of cs p] s unfolding Let_def by (auto dest: best_of_in split: if_splits)
  then show "\<exists>c \<in> eligible cs. c_device c = d \<and> primary (elect cs p) \<noteq> Some d" by auto
qed

text \<open>A role that exactly one eligible device claims goes to it.\<close>

lemma best_of_sole: "\<lbrakk>best_of S pick d; \<forall>x \<in> S. pick x \<longrightarrow> c_device x = b\<rbrakk> \<Longrightarrow> d = b"
  by (auto simp: best_of_def)

lemma sole_primary:
  assumes "c \<in> eligible cs" "claims_primary c" "\<forall>x \<in> eligible cs. claims_primary x \<longrightarrow> c_device x = c_device c"
  shows "primary (elect cs p) = Some (c_device c)"
proof (cases "primary (elect cs p)")
  case None
  with primary_cases [of cs p] assms(1) show ?thesis by simp
next
  case (Some d)
  have "\<exists>x \<in> eligible cs. claims_primary x" using assms(1,2) by blast
  with primary_cases [of cs p] Some have "best_of (eligible cs) claims_primary d" by simp
  from best_of_sole [OF this assms(3)] Some show ?thesis by simp
qed

lemma promoted_secondary:
  assumes "c \<in> eligible cs" "claims_secondary c" "\<not> (\<exists>x \<in> eligible cs. claims_primary x)"
    and "\<forall>x \<in> eligible cs. claims_secondary x \<longrightarrow> c_device x = c_device c"
  shows "primary (elect cs True) = Some (c_device c)"
proof (cases "primary (elect cs True)")
  case None
  with primary_cases [of cs True] assms(1) show ?thesis by simp
next
  case (Some d)
  have "\<exists>x \<in> eligible cs. claims_secondary x" using assms(1,2) by blast
  with primary_cases [of cs True] Some assms(3) have "best_of (eligible cs) claims_secondary d" by simp
  from best_of_sole [OF this assms(4)] Some show ?thesis by simp
qed

lemma sole_secondary:
  assumes "c \<in> eligible cs" "claims_secondary c" "primary (elect cs p) \<noteq> Some (c_device c)"
    and "\<forall>x \<in> eligible cs. claims_secondary x \<longrightarrow> c_device x = c_device c"
  shows "secondary (elect cs p) = Some (c_device c)"
proof -
  define others where "others = {x \<in> eligible cs. Some (c_device x) \<noteq> primary (elect cs p)}"
  have c: "c \<in> others" using assms(1) assms(3) [THEN not_sym] by (simp add: others_def)
  note cases = secondary_cases [of cs p, unfolded Let_def others_def [symmetric]]
  show ?thesis
  proof (cases "secondary (elect cs p)")
    case None
    with cases c show ?thesis by simp
  next
    case (Some d)
    have "\<exists>x \<in> others. claims_secondary x" using c assms(2) by blast
    with cases Some have "best_of others claims_secondary d" by simp
    moreover have "\<forall>x \<in> others. claims_secondary x \<longrightarrow> c_device x = c_device c" using assms(4) by (simp add: others_def)
    ultimately show ?thesis using Some best_of_sole by blast
  qed
qed

lemma eligible_claiming: "eligible (map (claiming r) cs) = claiming r ` eligible cs"
  unfolding eligible_def by (auto intro!: imageI)

lemma eligible_append: "eligible (cs @ ds) = eligible cs \<union> eligible ds"
  by (auto simp: eligible_def)

text \<open>The elected devices keep their roles when others that claim nothing join.\<close>

lemma claims_hold:
  fixes cs p
  defines "r \<equiv> elect cs p"
  assumes "\<forall>n \<in> set ns. \<not> claims_primary n \<and> \<not> claims_secondary n"
  shows "primary r = Some d \<Longrightarrow> primary (elect (map (claiming r) cs @ ns) q) = Some d"
    and "secondary r = Some d \<Longrightarrow> secondary (elect (map (claiming r) cs @ ns) q) = Some d"
proof -
  have el: "eligible (map (claiming r) cs @ ns) = claiming r ` eligible cs \<union> eligible ns"
    by (simp add: eligible_append eligible_claiming)
  have quiet: "\<forall>x \<in> eligible ns. \<not> claims_primary x \<and> \<not> claims_secondary x" using assms(2) by (auto simp: eligible_def)
  have P: "primary (elect (map (claiming r) cs @ ns) q) = Some d" if prim: "primary r = Some d" for d
  proof -
    obtain c where c: "c \<in> eligible cs" "c_device c = d" using elected_eligible(1) prim r_def by blast
    have "primary (elect (map (claiming r) cs @ ns) q) = Some (c_device (claiming r c))"
      by (rule sole_primary) (use c prim quiet el in auto)
    with c show ?thesis by simp
  qed
  then show "primary r = Some d \<Longrightarrow> primary (elect (map (claiming r) cs @ ns) q) = Some d" .
  assume sec: "secondary r = Some d"
  from elected_eligible(2) [of cs p d] sec obtain c where c: "c \<in> eligible cs" "c_device c = d" "primary r \<noteq> Some d"
    by (auto simp: r_def)
  have "primary r \<noteq> None" using primary_cases [of cs p] c(1) by (auto simp: r_def split: option.splits)
  then obtain e where e: "primary r = Some e" by blast
  have "secondary (elect (map (claiming r) cs @ ns) q) = Some (c_device (claiming r c))"
    by (rule sole_secondary) (use c sec quiet el P [OF e] e in auto)
  with c show "secondary (elect (map (claiming r) cs @ ns) q) = Some d" by simp
qed

section \<open>One round\<close>

text \<open>What an elector knows of one workspace, which is all that its round for that workspace depends on.\<close>

definition view :: "elector \<Rightarrow> grain_id \<Rightarrow> grain_id \<times> nat \<times> nat option \<times> bool \<times> bool \<times> bool" where
  "view e ws = (el_me e, el_wait e, bt_get (el_since e) ws, bt_has (my_primary e) ws, bt_has (seen_primary e) ws,
     bt_has (my_secondary e) ws)"

lemma bt_has_simps [simp]:
  "bt_has (bt_insert k v m) k' \<longleftrightarrow> k' = k \<or> bt_has m k'"
  "bt_has (bt_remove k m) k' \<longleftrightarrow> k' \<noteq> k \<and> bt_has m k'"
  "\<not> bt_has bt_empty k'"
  by (auto simp: bt_has_def)

lemma set_claim_has [simp]: "bt_has (set_claim m ws on) ws' \<longleftrightarrow> (if ws' = ws then on else bt_has m ws')"
  by (simp add: set_claim_def)

lemma retain_get [simp]: "bt_get (retain hosting m) ws = (if ws \<in> set hosting then bt_get m ws else None)"
  by (auto simp: retain_def bt_get_filter split: option.splits)

lemma retain_has [simp]: "bt_has (retain hosting m) ws \<longleftrightarrow> ws \<in> set hosting \<and> bt_has m ws"
  by (simp add: bt_has_def)

lemma step_ws_other: "ws' \<noteq> ws \<Longrightarrow> view (fst (step_ws now own peers ws' e)) ws = view e ws"
  by (simp add: step_ws_def Let_def view_def)

lemma waited_view: "view e ws = view f ws \<Longrightarrow> waited now e ws = waited now f ws"
  by (simp add: view_def waited_def)

lemma candidates_view: "view e ws = view f ws \<Longrightarrow> candidates_for now own peers e ws = candidates_for now own peers f ws"
  using waited_view [of e ws f now] by (simp add: candidates_for_def own_candidate_def view_def)

text \<open>The round for one workspace, spelt out.\<close>

lemma step_ws_result:
  fixes now own peers ws e
  defines "cs \<equiv> candidates_for now own peers e ws"
  defines "p \<equiv> bt_has (seen_primary e) ws \<or> (\<exists>c \<in> set cs. claims_primary c)"
  defines "P \<equiv> if waited now e ws then primary (elect cs p) = Some (el_me e) else bt_has (my_primary e) ws"
  shows "view (fst (step_ws now own peers ws e)) ws = (el_me e, el_wait e, bt_get (el_since e) ws, P, p \<or> P,
      if waited now e ws then secondary (elect cs p) = Some (el_me e) else bt_has (my_secondary e) ws)"
    and "snd (step_ws now own peers ws e) = (if p \<or> P then elect cs p else no_roles)"
proof -
  let ?e = "if list_ex claims_primary cs then e\<lparr>seen_primary := bs_insert ws (seen_primary e)\<rparr> else e"
  have p: "bt_has (seen_primary ?e) ws \<longleftrightarrow> p" by (auto simp: p_def list_ex_iff)
  have e: "el_me ?e = el_me e" "el_wait ?e = el_wait e" "el_since ?e = el_since e" "my_primary ?e = my_primary e"
    "my_secondary ?e = my_secondary e" by simp_all
  show "view (fst (step_ws now own peers ws e)) ws = (el_me e, el_wait e, bt_get (el_since e) ws, P, p \<or> P,
      if waited now e ws then secondary (elect cs p) = Some (el_me e) else bt_has (my_secondary e) ws)"
    "snd (step_ws now own peers ws e) = (if p \<or> P then elect cs p else no_roles)"
    unfolding step_ws_def Let_def cs_def [symmetric]
    using p e by (auto simp: view_def P_def)
qed

lemma step_ws_view:
  assumes "view e ws = view f ws"
  shows "snd (step_ws now own peers ws e) = snd (step_ws now own peers ws f) \<and>
    view (fst (step_ws now own peers ws e)) ws = view (fst (step_ws now own peers ws f)) ws"
proof -
  have "el_me e = el_me f" "el_wait e = el_wait f" "bt_get (el_since e) ws = bt_get (el_since f) ws"
    "bt_has (my_primary e) ws = bt_has (my_primary f) ws" "bt_has (seen_primary e) ws = bt_has (seen_primary f) ws"
    "bt_has (my_secondary e) ws = bt_has (my_secondary f) ws" using assms by (simp_all add: view_def)
  then show ?thesis unfolding step_ws_result waited_view [OF assms] candidates_view [OF assms] by (simp only: simp_thms)
qed

lemma step_all_at:
  assumes "distinct wss" "step_all now own peers wss (e, rs) = (e', rs')"
  shows "if ws \<in> set wss
    then bt_get rs' ws = Some (snd (step_ws now own peers ws e)) \<and> view e' ws = view (fst (step_ws now own peers ws e)) ws
    else bt_get rs' ws = bt_get rs ws \<and> view e' ws = view e ws"
  using assms
proof (induction wss arbitrary: e rs)
  case (Cons w wss)
  obtain f r where w: "step_ws now own peers w e = (f, r)" by force
  with Cons.prems have "step_all now own peers wss (f, bt_insert w r rs) = (e', rs')" by simp
  note IH = Cons.IH [OF _ this]
  show ?case
  proof (cases "w = ws")
    case True
    with IH Cons.prems w show ?thesis by simp
  next
    case False
    have "view f ws = view e ws" using step_ws_other [OF False, of now own peers e] w by simp
    with IH Cons.prems False step_ws_view [OF this, of now own peers] show ?thesis by simp
  qed
qed simp

lemma since_refresh:
  "bt_get (foldl (\<lambda>m ws. if bt_has m ws then m else bt_insert ws now m) m wss) ws =
     (if bt_has m ws then bt_get m ws else if ws \<in> set wss then Some now else None)"
  by (induction wss arbitrary: m) (auto simp: bt_has_def)

lemma view_refresh:
  "view (refresh now own e) ws = (el_me e, el_wait e,
     if ws \<in> set (o_hosting own) then Some (case bt_get (el_since e) ws of Some t \<Rightarrow> t | None \<Rightarrow> now) else None,
     ws \<in> set (o_hosting own) \<and> bt_has (my_primary e) ws, ws \<in> set (o_hosting own) \<and> bt_has (seen_primary e) ws,
     ws \<in> set (o_hosting own) \<and> bt_has (my_secondary e) ws)"
  by (simp add: view_def refresh_def since_refresh) (auto simp: bt_has_def split: option.splits)

text \<open>A whole step, one workspace at a time.\<close>

lemma elector_step_at:
  assumes "distinct (o_hosting own)" "elector_step now own peers e = (e', h, rs)"
  shows "h = hello_of own e' \<and> (if ws \<in> set (o_hosting own)
    then bt_get rs ws = Some (snd (step_ws now own peers ws (refresh now own e))) \<and>
      view e' ws = view (fst (step_ws now own peers ws (refresh now own e))) ws
    else bt_get rs ws = None \<and> view e' ws = view (refresh now own e) ws)"
proof -
  obtain f qs where "step_all now own peers (o_hosting own) (refresh now own e, bt_empty) = (f, qs)" by force
  with step_all_at [OF assms(1) this, of ws] assms(2) show ?thesis
    by (auto simp: elector_step_def)
qed

section \<open>A settled network\<close>

text \<open>
  The hosts of a workspace: each with its clock, settings, the Hellos it has heard and its elector. The
  network is settled for a workspace when every host hosts it and has waited, and each has heard from
  exactly the others, from each what it last published.
\<close>

type_synonym host = "nat \<times> own \<times> hello list \<times> elector"

fun host_device :: "host \<Rightarrow> grain_id" where
  "host_device (now, own, peers, e) = el_me e"

fun host_candidate :: "grain_id \<Rightarrow> host \<Rightarrow> candidate" where
  "host_candidate ws (now, own, peers, e) = own_candidate own e ws"

fun host_hello :: "host \<Rightarrow> hello" where
  "host_hello (now, own, peers, e) = hello_of own e"

fun host_ready :: "grain_id \<Rightarrow> host list \<Rightarrow> host \<Rightarrow> bool" where
  "host_ready ws net (now, own, peers, e) \<longleftrightarrow> distinct (o_hosting own) \<and> ws \<in> set (o_hosting own) \<and>
     waited now (refresh now own e) ws \<and>
     set (filter (\<lambda>h. h_device h \<noteq> el_me e \<and> ws \<in> set (h_hosting h)) peers) =
       host_hello ` set (filter (\<lambda>h. host_device h \<noteq> el_me e) net)"

fun host_roles :: "grain_id \<Rightarrow> host \<Rightarrow> roles option" where
  "host_roles ws (now, own, peers, e) = bt_get (snd (snd (elector_step now own peers e))) ws"

fun host_claims :: "grain_id \<Rightarrow> host \<Rightarrow> bool" where
  "host_claims ws (now, own, peers, e) \<longleftrightarrow> bt_has (my_primary (fst (elector_step now own peers e))) ws"

definition settled_net :: "grain_id \<Rightarrow> host list \<Rightarrow> bool" where
  "settled_net ws net \<longleftrightarrow> distinct (map host_device net) \<and> (\<forall>h \<in> set net. host_ready ws net h)"

lemma candidate_device [simp]: "c_device (host_candidate ws h) = host_device h"
  by (cases h) (simp add: own_candidate_def)

lemma hello_candidate: "candidate_of ws (host_hello h) = host_candidate ws h"
  by (cases h) (simp add: candidate_of_def hello_of_def own_candidate_def bt_keys_iff)

lemma refresh_me [simp]: "el_me (refresh now own e) = el_me e"
  by (simp add: refresh_def)

lemma settled_candidates:
  assumes "settled_net ws net" "(now, own, peers, e) \<in> set net"
  shows "set (candidates_for now own peers (refresh now own e) ws) = host_candidate ws ` set net"
proof -
  let ?h = "(now, own, peers, e)"
  have r: "host_ready ws net ?h" using assms unfolding settled_net_def by blast
  have own: "own_candidate own (refresh now own e) ws = host_candidate ws ?h"
    using r by (simp add: own_candidate_def refresh_def)
  have "candidate_of ws ` set (filter (\<lambda>h. h_device h \<noteq> el_me e \<and> ws \<in> set (h_hosting h)) peers) =
      host_candidate ws ` set (filter (\<lambda>h. host_device h \<noteq> el_me e) net)"
    using r by (simp only: host_ready.simps image_image hello_candidate)
  then have cands: "set (candidates_for now own peers (refresh now own e) ws) =
      host_candidate ws ` set (filter (\<lambda>h. host_device h \<noteq> el_me e) net) \<union> {host_candidate ws ?h}"
    using r own by (simp add: candidates_for_def del: host_candidate.simps)
  have net: "set net = set (filter (\<lambda>h. host_device h \<noteq> el_me e) net) \<union> {?h}"
  proof -
    have "inj_on host_device (set net)" using assms(1) by (simp add: settled_net_def distinct_map)
    then have "g = ?h" if "g \<in> set net" "host_device g = el_me e" for g
      using that assms(2) inj_onD [of host_device "set net" g ?h] by simp
    then show ?thesis using assms(2) by (auto simp del: host_device.simps)
  qed
  have "host_candidate ws ` set net =
      host_candidate ws ` set (filter (\<lambda>h. host_device h \<noteq> el_me e) net) \<union> {host_candidate ws ?h}"
    by (subst net) (simp only: image_Un image_insert image_empty)
  with cands show ?thesis by (simp only:)
qed

text \<open>What every host of a settled network in which someone holds the role elects.\<close>

lemma settled_round:
  assumes net: "settled_net ws net" and h: "(now, own, peers, e) \<in> set net"
    and claim: "\<exists>c \<in> host_candidate ws ` set net. claims_primary c"
  shows "host_roles ws (now, own, peers, e) = Some (elect (map (host_candidate ws) net) True) \<and>
    (host_claims ws (now, own, peers, e) \<longleftrightarrow> primary (elect (map (host_candidate ws) net) True) = Some (el_me e))"
proof -
  let ?e = "refresh now own e" and ?cs = "candidates_for now own peers (refresh now own e) ws"
  have r: "host_ready ws net (now, own, peers, e)" using net h unfolding settled_net_def by blast
  have set: "set ?cs = set (map (host_candidate ws) net)" using settled_candidates [OF net h] by simp
  have "inj_on c_device (set ?cs)"
    unfolding set using net by (auto simp: inj_on_def settled_net_def distinct_map)
  from elect_set [OF set this, of True] have el: "elect ?cs True = elect (map (host_candidate ws) net) True" .
  have p: "bt_has (seen_primary ?e) ws \<or> (\<exists>c \<in> set ?cs. claims_primary c)" using claim set by auto
  obtain e' hl rs where st: "elector_step now own peers e = (e', hl, rs)" by (cases "elector_step now own peers e") auto
  have w: "waited now ?e ws" "ws \<in> set (o_hosting own)" "distinct (o_hosting own)" using r by simp_all
  note at = elector_step_at [OF w(3) st, of ws]
  have "snd (step_ws now own peers ws ?e) = elect ?cs True"
    unfolding step_ws_result(2) using p by simp
  moreover have "view (fst (step_ws now own peers ws ?e)) ws = (el_me e, el_wait ?e, bt_get (el_since ?e) ws,
      primary (elect ?cs True) = Some (el_me e), True, secondary (elect ?cs True) = Some (el_me e))"
    unfolding step_ws_result(1) using p w by simp
  ultimately show ?thesis using at w(2) st el by (simp add: view_def)
qed

section \<open>Properties\<close>

text \<open>
  The election elects the best. Candidates of priority 0 never stand. The primary is the best by
  rank (priority, then availability, then device id) of those that claim the role; with no such claim,
  and if promotion is allowed, of those that claim to be secondary; else of all. The secondary is the
  best of the others that claim it, else of all the others. A role is empty only when nobody is left for
  it, and the order of the candidates does not matter.
\<close>

theorem elect_is_best:
  "let r = elect cs p; others = {c \<in> eligible cs. Some (c_device c) \<noteq> primary r} in
   (case primary r of
      None \<Rightarrow> eligible cs = {}
    | Some d \<Rightarrow> if \<exists>c \<in> eligible cs. claims_primary c then best_of (eligible cs) claims_primary d
        else if p \<and> (\<exists>c \<in> eligible cs. claims_secondary c) then best_of (eligible cs) claims_secondary d
        else best_of (eligible cs) (\<lambda>_. True) d) \<and>
   (case secondary r of
      None \<Rightarrow> others = {}
    | Some d \<Rightarrow> if \<exists>c \<in> others. claims_secondary c then best_of others claims_secondary d else best_of others (\<lambda>_. True) d) \<and>
   (inj_on c_device (set cs) \<longrightarrow> set cs' = set cs \<longrightarrow> elect cs' p = r)"
  unfolding Let_def
  by (intro conjI impI primary_cases secondary_cases [unfolded Let_def] elect_set [symmetric]) simp_all

text \<open>
  C23: A role is kept while its holder is heard, and handed over when it is gone. Once every candidate
  claims what was elected, any further election among them and any newcomers that claim no role, of whatever
  rank, gives the same primary and secondary; and when the primary is gone from it, a host that has seen a
  primary claim elects the secondary as the new primary. A newcomer that claims a role itself, as after a
  partition, is not covered: of several that claim a role, the rank decides.
\<close>

theorem elected_roles_hold:
  fixes cs newcomers p
  defines "r \<equiv> elect cs p"
  defines "next_cs \<equiv> map (claiming r) cs @ newcomers"
  assumes "\<forall>n \<in> set newcomers. \<not> claims_primary n \<and> \<not> claims_secondary n"
  shows "(primary r = Some d \<longrightarrow> primary (elect next_cs q) = Some d) \<and>
    (secondary r = Some b \<longrightarrow> secondary (elect next_cs q) = Some b) \<and>
    (primary r = Some d \<and> secondary r = Some b \<longrightarrow> primary (elect (filter (\<lambda>c. c_device c \<noteq> d) next_cs) True) = Some b)"
proof (intro conjI impI)
  show "primary r = Some d \<Longrightarrow> primary (elect next_cs q) = Some d"
    "secondary r = Some b \<Longrightarrow> secondary (elect next_cs q) = Some b"
    using claims_hold [OF assms(3), of cs p] unfolding r_def next_cs_def by simp_all
  assume roles: "primary r = Some d \<and> secondary r = Some b"
  from elected_eligible(2) [of cs p b] roles obtain c where c: "c \<in> eligible cs" "c_device c = b" "b \<noteq> d"
    by (auto simp: r_def)
  have el: "eligible (filter (\<lambda>c. c_device c \<noteq> d) next_cs) =
      {x \<in> claiming r ` eligible cs \<union> eligible newcomers. c_device x \<noteq> d}"
    unfolding next_cs_def eligible_claiming [symmetric] eligible_append [symmetric] by (auto simp: eligible_def)
  have quiet: "\<forall>x \<in> eligible newcomers. \<not> claims_primary x \<and> \<not> claims_secondary x"
    using assms(3) by (auto simp: eligible_def)
  have "primary (elect (filter (\<lambda>c. c_device c \<noteq> d) next_cs) True) = Some (c_device (claiming r c))"
    by (rule promoted_secondary) (use c roles quiet el in auto)
  with c show "primary (elect (filter (\<lambda>c. c_device c \<noteq> d) next_cs) True) = Some b" by simp
qed

text \<open>
  C24: Settled hosts agree on one star. In a network settled for a workspace, where some electable host
  claims to be primary, one round of every elector reports the same roles everywhere; the primary is an
  electable host that claimed it, and afterwards it alone claims it. With these roles, of any two hosts
  exactly one dials and the other waits, or neither does because neither is a hub; every host links with
  the primary; and the topology is that star.
\<close>

theorem hosts_form_star:
  assumes "settled_net ws net"
    and "\<exists>h \<in> set net. claims_primary (host_candidate ws h) \<and> c_priority (host_candidate ws h) > 0"
  shows "\<exists>r d. primary r = Some d \<and>
    (\<exists>h \<in> set net. host_device h = d \<and> claims_primary (host_candidate ws h) \<and> c_priority (host_candidate ws h) > 0) \<and>
    (\<forall>h \<in> set net. host_roles ws h = Some r \<and> (host_claims ws h \<longleftrightarrow> host_device h = d)) \<and>
    (\<forall>a b. a \<noteq> b \<longrightarrow> (link_for a b (Some r), link_for b a (Some r)) \<in>
       (if is_hub (Some r) a \<or> is_hub (Some r) b then {(Dial, Await), (Await, Dial)} else {(Skip, Skip)})) \<and>
    (\<forall>a. a \<noteq> d \<longrightarrow> link_for a d (Some r) \<noteq> Skip) \<and> topology_of (Some r) = Star d (secondary r)"
proof -
  let ?cs = "map (host_candidate ws) net"
  let ?r = "elect ?cs True"
  have el: "\<exists>c \<in> eligible ?cs. claims_primary c" using assms(2) by (auto simp: eligible_def)
  then obtain d where d: "primary ?r = Some d" "best_of (eligible ?cs) claims_primary d"
    using primary_cases [of ?cs True] by (auto split: option.splits)
  have claim: "\<exists>c \<in> host_candidate ws ` set net. claims_primary c" using assms(2) by auto
  have round: "host_roles ws h = Some ?r \<and> (host_claims ws h \<longleftrightarrow> host_device h = d)" if "h \<in> set net" for h
    using settled_round [OF assms(1) _ claim] that d(1) by (cases h) auto
  have holder: "\<exists>h \<in> set net. host_device h = d \<and> claims_primary (host_candidate ws h) \<and> c_priority (host_candidate ws h) > 0"
    using d(2) by (auto simp: best_of_def eligible_def)
  have hub: "is_hub (Some ?r) d" using d(1) by (simp add: is_hub_def)
  have pair: "(link_for a b (Some ?r), link_for b a (Some ?r)) \<in>
       (if is_hub (Some ?r) a \<or> is_hub (Some ?r) b then {(Dial, Await), (Await, Dial)} else {(Skip, Skip)})"
    if "a \<noteq> b" for a b
    using that d(1) by (auto simp: link_for_def)
  have "link_for a d (Some ?r) \<noteq> Skip" for a using hub by (simp add: link_for_def)
  moreover have "topology_of (Some ?r) = Star d (secondary ?r)" using d(1) by (simp add: topology_of_def)
  ultimately show ?thesis using d(1) round holder pair by blast
qed

text \<open>What an elector has claimed: of hosted workspaces only, one role in each, and no primary unseen.\<close>

definition claims_ok :: "own \<Rightarrow> elector \<Rightarrow> bool" where
  "claims_ok own e \<longleftrightarrow> (\<forall>ws. (bt_has (my_primary e) ws \<longrightarrow> ws \<in> set (o_hosting own) \<and> bt_has (seen_primary e) ws) \<and>
     (bt_has (my_secondary e) ws \<longrightarrow> ws \<in> set (o_hosting own) \<and> \<not> bt_has (my_primary e) ws))"

text \<open>
  What a bridge says of itself is sound. From an elector whose claims are sound for what was hosted,
  a step leaves them sound for what is hosted now, and the Hello says exactly these claims. A host
  claims a role it did not claim before only for a workspace it has waited for, and only when it elected
  itself; with priority 0 it claims nothing there. Roles are reported for exactly the hosted workspaces,
  and as none until a primary claim was seen.
\<close>

theorem elector_sound:
  assumes "claims_ok own0 e" "distinct (o_hosting own)" "elector_step now own peers e = (e', h, rs)"
  shows "claims_ok own e' \<and> set (h_primary h) = {ws. bt_has (my_primary e') ws} \<and>
    set (h_secondary h) = {ws. bt_has (my_secondary e') ws} \<and>
    (\<forall>ws. (bt_has rs ws \<longleftrightarrow> ws \<in> set (o_hosting own)) \<and>
      (bt_has rs ws \<longrightarrow> bt_has (seen_primary e') ws \<or> bt_get rs ws = Some no_roles) \<and>
      (waited now (refresh now own e) ws \<longrightarrow> o_priority own = 0 \<longrightarrow>
         (\<forall>p \<in> set peers. h_device p \<noteq> el_me e) \<longrightarrow> \<not> bt_has (my_primary e') ws \<and> \<not> bt_has (my_secondary e') ws) \<and>
      (bt_has (my_primary e') ws \<and> \<not> bt_has (my_primary e) ws \<longrightarrow> waited now (refresh now own e) ws \<and>
         (\<exists>r. bt_get rs ws = Some r \<and> primary r = Some (el_me e))) \<and>
      (bt_has (my_secondary e') ws \<and> \<not> bt_has (my_secondary e) ws \<longrightarrow> waited now (refresh now own e) ws))"
proof -
  let ?f = "refresh now own e"
  note at = elector_step_at [OF assms(2,3)]
  have hello: "h = hello_of own e'" using at by blast
  have facts: "(bt_has (my_primary e') ws \<longrightarrow> ws \<in> set (o_hosting own) \<and> bt_has (seen_primary e') ws) \<and>
      (bt_has (my_secondary e') ws \<longrightarrow> ws \<in> set (o_hosting own) \<and> \<not> bt_has (my_primary e') ws) \<and>
      (bt_has rs ws \<longleftrightarrow> ws \<in> set (o_hosting own)) \<and>
      (bt_has rs ws \<longrightarrow> bt_has (seen_primary e') ws \<or> bt_get rs ws = Some no_roles) \<and>
      (waited now ?f ws \<longrightarrow> o_priority own = 0 \<longrightarrow>
         (\<forall>p \<in> set peers. h_device p \<noteq> el_me e) \<longrightarrow> \<not> bt_has (my_primary e') ws \<and> \<not> bt_has (my_secondary e') ws) \<and>
      (bt_has (my_primary e') ws \<and> \<not> bt_has (my_primary e) ws \<longrightarrow> waited now ?f ws \<and>
         (\<exists>r. bt_get rs ws = Some r \<and> primary r = Some (el_me e))) \<and>
      (bt_has (my_secondary e') ws \<and> \<not> bt_has (my_secondary e) ws \<longrightarrow> waited now ?f ws)" for ws
  proof (cases "ws \<in> set (o_hosting own)")
    case False
    with at [of ws] have "bt_get rs ws = None" "view e' ws = view ?f ws" by auto
    with False view_refresh [of now own e ws]
    have "\<not> bt_has (my_primary e') ws" "\<not> bt_has (my_secondary e') ws" by (simp_all add: view_def)
    with False \<open>bt_get rs ws = None\<close> show ?thesis by (simp add: bt_has_def [of rs])
  next
    case True
    let ?cs = "candidates_for now own peers ?f ws"
    define p where "p \<longleftrightarrow> bt_has (seen_primary ?f) ws \<or> (\<exists>c \<in> set ?cs. claims_primary c)"
    define P where "P \<longleftrightarrow> (if waited now ?f ws then primary (elect ?cs p) = Some (el_me ?f) else bt_has (my_primary ?f) ws)"
    define S where "S \<longleftrightarrow> (if waited now ?f ws then secondary (elect ?cs p) = Some (el_me ?f) else bt_has (my_secondary ?f) ws)"
    have v: "view e' ws = (el_me ?f, el_wait ?f, bt_get (el_since ?f) ws, P, p \<or> P, S)"
      and r: "bt_get rs ws = Some (if p \<or> P then elect ?cs p else no_roles)"
      using at [of ws] True step_ws_result [of now own peers ws ?f] unfolding p_def P_def S_def by simp_all
    have f: "bt_has (my_primary ?f) ws = bt_has (my_primary e) ws" "bt_has (my_secondary ?f) ws = bt_has (my_secondary e) ws"
      using view_refresh [of now own e ws] True by (simp_all add: view_def)
    have disj: "\<not> (P \<and> S)"
    proof (cases "waited now ?f ws")
      case w: True
      show ?thesis using elected_eligible(2) [of ?cs p "el_me ?f"] w by (auto simp: P_def S_def)
    next
      case False
      with assms(1) f show ?thesis unfolding P_def S_def claims_ok_def by auto
    qed
    have zero: "\<not> P \<and> \<not> S" if "waited now ?f ws" "o_priority own = 0" "\<forall>q \<in> set peers. h_device q \<noteq> el_me e"
    proof -
      have "\<not> (\<exists>c \<in> eligible ?cs. c_device c = el_me e)"
        using that by (auto simp: eligible_def candidates_for_def own_candidate_def candidate_of_def)
      with that(1) elected_eligible [of ?cs p "el_me e"] show ?thesis by (auto simp: P_def S_def)
    qed
    have e': "bt_has (my_primary e') ws = P" "bt_has (seen_primary e') ws = (p \<or> P)" "bt_has (my_secondary e') ws = S"
      using v by (simp_all add: view_def)
    show ?thesis
      unfolding e' bt_has_def [of rs] r using True disj zero f by (auto simp: P_def S_def)
  qed
  have "claims_ok own e'" unfolding claims_ok_def
    by (intro allI conjI [OF conjunct1 [OF facts] conjunct1 [OF conjunct2 [OF facts]]])
  moreover have "set (h_primary h) = {ws. bt_has (my_primary e') ws}" "set (h_secondary h) = {ws. bt_has (my_secondary e') ws}"
    by (auto simp: hello hello_of_def bt_keys_iff)
  ultimately show ?thesis
    by (intro conjI allI conjunct2 [OF conjunct2 [OF facts]])
qed

section \<open>Examples\<close>

definition ex_candidate :: "grain_id \<Rightarrow> u8 \<Rightarrow> candidate" where
  "ex_candidate d p = \<lparr>c_device = d, c_priority = p, c_availability = None, claims_primary = False, claims_secondary = False\<rparr>"

lemmas elect_eval = elect_def best_def max_by_key_def rank_def or_else_def ex_candidate_def claiming_def

theorem elect_is_best_witness:
  "elect [ex_candidate 3 1, ex_candidate 2 1, ex_candidate 9 0] False = elect [ex_candidate 2 1, ex_candidate 9 0, ex_candidate 3 1] False"
  using elect_is_best [of "[ex_candidate 2 1, ex_candidate 9 0, ex_candidate 3 1]" False
      "[ex_candidate 3 1, ex_candidate 2 1, ex_candidate 9 0]"]
  by (auto simp: Let_def ex_candidate_def)

theorem elected_roles_hold_witness:
  "let r = elect [ex_candidate 2 1, ex_candidate 3 1] False;
       cs = map (claiming r) [ex_candidate 2 1, ex_candidate 3 1] @ [ex_candidate 4 200] in
   primary (elect cs False) = Some 3 \<and> primary (elect (filter (\<lambda>c. c_device c \<noteq> 3) cs) True) = Some 2"
proof -
  have "primary (elect [ex_candidate 2 1, ex_candidate 3 1] False) = Some 3"
    "secondary (elect [ex_candidate 2 1, ex_candidate 3 1] False) = Some 2"
    by (simp_all add: elect_eval)
  with elected_roles_hold [of "[ex_candidate 4 200]" "[ex_candidate 2 1, ex_candidate 3 1]" False 3 False 2]
  show ?thesis by (simp add: Let_def) (simp add: ex_candidate_def)
qed

text \<open>Two hosts, of which the first has been the primary for a while.\<close>

definition ex_own :: own where
  "ex_own = \<lparr>o_priority = 1, o_availability = None, o_hosting = [7]\<rparr>"

definition ex_elector :: "grain_id \<Rightarrow> bool \<Rightarrow> elector" where
  "ex_elector d prim = \<lparr>el_me = d, el_wait = 40, el_since = bt_insert 7 0 bt_empty,
     my_primary = (if prim then bs_insert 7 bt_empty else bt_empty), seen_primary = bs_insert 7 bt_empty, my_secondary = bt_empty\<rparr>"

definition ex_net :: "host list" where
  "ex_net = [(50, ex_own, [hello_of ex_own (ex_elector 2 False)], ex_elector 1 True),
     (60, ex_own, [hello_of ex_own (ex_elector 1 True)], ex_elector 2 False)]"

lemma ex_net_settled: "settled_net 7 ex_net"
  by (auto simp: settled_net_def ex_net_def ex_own_def ex_elector_def hello_of_def waited_def refresh_def retain_get bt_has_def
      split: option.splits)

theorem hosts_form_star_witness:
  "\<exists>r. host_roles 7 (50, ex_own, [hello_of ex_own (ex_elector 2 False)], ex_elector 1 True) = Some r \<and>
     host_roles 7 (60, ex_own, [hello_of ex_own (ex_elector 1 True)], ex_elector 2 False) = Some r \<and>
     (\<exists>d. primary r = Some d) \<and> (link_for 1 2 (Some r), link_for 2 1 (Some r)) \<noteq> (Skip, Dial)"
proof -
  have "\<exists>h \<in> set ex_net. claims_primary (host_candidate 7 h) \<and> c_priority (host_candidate 7 h) > 0"
    by (simp add: ex_net_def own_candidate_def ex_elector_def ex_own_def)
  from hosts_form_star [OF ex_net_settled this] obtain r d where r: "primary r = Some d"
    "\<forall>h \<in> set ex_net. host_roles 7 h = Some r"
    "\<forall>a b. a \<noteq> b \<longrightarrow> (link_for a b (Some r), link_for b a (Some r)) \<in>
       (if is_hub (Some r) a \<or> is_hub (Some r) b then {(Dial, Await), (Await, Dial)} else {(Skip, Skip)})"
    by blast
  have "(link_for 1 2 (Some r), link_for 2 1 (Some r)) \<noteq> (Skip, Dial)"
    using r(3) [rule_format, of 1 2] by (auto split: if_splits)
  moreover from r(2) have "host_roles 7 (50, ex_own, [hello_of ex_own (ex_elector 2 False)], ex_elector 1 True) = Some r"
    "host_roles 7 (60, ex_own, [hello_of ex_own (ex_elector 1 True)], ex_elector 2 False) = Some r"
    unfolding ex_net_def by (simp_all del: host_roles.simps)
  ultimately show ?thesis using r(1) by blast
qed

theorem elector_sound_witness:
  "\<exists>e' h rs. elector_step 100 ex_own [] (elector_new 1 40) = (e', h, rs) \<and> claims_ok ex_own e' \<and>
     bt_has rs 7 \<and> \<not> bt_has rs 8"
proof -
  obtain e' h rs where st: "elector_step 100 ex_own [] (elector_new 1 40) = (e', h, rs)"
    by (cases "elector_step 100 ex_own [] (elector_new 1 40)") auto
  have "claims_ok ex_own (elector_new 1 40)" "distinct (o_hosting ex_own)"
    by (simp_all add: claims_ok_def elector_new_def ex_own_def)
  from elector_sound [OF this st] st show ?thesis by (auto simp: ex_own_def)
qed

end
