(* ===== verification/Shelf.thy ===== *)
theory Shelf
  imports Effects BTreeMap
begin

text \<open>
  One directory of small text files, as the ledgers and tables of the bridge keep them, and the write
  through a temporary file (\<open>sapphire-framework-registry/src/store.rs\<close>). Every call may fail whenever
  the oracle says so, and a write that fails may leave a part behind. Nothing else changes the
  directory while one operation runs.
\<close>

section \<open>The directory\<close>

text \<open>
  What the code does not decide: the \<open>k\<close>-th call fails if \<open>sh_fails k\<close>, and a failing write leaves
  \<open>torn k\<close> bytes; \<open>order k\<close> is the order in which a listing comes; \<open>sh_now\<close> and \<open>random_id\<close> are the clock
  and the identities made. Grain-ids are another crate's.
\<close>

record shelf_env =
  sh_fails :: "nat \<Rightarrow> bool"
  torn :: "nat \<Rightarrow> nat"
  order :: "nat \<Rightarrow> string list \<Rightarrow> string list"
  sh_now :: "nat \<Rightarrow> nat"
  random_id :: "nat \<Rightarrow> nat"
  sh_pid :: nat
  show_id :: "nat \<Rightarrow> string"
  parse_id :: "string \<Rightarrow> nat option"

text \<open>\<open>sh_next\<close> is the process's counter of temporary files; \<open>sh_step\<close> numbers the calls.\<close>

record shelf =
  sh_made :: bool
  sh_files :: "(string, string) btmap"
  sh_next :: u64
  sh_step :: nat

definition call :: "shelf_env \<Rightarrow> ('a shelf_scheme, io_kind, unit) op" where
  "call E s = (if sh_fails E (sh_step s) then Inl OtherIo else Inr (), s\<lparr>sh_step := sh_step s + 1\<rparr>)"

definition make_dir :: "shelf_env \<Rightarrow> ('a shelf_scheme, io_kind, unit) op" where
  "make_dir E s = thenE (call E) (update (\<lambda>s. s\<lparr>sh_made := True\<rparr>)) s"

definition put_text :: "string \<Rightarrow> string \<Rightarrow> ('a shelf_scheme, io_kind, unit) op" where
  "put_text n t s = update (\<lambda>s. s\<lparr>sh_files := bt_insert n t (sh_files s)\<rparr>) s"

definition create_file :: "shelf_env \<Rightarrow> string \<Rightarrow> ('a shelf_scheme, io_kind, unit) op" where
  "create_file E n s = thenE (call E) (put_text n '''') s"

text \<open>\<open>write_all\<close>: all of the text, or a part of it and an error.\<close>

definition append_file :: "shelf_env \<Rightarrow> string \<Rightarrow> string \<Rightarrow> ('a shelf_scheme, io_kind, unit) op" where
  "append_file E n t s =
     (let old = (case bt_get (sh_files s) n of None \<Rightarrow> '''' | Some x \<Rightarrow> x) in
      bindE (attempt (call E)) (\<lambda>r. case r of
        Inr _ \<Rightarrow> put_text n (old @ t)
      | Inl e \<Rightarrow> thenE (put_text n (old @ take (torn E (sh_step s)) t)) (throw e)) s)"

definition rename_file :: "shelf_env \<Rightarrow> string \<Rightarrow> string \<Rightarrow> ('a shelf_scheme, io_kind, unit) op" where
  "rename_file E a b s = thenE (call E) (bindE (reading (\<lambda>s. bt_get (sh_files s) a)) (\<lambda>t. case t of
     None \<Rightarrow> throw NotFound
   | Some t \<Rightarrow> update (\<lambda>s. s\<lparr>sh_files := bt_insert b t (bt_remove a (sh_files s))\<rparr>))) s"

definition remove_file :: "shelf_env \<Rightarrow> string \<Rightarrow> ('a shelf_scheme, io_kind, unit) op" where
  "remove_file E n s = thenE (call E) (bindE (reading (\<lambda>s. bt_get (sh_files s) n)) (\<lambda>t. case t of
     None \<Rightarrow> throw NotFound
   | Some _ \<Rightarrow> update (\<lambda>s. s\<lparr>sh_files := bt_remove n (sh_files s)\<rparr>))) s"

definition read_text :: "shelf_env \<Rightarrow> string \<Rightarrow> ('a shelf_scheme, io_kind, string) op" where
  "read_text E n s = thenE (call E) (bindE (reading (\<lambda>s. bt_get (sh_files s) n)) (\<lambda>t. case t of
     None \<Rightarrow> throw NotFound | Some t \<Rightarrow> ret t)) s"

definition list_dir :: "shelf_env \<Rightarrow> ('a shelf_scheme, io_kind, string list) op" where
  "list_dir E s = thenE (call E) (bindE (reading (\<lambda>s. s)) (\<lambda>s.
     if sh_made s then ret (order E (sh_step s) (bt_keys (sh_files s))) else throw NotFound)) s"

section \<open>The write\<close>

definition newline :: string where
  "newline = [CHR 0x0A]"

definition fetch_next :: "('a shelf_scheme, io_kind, u64) op" where
  "fetch_next s = (Inr (sh_next s), s\<lparr>sh_next := sh_next s + 1\<rparr>)"

definition tmp_name :: "shelf_env \<Rightarrow> string \<Rightarrow> u64 \<Rightarrow> string" where
  "tmp_name E n k = n @ ''.tmp.'' @ show_nat (sh_pid E) @ ''.'' @ show_nat (unat k)"

text \<open>The write through the temporary file \<open>tmp\<close>; a rename that fails takes it away again.\<close>

definition write_via :: "shelf_env \<Rightarrow> string \<Rightarrow> string \<Rightarrow> string list \<Rightarrow> ('a shelf_scheme, io_kind, unit) op" where
  "write_via E tmp n parts s =
     thenE (create_file E tmp)
    (thenE (each (append_file E tmp) parts)
    (thenE (call E)
    (bindE (attempt (rename_file E tmp n)) (\<lambda>r. case r of
       Inr _ \<Rightarrow> ret ()
     | Inl e \<Rightarrow> thenE (attempt (remove_file E tmp)) (throw (e :: io_kind)))))) s"

definition write_atomic :: "shelf_env \<Rightarrow> string \<Rightarrow> string \<Rightarrow> string \<Rightarrow> ('a shelf_scheme, io_kind, unit) op" where
  "write_atomic E n header body s =
     thenE (make_dir E) (bindE fetch_next (\<lambda>k. write_via E (tmp_name E n k) n [header, newline, body])) s"

section \<open>What a write does\<close>

text \<open>
  The step of everything that happens to a temporary file: only files named \<open>tmp\<close> change, and no
  directory goes away.
\<close>

definition only_touches :: "string \<Rightarrow> 'a shelf_scheme \<Rightarrow> 'a shelf_scheme \<Rightarrow> bool" where
  "only_touches tmp s t \<longleftrightarrow> (\<forall>n. n \<noteq> tmp \<longrightarrow> bt_get (sh_files t) n = bt_get (sh_files s) n) \<and>
     (sh_made s \<longrightarrow> sh_made t) \<and> shelf.more t = shelf.more s"

interpretation tch: step_relation "only_touches tmp" for tmp
  by unfold_locales (auto simp: only_touches_def)

lemma touch_call: "keeps (only_touches tmp) (call E)"
  by (simp add: keeps_def call_def only_touches_def)

lemma touch_put: "keeps (only_touches tmp) (put_text tmp t)"
  by (simp add: keeps_def put_text_def only_touches_def)

lemma touch_create: "keeps (only_touches tmp) (create_file E tmp)"
  unfolding create_file_def [abs_def] by (intro tch.steps touch_call touch_put)

lemma touch_append: "keeps (only_touches tmp) (append_file E tmp t)"
proof (rule keepsI)
  fix s :: "'a shelf_scheme"
  show "only_touches tmp s (snd (append_file E tmp t s))"
    by (simp add: append_file_def Let_def bindE_def attempt_def call_def put_text_def thenE_def only_touches_def)
qed

lemma touch_remove: "keeps (only_touches tmp) (remove_file E tmp)"
  unfolding remove_file_def [abs_def]
  by (intro tch.steps touch_call keeps_control tch.update_r) (simp add: only_touches_def)

text \<open>What is read and written is never lost: the temporary file holds what was appended.\<close>

lemma append_ok:
  "append_file E n t s = (Inr x, u) \<Longrightarrow>
   bt_get (sh_files u) n = Some ((case bt_get (sh_files s) n of None \<Rightarrow> '''' | Some y \<Rightarrow> y) @ t)"
  by (auto simp: append_file_def Let_def run_simps put_text_def call_def split: sum.splits if_splits)

lemma appends_ok:
  "\<lbrakk>each (append_file E n) parts s = (Inr x, u); bt_get (sh_files s) n = Some old\<rbrakk> \<Longrightarrow>
   bt_get (sh_files u) n = Some (old @ concat parts)"
proof (induction parts arbitrary: s old)
  case (Cons t parts)
  from Cons.prems obtain y s1 where "append_file E n t s = (Inr y, s1)" "each (append_file E n) parts s1 = (Inr x, u)"
    by (auto simp: run_simps)
  with Cons.IH append_ok [of E n t s y s1] Cons.prems(2) show ?case by simp
qed simp

lemma write_via_run:
  fixes s t :: "'a shelf_scheme"
  assumes "write_via E tmp n parts s = (r, t)" "tmp \<noteq> n"
  shows "(\<forall>m. m \<noteq> tmp \<and> m \<noteq> n \<longrightarrow> bt_get (sh_files t) m = bt_get (sh_files s) m) \<and>
    (sh_made s \<longrightarrow> sh_made t) \<and> shelf.more t = shelf.more s \<and>
    bt_get (sh_files t) n = (if r = Inr () then Some (concat parts) else bt_get (sh_files s) n)"
proof -
  let ?w = "\<lambda>s. thenE (create_file E tmp) (thenE (each (append_file E tmp) parts) (call E)) s"
  obtain q u where w: "?w s = (q, u)" by force
  have "keeps (only_touches tmp) ?w" by (intro tch.steps touch_create touch_append touch_call)
  from keepsE [OF this w] have W: "only_touches tmp s u" .
  have split: "write_via E tmp n parts s = thenE ?w (bindE (attempt (rename_file E tmp n)) (\<lambda>r. case r of
       Inr _ \<Rightarrow> ret () | Inl e \<Rightarrow> thenE (attempt (remove_file E tmp)) (throw (e :: io_kind)))) s"
    by (auto simp: write_via_def thenE_def bindE_def split: prod.splits sum.splits)
  show ?thesis
  proof (cases q)
    case (Inl e)
    with assms split w have "r = Inl e" "t = u" by (simp_all add: runs)
    with W assms(2) show ?thesis by (simp add: only_touches_def)
  next
    case (Inr x)
    with w obtain s0 s1 s2 where w: "create_file E tmp s = (Inr (), s1)" "each (append_file E tmp) parts s1 = (Inr (), s2)"
      "call E s2 = (Inr (), u)" by (auto simp: thenE_Inr)
    have "bt_get (sh_files s1) tmp = Some ''''" using w(1) by (auto simp: create_file_def put_text_def thenE_Inr)
    from appends_ok [OF w(2) this] w(3) have full: "bt_get (sh_files u) tmp = Some (concat parts)"
      by (auto simp: call_def split: if_splits)
    have w: "?w s = (Inr (), u)" using w by (simp add: thenE_Inr)
    obtain p v where ren: "rename_file E tmp n u = (p, v)" by force
    show ?thesis
    proof (cases p)
      case (Inr y)
      with assms split w \<open>q = Inr x\<close> ren have "r = Inr ()" "t = v" by (simp_all add: runs)
      moreover have "sh_files v = bt_insert n (concat parts) (bt_remove tmp (sh_files u))" "sh_made v = sh_made u"
        "shelf.more v = shelf.more u"
        using ren Inr full by (auto simp: rename_file_def run_simps call_def split: option.splits if_splits)
      ultimately show ?thesis using W assms(2) by (simp add: only_touches_def)
    next
      case (Inl e)
      have same: "only_touches tmp u v"
        using ren Inl full by (auto simp: rename_file_def run_simps call_def only_touches_def split: option.splits if_splits)
      obtain o2 z where rm: "remove_file E tmp v = (o2, z)" by force
      from assms split w \<open>q = Inr x\<close> ren Inl rm have "r = Inl e" "t = z" by (simp_all add: runs)
      moreover have "only_touches tmp s t"
        using keepsE [OF touch_remove rm] W same \<open>t = z\<close> by (blast intro: tch.comp)
      ultimately show ?thesis using assms(2) by (simp add: only_touches_def)
    qed
  qed
qed

lemma tmp_name_ne: "tmp_name E n k \<noteq> n"
  by (simp add: tmp_name_def)

text \<open>
  A write that returns leaves the new text and no other file changed; one that fails leaves the old
  file. Either way the temporary file is the only other name touched.
\<close>

lemma write_atomic_run:
  fixes s t :: "'a shelf_scheme"
  assumes "write_atomic E n header body s = (r, t)"
  shows "(\<forall>m. m \<noteq> tmp_name E n (sh_next s) \<and> m \<noteq> n \<longrightarrow> bt_get (sh_files t) m = bt_get (sh_files s) m) \<and>
    (sh_made s \<longrightarrow> sh_made t) \<and> shelf.more t = shelf.more s \<and>
    bt_get (sh_files t) n = (if r = Inr () then Some (header @ newline @ body) else bt_get (sh_files s) n) \<and>
    (sh_files t \<noteq> sh_files s \<or> r = Inr () \<longrightarrow> sh_made t)"
proof -
  obtain q u where m: "make_dir E s = (q, u)" by force
  have u: "sh_files u = sh_files s" "sh_next u = sh_next s" "shelf.more u = shelf.more s" "sh_made s \<longrightarrow> sh_made u"
    "q = Inr () \<longrightarrow> sh_made u"
    using m by (auto simp: make_dir_def thenE_def bindE_def call_def split: if_splits)
  show ?thesis
  proof (cases q)
    case (Inl e)
    with m assms have "r = Inl e" "t = u" by (simp_all add: write_atomic_def runs)
    with u show ?thesis by simp
  next
    case (Inr x)
    let ?u = "u\<lparr>sh_next := sh_next u + 1\<rparr>"
    from m Inr assms have "write_via E (tmp_name E n (sh_next s)) n [header, newline, body] ?u = (r, t)"
      by (simp add: write_atomic_def runs fetch_next_def bindE_def u)
    from write_via_run [OF this tmp_name_ne] u Inr show ?thesis by simp
  qed
qed

end
