(* ===== verification/Ledger.thy ===== *)
theory Ledger
  imports Shelf VersionVector "HOL-Library.Multiset"
begin

text \<open>
  What the two ledgers of \<open>sapphire-framework-registry\<close> share: a directory with one record file per
  entry, named by the entry's id, read whole when it is opened and rewritten one record at a time.
  The ledgers are \<open>DeviceLedger\<close> and \<open>ExternalLedger\<close>.
\<close>

section \<open>Errors\<close>

text \<open>The reasons of \<open>Error::File\<close>; their wording is not modelled.\<close>

datatype complaint =
    NotGrain string
  | NotCanonical string grain_id
  | BadRecord string
  | TwoNamed string
  | NameTaken string
  | NodeTaken string string
  | IdTaken grain_id
  | NoMatch string
  | IsRetired string
  | NotWritten grain_id
  | NoName
  | EmptyApp
  | NoRandom
  | BadOldFile

datatype ledger_error = LIo io_kind | LFile complaint

definition io_in :: "('s, io_kind, 'a) op \<Rightarrow> ('s, ledger_error, 'a) op" where
  "io_in m s = (case m s of (r, t) \<Rightarrow> (map_sum LIo id r, t))"

section \<open>Opening and looking up\<close>

definition strip_suffix :: "string \<Rightarrow> string \<Rightarrow> string option" where
  "strip_suffix suf s = (if suffix suf s then Some (take (length s - length suf) s) else None)"

definition toml :: string where
  "toml = ''.toml''"

definition file_of :: "shelf_env \<Rightarrow> grain_id \<Rightarrow> string" where
  "file_of E i = show_id E i @ toml"

text \<open>One entry of the listing; \<open>dec\<close> reads a record of an id, at a time, from its file's text.\<close>

definition open_one :: "shelf_env \<Rightarrow> (nat \<Rightarrow> grain_id \<Rightarrow> string \<Rightarrow> 'd option) \<Rightarrow> 'd list \<Rightarrow> string
    \<Rightarrow> ('a shelf_scheme, ledger_error, 'd list) op" where
  "open_one E dec acc n s = thenE (io_in (call E)) (case strip_suffix toml n of
     None \<Rightarrow> ret acc
   | Some stem \<Rightarrow> (case parse_id E stem of
       None \<Rightarrow> throw (LFile (NotGrain n))
     | Some i \<Rightarrow> if stem \<noteq> show_id E i then throw (LFile (NotCanonical n i))
         else bindE (io_in (read_text E n)) (\<lambda>t. bindE (reading sh_step) (\<lambda>k. case dec (sh_now E k) i t of
           None \<Rightarrow> throw (LFile (BadRecord n)) | Some d \<Rightarrow> ret (acc @ [d]))))) s"

fun first_duplicate :: "'n list \<Rightarrow> 'n list \<Rightarrow> 'n option" where
  "first_duplicate seen [] = None"
| "first_duplicate seen (n # ns) = (if n \<in> set seen then Some n else first_duplicate (n # seen) ns)"

definition open_records :: "shelf_env \<Rightarrow> (nat \<Rightarrow> grain_id \<Rightarrow> string \<Rightarrow> 'd option) \<Rightarrow> ('d \<Rightarrow> string)
    \<Rightarrow> ('a shelf_scheme, ledger_error, 'd list) op" where
  "open_records E dec name s = bindE (attempt (list_dir E)) (\<lambda>r.
     bindE (case r of
         Inl k \<Rightarrow> if k = NotFound then ret [] else throw (LIo k)
       | Inr names \<Rightarrow> folding (open_one E dec) [] names) (\<lambda>ds.
     let ds = sort_key name ds in
     case first_duplicate [] (map name ds) of
       Some n \<Rightarrow> throw (LFile (TwoNamed n))
     | None \<Rightarrow> ret ds)) s"

fun position :: "('a \<Rightarrow> bool) \<Rightarrow> 'a list \<Rightarrow> nat option" where
  "position P [] = None"
| "position P (x # xs) = (if P x then Some 0 else map_option Suc (position P xs))"

text \<open>The name first, then the id.\<close>

definition index_of :: "shelf_env \<Rightarrow> ('d \<Rightarrow> string) \<Rightarrow> ('d \<Rightarrow> grain_id) \<Rightarrow> 'd list \<Rightarrow> string \<Rightarrow> nat option" where
  "index_of E name rid ds sel = (case position (\<lambda>d. name d = sel) ds of
     Some i \<Rightarrow> Some i
   | None \<Rightarrow> (case parse_id E sel of None \<Rightarrow> None | Some i \<Rightarrow> position (\<lambda>d. rid d = i) ds))"

section \<open>Lemmas on names and lists\<close>

lemma strip_suffix_app [simp]: "strip_suffix suf (s @ suf) = Some s"
  by (simp add: strip_suffix_def suffix_def)

lemma strip_suffix_Some: "strip_suffix suf s = Some p \<longleftrightarrow> s = p @ suf"
  by (auto simp: strip_suffix_def suffix_def)

lemma first_duplicate_None: "first_duplicate seen ns = None \<longleftrightarrow> distinct ns \<and> set ns \<inter> set seen = {}"
  by (induction seen ns rule: first_duplicate.induct) auto

lemma position_Some: "position P xs = Some i \<Longrightarrow> i < length xs \<and> P (xs ! i)"
  by (induction xs arbitrary: i) (auto split: if_splits)

lemma position_None: "position P xs = None \<longleftrightarrow> (\<forall>x \<in> set xs. \<not> P x)"
  by (induction xs) auto

lemma index_of_Some:
  "index_of E name rid ds sel = Some i \<Longrightarrow> i < length ds \<and> (name (ds ! i) = sel \<or> parse_id E sel = Some (rid (ds ! i)))"
  by (auto simp: index_of_def dest: position_Some split: option.splits)

text \<open>A temporary file is never taken for a record: its name ends in a digit.\<close>

lemma tmp_not_toml: "\<not> suffix toml (tmp_name E n k)"
proof
  assume "suffix toml (tmp_name E n k)"
  then have "last (tmp_name E n k) = CHR ''l''" by (auto simp: suffix_def toml_def)
  moreover have "last (tmp_name E n k) \<in> set (show_nat (unat k))" by (simp add: tmp_name_def)
  ultimately show False using show_nat_digits by fastforce
qed

lemma suffix_file_of [simp]: "suffix toml (file_of E i)"
  by (simp add: file_of_def suffix_def)

definition env_ok :: "shelf_env \<Rightarrow> bool" where
  "env_ok E \<longleftrightarrow> (\<forall>i. parse_id E (show_id E i) = Some i) \<and>
     (\<forall>k ns. set (order E k ns) = set ns \<and> (distinct ns \<longrightarrow> distinct (order E k ns)))"

lemma file_of_inj: "env_ok E \<Longrightarrow> file_of E i = file_of E j \<longleftrightarrow> i = j"
  unfolding env_ok_def file_of_def by (metis append_same_eq option.inject)

lemma io_in_run: "io_in m s = (r, t) \<longleftrightarrow> (\<exists>q. m s = (q, t) \<and> r = map_sum LIo id q)"
  by (auto simp: io_in_def split: prod.splits)

lemma io_in_Inr [simp]: "io_in m s = (Inr x, t) \<longleftrightarrow> m s = (Inr x, t)"
  by (cases "m s"; cases "fst (m s)") (auto simp: io_in_def)

section \<open>Reading leaves the directory alone\<close>

definition same_shelf :: "'a shelf_scheme \<Rightarrow> 'a shelf_scheme \<Rightarrow> bool" where
  "same_shelf s t \<longleftrightarrow> sh_files t = sh_files s \<and> sh_made t = sh_made s \<and> shelf.more t = shelf.more s"

interpretation sam: step_relation same_shelf
  by unfold_locales (auto simp: same_shelf_def)

lemma same_call: "keeps same_shelf (call E)"
  by (simp add: keeps_def call_def same_shelf_def)

lemma same_io: "keeps same_shelf m \<Longrightarrow> keeps same_shelf (io_in m)"
  by (auto simp: keeps_def io_in_def split: prod.splits) (metis snd_conv)

lemma same_read: "keeps same_shelf (read_text E n)"
  unfolding read_text_def [abs_def] by (intro sam.steps same_call keeps_control)

lemma same_list: "keeps same_shelf (list_dir E)"
  unfolding list_dir_def [abs_def] by (intro sam.steps same_call keeps_control)

lemma same_open_one: "keeps same_shelf (open_one E dec acc n)"
  unfolding open_one_def [abs_def] by (intro sam.steps same_call same_io same_read keeps_control)

lemma same_open: "keeps same_shelf (open_records E dec name)"
  unfolding open_records_def [abs_def] by (intro sam.steps same_list same_open_one keeps_control)

section \<open>The ledger and its directory\<close>

text \<open>
  The records in memory are those of the directory: in the order of their distinct names, each the
  content of the file of its id, and no other record file is there.
\<close>

definition book :: "shelf_env \<Rightarrow> (nat \<Rightarrow> grain_id \<Rightarrow> string \<Rightarrow> 'd option) \<Rightarrow> ('d \<Rightarrow> string) \<Rightarrow> ('d \<Rightarrow> grain_id)
    \<Rightarrow> 'd list \<Rightarrow> (string, string) btmap \<Rightarrow> bool" where
  "book E dec name rid ds fs \<longleftrightarrow> sorted (map name ds) \<and> distinct (map name ds) \<and> distinct (map rid ds) \<and>
     (\<forall>d \<in> set ds. \<exists>t. bt_get fs (file_of E (rid d)) = Some t \<and> (\<forall>now. dec now (rid d) t = Some d)) \<and>
     (\<forall>n. suffix toml n \<longrightarrow> bt_get fs n \<noteq> None \<longrightarrow> (\<exists>d \<in> set ds. n = file_of E (rid d)))"

text \<open>No record file leaves anything to the moment it is read.\<close>

definition stamped :: "(nat \<Rightarrow> grain_id \<Rightarrow> string \<Rightarrow> 'd option) \<Rightarrow> (string, string) btmap \<Rightarrow> bool" where
  "stamped dec fs \<longleftrightarrow> (\<forall>n t i now now'. bt_get fs n = Some t \<longrightarrow> suffix toml n \<longrightarrow> dec now i t = dec now' i t)"

text \<open>
  The contract of a ledger's record format: a record that is read has the id asked for, and what is
  written reads back (\<open>good\<close>: as the TOML crate promises).
\<close>

locale record_format =
  fixes good :: bool
    and E :: shelf_env
    and dec :: "nat \<Rightarrow> grain_id \<Rightarrow> string \<Rightarrow> 'd option"
    and enc :: "'d \<Rightarrow> string option"
    and header :: string
    and name :: "'d \<Rightarrow> string"
    and rid :: "'d \<Rightarrow> grain_id"
  assumes dec_id: "dec now i t = Some d \<Longrightarrow> rid d = i"
    and dec_enc: "\<lbrakk>good; enc d = Some b\<rbrakk> \<Longrightarrow> dec now (rid d) (header @ newline @ b) = Some d"
    and env: "good \<Longrightarrow> env_ok E"

context record_format
begin

lemma open_one_Inr:
  assumes "open_one E dec acc n s = (Inr ds, t)"
  shows "if suffix toml n
    then \<exists>d str now. ds = acc @ [d] \<and> n = file_of E (rid d) \<and> bt_get (sh_files s) n = Some str \<and> dec now (rid d) str = Some d
    else ds = acc"
proof (cases "strip_suffix toml n")
  case None
  then have "\<not> suffix toml n" by (auto simp: strip_suffix_def split: if_splits)
  with assms None show ?thesis by (auto simp: open_one_def thenE_Inr)
next
  case (Some stem)
  then have n: "n = stem @ toml" by (simp add: strip_suffix_Some)
  from assms Some obtain u where u: "call E s = (Inr (), u)" and after: "(case parse_id E stem of
       None \<Rightarrow> throw (LFile (NotGrain n))
     | Some i \<Rightarrow> if stem \<noteq> show_id E i then throw (LFile (NotCanonical n i))
         else bindE (io_in (read_text E n)) (\<lambda>t. bindE (reading sh_step) (\<lambda>k. case dec (sh_now E k) i t of
           None \<Rightarrow> throw (LFile (BadRecord n)) | Some d \<Rightarrow> ret (acc @ [d])))) u = (Inr ds, t)"
    by (auto simp: open_one_def thenE_Inr)
  from after obtain i where i: "parse_id E stem = Some i" by (cases "parse_id E stem") auto
  with after have stem: "stem = show_id E i" by (auto split: if_splits)
  from after i stem obtain str d k where rd: "read_text E n u = (Inr str, t)" and d: "dec (sh_now E k) i str = Some d" "ds = acc @ [d]"
    by (auto simp: bindE_Inr split: option.splits)

  have "sh_files u = sh_files s" using keepsE [OF same_call u] by (simp add: same_shelf_def)
  with rd have "bt_get (sh_files s) n = Some str"
    by (auto simp: read_text_def run_simps call_def split: option.splits if_splits)
  moreover have "rid d = i" by (rule dec_id [OF d(1)])
  ultimately show ?thesis using n stem d by (auto simp: file_of_def suffix_def)
qed

lemma open_all_Inr:
  "folding (open_one E dec) acc ns s = (Inr ds, t) \<Longrightarrow>
   \<exists>es. ds = acc @ es \<and> map (\<lambda>d. file_of E (rid d)) es = filter (suffix toml) ns \<and>
     (\<forall>d \<in> set es. \<exists>str now. bt_get (sh_files s) (file_of E (rid d)) = Some str \<and> dec now (rid d) str = Some d)"
proof (induction ns arbitrary: acc s)
  case (Cons n ns)
  from Cons.prems obtain acc1 s1 where one: "open_one E dec acc n s = (Inr acc1, s1)"
    and more: "folding (open_one E dec) acc1 ns s1 = (Inr ds, t)" by (auto simp: run_simps)
  have fs: "sh_files s1 = sh_files s" using keepsE [OF same_open_one one] by (simp add: same_shelf_def)
  from Cons.IH [OF more] obtain es where es: "ds = acc1 @ es" "map (\<lambda>d. file_of E (rid d)) es = filter (suffix toml) ns"
    "\<forall>d \<in> set es. \<exists>str now. bt_get (sh_files s) (file_of E (rid d)) = Some str \<and> dec now (rid d) str = Some d"
    unfolding fs by blast
  show ?case
  proof (cases "suffix toml n")
    case False
    with open_one_Inr [OF one] es show ?thesis by auto
  next
    case True
    with open_one_Inr [OF one] obtain d str now where d: "acc1 = acc @ [d]" "n = file_of E (rid d)"
      "bt_get (sh_files s) n = Some str" "dec now (rid d) str = Some d" by auto
    show ?thesis
      by (rule exI [of _ "d # es"]) (use d es True in auto)
  qed
qed simp

lemma open_records_Inr:
  fixes s t :: "'x shelf_scheme"
  assumes "open_records E dec name s = (Inr ds, t)"
  obtains es where "ds = sort_key name es" "distinct (map name ds)"
    and "\<not> sh_made s \<and> es = [] \<or> sh_made s \<and> (\<exists>k (u :: 'x shelf_scheme). sh_files u = sh_files s \<and>
       folding (open_one E dec) [] (order E k (bt_keys (sh_files s))) u = (Inr es, t))"
proof -
  obtain r u where r: "list_dir E s = (r, u)" by force
  with assms obtain es where es: "(case r of Inl k \<Rightarrow> if k = NotFound then ret [] else throw (LIo k)
      | Inr names \<Rightarrow> folding (open_one E dec) [] names) u = (Inr es, t)"
    and ds: "ds = sort_key name es" "first_duplicate [] (map name ds) = None"
    by (auto simp: open_records_def run_simps Let_def split: option.splits)
  have u: "sh_files u = sh_files s" using keepsE [OF same_list r] by (simp add: same_shelf_def)
  show thesis
  proof (cases r)
    case (Inl k)
    with es have "k = NotFound" "es = []" by (auto split: if_splits)
    with Inl r have "\<not> sh_made s" by (auto simp: list_dir_def run_simps call_def split: if_splits)
    with ds \<open>es = []\<close> show thesis by (intro that [of es]) (simp_all add: first_duplicate_None)
  next
    case (Inr names)
    with r obtain k where "names = order E k (bt_keys (sh_files s))" "sh_made s"
      by (auto simp: list_dir_def run_simps call_def split: if_splits)
    with Inr es u ds show thesis by (intro that [of es]) (auto simp: first_duplicate_None)
  qed
qed

lemma listing:
  fixes fs :: "(string, string) btmap"
  shows "good \<Longrightarrow> set (order E k (bt_keys fs)) = {n. bt_get fs n \<noteq> None} \<and> distinct (order E k (bt_keys fs))"
  using env bt_entries_distinct [of fs] unfolding env_ok_def by (auto simp: bt_keys_iff bt_has_def) (simp add: bt_keys_def)

lemma distinct_files: "distinct (map (\<lambda>d. file_of E (rid d)) es) \<Longrightarrow> distinct (map rid es)"
  by (auto simp: distinct_map inj_on_def)

text \<open>A ledger that opens is well formed, whatever the files hold.\<close>

lemma open_well_formed:
  assumes "good" "open_records E dec name s = (Inr ds, t)"
  shows "sorted (map name ds) \<and> distinct (map name ds) \<and> distinct (map rid ds)"
proof -
  obtain es where es: "ds = sort_key name es" "distinct (map name ds)"
    "\<not> sh_made s \<and> es = [] \<or> sh_made s \<and> (\<exists>k u. sh_files u = sh_files s \<and>
       folding (open_one E dec) [] (order E k (bt_keys (sh_files s))) u = (Inr es, t))"
    by (rule open_records_Inr [OF assms(2)])
  have "distinct (map rid es)"
  proof (cases "es = []")
    case False
    with es obtain k u where "folding (open_one E dec) [] (order E k (bt_keys (sh_files s))) u = (Inr es, t)" by auto
    from open_all_Inr [OF this] listing [OF assms(1)] show ?thesis by (intro distinct_files) auto
  qed simp
  with es(1) have "distinct (map rid ds)" by (simp add: distinct_map)
  with es show ?thesis by simp
qed

lemma open_book:
  assumes "good" "open_records E dec name s = (Inr ds, t)" "stamped dec (sh_files s)" "sh_made s \<or> sh_files s = bt_empty"
  shows "book E dec name rid ds (sh_files s)"
proof -
  obtain es where es: "ds = sort_key name es" "distinct (map name ds)"
    "\<not> sh_made s \<and> es = [] \<or> sh_made s \<and> (\<exists>k u. sh_files u = sh_files s \<and>
       folding (open_one E dec) [] (order E k (bt_keys (sh_files s))) u = (Inr es, t))"
    by (rule open_records_Inr [OF assms(2)])
  note wf = open_well_formed [OF assms(1,2)]
  have set_ds: "set ds = set es" by (simp add: es(1))
  show ?thesis
  proof (cases "sh_made s")
    case False
    with es assms(4) wf show ?thesis by (auto simp: book_def)
  next
    case True
    with es obtain k u where u: "sh_files u = sh_files s"
      "folding (open_one E dec) [] (order E k (bt_keys (sh_files s))) u = (Inr es, t)" by auto
    from open_all_Inr [OF u(2)] have names: "map (\<lambda>d. file_of E (rid d)) es = filter (suffix toml) (order E k (bt_keys (sh_files s)))"
      and held: "\<forall>d \<in> set es. \<exists>str now. bt_get (sh_files s) (file_of E (rid d)) = Some str \<and> dec now (rid d) str = Some d"
      by (auto simp: u(1))
    have "\<exists>str. bt_get (sh_files s) (file_of E (rid d)) = Some str \<and> (\<forall>now. dec now (rid d) str = Some d)" if "d \<in> set ds" for d
    proof -
      from held that set_ds obtain str now where str: "bt_get (sh_files s) (file_of E (rid d)) = Some str" "dec now (rid d) str = Some d"
        by blast
      have "dec now' (rid d) str = Some d" for now'
        using assms(3) str suffix_file_of unfolding stamped_def by metis
      with str show ?thesis by blast
    qed
    moreover have "\<exists>d \<in> set ds. n = file_of E (rid d)" if "suffix toml n" "bt_get (sh_files s) n \<noteq> None" for n
    proof -
      from that listing [OF assms(1)] have "n \<in> set (filter (suffix toml) (order E k (bt_keys (sh_files s))))" by auto
      then show ?thesis unfolding names [symmetric] set_ds by auto
    qed
    ultimately show ?thesis using wf by (auto simp: book_def)
  qed
qed

text \<open>And one that is in memory is what opening its directory gives, in whatever order it is listed.\<close>

lemma open_one_ok:
  fixes s :: "'x shelf_scheme"
  assumes "good" "\<forall>k. \<not> sh_fails E k"
    and "suffix toml n \<longrightarrow> n = file_of E (rid d) \<and> bt_get (sh_files s) n = Some str \<and> (\<forall>now. dec now (rid d) str = Some d)"
  shows "\<exists>t. open_one E dec acc n s = (Inr (if suffix toml n then acc @ [d] else acc), t) \<and> sh_files t = sh_files s"
proof -
  have call: "call E (v :: 'x shelf_scheme) = (Inr (), v\<lparr>sh_step := sh_step v + 1\<rparr>)" for v using assms(2) by (simp add: call_def)
  show ?thesis
  proof (cases "suffix toml n")
    case False
    then show ?thesis by (simp add: open_one_def strip_suffix_def thenE_def bindE_def io_in_def call)
  next
    case True
    with assms(3) have n: "n = show_id E (rid d) @ toml" "bt_get (sh_files s) n = Some str" "\<And>now. dec now (rid d) str = Some d"
      by (auto simp: file_of_def)
    have "parse_id E (show_id E (rid d)) = Some (rid d)" using env [OF assms(1)] by (simp add: env_ok_def)
    with n True show ?thesis by (simp add: open_one_def thenE_def bindE_def io_in_def call read_text_def)
  qed
qed

lemma open_all_ok:
  fixes s :: "'x shelf_scheme"
  assumes "good" "\<forall>k. \<not> sh_fails E k" "book E dec name rid ds (sh_files s)" "\<forall>n \<in> set ns. bt_get (sh_files s) n \<noteq> None"
  shows "\<exists>es t. folding (open_one E dec) acc ns s = (Inr (acc @ es), t) \<and>
     map (\<lambda>d. file_of E (rid d)) es = filter (suffix toml) ns \<and> set es \<subseteq> set ds"
  using assms(3,4)
proof (induction ns arbitrary: acc s)
  case (Cons n ns)
  have "\<exists>d str. suffix toml n \<longrightarrow> d \<in> set ds \<and> n = file_of E (rid d) \<and> bt_get (sh_files s) n = Some str \<and>
      (\<forall>now. dec now (rid d) str = Some d)"
  proof (cases "suffix toml n")
    case True
    moreover from Cons.prems have "bt_get (sh_files s) n \<noteq> None" by simp
    ultimately obtain d where d: "d \<in> set ds" "n = file_of E (rid d)" using Cons.prems(1) unfolding book_def by blast
    moreover obtain str where "bt_get (sh_files s) (file_of E (rid d)) = Some str" "\<forall>now. dec now (rid d) str = Some d"
      using Cons.prems(1) d(1) unfolding book_def by blast
    ultimately show ?thesis by blast
  qed simp
  then obtain d str where d: "suffix toml n \<longrightarrow> d \<in> set ds \<and> n = file_of E (rid d) \<and> bt_get (sh_files s) n = Some str \<and>
      (\<forall>now. dec now (rid d) str = Some d)" by blast
  then have pre: "suffix toml n \<longrightarrow> n = file_of E (rid d) \<and> bt_get (sh_files s) n = Some str \<and> (\<forall>now. dec now (rid d) str = Some d)"
    by simp
  from open_one_ok [OF assms(1,2) pre, of acc] obtain u where
    u: "open_one E dec acc n s = (Inr (if suffix toml n then acc @ [d] else acc), u)" "sh_files u = sh_files s" by blast
  have "book E dec name rid ds (sh_files u)" "\<forall>m \<in> set ns. bt_get (sh_files u) m \<noteq> None" using Cons.prems u(2) by simp_all
  from Cons.IH [OF this, of "if suffix toml n then acc @ [d] else acc"] obtain es t where
    es: "folding (open_one E dec) (if suffix toml n then acc @ [d] else acc) ns u =
        (Inr ((if suffix toml n then acc @ [d] else acc) @ es), t)"
      "map (\<lambda>d. file_of E (rid d)) es = filter (suffix toml) ns" "set es \<subseteq> set ds" by blast
  show ?case
  proof (cases "suffix toml n")
    case True
    with d es u show ?thesis by (intro exI [of _ "d # es"]) (auto simp: runs)
  next
    case False
    with es u show ?thesis by (intro exI [of _ es]) (auto simp: runs)
  qed
qed simp

lemma book_reopens:
  fixes s :: "'x shelf_scheme"
  assumes "good" "\<forall>k. \<not> sh_fails E k" "book E dec name rid ds (sh_files s)" "sh_made s \<or> ds = []"
  shows "fst (open_records E dec name s) = Inr ds"
proof -
  have call: "call E s = (Inr (), s\<lparr>sh_step := sh_step s + 1\<rparr>)" using assms(2) by (simp add: call_def)
  show ?thesis
  proof (cases "sh_made s")
    case False
    with assms(4) have "ds = []" by simp
    with False show ?thesis by (simp add: open_records_def list_dir_def thenE_def bindE_def attempt_def call)
  next
    case True
    define k where "k = sh_step s + 1"
    let ?u = "s\<lparr>sh_step := k\<rparr>"
    let ?ns = "order E k (bt_keys (sh_files s))"
    have list: "list_dir E s = (Inr ?ns, ?u)" using True by (simp add: list_dir_def thenE_def bindE_def call k_def)
    have "\<forall>n \<in> set ?ns. bt_get (sh_files ?u) n \<noteq> None" "book E dec name rid ds (sh_files ?u)"
      using listing [OF assms(1)] assms(3) by auto
    from open_all_ok [OF assms(1,2) this(2,1), of "[]"] obtain es t where
      es: "folding (open_one E dec) [] ?ns ?u = (Inr es, t)" "map (\<lambda>d. file_of E (rid d)) es = filter (suffix toml) ?ns"
        "set es \<subseteq> set ds" by auto
    have dis: "distinct (map (\<lambda>d. file_of E (rid d)) es)" using es(2) listing [OF assms(1)] by simp
    have inj: "inj_on rid (set ds)" "inj_on name (set ds)" "distinct ds" using assms(3) by (auto simp: book_def distinct_map)
    have "d \<in> set es" if "d \<in> set ds" for d
    proof -
      from assms(3) that have "file_of E (rid d) \<in> set (filter (suffix toml) ?ns)"
        using listing [OF assms(1)] by (auto simp: book_def)
      then obtain e where e: "e \<in> set es" "file_of E (rid e) = file_of E (rid d)" unfolding es(2) [symmetric] by auto
      with file_of_inj [OF env [OF assms(1)]] inj(1) es(3) that have "e = d" by (auto simp: inj_on_def)
      with e show ?thesis by simp
    qed
    with es(3) have set: "set es = set ds" by blast
    have "mset es = mset ds" using dis inj(3) set by (intro set_eq_iff_mset_eq_distinct [THEN iffD1]) (auto simp: distinct_map)
    then have "sort_key name es = ds"
      using assms(3) inj(2) set by (intro sort_key_inj_key_eq) (auto simp: book_def)
    moreover have "first_duplicate [] (map name ds) = None" using assms(3) by (simp add: first_duplicate_None book_def)
    ultimately show ?thesis by (simp add: open_records_def list runs es(1) Let_def)
  qed
qed

text \<open>What keeps a ledger and its directory together.\<close>

lemma book_same:
  "\<lbrakk>book E dec name rid ds fs; \<forall>n. suffix toml n \<longrightarrow> bt_get fs' n = bt_get fs n\<rbrakk> \<Longrightarrow> book E dec name rid ds fs'"
  by (simp add: book_def)

lemma book_put:
  assumes "good" "book E dec name rid ds fs" "enc d = Some b" "bt_get fs' (file_of E (rid d)) = Some (header @ newline @ b)"
    and "\<forall>n. suffix toml n \<longrightarrow> n \<noteq> file_of E (rid d) \<longrightarrow> bt_get fs' n = bt_get fs n"
    and "set ds' = insert d {e \<in> set ds. rid e \<noteq> rid d}" "sorted (map name ds')" "distinct (map name ds')" "distinct (map rid ds')"
  shows "book E dec name rid ds' fs'"
proof -
  note inj = file_of_inj [OF env [OF assms(1)]]
  have "\<exists>t. bt_get fs' (file_of E (rid e)) = Some t \<and> (\<forall>now. dec now (rid e) t = Some e)" if "e \<in> set ds'" for e
  proof (cases "e = d")
    case True
    with assms(4) dec_enc [OF assms(1,3)] show ?thesis by simp
  next
    case False
    with that assms(6) have "e \<in> set ds" "rid e \<noteq> rid d" by auto
    with assms(2,5) inj show ?thesis by (simp add: book_def)
  qed
  moreover have "\<exists>e \<in> set ds'. n = file_of E (rid e)" if "suffix toml n" "bt_get fs' n \<noteq> None" for n
  proof (cases "n = file_of E (rid d)")
    case False
    with that assms(5) have "bt_get fs n \<noteq> None" by simp
    with that assms(2) obtain e where "e \<in> set ds" "n = file_of E (rid e)" by (auto simp: book_def)
    with False assms(6) show ?thesis by auto
  qed (use assms(6) in auto)
  ultimately show ?thesis using assms(7-9) by (simp add: book_def)
qed

lemma book_drop:
  assumes "good" "book E dec name rid ds fs" "set ds' = {e \<in> set ds. rid e \<noteq> i}" "bt_get fs' (file_of E i) = None"
    and "\<forall>n. suffix toml n \<longrightarrow> n \<noteq> file_of E i \<longrightarrow> bt_get fs' n = bt_get fs n"
    and "sorted (map name ds')" "distinct (map name ds')" "distinct (map rid ds')"
  shows "book E dec name rid ds' fs'"
proof -
  note inj = file_of_inj [OF env [OF assms(1)]]
  have "\<exists>t. bt_get fs' (file_of E (rid e)) = Some t \<and> (\<forall>now. dec now (rid e) t = Some e)" if "e \<in> set ds'" for e
    using that assms(2,3,5) inj by (simp add: book_def)
  moreover have "\<exists>e \<in> set ds'. n = file_of E (rid e)" if "suffix toml n" "bt_get fs' n \<noteq> None" for n
  proof -
    from that assms(4) have "n \<noteq> file_of E i" by auto
    with that assms(5) have "bt_get fs n \<noteq> None" by simp
    with that assms(2) obtain e where "e \<in> set ds" "n = file_of E (rid e)" by (auto simp: book_def)
    with \<open>n \<noteq> file_of E i\<close> assms(3) show ?thesis by auto
  qed
  ultimately show ?thesis using assms(6-8) by (simp add: book_def)
qed

end

end
