(* ===== verification/DeviceLedger.thy ===== *)
theory DeviceLedger
  imports Ledger
begin

text \<open>
  The device ledger (\<open>sapphire-framework-registry/src/devices.rs\<close>) and the migration of its old
  single file (\<open>migrate.rs\<close>). The state of a \<open>Devices\<close> is its directory and the records in memory;
  TOML belongs to another crate. Times are numbers.
\<close>

section \<open>Records\<close>

definition DEFAULT_PRIORITY :: u8 where
  "DEFAULT_PRIORITY = 1"

record device =
  dv_id :: grain_id
  dv_name :: string
  node_id :: "string option"
  description :: "string option"
  dv_priority :: u8
  created_at :: nat
  retired_at :: "nat option"

definition is_retired :: "device \<Rightarrow> bool" where
  "is_retired d \<longleftrightarrow> retired_at d \<noteq> None"

text \<open>\<open>RawDevice\<close>: what the file says.\<close>

record raw_device =
  r_name :: string
  r_node_id :: "string option"
  r_description :: "string option"
  r_priority :: "u8 option"
  r_created_at :: "nat option"
  r_retired_at :: "nat option"

record 'r codec =
  from_toml :: "string \<Rightarrow> 'r option"
  to_toml :: "'r \<Rightarrow> string option"

definition DEVICE_HEADER :: string where
  "DEVICE_HEADER = concat (map (\<lambda>l. l @ newline)
    [''# A sapphire device record. The file name is the device's id.'',
     ''#'',
     ''# name        required. Unique within the ledger. Accepted in place of the id'',
     ''#             anywhere a command asks for a device.'',
     ''# node_id     optional. The device's iroh node id: 64 lowercase hex digits.'',
     ''#             Filled in when the device pairs. Unique within the ledger.'',
     ''# description optional. A note for you; the system never reads it.'',
     ''# priority    optional, 0-255, default 1. Higher is preferred as the primary'',
     ''#             device. 0: never primary or secondary.'',
     ''# created_at  optional. Filled in when the record is written.'',
     ''# retired_at  optional. Set by `device retire`. The record stays, because'',
     ''#             synced content refers to this device's id forever.''])"

definition device_of :: "nat \<Rightarrow> grain_id \<Rightarrow> raw_device \<Rightarrow> device" where
  "device_of now i raw = \<lparr>dv_id = i, dv_name = r_name raw, node_id = r_node_id raw, description = r_description raw,
     dv_priority = (case r_priority raw of None \<Rightarrow> DEFAULT_PRIORITY | Some p \<Rightarrow> p),
     created_at = (case r_created_at raw of None \<Rightarrow> now | Some t \<Rightarrow> t), retired_at = r_retired_at raw\<rparr>"

definition raw_of :: "device \<Rightarrow> raw_device" where
  "raw_of d = \<lparr>r_name = dv_name d, r_node_id = node_id d, r_description = description d,
     r_priority = (if dv_priority d \<noteq> DEFAULT_PRIORITY then Some (dv_priority d) else None),
     r_created_at = Some (created_at d), r_retired_at = retired_at d\<rparr>"

definition read_device :: "raw_device codec \<Rightarrow> nat \<Rightarrow> grain_id \<Rightarrow> string \<Rightarrow> device option" where
  "read_device C now i t = map_option (device_of now i) (from_toml C t)"

section \<open>The ledger\<close>

record device_ledger = shelf +
  dl_entries :: "device list"

definition devices_open :: "shelf_env \<Rightarrow> raw_device codec \<Rightarrow> ('a shelf_scheme, ledger_error, device list) op" where
  "devices_open E C s = open_records E (read_device C) dv_name s"

definition save_one :: "shelf_env \<Rightarrow> raw_device codec \<Rightarrow> device \<Rightarrow> ('a shelf_scheme, ledger_error, unit) op" where
  "save_one E C d s = (case to_toml C (raw_of d) of
     None \<Rightarrow> throw (LFile (NotWritten (dv_id d)))
   | Some body \<Rightarrow> io_in (write_atomic E (file_of E (dv_id d)) DEVICE_HEADER body)) s"

definition remove_one :: "shelf_env \<Rightarrow> device \<Rightarrow> ('a shelf_scheme, ledger_error, unit) op" where
  "remove_one E d s = bindE (attempt (remove_file E (file_of E (dv_id d)))) (\<lambda>r. case r of
     Inr _ \<Rightarrow> ret ()
   | Inl k \<Rightarrow> if k = NotFound then ret () else throw (LIo k)) s"

definition write_record :: "shelf_env \<Rightarrow> raw_device codec \<Rightarrow> device \<Rightarrow> ('a shelf_scheme, ledger_error, unit) op" where
  "write_record E C d s = save_one E C d s"

definition get_device :: "device list \<Rightarrow> grain_id \<Rightarrow> device option" where
  "get_device ds i = find (\<lambda>d. dv_id d = i) ds"

definition by_node_id :: "device list \<Rightarrow> string \<Rightarrow> device option" where
  "by_node_id ds n = find (\<lambda>d. node_id d = Some n) ds"

definition device_index :: "shelf_env \<Rightarrow> string \<Rightarrow> (device_ledger, ledger_error, nat) op" where
  "device_index E sel s = bindE (reading dl_entries) (\<lambda>ds. case index_of E dv_name dv_id ds sel of
     None \<Rightarrow> throw (LFile (NoMatch sel)) | Some i \<Rightarrow> ret i) s"

text \<open>A device by its selector, with its place.\<close>

definition resolve :: "shelf_env \<Rightarrow> string \<Rightarrow> (device_ledger, ledger_error, nat \<times> device) op" where
  "resolve E sel s = bindE (device_index E sel) (\<lambda>i. reading (\<lambda>s. (i, dl_entries s ! i))) s"

text \<open>The last lines of every change of one record.\<close>

definition rewrite :: "shelf_env \<Rightarrow> raw_device codec \<Rightarrow> nat \<Rightarrow> device \<Rightarrow> (device_ledger, ledger_error, device) op" where
  "rewrite E C i d s = thenE (save_one E C d)
     (thenE (update (\<lambda>s. s\<lparr>dl_entries := (dl_entries s)[i := d]\<rparr>)) (ret d)) s"

definition add_device :: "shelf_env \<Rightarrow> raw_device codec \<Rightarrow> string \<Rightarrow> string option \<Rightarrow> string option
    \<Rightarrow> (device_ledger, ledger_error, device) op" where
  "add_device E C name node desc s = bindE (reading (\<lambda>s. (dl_entries s, sh_step s))) (\<lambda>(ds, k).
     if list_ex (\<lambda>d. dv_name d = name) ds then throw (LFile (NameTaken name))
     else case Option.bind node (by_node_id ds) of
       Some e \<Rightarrow> throw (LFile (NodeTaken (the node) (dv_name e)))
     | None \<Rightarrow> (let i = random_id E k in
         if list_ex (\<lambda>d. dv_id d = i) ds then throw (LFile (IdTaken i))
         else (let entry = \<lparr>dv_id = i, dv_name = name, node_id = node, description = desc,
                 dv_priority = DEFAULT_PRIORITY, created_at = sh_now E k, retired_at = None\<rparr> in
           thenE (save_one E C entry)
          (thenE (update (\<lambda>s. s\<lparr>dl_entries := sort_key dv_name (dl_entries s @ [entry])\<rparr>)) (ret entry))))) s"

definition set_node_id :: "shelf_env \<Rightarrow> raw_device codec \<Rightarrow> string \<Rightarrow> string \<Rightarrow> (device_ledger, ledger_error, device) op" where
  "set_node_id E C sel node s = bindE (resolve E sel) (\<lambda>(i, d). bindE (reading dl_entries) (\<lambda>ds.
     case by_node_id ds node of
       Some e \<Rightarrow> if dv_id e \<noteq> dv_id d then throw (LFile (NodeTaken node (dv_name e)))
         else if node_id d = Some node then ret d
         else rewrite E C i (d\<lparr>node_id := Some node\<rparr>)
     | None \<Rightarrow> if node_id d = Some node then ret d else rewrite E C i (d\<lparr>node_id := Some node\<rparr>))) s"

definition retire :: "shelf_env \<Rightarrow> raw_device codec \<Rightarrow> string \<Rightarrow> (device_ledger, ledger_error, device) op" where
  "retire E C sel s = bindE (resolve E sel) (\<lambda>(i, d).
     if retired_at d \<noteq> None then ret d
     else bindE (reading sh_step) (\<lambda>k. rewrite E C i (d\<lparr>retired_at := Some (sh_now E k)\<rparr>))) s"

definition set_priority :: "shelf_env \<Rightarrow> raw_device codec \<Rightarrow> string \<Rightarrow> u8 \<Rightarrow> (device_ledger, ledger_error, device) op" where
  "set_priority E C sel p s = bindE (resolve E sel) (\<lambda>(i, d).
     if is_retired d then throw (LFile (IsRetired (dv_name d)))
     else if dv_priority d = p then ret d
     else rewrite E C i (d\<lparr>dv_priority := p\<rparr>)) s"

definition purge :: "shelf_env \<Rightarrow> raw_device codec \<Rightarrow> string \<Rightarrow> (device_ledger, ledger_error, device) op" where
  "purge E C sel s = bindE (resolve E sel) (\<lambda>(i, d). thenE (remove_one E d)
     (thenE (update (\<lambda>s. s\<lparr>dl_entries := take i (dl_entries s) @ drop (Suc i) (dl_entries s)\<rparr>)) (ret d))) s"

section \<open>Migration\<close>

record old_device =
  od_id :: "grain_id option"
  od_name :: string
  od_description :: "string option"
  od_node_id :: "string option"
  od_created_at :: "nat option"
  od_retired_at :: "nat option"

text \<open>A report counts what was \<open>migrated\<close> and what was \<open>skipped\<close>.\<close>

definition migrate_one :: "shelf_env \<Rightarrow> raw_device codec \<Rightarrow> device list \<Rightarrow> nat \<times> nat \<Rightarrow> old_device
    \<Rightarrow> ('a shelf_scheme, ledger_error, nat \<times> nat) op" where
  "migrate_one E C existing report old s = bindE (reading sh_step) (\<lambda>k.
     let i = (case od_id old of Some i \<Rightarrow> i | None \<Rightarrow> random_id E k) in
     if get_device existing i \<noteq> None \<or> list_ex (\<lambda>d. dv_name d = od_name old) existing
     then ret (fst report, snd report + 1)
     else thenE (write_record E C \<lparr>dv_id = i, dv_name = od_name old, node_id = od_node_id old, description = od_description old,
            dv_priority = DEFAULT_PRIORITY, created_at = (case od_created_at old of Some t \<Rightarrow> t | None \<Rightarrow> sh_now E k),
            retired_at = od_retired_at old\<rparr>)
       (ret (fst report + 1, snd report))) s"

text \<open>\<open>file\<close> is what reading the old file gave; \<open>from_old\<close> is the TOML crate on its format.\<close>

definition migrate_single_file :: "shelf_env \<Rightarrow> raw_device codec \<Rightarrow> (string \<Rightarrow> old_device list option) \<Rightarrow> io_kind + string
    \<Rightarrow> ('a shelf_scheme, ledger_error, nat \<times> nat) op" where
  "migrate_single_file E C from_old file s = (case file of
     Inl k \<Rightarrow> if k = NotFound then ret (0, 0) else throw (LIo k)
   | Inr t \<Rightarrow> (case from_old t of
       None \<Rightarrow> throw (LFile BadOldFile)
     | Some olds \<Rightarrow> bindE (devices_open E C) (\<lambda>existing. folding (migrate_one E C existing) (0, 0) olds))) s"


section \<open>The record format\<close>

text \<open>What the TOML crate promises: what it writes under the header's comments, it reads back.\<close>

definition codec_ok :: "string \<Rightarrow> 'r codec \<Rightarrow> bool" where
  "codec_ok header C \<longleftrightarrow> (\<forall>r b. to_toml C r = Some b \<longrightarrow> from_toml C (header @ newline @ b) = Some r)"

lemma device_raw: "device_of now (dv_id d) (raw_of d) = d"
  by (cases d) (simp add: device_of_def raw_of_def)

interpretation dev: record_format "env_ok E \<and> codec_ok DEVICE_HEADER C" E "read_device C" "\<lambda>d. to_toml C (raw_of d)"
  DEVICE_HEADER dv_name dv_id for E C
proof
  show "read_device C now i t = Some d \<Longrightarrow> dv_id d = i" for now i t d
    by (auto simp: read_device_def device_of_def)
  show "\<lbrakk>env_ok E \<and> codec_ok DEVICE_HEADER C; to_toml C (raw_of d) = Some b\<rbrakk> \<Longrightarrow>
      read_device C now (dv_id d) (DEVICE_HEADER @ newline @ b) = Some d" for d b now
    by (simp add: read_device_def codec_ok_def device_raw)
  show "env_ok E \<and> codec_ok DEVICE_HEADER C \<Longrightarrow> env_ok E" by simp
qed

abbreviation device_book :: "shelf_env \<Rightarrow> raw_device codec \<Rightarrow> device list \<Rightarrow> (string, string) btmap \<Rightarrow> bool" where
  "device_book E C \<equiv> book E (read_device C) dv_name dv_id"

lemma save_one_run:
  fixes s t :: "'a shelf_scheme"
  assumes "save_one E C d s = (r, t)"
  shows "shelf.more t = shelf.more s \<and> (sh_made s \<longrightarrow> sh_made t) \<and> (sh_files t \<noteq> sh_files s \<or> r = Inr () \<longrightarrow> sh_made t) \<and>
    (\<forall>n. suffix toml n \<longrightarrow> n \<noteq> file_of E (dv_id d) \<longrightarrow> bt_get (sh_files t) n = bt_get (sh_files s) n) \<and>
    (if r = Inr () then \<exists>b. to_toml C (raw_of d) = Some b \<and> bt_get (sh_files t) (file_of E (dv_id d)) = Some (DEVICE_HEADER @ newline @ b)
     else bt_get (sh_files t) (file_of E (dv_id d)) = bt_get (sh_files s) (file_of E (dv_id d)))"
proof (cases "to_toml C (raw_of d)")
  case None
  with assms show ?thesis by (auto simp: save_one_def)
next
  case (Some b)
  with assms obtain q where w: "write_atomic E (file_of E (dv_id d)) DEVICE_HEADER b s = (q, t)" "r = map_sum LIo id q"
    by (auto simp: save_one_def io_in_run)
  have "\<not> suffix toml (tmp_name E (file_of E (dv_id d)) (sh_next s))" by (rule tmp_not_toml)
  moreover have "r = Inr () \<longleftrightarrow> q = Inr ()" using w(2) by (cases q) auto
  ultimately show ?thesis using write_atomic_run [OF w(1)] Some by auto
qed

section \<open>Every operation keeps ledger and directory together\<close>

definition ledger_ok :: "shelf_env \<Rightarrow> raw_device codec \<Rightarrow> device_ledger \<Rightarrow> bool" where
  "ledger_ok E C s \<longleftrightarrow> device_book E C (dl_entries s) (sh_files s) \<and> (sh_made s \<or> sh_files s = bt_empty)"

lemma entries_more: "shelf.more t = shelf.more s \<Longrightarrow> dl_entries t = dl_entries s" for s t :: device_ledger
  by (cases s; cases t) simp

lemma ledger_ok_same:
  "\<lbrakk>ledger_ok E C s; sh_made s \<longrightarrow> sh_made t; sh_files t \<noteq> sh_files s \<longrightarrow> sh_made t; dl_entries t = dl_entries s;
    \<forall>n. suffix toml n \<longrightarrow> bt_get (sh_files t) n = bt_get (sh_files s) n\<rbrakk> \<Longrightarrow> ledger_ok E C t"
  by (auto simp: ledger_ok_def intro: dev.book_same)

lemma set_update_nth: "\<lbrakk>distinct (map f xs); i < length xs; f y = f (xs ! i)\<rbrakk> \<Longrightarrow> set (xs[i := y]) = insert y {x \<in> set xs. f x \<noteq> f y}"
  by (auto simp: set_conv_nth nth_list_update distinct_conv_nth)

lemma map_update_same: "\<lbrakk>i < length xs; f y = f (xs ! i)\<rbrakk> \<Longrightarrow> map f (xs[i := y]) = map f xs"
  by (simp add: map_update list_update_same_conv)

lemma save_failed:
  assumes "ledger_ok E C s" "save_one E C d s = (Inl e, t)"
  shows "ledger_ok E C t \<and> dl_entries t = dl_entries s"
proof -
  note S = save_one_run [OF assms(2)]
  have "shelf.more t = shelf.more s" using S by simp
  note more = entries_more [OF this]
  moreover have "ledger_ok E C t"
  proof (rule ledger_ok_same [OF assms(1)])
    show "\<forall>n. suffix toml n \<longrightarrow> bt_get (sh_files t) n = bt_get (sh_files s) n" using S by auto
  qed (use S more in auto)
  ultimately show ?thesis by simp
qed

text \<open>A record saved, and what the memory becomes with it.\<close>

lemma save_done:
  assumes "env_ok E" "codec_ok DEVICE_HEADER C" "ledger_ok E C s" "save_one E C d s = (Inr (), t)"
    and "set ds = insert d {e \<in> set (dl_entries s). dv_id e \<noteq> dv_id d}"
    and "sorted (map dv_name ds)" "distinct (map dv_name ds)" "distinct (map dv_id ds)"
  shows "ledger_ok E C (t\<lparr>dl_entries := ds\<rparr>) \<and> dl_entries t = dl_entries s"
proof -
  note S = save_one_run [OF assms(4)]
  from S obtain b where b: "to_toml C (raw_of d) = Some b"
    "bt_get (sh_files t) (file_of E (dv_id d)) = Some (DEVICE_HEADER @ newline @ b)" by auto
  have other: "\<forall>n. suffix toml n \<longrightarrow> n \<noteq> file_of E (dv_id d) \<longrightarrow> bt_get (sh_files t) n = bt_get (sh_files s) n" using S by simp
  have good: "env_ok E \<and> codec_ok DEVICE_HEADER C" using assms(1,2) by simp
  have book: "device_book E C (dl_entries s) (sh_files s)" using assms(3) by (simp add: ledger_ok_def)
  have "device_book E C ds (sh_files t)"
    by (rule dev.book_put [OF good book b other assms(5-8)])
  moreover have "sh_made t \<or> sh_files t = bt_empty" using S assms(3) by (auto simp: ledger_ok_def)
  moreover have "shelf.more t = shelf.more s" using S by simp
  ultimately show ?thesis by (simp add: ledger_ok_def entries_more [OF \<open>shelf.more t = shelf.more s\<close>])
qed

lemma rewrite_run:
  assumes ok: "env_ok E" "codec_ok DEVICE_HEADER C" "ledger_ok E C s"
    and i: "i < length (dl_entries s)" "dv_id d = dv_id (dl_entries s ! i)" "dv_name d = dv_name (dl_entries s ! i)"
    and run: "rewrite E C i d s = (r, t)"
  shows "ledger_ok E C t \<and> dl_entries t = (if \<exists>x. r = Inr x then (dl_entries s)[i := d] else dl_entries s)"
proof -
  obtain q u where sv: "save_one E C d s = (q, u)" by force
  have dis: "distinct (map dv_id (dl_entries s))" "sorted (map dv_name (dl_entries s))" "distinct (map dv_name (dl_entries s))"
    using ok(3) by (simp_all add: ledger_ok_def book_def)
  show ?thesis
  proof (cases q)
    case (Inl e)
    with sv run have "t = u" "r = Inl e" by (simp_all add: rewrite_def runs)
    with save_failed [OF ok(3)] sv Inl show ?thesis by auto
  next
    case (Inr x)
    with sv have sv: "save_one E C d s = (Inr (), u)" by simp
    have "ledger_ok E C (u\<lparr>dl_entries := (dl_entries s)[i := d]\<rparr>) \<and> dl_entries u = dl_entries s"
    proof (rule save_done [OF ok sv set_update_nth [OF dis(1) i(1,2)]])
      show "sorted (map dv_name ((dl_entries s)[i := d]))" "distinct (map dv_name ((dl_entries s)[i := d]))"
        unfolding map_update_same [of i "dl_entries s" dv_name d, OF i(1,3)] by (rule dis)+
      show "distinct (map dv_id ((dl_entries s)[i := d]))"
        unfolding map_update_same [of i "dl_entries s" dv_id d, OF i(1,2)] by (rule dis)
    qed
    moreover from this sv run have "t = u\<lparr>dl_entries := (dl_entries s)[i := d]\<rparr>" "r = Inr d" by (simp_all add: rewrite_def runs)
    ultimately show ?thesis by simp
  qed
qed

section \<open>Sequences of operations\<close>

datatype ledger_change =
    Add string "string option" "string option"
  | SetNode string string
  | Retire string
  | SetPriority string u8
  | Purge string

fun ledger_op :: "shelf_env \<Rightarrow> raw_device codec \<Rightarrow> ledger_change \<Rightarrow> (device_ledger, ledger_error, device) op" where
  "ledger_op E C (Add name node desc) = add_device E C name node desc"
| "ledger_op E C (SetNode sel node) = set_node_id E C sel node"
| "ledger_op E C (Retire sel) = retire E C sel"
| "ledger_op E C (SetPriority sel p) = set_priority E C sel p"
| "ledger_op E C (Purge sel) = purge E C sel"

fun ledger_run :: "shelf_env \<Rightarrow> raw_device codec \<Rightarrow> ledger_change list \<Rightarrow> device_ledger \<Rightarrow> device_ledger" where
  "ledger_run E C [] s = s"
| "ledger_run E C (p # ps) s = ledger_run E C ps (snd (ledger_op E C p s))"

text \<open>What no operation but a purge takes from a record.\<close>

definition record_kept :: "device \<Rightarrow> device \<Rightarrow> bool" where
  "record_kept d e \<longleftrightarrow> dv_id e = dv_id d \<and> dv_name e = dv_name d \<and> description e = description d \<and> created_at e = created_at d \<and>
     (node_id d \<noteq> None \<longrightarrow> node_id e \<noteq> None) \<and>
     (is_retired d \<longrightarrow> retired_at e = retired_at d \<and> dv_priority e = dv_priority d)"

lemma record_kept_refl [simp]: "record_kept d d"
  by (simp add: record_kept_def)

lemma record_kept_trans: "\<lbrakk>record_kept a b; record_kept b c\<rbrakk> \<Longrightarrow> record_kept a c"
  by (auto simp: record_kept_def is_retired_def)

definition unique_nodes :: "device list \<Rightarrow> bool" where
  "unique_nodes ds \<longleftrightarrow> (\<forall>d \<in> set ds. \<forall>e \<in> set ds. node_id d \<noteq> None \<longrightarrow> node_id e = node_id d \<longrightarrow> dv_id e = dv_id d)"

definition kept :: "device_ledger \<Rightarrow> device_ledger \<Rightarrow> bool" where
  "kept s t \<longleftrightarrow> (\<forall>d \<in> set (dl_entries s). \<exists>e \<in> set (dl_entries t). record_kept d e)"

definition op_step :: "shelf_env \<Rightarrow> raw_device codec \<Rightarrow> device_ledger \<Rightarrow> device_ledger \<Rightarrow> bool" where
  "op_step E C s t \<longleftrightarrow> ledger_ok E C t \<and> (unique_nodes (dl_entries s) \<longrightarrow> unique_nodes (dl_entries t)) \<and> kept s t"

lemma op_step_same: "\<lbrakk>ledger_ok E C t; dl_entries t = dl_entries s\<rbrakk> \<Longrightarrow> op_step E C s t"
  by (auto simp: op_step_def kept_def intro: record_kept_refl)

lemma resolve_run: "resolve E sel s = (r, t) \<Longrightarrow>
    t = s \<and> (\<forall>i d. r = Inr (i, d) \<longrightarrow> i < length (dl_entries s) \<and> d = dl_entries s ! i)"
  by (auto simp: resolve_def device_index_def bindE_def dest!: index_of_Some split: option.splits prod.splits sum.splits)

text \<open>What follows the selector, from its result.\<close>

lemma resolved_step:
  assumes "ledger_ok E C s" "bindE (resolve E sel) (\<lambda>(i, d). f i d) s = (r, t)"
    and "\<And>i. \<lbrakk>i < length (dl_entries s); f i (dl_entries s ! i) s = (r, t)\<rbrakk> \<Longrightarrow> P s t" "P s s"
  shows "P s t"
proof -
  obtain q u where res: "resolve E sel s = (q, u)" by force
  note R = resolve_run [OF res]
  show ?thesis
  proof (cases q)
    case (Inl e)
    with assms(2,4) res R show ?thesis by (simp add: runs)
  next
    case (Inr x)
    obtain i d where "x = (i, d)" by force
    with Inr assms(2) res R have "i < length (dl_entries s)" "f i (dl_entries s ! i) s = (r, t)" by (simp_all add: runs)
    then show ?thesis by (rule assms(3))
  qed
qed

lemma rewrite_step:
  assumes ok: "env_ok E" "codec_ok DEVICE_HEADER C" "ledger_ok E C s" and i: "i < length (dl_entries s)"
    and d: "record_kept (dl_entries s ! i) d" and run: "rewrite E C i d s = (r, t)"
    and node: "unique_nodes (dl_entries s) \<Longrightarrow>
      node_id d = node_id (dl_entries s ! i) \<or> (\<forall>e \<in> set (dl_entries s). node_id e = node_id d \<longrightarrow> dv_id e = dv_id d)"
  shows "op_step E C s t"
proof -
  let ?ds = "dl_entries s"
  have same: "dv_id d = dv_id (?ds ! i)" "dv_name d = dv_name (?ds ! i)" using d by (simp_all add: record_kept_def)
  note R = rewrite_run [OF ok i same run]
  have dis: "distinct (map dv_id ?ds)" using ok(3) by (simp add: ledger_ok_def book_def)
  have set: "set (?ds[i := d]) = insert d {e \<in> set ?ds. dv_id e \<noteq> dv_id d}" by (rule set_update_nth [OF dis i same(1)])
  have here: "?ds ! i \<in> set ?ds" using i by simp
  show ?thesis
  proof (cases "\<exists>x. r = Inr x")
    case False
    with R show ?thesis by (simp add: op_step_same)
  next
    case True
    with R have t: "dl_entries t = ?ds[i := d]" "ledger_ok E C t" by simp_all
    have "\<exists>x \<in> set (?ds[i := d]). record_kept e x" if "e \<in> set ?ds" for e
    proof (cases "dv_id e = dv_id d")
      case True
      with same that here dis have "e = ?ds ! i" by (auto simp: distinct_map inj_on_def)
      with d show ?thesis unfolding set by auto
    next
      case False
      with that show ?thesis unfolding set by auto
    qed
    moreover have "unique_nodes (?ds[i := d])" if "unique_nodes ?ds"
      using that node [OF that] here same unfolding unique_nodes_def set by fastforce
    ultimately show ?thesis using t by (simp add: op_step_def kept_def)
  qed
qed

lemma find_None: "find P xs = None \<longleftrightarrow> (\<forall>x \<in> set xs. \<not> P x)"
  by (auto simp: find_None_iff)

lemma find_SomeD: "find P xs = Some x \<Longrightarrow> x \<in> set xs \<and> P x"
  by (auto simp: find_Some_iff)


lemma retire_step:
  assumes "env_ok E" "codec_ok DEVICE_HEADER C" "ledger_ok E C s" "retire E C sel s = (r, t)"
  shows "op_step E C s t"
proof (rule resolved_step [OF assms(3) assms(4) [unfolded retire_def]])
  fix i
  let ?d = "dl_entries s ! i"
  assume i: "i < length (dl_entries s)" and "(if retired_at ?d \<noteq> None then ret ?d
     else bindE (reading sh_step) (\<lambda>k. rewrite E C i (?d\<lparr>retired_at := Some (sh_now E k)\<rparr>))) s = (r, t)"
  then consider "t = s" | "retired_at ?d = None" "rewrite E C i (?d\<lparr>retired_at := Some (sh_now E (sh_step s))\<rparr>) s = (r, t)"
    by (auto simp: bindE_def split: if_splits)
  then show "op_step E C s t"
  proof cases
    case 2
    show ?thesis by (rule rewrite_step [OF assms(1-3) i _ 2(2)]) (simp_all add: record_kept_def is_retired_def 2(1))
  qed (simp add: op_step_same assms(3))
qed (simp add: op_step_same assms(3))

lemma set_priority_step:
  assumes "env_ok E" "codec_ok DEVICE_HEADER C" "ledger_ok E C s" "set_priority E C sel p s = (r, t)"
  shows "op_step E C s t"
proof (rule resolved_step [OF assms(3) assms(4) [unfolded set_priority_def]])
  fix i
  let ?d = "dl_entries s ! i"
  assume i: "i < length (dl_entries s)" and "(if is_retired ?d then throw (LFile (IsRetired (dv_name ?d)))
     else if dv_priority ?d = p then ret ?d else rewrite E C i (?d\<lparr>dv_priority := p\<rparr>)) s = (r, t)"
  then consider "t = s" | "\<not> is_retired ?d" "rewrite E C i (?d\<lparr>dv_priority := p\<rparr>) s = (r, t)"
    by (auto split: if_splits)
  then show "op_step E C s t"
  proof cases
    case 2
    show ?thesis by (rule rewrite_step [OF assms(1-3) i _ 2(2)]) (use 2(1) in \<open>simp_all add: record_kept_def\<close>)
  qed (simp add: op_step_same assms(3))
qed (simp add: op_step_same assms(3))

lemma set_node_step:
  assumes "env_ok E" "codec_ok DEVICE_HEADER C" "ledger_ok E C s" "set_node_id E C sel node s = (r, t)"
  shows "op_step E C s t"
proof (rule resolved_step [OF assms(3) assms(4) [unfolded set_node_id_def]])
  fix i
  let ?d = "dl_entries s ! i"
  assume i: "i < length (dl_entries s)" and run: "bindE (reading dl_entries) (\<lambda>ds. case by_node_id ds node of
       Some e \<Rightarrow> if dv_id e \<noteq> dv_id ?d then throw (LFile (NodeTaken node (dv_name e)))
         else if node_id ?d = Some node then ret ?d else rewrite E C i (?d\<lparr>node_id := Some node\<rparr>)
     | None \<Rightarrow> if node_id ?d = Some node then ret ?d else rewrite E C i (?d\<lparr>node_id := Some node\<rparr>)) s = (r, t)"
  have free: "\<forall>x \<in> set (dl_entries s). node_id x = Some node \<longrightarrow> dv_id x = dv_id e"
    if "by_node_id (dl_entries s) node = Some e" "unique_nodes (dl_entries s)" for e
  proof (intro ballI impI)
    fix x assume x: "x \<in> set (dl_entries s)" "node_id x = Some node"
    have "e \<in> set (dl_entries s)" "node_id e = Some node" using find_SomeD [OF that(1) [unfolded by_node_id_def]] by simp_all
    then have "e \<in> set (dl_entries s)" "node_id e \<noteq> None" "node_id x = node_id e" using x(2) by simp_all
    with that(2) x(1) show "dv_id x = dv_id e" unfolding unique_nodes_def by blast
  qed
  have free': "\<forall>x \<in> set (dl_entries s). node_id x \<noteq> Some node" if "by_node_id (dl_entries s) node = None"
    using that by (simp add: by_node_id_def find_None)
  have "t = s \<or> rewrite E C i (?d\<lparr>node_id := Some node\<rparr>) s = (r, t) \<and>
      (unique_nodes (dl_entries s) \<longrightarrow> (\<forall>x \<in> set (dl_entries s). node_id x = Some node \<longrightarrow> dv_id x = dv_id ?d))"
  proof (cases "by_node_id (dl_entries s) node")
    case None
    with run have "t = s \<or> rewrite E C i (?d\<lparr>node_id := Some node\<rparr>) s = (r, t)" by (simp add: bindE_def split: if_splits)
    with free' [OF None] show ?thesis by blast
  next
    case (Some e)
    with run have "t = s \<or> dv_id e = dv_id ?d \<and> rewrite E C i (?d\<lparr>node_id := Some node\<rparr>) s = (r, t)"
      by (simp add: bindE_def split: if_splits)
    with free [OF Some] show ?thesis by (metis (no_types))
  qed
  then show "op_step E C s t"
  proof (elim disjE conjE)
    assume 2: "rewrite E C i (?d\<lparr>node_id := Some node\<rparr>) s = (r, t)"
      "unique_nodes (dl_entries s) \<longrightarrow> (\<forall>x \<in> set (dl_entries s). node_id x = Some node \<longrightarrow> dv_id x = dv_id ?d)"
    show ?thesis by (rule rewrite_step [OF assms(1-3) i _ 2(1)]) (use 2(2) in \<open>simp_all add: record_kept_def is_retired_def\<close>)
  qed (simp add: op_step_same assms(3))
qed (simp add: op_step_same assms(3))

lemma add_step:
  assumes "env_ok E" "codec_ok DEVICE_HEADER C" "ledger_ok E C s" "add_device E C name node desc s = (r, t)"
  shows "op_step E C s t"
proof -
  let ?ds = "dl_entries s" and ?i = "random_id E (sh_step s)"
  let ?d = "\<lparr>dv_id = ?i, dv_name = name, node_id = node, description = desc, dv_priority = DEFAULT_PRIORITY,
    created_at = sh_now E (sh_step s), retired_at = None\<rparr>"
  let ?save = "thenE (save_one E C ?d) (thenE (update (\<lambda>s. s\<lparr>dl_entries := sort_key dv_name (dl_entries s @ [?d])\<rparr>)) (ret ?d)) s"
  from assms(4) have "t = s \<or> ?save = (r, t) \<and> (\<forall>e \<in> set ?ds. dv_name e \<noteq> name) \<and> (\<forall>e \<in> set ?ds. dv_id e \<noteq> ?i) \<and>
      Option.bind node (by_node_id ?ds) = None"
    by (auto simp: add_device_def bindE_def Let_def list_ex_iff split: if_splits option.splits)
  then show ?thesis
  proof (elim disjE conjE)
    assume run: "?save = (r, t)" and new: "\<forall>e \<in> set ?ds. dv_name e \<noteq> name" "\<forall>e \<in> set ?ds. dv_id e \<noteq> ?i"
      and node: "Option.bind node (by_node_id ?ds) = None"
    obtain q u where sv: "save_one E C ?d s = (q, u)" by force
    show ?thesis
    proof (cases q)
      case (Inl e)
      with sv run have "t = u" by (simp add: runs)
      with save_failed [OF assms(3)] sv Inl show ?thesis by (simp add: op_step_same)
    next
      case (Inr x)
      with sv have sv: "save_one E C ?d s = (Inr (), u)" by simp
      let ?ds' = "sort_key dv_name (?ds @ [?d])"
      have dis: "distinct (map dv_id ?ds)" "distinct (map dv_name ?ds)" using assms(3) by (simp_all add: ledger_ok_def book_def)
      have S: "ledger_ok E C (u\<lparr>dl_entries := ?ds'\<rparr>) \<and> dl_entries u = ?ds"
        by (rule save_done [OF assms(1-3) sv]) (use new dis in \<open>auto simp: distinct_map\<close>)
      with sv run have t: "t = u\<lparr>dl_entries := ?ds'\<rparr>" by (simp add: runs)
      have free: "node_id e = node \<longrightarrow> node = None" if "e \<in> set ?ds" for e
        using node that by (cases node) (auto simp: by_node_id_def find_None)
      have "unique_nodes ?ds'" if "unique_nodes ?ds"
        unfolding unique_nodes_def set_sort set_append
      proof (intro ballI impI)
        fix d e assume "d \<in> set ?ds \<union> set [?d]" "e \<in> set ?ds \<union> set [?d]" "node_id d \<noteq> None" "node_id e = node_id d"
        with that free show "dv_id e = dv_id d" by (auto simp: unique_nodes_def)
      qed
      then show ?thesis using S by (auto simp: op_step_def kept_def t intro: record_kept_refl)
    qed
  qed (simp add: op_step_same assms(3))
qed

lemma remove_one_run:
  fixes s t :: device_ledger
  assumes "remove_one E d s = (r, t)"
  shows "dl_entries t = dl_entries s \<and> sh_made t = sh_made s \<and>
    (if r = Inr () then sh_files t = bt_remove (file_of E (dv_id d)) (sh_files s) else sh_files t = sh_files s)"
  using assms
  by (auto simp: remove_one_def remove_file_def bindE_def attempt_def thenE_def call_def bt_eq_iff split: if_splits option.splits)

lemma purge_step:
  assumes "env_ok E" "codec_ok DEVICE_HEADER C" "ledger_ok E C s" "purge E C sel s = (r, t)"
  shows "ledger_ok E C t \<and> set (dl_entries t) \<subseteq> set (dl_entries s)"
proof (rule resolved_step [OF assms(3) assms(4) [unfolded purge_def]])
  fix i
  let ?ds = "dl_entries s"
  let ?d = "?ds ! i" and ?ds' = "take i ?ds @ drop (Suc i) ?ds"
  assume i: "i < length ?ds" and run: "thenE (remove_one E ?d)
     (thenE (update (\<lambda>s. s\<lparr>dl_entries := take i (dl_entries s) @ drop (Suc i) (dl_entries s)\<rparr>)) (ret ?d)) s = (r, t)"
  obtain q u where rm: "remove_one E ?d s = (q, u)" by force
  note R = remove_one_run [OF rm]
  obtain as d bs where ds: "?ds = as @ d # bs" "?d = d" "?ds' = as @ bs"
    using that [of "take i ?ds" ?d "drop (Suc i) ?ds"] id_take_nth_drop [OF i] by blast
  show "ledger_ok E C t \<and> set (dl_entries t) \<subseteq> set ?ds"
  proof (cases q)
    case (Inl e)
    with rm run have "t = u" by (simp add: runs)
    with R Inl assms(3) show ?thesis by (auto simp: ledger_ok_def)
  next
    case (Inr x)
    with rm run R have t: "t = u\<lparr>dl_entries := ?ds'\<rparr>" by (simp add: runs)
    have good: "env_ok E \<and> codec_ok DEVICE_HEADER C" using assms(1,2) by simp
    have book: "device_book E C ?ds (sh_files s)" using assms(3) by (simp add: ledger_ok_def)
    have dis: "sorted (map dv_name ?ds)" "distinct (map dv_name ?ds)" "distinct (map dv_id ?ds)" using book by (simp_all add: book_def)
    have cut: "sorted (map dv_name ?ds') \<and> distinct (map dv_name ?ds') \<and> distinct (map dv_id ?ds') \<and>
        set ?ds' = {e \<in> set ?ds. dv_id e \<noteq> dv_id ?d}"
      using dis unfolding ds(2,3) unfolding ds(1) by (auto simp: sorted_append image_iff)
    have "device_book E C ?ds' (sh_files u)"
      by (rule dev.book_drop [OF good book, of _ "dv_id ?d"]) (use cut R Inr in simp_all)
    moreover have "sh_made u \<or> sh_files u = bt_empty" using R Inr assms(3) by (auto simp: ledger_ok_def bt_eq_iff)
    ultimately show ?thesis using cut by (simp add: t ledger_ok_def)
  qed
qed (simp add: assms(3))


lemma ledger_op_step:
  assumes "env_ok E" "codec_ok DEVICE_HEADER C" "ledger_ok E C s"
  shows "ledger_ok E C (snd (ledger_op E C p s)) \<and>
    (unique_nodes (dl_entries s) \<longrightarrow> unique_nodes (dl_entries (snd (ledger_op E C p s)))) \<and>
    ((\<forall>sel. p \<noteq> Purge sel) \<longrightarrow> kept s (snd (ledger_op E C p s)))"
proof -
  obtain r t where run: "ledger_op E C p s = (r, t)" by force
  show ?thesis
  proof (cases "\<exists>sel. p = Purge sel")
    case True
    then obtain sel where "p = Purge sel" by blast
    with run have "purge E C sel s = (r, t)" by simp
    from purge_step [OF assms this] have "ledger_ok E C t" "set (dl_entries t) \<subseteq> set (dl_entries s)" by simp_all
    with True run show ?thesis by (auto simp: unique_nodes_def)
  next
    case False
    have "op_step E C s t"
    proof (cases p)
      case (Add name node desc)
      with run add_step [OF assms] show ?thesis by simp
    next
      case (SetNode sel node)
      with run set_node_step [OF assms] show ?thesis by simp
    next
      case (Retire sel)
      with run retire_step [OF assms] show ?thesis by simp
    next
      case (SetPriority sel pr)
      with run set_priority_step [OF assms] show ?thesis by simp
    qed (use False in simp)
    with run show ?thesis by (simp add: op_step_def)
  qed
qed

lemma kept_trans: "\<lbrakk>kept s t; kept t u\<rbrakk> \<Longrightarrow> kept s u"
  unfolding kept_def by (meson record_kept_trans)

lemma ledger_run_ok:
  "\<lbrakk>env_ok E; codec_ok DEVICE_HEADER C; ledger_ok E C s\<rbrakk> \<Longrightarrow>
   ledger_ok E C (ledger_run E C ps s) \<and>
   (unique_nodes (dl_entries s) \<longrightarrow> unique_nodes (dl_entries (ledger_run E C ps s))) \<and>
   ((\<forall>sel. Purge sel \<notin> set ps) \<longrightarrow> kept s (ledger_run E C ps s))"
proof (induction ps arbitrary: s)
  case Nil
  then show ?case by (auto simp: kept_def intro: record_kept_refl)
next
  case (Cons p ps)
  note one = ledger_op_step [OF Cons.prems, of p]
  note more = Cons.IH [OF Cons.prems(1,2) conjunct1 [OF one]]
  show ?case unfolding ledger_run.simps
  proof (intro conjI impI)
    assume "\<forall>sel. Purge sel \<notin> set (p # ps)"
    with one more have "kept s (snd (ledger_op E C p s))" "kept (snd (ledger_op E C p s)) (ledger_run E C ps (snd (ledger_op E C p s)))"
      by auto
    then show "kept s (ledger_run E C ps (snd (ledger_op E C p s)))" by (rule kept_trans)
  qed (use one more in simp_all)
qed

text \<open>A \<open>Devices\<close> that \<open>open\<close> has returned.\<close>

definition opened :: "shelf \<Rightarrow> device list \<Rightarrow> device_ledger" where
  "opened u ds = shelf.extend u (device_ledger.fields ds)"

lemma opened_simps [simp]: "dl_entries (opened u ds) = ds" "sh_files (opened u ds) = sh_files u" "sh_made (opened u ds) = sh_made u"
  "sh_step (opened u ds) = sh_step u"
  by (simp_all add: opened_def shelf.defs device_ledger.defs)

lemma opened_ok:
  assumes "env_ok E" "codec_ok DEVICE_HEADER C" "devices_open E C s = (Inr ds, u)" "stamped (read_device C) (sh_files s)"
    and "sh_made s \<or> sh_files s = bt_empty"
  shows "ledger_ok E C (opened u ds)"
proof -
  have good: "env_ok E \<and> codec_ok DEVICE_HEADER C" using assms(1,2) by simp
  have run: "open_records E (read_device C) dv_name s = (Inr ds, u)" using assms(3) by (simp add: devices_open_def)
  have "same_shelf s u" by (rule keepsE [OF same_open run])
  with dev.open_book [OF good run assms(4,5)] assms(5) show ?thesis by (simp add: ledger_ok_def same_shelf_def)
qed

definition calm :: "shelf_env \<Rightarrow> shelf_env" where
  "calm E = E\<lparr>sh_fails := \<lambda>_. False\<rparr>"

lemma calm_book: "device_book (calm E) C ds fs = device_book E C ds fs"
  by (simp add: book_def calm_def file_of_def)

lemma calm_ok: "env_ok (calm E) = env_ok E"
  by (simp add: env_ok_def calm_def)

lemma ledger_reopens:
  assumes "env_ok E" "codec_ok DEVICE_HEADER C" "device_book E C ds (sh_files s)" "sh_made s \<or> sh_files s = bt_empty"
  shows "fst (devices_open (calm E) C s) = Inr ds"
proof -
  have good: "env_ok (calm E) \<and> codec_ok DEVICE_HEADER C" using assms(1,2) by (simp add: calm_ok)
  have "device_book (calm E) C ds (sh_files s)" using assms(3) by (simp add: calm_book)
  moreover have "sh_made s \<or> ds = []" using assms(3,4) by (auto simp: book_def)
  ultimately show ?thesis unfolding devices_open_def
    by (intro dev.book_reopens [OF good]) (simp_all add: calm_def)
qed

section \<open>Migration with nothing failing\<close>

lemma calm_call: "\<forall>k. \<not> sh_fails E k \<Longrightarrow> call E s = (Inr (), s\<lparr>sh_step := sh_step s + 1\<rparr>)"
  by (simp add: call_def)

lemma calm_append:
  "\<forall>k. \<not> sh_fails E k \<Longrightarrow> \<exists>t. append_file E n x s = (Inr (), t) \<and> sh_step s < sh_step t"
  by (simp add: append_file_def Let_def bindE_def attempt_def calm_call put_text_def)

lemma calm_save:
  fixes s :: "'a shelf_scheme"
  assumes "\<forall>k. \<not> sh_fails E k" "to_toml C (raw_of d) = Some b"
  shows "\<exists>t. save_one E C d s = (Inr (), t) \<and> sh_step s < sh_step t"
proof -
  let ?n = "file_of E (dv_id d)"
  define tmp where "tmp = tmp_name E ?n (sh_next s)"
  define u0 where "u0 = s\<lparr>sh_made := True, sh_next := sh_next s + 1, sh_step := sh_step s + 2, sh_files := bt_insert tmp '''' (sh_files s)\<rparr>"

  obtain u1 where u1: "append_file E tmp DEVICE_HEADER u0 = (Inr (), u1)" "sh_step u0 < sh_step u1"
    using calm_append [OF assms(1)] by blast
  obtain u2 where u2: "append_file E tmp newline u1 = (Inr (), u2)" "sh_step u1 < sh_step u2"
    using calm_append [OF assms(1)] by blast
  obtain u3 where u3: "append_file E tmp b u2 = (Inr (), u3)" "sh_step u2 < sh_step u3"
    using calm_append [OF assms(1)] by blast
  from append_ok [OF u3(1)] obtain x where x: "bt_get (sh_files u3) tmp = Some x" by blast
  define u4 where "u4 = u3\<lparr>sh_step := sh_step u3 + 2, sh_files := bt_insert ?n x (bt_remove tmp (sh_files u3))\<rparr>"
  have "rename_file E tmp ?n (u3\<lparr>sh_step := sh_step u3 + 1\<rparr>) = (Inr (), u4)"
    by (simp add: rename_file_def thenE_def bindE_def calm_call [OF assms(1)] x u4_def)
  then have "write_via E tmp ?n [DEVICE_HEADER, newline, b] (s\<lparr>sh_step := sh_step s + 1, sh_made := True, sh_next := sh_next s + 1\<rparr>) = (Inr (), u4)"
    using u1(1) u2(1) u3(1)
    by (simp add: write_via_def create_file_def put_text_def thenE_def bindE_def attempt_def calm_call [OF assms(1)] u0_def)
  then have "write_atomic E ?n DEVICE_HEADER b s = (Inr (), u4)"
    by (simp add: write_atomic_def make_dir_def thenE_def bindE_def fetch_next_def calm_call [OF assms(1)] tmp_def)
  moreover have "sh_step s < sh_step u4" using u1(2) u2(2) u3(2) by (simp add: u0_def u4_def)
  ultimately show ?thesis using assms(2) by (auto simp: save_one_def)
qed

text \<open>Which old entries the ledger has already, and what becomes of the others.\<close>

definition present :: "device list \<Rightarrow> old_device \<Rightarrow> bool" where
  "present ds old \<longleftrightarrow> (\<exists>d \<in> set ds. dv_name d = od_name old \<or> od_id old = Some (dv_id d))"

definition migrated_as :: "old_device \<Rightarrow> device \<Rightarrow> bool" where
  "migrated_as old d \<longleftrightarrow> dv_name d = od_name old \<and> node_id d = od_node_id old \<and> description d = od_description old \<and>
     retired_at d = od_retired_at old \<and> dv_priority d = DEFAULT_PRIORITY \<and>
     (\<forall>i. od_id old = Some i \<longrightarrow> dv_id d = i) \<and> (\<forall>c. od_created_at old = Some c \<longrightarrow> created_at d = c)"

text \<open>The ids of the old entries, none twice, and the identities still to be made, none of them used.\<close>

definition ids_free :: "shelf_env \<Rightarrow> nat \<Rightarrow> device list \<Rightarrow> old_device list \<Rightarrow> bool" where
  "ids_free E k ds olds \<longleftrightarrow> inj (random_id E) \<and> distinct (map od_name olds) \<and>
     (\<forall>j \<ge> k. random_id E j \<notin> dv_id ` set ds \<and> Some (random_id E j) \<notin> od_id ` set olds) \<and>
     (\<forall>i j. i < j \<longrightarrow> j < length olds \<longrightarrow> od_id (olds ! i) \<noteq> None \<longrightarrow> od_id (olds ! i) \<noteq> od_id (olds ! j))"

lemma ids_free_Cons:
  "ids_free E k ds (old # olds) \<Longrightarrow> k \<le> k' \<Longrightarrow> ids_free E k' ds olds \<and> od_name old \<notin> od_name ` set olds \<and>
     (od_id old \<noteq> None \<longrightarrow> od_id old \<notin> od_id ` set olds)"
proof -
  assume f: "ids_free E k ds (old # olds)" and "k \<le> k'"
  have pair: "od_id ((old # olds) ! i) \<noteq> od_id ((old # olds) ! j)"
    if "i < j" "j < length (old # olds)" "od_id ((old # olds) ! i) \<noteq> None" for i j
    using f that unfolding ids_free_def by blast
  have "od_id (olds ! i) \<noteq> od_id (olds ! j)" if "i < j" "j < length olds" "od_id (olds ! i) \<noteq> None" for i j
    using pair [of "Suc i" "Suc j"] that by simp
  moreover have "od_id old \<notin> od_id ` set olds" if "od_id old \<noteq> None"
  proof
    assume "od_id old \<in> od_id ` set olds"
    then obtain j where "j < length olds" "od_id (olds ! j) = od_id old" by (auto simp: in_set_conv_nth)
    with pair [of 0 "Suc j"] that show False by simp
  qed
  ultimately show ?thesis using f \<open>k \<le> k'\<close> by (auto simp: ids_free_def)
qed

lemma image_free: "y \<notin> f ` A \<longleftrightarrow> (\<forall>x \<in> A. f x \<noteq> y)"
  by blast

definition new_device :: "shelf_env \<Rightarrow> nat \<Rightarrow> old_device \<Rightarrow> device" where
  "new_device E k old = \<lparr>dv_id = (case od_id old of Some i \<Rightarrow> i | None \<Rightarrow> random_id E k), dv_name = od_name old,
     node_id = od_node_id old, description = od_description old, dv_priority = DEFAULT_PRIORITY,
     created_at = (case od_created_at old of Some t \<Rightarrow> t | None \<Rightarrow> sh_now E k), retired_at = od_retired_at old\<rparr>"

lemma new_device_as: "migrated_as old (new_device E k old)"
  by (auto simp: migrated_as_def new_device_def split: option.split)

lemma migrate_one_eq:
  assumes "ids_free E (sh_step s) ds (old # olds)"
  shows "migrate_one E C ds rep old s = (if present ds old then (Inr (fst rep, snd rep + 1), s)
     else thenE (save_one E C (new_device E (sh_step s) old)) (ret (fst rep + 1, snd rep)) s)"
proof -
  have "\<forall>d \<in> set ds. dv_id d \<noteq> random_id E (sh_step s)" using assms unfolding ids_free_def image_free by blast
  then have "get_device ds (dv_id (new_device E (sh_step s) old)) \<noteq> None \<or> list_ex (\<lambda>d. dv_name d = od_name old) ds \<longleftrightarrow> present ds old"
    unfolding get_device_def find_None
    by (cases "od_id old") (auto simp: present_def new_device_def list_ex_iff)
  then show ?thesis by (simp add: migrate_one_def bindE_def write_record_def [abs_def] Let_def new_device_def)
qed

lemma ids_free_new:
  assumes "ids_free E k cur (old # olds)" "k < k'"
  shows "ids_free E k' (cur @ [new_device E k old]) olds \<and>
    (\<forall>x \<in> set olds. \<not> present cur x \<longrightarrow> \<not> present (cur @ [new_device E k old]) x)"
proof -
  let ?d = "new_device E k old"
  have R: "inj (random_id E)" "\<And>j. k \<le> j \<Longrightarrow> random_id E j \<notin> dv_id ` set cur \<and> Some (random_id E j) \<notin> od_id ` set (old # olds)"
    using assms(1) unfolding ids_free_def by simp_all
  note C = ids_free_Cons [OF assms(1) less_imp_le [OF assms(2)]]
  have new: "random_id E j \<noteq> dv_id ?d" if "k' \<le> j" for j
  proof (cases "od_id old")
    case None
    with that assms(2) show ?thesis by (simp add: new_device_def inj_eq [OF R(1)])
  next
    case (Some i)
    with R(2) [of j] that assms(2) show ?thesis by (auto simp: new_device_def)
  qed
  have "od_id x \<noteq> Some (dv_id ?d)" if "x \<in> set olds" for x
  proof (cases "od_id old")
    case None
    with R(2) [of k] that show ?thesis by (force simp: new_device_def)
  next
    case (Some i)
    with C that show ?thesis by (force simp: new_device_def)
  qed
  moreover have "dv_name ?d \<noteq> od_name x" if "x \<in> set olds" for x
    using C that unfolding image_free by (auto simp: new_device_def)
  moreover have "ids_free E k' (cur @ [?d]) olds" using C new by (auto simp: ids_free_def)
  ultimately show ?thesis by (auto simp: present_def)
qed

lemma migrate_all:
  fixes s :: "'x shelf_scheme"
  assumes ok: "env_ok E" "codec_ok DEVICE_HEADER C" "\<forall>k. \<not> sh_fails E k"
  shows "\<lbrakk>\<forall>x \<in> set olds. \<forall>k. to_toml C (raw_of (new_device E k x)) \<noteq> None; device_book E C (sort_key dv_name cur) (sh_files s); sh_made s \<or> sh_files s = bt_empty; ids_free E (sh_step s) cur olds;
    ids_free E (sh_step s) ds olds; \<forall>x \<in> set olds. \<not> present ds x \<longrightarrow> \<not> present cur x\<rbrakk> \<Longrightarrow>
   \<exists>news t. folding (migrate_one E C ds) (m, n) olds s = (Inr (m + length news, n + (length olds - length news)), t) \<and>
     device_book E C (sort_key dv_name (cur @ news)) (sh_files t) \<and> (sh_made t \<or> sh_files t = bt_empty) \<and>
     list_all2 migrated_as (filter (\<lambda>x. \<not> present ds x) olds) news \<and> length news \<le> length olds \<and> (news = [] \<longrightarrow> t = s)"
proof (induction olds arbitrary: cur s m n)
  case (Cons old olds)
  let ?k = "sh_step s"
  note total = Cons.prems(1)
  note one = migrate_one_eq [OF Cons.prems(5)]
  have total': "\<forall>x \<in> set olds. \<forall>k. to_toml C (raw_of (new_device E k x)) \<noteq> None" using total by simp
  show ?case
  proof (cases "present ds old")
    case True
    have "ids_free E ?k cur olds" "ids_free E ?k ds olds" using Cons.prems(4,5) ids_free_Cons by blast+
    note IH = Cons.IH [OF total' Cons.prems(2,3) this, of m "n + 1"]
    have "\<forall>x \<in> set olds. \<not> present ds x \<longrightarrow> \<not> present cur x" using Cons.prems(6) by simp
    from IH [OF this] obtain news t where
      "folding (migrate_one E C ds) (m, n + 1) olds s = (Inr (m + length news, n + 1 + (length olds - length news)), t)"
      "device_book E C (sort_key dv_name (cur @ news)) (sh_files t)" "sh_made t \<or> sh_files t = bt_empty"
      "list_all2 migrated_as (filter (\<lambda>x. \<not> present ds x) olds) news" "length news \<le> length olds" "news = [] \<longrightarrow> t = s" by blast
    with True show ?thesis by (intro exI [of _ news] exI [of _ t]) (auto simp: one bindE_def Suc_diff_le)
  next
    case False
    let ?d = "new_device E ?k old"
    have "to_toml C (raw_of ?d) \<noteq> None" using total by simp
    then obtain b where "to_toml C (raw_of ?d) = Some b" by blast
    from calm_save [OF ok(3) this, of s] obtain u where u: "save_one E C ?d s = (Inr (), u)" "?k < sh_step u" by blast
    note S = save_one_run [OF u(1)]
    from S obtain b' where b: "to_toml C (raw_of ?d) = Some b'"
      "bt_get (sh_files u) (file_of E (dv_id ?d)) = Some (DEVICE_HEADER @ newline @ b')" by auto
    have other: "\<forall>n. suffix toml n \<longrightarrow> n \<noteq> file_of E (dv_id ?d) \<longrightarrow> bt_get (sh_files u) n = bt_get (sh_files s) n" using S by simp
    have good: "env_ok E \<and> codec_ok DEVICE_HEADER C" using ok by simp
    have fresh: "\<not> present cur old" using Cons.prems(6) False by simp
    have "\<forall>e \<in> set cur. dv_id e \<noteq> random_id E ?k" using Cons.prems(4) unfolding ids_free_def image_free by blast
    with fresh have ids: "\<forall>e \<in> set cur. dv_id e \<noteq> dv_id ?d" and names: "\<forall>e \<in> set cur. dv_name e \<noteq> dv_name ?d"
      by (auto simp: present_def new_device_def split: option.splits)
    have dis: "distinct (map dv_id cur)" "distinct (map dv_name cur)"
      using Cons.prems(2) by (simp_all add: book_def distinct_map)
    have "device_book E C (sort_key dv_name (cur @ [?d])) (sh_files u)"
      by (rule dev.book_put [OF good Cons.prems(2) b other]) (use ids names dis in \<open>auto simp: distinct_map inj_on_def\<close>)
    moreover have "sh_made u \<or> sh_files u = bt_empty" using S Cons.prems(3) by auto
    moreover have "ids_free E (sh_step u) (cur @ [?d]) olds" "\<forall>x \<in> set olds. \<not> present ds x \<longrightarrow> \<not> present (cur @ [?d]) x"
      using ids_free_new [OF Cons.prems(4) u(2)] Cons.prems(6) by auto
    moreover have "ids_free E (sh_step u) ds olds" using ids_free_Cons [OF Cons.prems(5)] u(2) by (meson less_imp_le)
    ultimately obtain news t where t:
      "folding (migrate_one E C ds) (m + 1, n) olds u = (Inr (m + 1 + length news, n + (length olds - length news)), t)"
      "device_book E C (sort_key dv_name ((cur @ [?d]) @ news)) (sh_files t)" "sh_made t \<or> sh_files t = bt_empty"
      "list_all2 migrated_as (filter (\<lambda>x. \<not> present ds x) olds) news" "length news \<le> length olds"
      using Cons.IH [OF total', of "cur @ [?d]" u "m + 1" n] by blast
    show ?thesis
      by (intro exI [of _ "?d # news"] exI [of _ t]) (use t u(1) False new_device_as in \<open>auto simp: one bindE_def thenE_def\<close>)
  qed
qed simp

lemma migrate_skips: "\<forall>x \<in> set olds. present ds x \<Longrightarrow> folding (migrate_one E C ds) (m, n) olds s = (Inr (m, n + length olds), s)"
proof (induction olds arbitrary: n)
  case (Cons old olds)
  have "migrate_one E C ds (m, n) old s = (Inr (m, n + 1), s)"
    using Cons.prems unfolding migrate_one_def bindE_def Let_def get_device_def find_None
    by (auto simp: present_def list_ex_iff split: option.splits)
  with Cons show ?case by (simp add: bindE_def)
qed simp

lemma migrated_present:
  assumes "list_all2 migrated_as (filter (\<lambda>x. \<not> present ds x) olds) news" "x \<in> set olds" "set ds' = set ds \<union> set news"
  shows "present ds' x"
proof (cases "present ds x")
  case True
  with assms(3) show ?thesis by (auto simp: present_def)
next
  case False
  with assms(2) have "x \<in> set (filter (\<lambda>x. \<not> present ds x) olds)" by simp
  then obtain i where "i < length (filter (\<lambda>x. \<not> present ds x) olds)" "filter (\<lambda>x. \<not> present ds x) olds ! i = x"
    by (meson in_set_conv_nth)
  with assms(1) have "migrated_as x (news ! i)" "news ! i \<in> set news" by (auto simp: list_all2_conv_all_nth)
  with assms(3) show ?thesis by (auto simp: present_def migrated_as_def)
qed

lemma book_opens:
  fixes s :: "'x shelf_scheme"
  assumes "env_ok E" "codec_ok DEVICE_HEADER C" "\<forall>k. \<not> sh_fails E k" "device_book E C ds (sh_files s)"
    and "sh_made s \<or> sh_files s = bt_empty"
  shows "\<exists>t. devices_open E C s = (Inr ds, t) \<and> sh_files t = sh_files s"
proof -
  have good: "env_ok E \<and> codec_ok DEVICE_HEADER C" using assms(1,2) by simp
  have "sh_made s \<or> ds = []" using assms(4,5) by (auto simp: book_def)
  from dev.book_reopens [OF good assms(3,4) this] obtain t where t: "open_records E (read_device C) dv_name s = (Inr ds, t)"
    by (cases "open_records E (read_device C) dv_name s") auto
  with keepsE [OF same_open t] show ?thesis by (auto simp: devices_open_def same_shelf_def)
qed

section \<open>Properties\<close>

text \<open>
  C26: The ledger in memory is the directory. After opening a ledger whose record files all carry their
  creation time, and any sequence of operations in which any file call may fail or leave a part of a file
  behind, opening the directory again gives exactly the records in memory, in whatever order the files
  are listed. They stand in the order of their names, no two have the same name or the same id, and no two
  share a node id if none did at first.
\<close>

theorem ledger_is_its_directory:
  assumes "env_ok E" "codec_ok DEVICE_HEADER C" "devices_open E C s = (Inr ds, u)" "stamped (read_device C) (sh_files s)"
    and "sh_made s \<or> sh_files s = bt_empty" "t = ledger_run E C ps (opened u ds)"
  shows "fst (devices_open (calm E) C t) = Inr (dl_entries t) \<and> sorted (map dv_name (dl_entries t)) \<and>
    distinct (map dv_name (dl_entries t)) \<and> distinct (map dv_id (dl_entries t)) \<and>
    (unique_nodes ds \<longrightarrow> unique_nodes (dl_entries t))"
proof -
  note R = ledger_run_ok [OF assms(1,2) opened_ok [OF assms(1-5)], of ps, folded assms(6)]
  then have "device_book E C (dl_entries t) (sh_files t)" "sh_made t \<or> sh_files t = bt_empty"
    by (simp_all add: ledger_ok_def)
  with ledger_reopens [OF assms(1,2) this] R show ?thesis by (simp add: book_def)
qed

text \<open>
  Only a purge loses a device. However many operations but purges follow the opening of a ledger, and
  whichever of them fail, every id still leads to its record, with the name, the description and the
  creation time it had; a device that had a node id has one; and one that was retired stays so, with the
  time of its retirement and its priority.
\<close>

theorem only_purge_loses:
  assumes "env_ok E" "codec_ok DEVICE_HEADER C" "devices_open E C s = (Inr ds, u)" "stamped (read_device C) (sh_files s)"
    and "sh_made s \<or> sh_files s = bt_empty" "t = ledger_run E C ps (opened u ds)" "\<forall>sel. Purge sel \<notin> set ps"
    and "get_device ds i = Some d"
  shows "\<exists>e. get_device (dl_entries t) i = Some e \<and> record_kept d e"
proof -
  note R = ledger_run_ok [OF assms(1,2) opened_ok [OF assms(1-5)], of ps, folded assms(6)]
  have d: "d \<in> set ds" "dv_id d = i" using find_SomeD [OF assms(8) [unfolded get_device_def]] by simp_all
  with R assms(7) obtain e where e: "e \<in> set (dl_entries t)" "record_kept d e" by (auto simp: kept_def)
  then have "dv_id e = i" using d(2) by (simp add: record_kept_def)
  moreover have "distinct (map dv_id (dl_entries t))" using R by (simp add: ledger_ok_def book_def)
  ultimately obtain x where x: "get_device (dl_entries t) i = Some x"
    using e(1) unfolding get_device_def by (cases "find (\<lambda>d. dv_id d = i) (dl_entries t)") (auto simp: find_None)
  from find_SomeD [OF this [unfolded get_device_def]] have "x \<in> set (dl_entries t)" "dv_id x = i" by simp_all
  with e(1) \<open>dv_id e = i\<close> \<open>distinct _\<close> have "x = e" by (auto simp: distinct_map inj_on_def)
  with x e(2) show ?thesis by simp
qed


text \<open>
  Migration writes what is missing, once. With no file call failing, new records that can be written,
  and names and ids that occur once each, migrating the old file adds to the ledger one record for every entry whose name and id it does not
  have, with what the entry says, leaves the records that were there, and counts both kinds; and migrating
  again, as at every start, changes no file.
\<close>

theorem migration_adds_missing:
  fixes s :: shelf
  assumes "env_ok E" "codec_ok DEVICE_HEADER C" "\<forall>k. \<not> sh_fails E k"
    and "\<forall>x \<in> set olds. \<forall>k. to_toml C (raw_of (new_device E k x)) \<noteq> None"
    and "devices_open E C s = (Inr ds, u)" "stamped (read_device C) (sh_files s)" "sh_made s \<or> sh_files s = bt_empty"
    and "from_old file = Some olds" "ids_free E (sh_step u) ds olds"
  shows "\<exists>news t. migrate_single_file E C from_old (Inr file) s = (Inr (length news, length olds - length news), t) \<and>
    fst (devices_open E C t) = Inr (sort_key dv_name (ds @ news)) \<and>
    list_all2 migrated_as (filter (\<lambda>x. \<not> present ds x) olds) news \<and>
    (\<exists>t'. migrate_single_file E C from_old (Inr file) t = (Inr (0, length olds), t') \<and> sh_files t' = sh_files t)"
proof -
  have good: "env_ok E \<and> codec_ok DEVICE_HEADER C" using assms(1,2) by simp
  have run: "open_records E (read_device C) dv_name s = (Inr ds, u)" using assms(5) by (simp add: devices_open_def)
  have "same_shelf s u" by (rule keepsE [OF same_open run])
  with dev.open_book [OF good run assms(6,7)] assms(7) have u: "device_book E C ds (sh_files u)" "sh_made u \<or> sh_files u = bt_empty"
    by (auto simp: same_shelf_def)
  have "sort_key dv_name ds = ds" using u(1) by (simp add: book_def sort_key_id_if_sorted)
  with u(1) have "device_book E C (sort_key dv_name ds) (sh_files u)" by simp
  from migrate_all [OF assms(1-4) this u(2) assms(9,9), of 0 0] obtain news t where
    t: "folding (migrate_one E C ds) (0, 0) olds u = (Inr (length news, length olds - length news), t)"
      "device_book E C (sort_key dv_name (ds @ news)) (sh_files t)" "sh_made t \<or> sh_files t = bt_empty"
      "list_all2 migrated_as (filter (\<lambda>x. \<not> present ds x) olds) news" by auto
  obtain v where v: "devices_open E C t = (Inr (sort_key dv_name (ds @ news)), v)" "sh_files v = sh_files t"
    using book_opens [OF assms(1-3) t(2,3)] by blast
  have "migrate_single_file E C from_old (Inr file) s = (Inr (length news, length olds - length news), t)"
    using assms(5,8) t(1) by (simp add: migrate_single_file_def runs)
  moreover have "\<forall>x \<in> set olds. present (sort_key dv_name (ds @ news)) x"
    using migrated_present [OF t(4)] by simp
  then have "migrate_single_file E C from_old (Inr file) t = (Inr (0, length olds), v)"
    using assms(8) v(1) by (simp add: migrate_single_file_def runs migrate_skips)
  ultimately show ?thesis using v t(4) by (intro exI [of _ news] exI [of _ t] conjI exI [of _ v]) simp_all
qed


section \<open>Examples\<close>

text \<open>Ids are written with as many letters; the TOML crate of the example knows two records.\<close>

definition ex_shelf_env :: shelf_env where
  "ex_shelf_env = \<lparr>sh_fails = (\<lambda>_. False), torn = (\<lambda>_. 0), order = (\<lambda>_ ns. ns), sh_now = (\<lambda>k. 100 + k), random_id = (\<lambda>k. 50 + k),
     sh_pid = 7, show_id = (\<lambda>i. replicate i CHR ''a''), parse_id = (\<lambda>s. if list_all (\<lambda>c. c = CHR ''a'') s then Some (length s) else None)\<rparr>"

definition ex_raw :: "string \<Rightarrow> nat option \<Rightarrow> raw_device" where
  "ex_raw n r = \<lparr>r_name = n, r_node_id = None, r_description = None, r_priority = None, r_created_at = Some 5, r_retired_at = r\<rparr>"

definition ex_codec :: "raw_device codec" where
  "ex_codec = \<lparr>from_toml = (\<lambda>s. if s = [] then None else if last s = CHR ''x'' then Some (ex_raw ''pen'' None)
       else if last s = CHR ''y'' then Some (ex_raw ''pen'' (Some 103)) else if last s = CHR ''z'' then Some (ex_raw ''pot'' None) else None),
     to_toml = (\<lambda>r. if r = ex_raw ''pen'' None then Some ''x'' else if r = ex_raw ''pen'' (Some 103) then Some ''y''
       else if r = ex_raw ''pot'' None then Some ''z'' else None)\<rparr>"

definition ex_shelf :: shelf where
  "ex_shelf = \<lparr>sh_made = True, sh_files = bt_insert ''aa.toml'' ''x'' bt_empty, sh_next = 0, sh_step = 0\<rparr>"

lemma ex_env_ok: "env_ok ex_shelf_env"
  by (simp add: env_ok_def ex_shelf_env_def list_all_iff)

lemma ex_codec_ok: "codec_ok DEVICE_HEADER ex_codec"
  by (simp add: codec_ok_def ex_codec_def ex_raw_def)

lemma ex_stamped: "stamped (read_device ex_codec) (sh_files ex_shelf)"
  by (auto simp: stamped_def read_device_def ex_codec_def ex_raw_def device_of_def)

definition ex_pen :: device where
  "ex_pen = \<lparr>dv_id = 2, dv_name = ''pen'', node_id = None, description = None, dv_priority = 1, created_at = 5, retired_at = None\<rparr>"

lemmas shelf_eval = open_records_def list_dir_def call_def open_one_def io_in_def read_text_def thenE_def bindE_def attempt_def
  bt_eval strip_suffix_def toml_def suffix_def

lemma ex_open: "devices_open ex_shelf_env ex_codec ex_shelf = (Inr [ex_pen], ex_shelf\<lparr>sh_step := 3\<rparr>)"
  by (simp add: devices_open_def shelf_eval ex_shelf_env_def ex_shelf_def read_device_def ex_codec_def ex_raw_def device_of_def ex_pen_def
      DEFAULT_PRIORITY_def)


lemmas ledger_eval = shelf_eval devices_open_def read_device_def device_of_def raw_of_def retire_def resolve_def device_index_def
  index_of_def rewrite_def save_one_def write_atomic_def make_dir_def fetch_next_def write_via_def create_file_def put_text_def
  append_file_def rename_file_def file_of_def tmp_name_def newline_def first_duplicate_None opened_def shelf.defs device_ledger.defs
  ex_shelf_env_def ex_shelf_def ex_codec_def ex_raw_def ex_pen_def DEFAULT_PRIORITY_def show_nat.simps

lemma ex_retired: "dl_entries (ledger_run ex_shelf_env ex_codec [Retire ''pen''] (opened (ex_shelf\<lparr>sh_step := 3\<rparr>) [ex_pen])) =
    [ex_pen\<lparr>retired_at := Some 103\<rparr>]"
  by (simp add: ledger_eval)

theorem ledger_is_its_directory_witness:
  "\<exists>t :: device_ledger. dl_entries t = [ex_pen\<lparr>retired_at := Some 103\<rparr>] \<and> fst (devices_open (calm ex_shelf_env) ex_codec t) = Inr (dl_entries t)"
proof -
  have "sh_made ex_shelf \<or> sh_files ex_shelf = bt_empty" by (simp add: ex_shelf_def)
  from ledger_is_its_directory [OF ex_env_ok ex_codec_ok ex_open ex_stamped this refl, of "[Retire ''pen'']"] ex_retired
  show ?thesis by (intro exI [of _ "ledger_run ex_shelf_env ex_codec [Retire ''pen''] (opened (ex_shelf\<lparr>sh_step := 3\<rparr>) [ex_pen])"]) simp
qed

theorem only_purge_loses_witness:
  "\<exists>e. get_device (dl_entries (ledger_run ex_shelf_env ex_codec [Retire ''pen''] (opened (ex_shelf\<lparr>sh_step := 3\<rparr>) [ex_pen]))) 2 = Some e \<and>
     record_kept ex_pen e"
proof -
  have "sh_made ex_shelf \<or> sh_files ex_shelf = bt_empty" by (simp add: ex_shelf_def)
  from only_purge_loses [OF ex_env_ok ex_codec_ok ex_open ex_stamped this refl, of "[Retire ''pen'']" 2 ex_pen]
  show ?thesis by (simp add: get_device_def ex_pen_def)
qed

definition ex_old :: "grain_id \<Rightarrow> old_device" where
  "ex_old i = \<lparr>od_id = Some i, od_name = ''pot'', od_description = None, od_node_id = None, od_created_at = Some 5, od_retired_at = None\<rparr>"

theorem migration_adds_missing_witness:
  "\<exists>news t. migrate_single_file ex_shelf_env ex_codec (\<lambda>_. Some [ex_old 3]) (Inr ''f'') ex_shelf = (Inr (1, 0), t) \<and>
     fst (devices_open ex_shelf_env ex_codec t) = Inr (sort_key dv_name (ex_pen # news)) \<and> list_all2 migrated_as [ex_old 3] news"
proof -
  have made: "sh_made ex_shelf \<or> sh_files ex_shelf = bt_empty" by (simp add: ex_shelf_def)
  have calm: "\<forall>k. \<not> sh_fails ex_shelf_env k" by (simp add: ex_shelf_env_def)
  have total: "\<forall>x \<in> set [ex_old 3]. \<forall>k. to_toml ex_codec (raw_of (new_device ex_shelf_env k x)) \<noteq> None"
    by (simp add: ex_old_def new_device_def raw_of_def ex_codec_def ex_raw_def)
  have ids: "ids_free ex_shelf_env (sh_step (ex_shelf\<lparr>sh_step := 3\<rparr>)) [ex_pen] [ex_old 3]"
    by (simp add: ids_free_def ex_shelf_env_def ex_pen_def ex_old_def inj_def)
  have missing: "\<not> present [ex_pen] (ex_old 3)" by (simp add: present_def ex_pen_def ex_old_def)
  from migration_adds_missing [OF ex_env_ok ex_codec_ok calm total ex_open ex_stamped made _ ids, of "\<lambda>_. Some [ex_old 3]" "''f''"]
  obtain news t where t: "migrate_single_file ex_shelf_env ex_codec (\<lambda>_. Some [ex_old 3]) (Inr ''f'') ex_shelf =
      (Inr (length news, 1 - length news), t)"
    "fst (devices_open ex_shelf_env ex_codec t) = Inr (sort_key dv_name ([ex_pen] @ news))" "list_all2 migrated_as [ex_old 3] news"
    using missing by auto
  moreover have "length news = 1" using t(3) by (simp add: list_all2_lengthD [symmetric])
  ultimately show ?thesis by (intro exI [of _ news] exI [of _ t]) simp
qed

section \<open>Findings\<close>

text \<open>
  A hand-written record is stamped with the time of each opening anew: nothing writes the time of the first
  one down.
\<close>

theorem hand_written_time_moves:
  "\<lbrakk>from_toml C t = Some raw; r_created_at raw = None\<rbrakk> \<Longrightarrow> map_option created_at (read_device C now i t) = Some now"
  by (simp add: read_device_def device_of_def)

text \<open>
  The old file's entries are compared with the ledger as it was before the migration only: two of the same
  name are both written, and the ledger can not be opened from then on.
\<close>

theorem migrated_twins_lock_ledger:
  fixes s :: shelf
  assumes "env_ok E" "codec_ok DEVICE_HEADER C" "\<forall>k. \<not> sh_fails E k" "devices_open E C s = (Inr ds, u)"
    and "from_old file = Some [a, b]" "od_name a = od_name b" "od_id a = Some i" "od_id b = Some j" "i \<noteq> j"
    and "\<not> present ds a" "\<not> present ds b" "\<forall>x \<in> {a, b}. \<forall>k. to_toml C (raw_of (new_device E k x)) \<noteq> None"
  shows "\<exists>t. migrate_single_file E C from_old (Inr file) s = (Inr (2, 0), t) \<and> (\<forall>E' ds'. env_ok E' \<longrightarrow> show_id E' = show_id E \<longrightarrow>
    fst (devices_open E' C t) \<noteq> Inr ds')"
proof -
  have one: "migrate_one E C ds (m, n) x v = thenE (save_one E C (new_device E (sh_step v) x)) (ret (m + 1, n)) v"
    if "x \<in> {a, b}" for x m n and v :: shelf
    using that assms(7,8,10,11) unfolding migrate_one_def write_record_def [abs_def] bindE_def Let_def get_device_def find_None
    by (auto simp: present_def list_ex_iff new_device_def)
  have "to_toml C (raw_of (new_device E k x)) \<noteq> None" if "x \<in> {a, b}" for k x using assms(12) that by blast
  then obtain v w where v: "save_one E C (new_device E (sh_step u) a) u = (Inr (), v)"
    and w: "save_one E C (new_device E (sh_step v) b) v = (Inr (), w)"
    using calm_save [OF assms(3)] by (metis insertI1 insertI2 option.exhaust)
  have run: "migrate_single_file E C from_old (Inr file) s = (Inr (2, 0), w)"
    using assms(4,5) v w by (simp add: migrate_single_file_def runs one)
  have ids: "dv_id (new_device E k a) = i" "dv_id (new_device E k b) = j" for k using assms(7,8) by (simp_all add: new_device_def)
  have "\<exists>x. bt_get (sh_files w) (file_of E i) = Some x \<and> from_toml C x = Some (raw_of (new_device E (sh_step u) a))"
    "\<exists>x. bt_get (sh_files w) (file_of E j) = Some x \<and> from_toml C x = Some (raw_of (new_device E (sh_step v) b))" "sh_made w"
    using save_one_run [OF v] save_one_run [OF w] assms(2,9) file_of_inj [OF assms(1)] suffix_file_of [of E i]
    unfolding ids codec_ok_def by (auto split: if_splits)
  then obtain x y where x: "bt_get (sh_files w) (file_of E i) = Some x" "from_toml C x = Some (raw_of (new_device E (sh_step u) a))"
    and y: "bt_get (sh_files w) (file_of E j) = Some y" "from_toml C y = Some (raw_of (new_device E (sh_step v) b))"
    and made: "sh_made w" by blast
  have "fst (devices_open E' C w) \<noteq> Inr ds'" if "env_ok E'" "show_id E' = show_id E" for E' ds'
  proof
    assume "fst (devices_open E' C w) = Inr ds'"
    then obtain z where "open_records E' (read_device C) dv_name w = (Inr ds', z)"
      by (cases "devices_open E' C w") (simp add: devices_open_def)
    from dev.open_records_Inr [OF this] made obtain es k w' where es: "ds' = sort_key dv_name es" "distinct (map dv_name ds')"
      "sh_files w' = sh_files w" "folding (open_one E' (read_device C)) [] (order E' k (bt_keys (sh_files w))) w' = (Inr es, z)" by metis
    have good: "env_ok E' \<and> codec_ok DEVICE_HEADER C" using that(1) assms(2) by simp
    have files: "file_of E' = file_of E" using that(2) by (simp add: fun_eq_iff file_of_def)
    from dev.open_all_Inr [OF es(4)] have all: "map (\<lambda>d. file_of E (dv_id d)) es = filter (suffix toml) (order E' k (bt_keys (sh_files w)))"
      and held: "\<forall>d \<in> set es. \<exists>str now. bt_get (sh_files w) (file_of E (dv_id d)) = Some str \<and> read_device C now (dv_id d) str = Some d"
      by (simp_all add: files es(3))
    have "\<exists>d \<in> set es. dv_id d = l \<and> dv_name d = od_name a" if "bt_get (sh_files w) (file_of E l) = Some str"
      "from_toml C str = Some (raw_of d')" "dv_name d' = od_name a" for l str d'
    proof -
      have "file_of E l \<in> set (filter (suffix toml) (order E' k (bt_keys (sh_files w))))"
        using dev.listing [OF good, of k "sh_files w"] that(1) by simp
      then obtain d where d: "d \<in> set es" "dv_id d = l" unfolding all [symmetric] using file_of_inj [OF assms(1)] by auto
      with held that(1) obtain now where "read_device C now l str = Some d" by fastforce
      then have "dv_name d = od_name a" using that(2,3) by (auto simp: read_device_def device_of_def raw_of_def)
      with d show ?thesis by blast
    qed
    from this [OF x] this [OF y] assms(6) obtain d e where "d \<in> set es" "e \<in> set es" "dv_id d = i" "dv_id e = j" "dv_name d = dv_name e"
      by (auto simp: new_device_def)
    with assms(9) es(1,2) show False by (auto simp: distinct_map inj_on_def)
  qed
  with run show ?thesis by blast
qed

end
