(* ===== verification/Text.thy ===== *)
theory Text
  imports Prelude
begin

text \<open>
  More of Rust's \<open>str\<close>, on the UTF-8 bytes a string is modelled by: trimming, and splitting into lines
  that keep their ends.
\<close>

section \<open>Trimming\<close>

text \<open>Taking away any of some strings from the front, as long as one is there.\<close>

function strip_any :: "'a list list \<Rightarrow> 'a list \<Rightarrow> 'a list" where
  "strip_any ws s = (case find (\<lambda>w. w \<noteq> [] \<and> prefix w s) ws of
     None \<Rightarrow> s | Some w \<Rightarrow> strip_any ws (drop (length w) s))"
  by pat_completeness auto
termination
proof (relation "measure (\<lambda>(ws, s). length s)")
  fix ws :: "'a list list" and s w
  assume "find (\<lambda>w. w \<noteq> [] \<and> prefix w s) ws = Some w"
  then have "w \<noteq> []" "prefix w s" by (auto simp: find_Some_iff)
  then show "((ws, drop (length w) s), ws, s) \<in> measure (\<lambda>(ws, s). length s)" by (auto simp: prefix_def)
qed simp

declare strip_any.simps [simp del]

lemma strip_any_None: "find (\<lambda>w. w \<noteq> [] \<and> prefix w s) ws = None \<Longrightarrow> strip_any ws s = s"
  and strip_any_Some: "find (\<lambda>w. w \<noteq> [] \<and> prefix w s) ws = Some w \<Longrightarrow> strip_any ws s = strip_any ws (drop (length w) s)"
  by (simp_all add: strip_any.simps [of ws s])

lemma strip_any_suffix: "\<exists>p. s = p @ strip_any ws s"
proof (induction ws s rule: strip_any.induct)
  case (1 ws s)
  show ?case
  proof (cases "find (\<lambda>w. w \<noteq> [] \<and> prefix w s) ws")
    case None
    then show ?thesis by (simp add: strip_any_None)
  next
    case (Some w)
    then have "prefix w s" by (auto simp: find_Some_iff)
    then obtain r where r: "s = w @ r" by (auto simp: prefix_def)
    from "1.IH" [OF Some] r obtain p where "r = p @ strip_any ws r" by auto
    moreover have "strip_any ws s = strip_any ws r" using strip_any_Some [OF Some] r by simp
    ultimately have "s = (w @ p) @ strip_any ws s" using r by simp
    then show ?thesis by blast
  qed
qed

lemma strip_any_done: "w \<in> set ws \<Longrightarrow> w \<noteq> [] \<Longrightarrow> \<not> prefix w (strip_any ws s)"
proof (induction ws s rule: strip_any.induct)
  case (1 ws s)
  show ?case
  proof (cases "find (\<lambda>w. w \<noteq> [] \<and> prefix w s) ws")
    case None
    with "1.prems" have "\<not> prefix w s" by (auto simp: find_None_iff)
    with None show ?thesis by (simp add: strip_any_None)
  next
    case (Some w')
    with "1.IH" [OF Some "1.prems"] show ?thesis by (simp add: strip_any_Some)
  qed
qed

lemma strip_any_id: "(\<And>w. \<lbrakk>w \<in> set ws; w \<noteq> []\<rbrakk> \<Longrightarrow> \<not> prefix w s) \<Longrightarrow> strip_any ws s = s"
  by (auto simp: strip_any.simps [of ws s] find_Some_iff split: option.split)

text \<open>The encodings of the characters with the property \<open>White_Space\<close>, by which \<open>str::trim\<close> goes.\<close>

definition byte :: "nat \<Rightarrow> char" where
  "byte n = char_of n"

definition white :: "string list" where
  "white = map (map byte) ([[n]. n \<leftarrow> [9, 10, 11, 12, 13, 32]] @ [[0xC2, 0x85], [0xC2, 0xA0], [0xE1, 0x9A, 0x80]] @
     [[0xE2, 0x80, 0x80 + n]. n \<leftarrow> [0 ..< 11]] @
     [[0xE2, 0x80, 0xA8], [0xE2, 0x80, 0xA9], [0xE2, 0x80, 0xAF], [0xE2, 0x81, 0x9F], [0xE3, 0x80, 0x80]])"

definition trim_start :: "string \<Rightarrow> string" where
  "trim_start s = strip_any white s"

definition trim_end :: "string \<Rightarrow> string" where
  "trim_end s = rev (strip_any (map rev white) (rev s))"

definition trim :: "string \<Rightarrow> string" where
  "trim s = trim_end (trim_start s)"

text \<open>\<open>trim_start_matches\<close> and \<open>trim_end_matches\<close> with characters.\<close>

definition trim_start_matches :: "char list \<Rightarrow> string \<Rightarrow> string" where
  "trim_start_matches cs s = dropWhile (\<lambda>c. c \<in> set cs) s"

definition trim_end_matches :: "char list \<Rightarrow> string \<Rightarrow> string" where
  "trim_end_matches cs s = rev (dropWhile (\<lambda>c. c \<in> set cs) (rev s))"

lemma trim_start_matches_idem [simp]: "trim_start_matches cs (trim_start_matches cs s) = trim_start_matches cs s"
  by (simp add: trim_start_matches_def dropWhile_idem)

lemma trim_start_matches_head: "trim_start_matches cs s \<noteq> [] \<Longrightarrow> hd (trim_start_matches cs s) \<notin> set cs"
  unfolding trim_start_matches_def by (rule hd_dropWhile)

section \<open>Lines\<close>

text \<open>\<open>split_inclusive\<close>: every piece but the last ends with the separator.\<close>

fun split_inclusive :: "'a \<Rightarrow> 'a list \<Rightarrow> 'a list list" where
  "split_inclusive c [] = []"
| "split_inclusive c (x # xs) = (if x = c then [x] # split_inclusive c xs
     else case split_inclusive c xs of [] \<Rightarrow> [[x]] | p # ps \<Rightarrow> (x # p) # ps)"

lemma concat_split_inclusive [simp]: "concat (split_inclusive c s) = s"
  by (induction c s rule: split_inclusive.induct) (auto split: list.split)

lemma split_inclusive_Nil [simp]: "split_inclusive c s = [] \<longleftrightarrow> s = []"
  by (cases s) (auto split: list.split)

text \<open>A whole line, and lines in front of more text.\<close>

definition whole_line :: "'a \<Rightarrow> 'a list \<Rightarrow> bool" where
  "whole_line c l \<longleftrightarrow> (\<exists>p. l = p @ [c] \<and> c \<notin> set p)"

lemma split_inclusive_line: "c \<notin> set p \<Longrightarrow> split_inclusive c (p @ c # s) = (p @ [c]) # split_inclusive c s"
  by (induction p) auto

lemma split_inclusive_last: "c \<notin> set p \<Longrightarrow> p \<noteq> [] \<Longrightarrow> split_inclusive c p = [p]"
proof (induction p)
  case (Cons a p)
  then show ?case by (cases p) auto
qed simp

lemma split_inclusive_lines:
  "list_all (whole_line c) ls \<Longrightarrow> split_inclusive c (concat ls @ s) = ls @ split_inclusive c s"
  by (induction ls) (auto simp: whole_line_def split_inclusive_line)

lemma split_inclusive_pieces: "split_inclusive c s = ls @ l # ms \<Longrightarrow> list_all (whole_line c) ls \<and> (ms \<noteq> [] \<longrightarrow> whole_line c l)"
proof (induction c s arbitrary: ls l ms rule: split_inclusive.induct)
  case (2 c x xs)
  show ?case
  proof (cases "x = c")
    case True
    with "2.prems" have "[c] # split_inclusive c xs = ls @ l # ms" by simp
    with "2.IH"(1) [OF True] True show ?thesis by (cases ls) (auto simp: whole_line_def)
  next
    case False
    show ?thesis
    proof (cases "split_inclusive c xs")
      case Nil
      with False "2.prems" show ?thesis by (cases ls) auto
    next
      case (Cons p ps)
      with False "2.prems" have eq: "(x # p) # ps = ls @ l # ms" by simp
      show ?thesis
      proof (cases ls)
        case Nil
        with eq Cons "2.IH"(2) [OF False, of "[]" p ps] False show ?thesis
          by (auto simp: whole_line_def)
      next
        case (Cons m ls')
        with eq \<open>split_inclusive c xs = p # ps\<close> "2.IH"(2) [OF False, of "p # ls'" l ms] False show ?thesis
          by (auto simp: whole_line_def)
      qed
    qed
  qed
qed simp

end
