(* ===== verification/Frontmatter.thy ===== *)
theory Frontmatter
  imports Text
begin

text \<open>
  YAML front matter (\<open>sapphire-framework-frontmatter/src/lib.rs\<close>): finding it, writing a file from a
  value and a body, and changing one key in place. Slices of the text are the strings they hold. YAML is
  another crate's: \<open>de\<close> and \<open>ser\<close> read and write it.
\<close>

section \<open>Errors and line ends\<close>

datatype fm_error = Missing | Unclosed | Parse | Serialize | NotAScalar string

definition nl :: char where
  "nl = CHR 0x0A"

definition cr :: char where
  "cr = CHR 0x0D"

definition FENCE :: string where
  "FENCE = ''---''"

definition trim_eol :: "string \<Rightarrow> string" where
  "trim_eol l = trim_end_matches [nl, cr] l"

section \<open>Finding it\<close>

text \<open>The loop of \<open>locate\<close>: the lines before the closing fence, and what follows its line.\<close>

fun close_at :: "string \<Rightarrow> string list \<Rightarrow> fm_error + string \<times> string" where
  "close_at front [] = Inl Unclosed"
| "close_at front (l # ls) = (if trim_eol l = FENCE then Inr (front, concat ls) else close_at (front @ l) ls)"

definition locate :: "string \<Rightarrow> fm_error + string \<times> string" where
  "locate raw = (case (case strip_prefix (FENCE @ [nl]) raw of Some r \<Rightarrow> Some r | None \<Rightarrow> strip_prefix (FENCE @ [cr, nl]) raw) of
     None \<Rightarrow> Inl Missing
   | Some r \<Rightarrow> close_at '''' (split_inclusive nl r))"

definition split_front :: "string \<Rightarrow> (string \<times> string) option" where
  "split_front raw = (case locate raw of Inl _ \<Rightarrow> None | Inr x \<Rightarrow> Some x)"

definition from_yaml :: "(string \<Rightarrow> 't option) \<Rightarrow> string \<Rightarrow> fm_error + 't" where
  "from_yaml de front = (case de (if trim front = '''' then ''{}'' else front) of None \<Rightarrow> Inl Parse | Some x \<Rightarrow> Inr x)"

definition parse :: "(string \<Rightarrow> 't option) \<Rightarrow> string \<Rightarrow> fm_error + 't \<times> string" where
  "parse de raw = (case locate raw of Inl e \<Rightarrow> Inl e
     | Inr (front, body) \<Rightarrow> (case from_yaml de front of Inl e \<Rightarrow> Inl e | Inr x \<Rightarrow> Inr (x, body)))"

definition parse_optional :: "(string \<Rightarrow> 't option) \<Rightarrow> string \<Rightarrow> fm_error + 't option \<times> string" where
  "parse_optional de raw = (case locate raw of
       Inr (front, body) \<Rightarrow> (case from_yaml de front of Inl e \<Rightarrow> Inl e | Inr x \<Rightarrow> Inr (Some x, body))
     | Inl Missing \<Rightarrow> Inr (None, raw)
     | Inl e \<Rightarrow> Inl e)"

section \<open>Writing it\<close>

definition to_yaml :: "('t \<Rightarrow> string option) \<Rightarrow> 't \<Rightarrow> fm_error + string" where
  "to_yaml ser meta = (case ser meta of None \<Rightarrow> Inl Serialize
     | Some yaml \<Rightarrow> Inr (if suffix [nl] yaml then yaml else yaml @ [nl]))"

definition render :: "('t \<Rightarrow> string option) \<Rightarrow> 't \<Rightarrow> string \<Rightarrow> fm_error + string" where
  "render ser meta body = (case to_yaml ser meta of Inl e \<Rightarrow> Inl e
     | Inr yaml \<Rightarrow> (let body = trim_start_matches [nl, cr] body in
         Inr (FENCE @ [nl] @ yaml @ FENCE @ [nl] @ (if body \<noteq> '''' then nl # body else ''''))))"

section \<open>Changing one key\<close>

definition continues :: "string \<Rightarrow> bool" where
  "continues s \<longleftrightarrow> prefix '' '' s \<or> prefix [CHR 0x09] s \<or> s = ''-'' \<or> prefix ''- '' s"

definition is_key :: "string \<Rightarrow> string \<Rightarrow> bool" where
  "is_key pre s \<longleftrightarrow> (case strip_prefix pre s of None \<Rightarrow> False | Some r \<Rightarrow> r = '''' \<or> prefix '' '' r \<or> prefix [CHR 0x09] r)"

text \<open>The loop over the lines: what is written, and whether the key was found.\<close>

fun edit_lines :: "string \<Rightarrow> string \<Rightarrow> bool \<Rightarrow> bool \<Rightarrow> string list \<Rightarrow> string \<times> bool" where
  "edit_lines pre line replaced skipping [] = ('''', replaced)"
| "edit_lines pre line replaced skipping (current # ls) =
     (let t = trim_eol current in
      if skipping \<and> continues t then edit_lines pre line replaced True ls
      else if \<not> replaced \<and> is_key pre t
        then (case edit_lines pre line True True ls of (out, r) \<Rightarrow> (line @ out, r))
        else (case edit_lines pre line replaced False ls of (out, r) \<Rightarrow> (current @ out, r)))"

text \<open>\<open>to_value\<close> is the value as JSON, if it has one; \<open>de\<close> reads a mapping of keys to such values.\<close>

definition set_top_level_key :: "('v \<Rightarrow> string option) \<Rightarrow> ('v \<Rightarrow> 'j option) \<Rightarrow> (string \<Rightarrow> (string \<rightharpoonup> 'j) option)
    \<Rightarrow> string \<Rightarrow> string \<Rightarrow> 'v \<Rightarrow> fm_error + string option" where
  "set_top_level_key ser to_value de raw key value = (case locate raw of
     Inl _ \<Rightarrow> Inr None
   | Inr (front, _) \<Rightarrow> (case ser value of
       None \<Rightarrow> Inl Serialize
     | Some scalar \<Rightarrow> (let scalar = trim_eol scalar in
         if scalar = '''' \<or> nl \<in> set scalar then Inl (NotAScalar key)
         else (let head_len = (if prefix (FENCE @ [cr, nl]) raw then 5 else 4);
                   eol = (if head_len = 5 then [cr, nl] else [nl]);
                   line = key @ '': '' @ scalar @ eol;
                   (edited, replaced) = edit_lines (key @ '':'') line False False (split_inclusive nl front);
                   out = take head_len raw @ edited;
                   out = (if replaced then out else (if suffix [nl] out then out else out @ eol) @ line);
                   out = out @ drop (head_len + length front) raw
               in case locate out of
                    Inl e \<Rightarrow> Inl e
                  | Inr (front', _) \<Rightarrow> (case from_yaml de front' of
                      Inl e \<Rightarrow> Inl e
                    | Inr m \<Rightarrow> if to_value value \<noteq> None \<and> m key \<noteq> to_value value then Inl (NotAScalar key) else Inr (Some out))))))"

section \<open>Where the front matter is\<close>

lemma close_at_Inr:
  "close_at acc ls = Inr (front, body) \<longleftrightarrow> (\<exists>as cl bs. ls = as @ cl # bs \<and> (\<forall>l \<in> set as. trim_eol l \<noteq> FENCE) \<and>
     trim_eol cl = FENCE \<and> front = acc @ concat as \<and> body = concat bs)"
proof (induction acc ls rule: close_at.induct)
  case (2 acc l ls)
  show ?case
  proof (cases "trim_eol l = FENCE")
    case True
    have "(\<exists>as cl bs. l # ls = as @ cl # bs \<and> (\<forall>x \<in> set as. trim_eol x \<noteq> FENCE) \<and> trim_eol cl = FENCE \<and>
        front = acc @ concat as \<and> body = concat bs) \<longleftrightarrow> front = acc \<and> body = concat ls" (is "?l \<longleftrightarrow> ?r")
    proof
      show "?l \<Longrightarrow> ?r" using True by (auto simp: Cons_eq_append_conv)
      show "?r \<Longrightarrow> ?l" using True by (intro exI [of _ "[]"] exI [of _ l] exI [of _ ls]) simp
    qed
    with True show ?thesis by auto
  next
    case False
    have "(\<exists>as cl bs. l # ls = as @ cl # bs \<and> (\<forall>x \<in> set as. trim_eol x \<noteq> FENCE) \<and> trim_eol cl = FENCE \<and>
        front = acc @ concat as \<and> body = concat bs) \<longleftrightarrow>
      (\<exists>as cl bs. ls = as @ cl # bs \<and> (\<forall>x \<in> set as. trim_eol x \<noteq> FENCE) \<and> trim_eol cl = FENCE \<and>
        front = (acc @ l) @ concat as \<and> body = concat bs)" (is "?l \<longleftrightarrow> ?r")
    proof
      assume ?l
      then obtain as cl bs where a: "l # ls = as @ cl # bs" "\<forall>x \<in> set as. trim_eol x \<noteq> FENCE" "trim_eol cl = FENCE"
        "front = acc @ concat as" "body = concat bs" by blast
      with False obtain as' where "as = l # as'" by (cases as) auto
      with a show ?r by (intro exI [of _ as'] exI [of _ cl] exI [of _ bs]) simp
    next
      assume ?r
      then obtain as cl bs where a: "ls = as @ cl # bs" "\<forall>x \<in> set as. trim_eol x \<noteq> FENCE" "trim_eol cl = FENCE"
        "front = (acc @ l) @ concat as" "body = concat bs" by blast
      with False show ?l by (intro exI [of _ "l # as"] exI [of _ cl] exI [of _ bs]) simp
    qed
    with False 2 show ?thesis by simp
  qed
qed simp

text \<open>The opening line, the lines of the block, and the closing line.\<close>

definition opener :: "string \<Rightarrow> bool" where
  "opener op \<longleftrightarrow> op = FENCE @ [nl] \<or> op = FENCE @ [cr, nl]"

definition block :: "string \<Rightarrow> bool" where
  "block front \<longleftrightarrow> list_all (\<lambda>l. whole_line nl l \<and> trim_eol l \<noteq> FENCE) (split_inclusive nl front)"

definition closer :: "string \<Rightarrow> string \<Rightarrow> bool" where
  "closer cl body \<longleftrightarrow> trim_eol cl = FENCE \<and> (whole_line nl cl \<or> nl \<notin> set cl \<and> body = '''')"

lemma locate_opening: "opener op \<Longrightarrow> locate (op @ r) = close_at '''' (split_inclusive nl r)"
  by (auto simp: opener_def locate_def FENCE_def nl_def cr_def strip_prefix_def)

lemma trim_eol_Nil [simp]: "trim_eol '''' = ''''"
  by (simp add: trim_eol_def trim_end_matches_def)

lemma lines_of: "list_all (whole_line c) ls \<Longrightarrow> split_inclusive c (concat ls) = ls"
  using split_inclusive_lines [of c ls "[]"] by simp

lemma locate_Inr:
  "locate raw = Inr (front, body) \<longleftrightarrow> (\<exists>op cl. opener op \<and> block front \<and> closer cl body \<and> raw = op @ front @ cl @ body)"
proof
  assume l: "locate raw = Inr (front, body)"
  then obtain r where "raw = (FENCE @ [nl]) @ r \<or> raw = (FENCE @ [cr, nl]) @ r"
    by (auto simp: locate_def split: option.splits)
  then obtain op where op: "opener op" "raw = op @ r" by (auto simp: opener_def)
  with l have "close_at '''' (split_inclusive nl r) = Inr (front, body)" by (simp add: locate_opening)
  then obtain as cl bs where s: "split_inclusive nl r = as @ cl # bs" "\<forall>l \<in> set as. trim_eol l \<noteq> FENCE" "trim_eol cl = FENCE"
    "front = concat as" "body = concat bs" by (auto simp: close_at_Inr)
  note P = split_inclusive_pieces [OF s(1)]
  have "r = concat (as @ cl # bs)" using s(1) by (metis concat_split_inclusive)
  then have r: "raw = op @ front @ cl @ body" using op s by simp
  have "block front" using P s by (auto simp: block_def lines_of list_all_iff)
  moreover have "closer cl body"
  proof (cases bs)
    case Nil
    have "split_inclusive nl (concat as @ cl) = as @ [cl]" using s(1) \<open>r = _\<close> Nil by simp
    then have cl: "split_inclusive nl cl = [cl]" using P split_inclusive_lines [of nl as cl] by simp
    have "whole_line nl cl \<or> nl \<notin> set cl"
    proof (cases "nl \<in> set cl")
      case True
      then obtain p q where "cl = p @ nl # q" "nl \<notin> set p" by (meson split_list_first)
      with cl show ?thesis by (auto simp: whole_line_def split_inclusive_line)
    qed simp
    with s(3,5) Nil show ?thesis by (auto simp: closer_def)
  next
    case (Cons b bs')
    with P s show ?thesis by (simp add: closer_def)
  qed
  ultimately show "\<exists>op cl. opener op \<and> block front \<and> closer cl body \<and> raw = op @ front @ cl @ body" using op r by blast
next
  assume "\<exists>op cl. opener op \<and> block front \<and> closer cl body \<and> raw = op @ front @ cl @ body"
  then obtain op cl where op: "opener op" "block front" "closer cl body" "raw = op @ front @ cl @ body" by blast
  let ?ls = "split_inclusive nl front"
  have front: "list_all (whole_line nl) ?ls" "\<forall>l \<in> set ?ls. trim_eol l \<noteq> FENCE" using op(2) by (auto simp: block_def list_all_iff)
  have "split_inclusive nl (concat ?ls @ cl @ body) = ?ls @ split_inclusive nl (cl @ body)"
    by (rule split_inclusive_lines [OF front(1)])
  moreover have "\<exists>bs. split_inclusive nl (cl @ body) = cl # bs \<and> body = concat bs"
  proof (cases "whole_line nl cl")
    case True
    then obtain p where "cl = p @ [nl]" "nl \<notin> set p" by (auto simp: whole_line_def)
    then show ?thesis by (intro exI [of _ "split_inclusive nl body"]) (simp add: split_inclusive_line)
  next
    case False
    with op(3) have "nl \<notin> set cl" "body = ''''" "cl \<noteq> ''''" by (auto simp: closer_def FENCE_def)
    then show ?thesis by (simp add: split_inclusive_last)
  qed
  ultimately obtain bs where bs: "split_inclusive nl (front @ cl @ body) = ?ls @ cl # bs" "body = concat bs" by auto
  have "close_at '''' (split_inclusive nl (front @ cl @ body)) = Inr (front, body)"
    unfolding close_at_Inr
    by (rule exI [of _ ?ls], rule exI [of _ cl], rule exI [of _ bs]) (use bs front(2) op(3) in \<open>simp add: closer_def\<close>)
  with op(1,4) show "locate raw = Inr (front, body)" by (simp add: locate_opening)
qed

section \<open>The edit\<close>

lemma edit_rest: "edit_lines pre line True False ls = (concat ls, True)"
  by (induction ls) (simp_all add: Let_def)

lemma edit_skipping:
  "edit_lines pre line True True ls = (concat (dropWhile (\<lambda>l. continues (trim_eol l)) ls), True)"
  by (induction ls) (simp_all add: Let_def edit_rest)

text \<open>What becomes of the lines: the key's line and what continues its value are one new line.\<close>

definition with_key :: "string \<Rightarrow> string \<Rightarrow> string list \<Rightarrow> string" where
  "with_key pre line ls = (case dropWhile (\<lambda>l. \<not> is_key pre (trim_eol l)) ls of
     [] \<Rightarrow> concat ls @ line
   | _ # more \<Rightarrow> concat (takeWhile (\<lambda>l. \<not> is_key pre (trim_eol l)) ls) @ line @
       concat (dropWhile (\<lambda>l. continues (trim_eol l)) more))"

lemma edit_lines_eq:
  "edit_lines pre line False False ls = (case dropWhile (\<lambda>l. \<not> is_key pre (trim_eol l)) ls of
     [] \<Rightarrow> (concat ls, False) | _ # more \<Rightarrow> (with_key pre line ls, True))"
  by (induction ls) (auto simp: Let_def with_key_def edit_skipping simp del: dropWhile_eq_Nil_conv split: list.splits)

lemma with_key_lines:
  assumes "list_all P ls" "P line"
  shows "\<exists>ks. with_key pre line ls = concat ks \<and> list_all P ks"
proof (cases "dropWhile (\<lambda>l. \<not> is_key pre (trim_eol l)) ls")
  case Nil
  with assms show ?thesis by (intro exI [of _ "ls @ [line]"]) (simp add: with_key_def del: dropWhile_eq_Nil_conv)
next
  case (Cons k more)
  let ?k = "takeWhile (\<lambda>l. \<not> is_key pre (trim_eol l)) ls"
  have "ls = ?k @ k # more" using Cons by (metis takeWhile_dropWhile_id)
  with assms have "list_all P ?k" "list_all P more" by (metis list_all_append list.pred_inject(2))+
  moreover have "list_all P (dropWhile (\<lambda>l. continues (trim_eol l)) more)"
    using \<open>list_all P more\<close> by (auto simp: list_all_iff dest: set_dropWhileD)
  ultimately show ?thesis using assms Cons
    by (intro exI [of _ "?k @ line # dropWhile (\<lambda>l. continues (trim_eol l)) more"]) (simp add: with_key_def)
qed

lemma trim_eol_end: "trim_eol (s @ [c]) = (if c = nl \<or> c = cr then trim_eol s else s @ [c])"
  by (simp add: trim_eol_def trim_end_matches_def)

lemma trim_eol_scalar: "trim_eol s \<noteq> '''' \<Longrightarrow> last (trim_eol s) \<noteq> nl \<and> last (trim_eol s) \<noteq> cr"
  using hd_dropWhile [of "\<lambda>c. c = nl \<or> c = cr" "rev s"] by (auto simp: trim_eol_def trim_end_matches_def last_rev)

lemma key_line:
  assumes "nl \<notin> set key" "trim_eol v \<noteq> ''''" "nl \<notin> set (trim_eol v)" "eol = [nl] \<or> eol = [cr, nl]"
  shows "whole_line nl (key @ '': '' @ trim_eol v @ eol) \<and> trim_eol (key @ '': '' @ trim_eol v @ eol) = key @ '': '' @ trim_eol v \<and>
    trim_eol (key @ '': '' @ trim_eol v @ eol) \<noteq> FENCE"
proof -
  obtain w c where w: "trim_eol v = w @ [c]" using assms(2) by (metis rev_exhaust)
  have c: "c \<noteq> nl" "c \<noteq> cr" using trim_eol_scalar [OF assms(2)] w by auto
  have sep: "nl \<notin> set '': ''" by (simp add: nl_def)
  have end_c: "trim_eol ((key @ '': '' @ w) @ [c]) = (key @ '': '' @ w) @ [c]" using c by (simp only: trim_eol_end) simp
  have eq: "trim_eol (key @ '': '' @ trim_eol v @ eol) = key @ '': '' @ trim_eol v"
    using assms(4) end_c trim_eol_end [of "key @ '': '' @ w @ [c]" nl] trim_eol_end [of "(key @ '': '' @ w @ [c]) @ [cr]" nl]
      trim_eol_end [of "key @ '': '' @ w @ [c]" cr] by (auto simp: w)
  have "CHR '':'' \<in> set (key @ '': '' @ trim_eol v)" by simp
  moreover have "CHR '':'' \<notin> set FENCE" by (simp add: FENCE_def)
  ultimately have "key @ '': '' @ trim_eol v \<noteq> FENCE" by metis
  moreover have "whole_line nl (key @ '': '' @ trim_eol v @ eol)"
    unfolding whole_line_def
    by (rule exI [of _ "key @ '': '' @ trim_eol v @ butlast eol"]) (use assms sep in \<open>auto simp: nl_def cr_def\<close>)
  ultimately show ?thesis using eq by simp
qed


lemma locate_front:
  assumes "locate raw = Inr (front, body)"
  shows "\<exists>op cl. opener op \<and> block front \<and> closer cl body \<and> raw = op @ front @ cl @ body \<and>
    length op = (if prefix (FENCE @ [cr, nl]) raw then 5 else 4)"
proof -
  from assms obtain op cl where op: "opener op" "block front" "closer cl body" "raw = op @ front @ cl @ body"
    by (auto simp: locate_Inr)
  moreover have "length op = (if prefix (FENCE @ [cr, nl]) raw then 5 else 4)"
    using op(1,4) by (auto simp: opener_def FENCE_def nl_def cr_def)
  ultimately show ?thesis by blast
qed

section \<open>Properties\<close>

text \<open>
  A file that is rendered reads back. If the YAML written for a value has no line that is a fence and
  reads back as the value, then the rendered file parses to the value and to the body with the breaks in
  front of it replaced by a single blank line; and rendering what was read gives the same file.
\<close>

theorem rendered_file_parses:
  assumes "render ser m body = Inr out" "to_yaml ser m = Inr yaml" "from_yaml de yaml = Inr m"
    and "\<forall>l \<in> set (split_inclusive nl yaml). trim_eol l \<noteq> FENCE"
  shows "\<exists>body'. parse de out = Inr (m, body') \<and> parse_optional de out = Inr (Some m, body') \<and>
    trim_start_matches [nl, cr] body' = trim_start_matches [nl, cr] body \<and>
    (body' = '''' \<or> (\<exists>b. body' = nl # b \<and> hd b \<noteq> nl \<and> hd b \<noteq> cr)) \<and> render ser m body' = Inr out"
proof -
  define b where "b = trim_start_matches [nl, cr] body"
  define body' where "body' = (if b \<noteq> '''' then nl # b else '''')"
  have out: "out = (FENCE @ [nl]) @ yaml @ (FENCE @ [nl]) @ body'"
    using assms(1,2) by (auto simp: render_def Let_def b_def body'_def)
  have "suffix [nl] yaml" using assms(2) by (auto simp: to_yaml_def suffix_def split: option.splits if_splits)
  then obtain y where y: "yaml = y @ [nl]" by (auto simp: suffix_def)
  have "whole_line nl l" if "l \<in> set (split_inclusive nl yaml)" for l
  proof -
    from that obtain as bs where s: "split_inclusive nl yaml = as @ l # bs" by (meson split_list)
    note P = split_inclusive_pieces [OF s]
    show ?thesis
    proof (cases "bs = []")
      case True
      have "yaml = concat as @ l" using s True by (metis concat_append concat.simps append_Nil2 concat_split_inclusive)
      moreover have "l \<noteq> ''''"
      proof
        assume "l = ''''"
        with s P show False using split_inclusive_lines [of nl as "''''"] True \<open>yaml = concat as @ l\<close> by simp
      qed
      ultimately obtain p where l: "l = p @ [nl]" using y by (metis append_butlast_last_id last_appendR last_snoc)
      have "split_inclusive nl l = [l]"
        using s True P split_inclusive_lines [of nl as l] \<open>yaml = concat as @ l\<close> by simp
      moreover obtain p1 p2 where "l = p1 @ nl # p2" "nl \<notin> set p1" using l by (metis in_set_conv_decomp split_list_first)
      ultimately show ?thesis by (auto simp: whole_line_def split_inclusive_line)
    qed (use P in simp)
  qed
  with assms(4) have "block yaml" by (simp add: block_def list_all_iff)
  moreover have "trim_eol (FENCE @ [nl]) = FENCE" by (simp add: trim_eol_end) (simp add: FENCE_def trim_eol_def trim_end_matches_def nl_def cr_def)
  then have "closer (FENCE @ [nl]) body'" by (auto simp: closer_def whole_line_def FENCE_def nl_def)
  moreover have "opener (FENCE @ [nl])" by (simp add: opener_def)
  ultimately have loc: "locate out = Inr (yaml, body')" unfolding locate_Inr out by blast
  have "trim_start_matches [nl, cr] b = b" by (simp add: b_def)
  then have "trim_start_matches [nl, cr] body' = b" by (auto simp: body'_def trim_start_matches_def)
  moreover have "b \<noteq> '''' \<Longrightarrow> hd b \<noteq> nl \<and> hd b \<noteq> cr"
    using trim_start_matches_head [of "[nl, cr]" body] by (simp add: b_def)
  moreover have "render ser m body' = Inr out"
    using assms(1,2) calculation(1) by (simp add: render_def Let_def b_def)
  ultimately show ?thesis using loc assms(3)
    by (intro exI [of _ body']) (auto simp: parse_def parse_optional_def b_def body'_def)
qed

text \<open>
  C27: Setting a key changes only its lines. When a key without a line break is set, everything outside the
  block and every line of it is kept but the first line of the key and the lines that continue its old
  value, which become one line with the new value and the file's own line end; with no such line, that
  line is added at the end of the block. The file still splits into the block and the same body, and
  reading the block gives the value under the key.
\<close>

theorem set_key_changes_only_key:
  assumes "set_top_level_key ser to_value de raw key v = Inr (Some out)" "nl \<notin> set key"
  shows "\<exists>op front cl body scalar eol m. opener op \<and> (eol = (if op = FENCE @ [nl] then [nl] else [cr, nl])) \<and>
    locate raw = Inr (front, body) \<and> raw = op @ front @ cl @ body \<and> ser v = Some scalar \<and>
    (let front' = with_key (key @ '':'') (key @ '': '' @ trim_eol scalar @ eol) (split_inclusive nl front) in
      out = op @ front' @ cl @ body \<and> locate out = Inr (front', body) \<and> from_yaml de front' = Inr m) \<and>
    (to_value v \<noteq> None \<longrightarrow> m key = to_value v)"
proof -
  obtain front body where loc: "locate raw = Inr (front, body)"
    using assms(1) by (cases "locate raw") (auto simp: set_top_level_key_def)
  obtain scalar where sc: "ser v = Some scalar"
    using assms(1) loc by (cases "ser v") (auto simp: set_top_level_key_def)
  have ok: "trim_eol scalar \<noteq> ''''" "nl \<notin> set (trim_eol scalar)"
    using assms(1) loc sc by (auto simp: set_top_level_key_def Let_def split: if_splits)
  obtain op cl where op: "opener op" "block front" "closer cl body" "raw = op @ front @ cl @ body"
    "length op = (if prefix (FENCE @ [cr, nl]) raw then 5 else 4)" using locate_front [OF loc] by blast
  define n where "n = length op"
  define eol where "eol = (if op = FENCE @ [nl] then [nl] else [cr, nl])"
  have n: "(if prefix (FENCE @ [cr, nl]) raw then 5 else 4) = n" "(if n = 5 then [cr, nl] else [nl]) = eol"
    using op(1,5) by (auto simp: n_def eol_def opener_def FENCE_def nl_def cr_def)
  define line where "line = key @ '': '' @ trim_eol scalar @ eol"
  define front' where "front' = with_key (key @ '':'') line (split_inclusive nl front)"
  have L: "whole_line nl line" "trim_eol line \<noteq> FENCE"
  proof -
    have "eol = [nl] \<or> eol = [cr, nl]" by (simp add: eol_def)
    from key_line [OF assms(2) ok this] show "whole_line nl line" "trim_eol line \<noteq> FENCE" unfolding line_def by blast+
  qed
  have cut: "take n raw = op" "drop (n + length front) raw = cl @ body" by (simp_all add: n_def op(4))
  have nl_end: "suffix [nl] (op @ front)"
  proof (cases "front = ''''")
    case True
    with op(1) show ?thesis by (auto simp: opener_def suffix_def)
  next
    case False
    then obtain ls l where s: "split_inclusive nl front = ls @ [l]" by (metis rev_exhaust split_inclusive_Nil)
    with op(2) have "whole_line nl l" by (simp add: block_def)
    moreover have "front = concat ls @ l" using s by (metis concat_append concat.simps append_Nil2 concat_split_inclusive)
    ultimately show ?thesis by (auto simp: whole_line_def suffix_def)
  qed
  obtain edited replaced where e: "edit_lines (key @ '':'') line False False (split_inclusive nl front) = (edited, replaced)"
    by (cases "edit_lines (key @ '':'') line False False (split_inclusive nl front)")
  then have written: "(if replaced then op @ edited else (if suffix [nl] (op @ edited) then op @ edited else (op @ edited) @ eol) @ line) =
      op @ front'"
    using nl_end by (auto simp: edit_lines_eq front'_def with_key_def simp del: dropWhile_eq_Nil_conv split: list.splits)
  obtain ks where ks: "front' = concat ks" "list_all (\<lambda>l. whole_line nl l \<and> trim_eol l \<noteq> FENCE) ks"
    using with_key_lines [OF op(2) [unfolded block_def], of line] L unfolding front'_def by blast
  have "block front'" using ks by (auto simp: block_def lines_of list_all_iff)
  with op(1,3) have loc': "locate (op @ front' @ cl @ body) = Inr (front', body)" unfolding locate_Inr by blast
  have "(case locate ((if replaced then op @ edited else (if suffix [nl] (op @ edited) then op @ edited else (op @ edited) @ eol) @ line) @ cl @ body) of
      Inl x \<Rightarrow> Inl x
    | Inr (f, _) \<Rightarrow> (case from_yaml de f of
        Inl x \<Rightarrow> Inl x
      | Inr m \<Rightarrow> if to_value v \<noteq> None \<and> m key \<noteq> to_value v then Inl (NotAScalar key)
          else Inr (Some ((if replaced then op @ edited else (if suffix [nl] (op @ edited) then op @ edited else (op @ edited) @ eol) @ line) @ cl @ body)))) =
    Inr (Some out)"
    using assms(1) ok e
    unfolding set_top_level_key_def loc sc sum.case option.case prod.case Let_def n cut line_def [symmetric] by simp
  then have "(case from_yaml de front' of Inl x \<Rightarrow> Inl x
      | Inr m \<Rightarrow> if to_value v \<noteq> None \<and> m key \<noteq> to_value v then Inl (NotAScalar key) else Inr (Some (op @ front' @ cl @ body))) =
    Inr (Some out)"
    unfolding written unfolding append_assoc loc' sum.case prod.case .
  then obtain m where m: "from_yaml de front' = Inr m" "to_value v \<noteq> None \<longrightarrow> m key = to_value v" "out = op @ front' @ cl @ body"
    by (cases "from_yaml de front'") (auto split: if_splits)
  show ?thesis
    by (rule exI [of _ op], rule exI [of _ front], rule exI [of _ cl], rule exI [of _ body], rule exI [of _ scalar],
        rule exI [of _ eol], rule exI [of _ m], unfold Let_def, fold line_def, fold front'_def, fold eol_def)
      (use op loc sc m loc' in \<open>simp only: simp_thms\<close>)
qed


section \<open>Examples\<close>

lemmas front_eval = set_top_level_key_def locate_def strip_prefix_def FENCE_def nl_def cr_def trim_eol_def trim_end_matches_def
  trim_start_matches_def is_key_def continues_def from_yaml_def trim_def trim_start_def trim_end_def strip_any.simps white_def byte_def
  render_def to_yaml_def parse_def suffix_def Let_def

text \<open>A mapping of one key, whose value is a list the new scalar replaces.\<close>

definition ex_file :: string where
  "ex_file = ''---'' @ [nl] @ ''a:'' @ [nl] @ ''- 1'' @ [nl] @ ''#'' @ [nl] @ ''---'' @ [nl] @ ''b''"

definition ex_edited :: string where
  "ex_edited = ''---'' @ [nl] @ ''a: 2'' @ [nl] @ ''#'' @ [nl] @ ''---'' @ [nl] @ ''b''"

lemma ex_set: "set_top_level_key (\<lambda>_. Some (''2'' @ [nl])) Some (\<lambda>_. Some [''a'' \<mapsto> (2 :: nat)]) ex_file ''a'' 2 = Inr (Some ex_edited)"
  by (simp add: ex_file_def ex_edited_def front_eval)

theorem set_key_changes_only_key_witness:
  "\<exists>front body. locate ex_file = Inr (front, body) \<and> body = ''b'' \<and>
     ex_edited = ''---'' @ [nl] @ with_key ''a:'' (''a: 2'' @ [nl]) (split_inclusive nl front) @ ''---'' @ [nl] @ body"
proof -
  have "nl \<notin> set ''a''" by (simp add: nl_def)
  from set_key_changes_only_key [OF ex_set this] obtain op front cl body scalar eol where w:
    "opener op" "eol = (if op = FENCE @ [nl] then [nl] else [cr, nl])" "locate ex_file = Inr (front, body)"
    "ex_file = op @ front @ cl @ body" "Some (''2'' @ [nl]) = Some scalar"
    "ex_edited = op @ with_key (''a'' @ '':'') (''a'' @ '': '' @ trim_eol scalar @ eol) (split_inclusive nl front) @ cl @ body"
    unfolding Let_def by metis
  have "locate ex_file = Inr (''a:'' @ [nl] @ ''- 1'' @ [nl] @ ''#'' @ [nl], ''b'')" by (simp add: ex_file_def front_eval)
  with w(3) have fb: "front = ''a:'' @ [nl] @ ''- 1'' @ [nl] @ ''#'' @ [nl]" "body = ''b''" by simp_all
  have op: "op = FENCE @ [nl]" using w(1,4) by (auto simp: opener_def ex_file_def FENCE_def nl_def cr_def)
  have "cl = ''---'' @ [nl]" using w(4) fb op by (simp add: ex_file_def FENCE_def)
  moreover have "trim_eol (''2'' @ [nl]) = ''2''" by (simp add: trim_eol_def trim_end_matches_def nl_def cr_def)
  ultimately show ?thesis using w fb op by (simp add: FENCE_def)
qed

lemma ex_render: "render (\<lambda>_. Some ''a: 2'') (2 :: nat) (''b'' @ [nl]) = Inr (''---'' @ [nl] @ ''a: 2'' @ [nl] @ ''---'' @ [nl, nl] @ ''b'' @ [nl])"
  "to_yaml (\<lambda>_. Some ''a: 2'') (2 :: nat) = Inr (''a: 2'' @ [nl])"
  "from_yaml (\<lambda>_. Some 2) (''a: 2'' @ [nl]) = Inr (2 :: nat)"
  by (simp_all add: front_eval)

theorem rendered_file_parses_witness:
  "\<exists>body'. parse (\<lambda>_. Some (2 :: nat)) (''---'' @ [nl] @ ''a: 2'' @ [nl] @ ''---'' @ [nl, nl] @ ''b'' @ [nl]) = Inr (2, body')"
proof -
  have "\<forall>l \<in> set (split_inclusive nl (''a: 2'' @ [nl])). trim_eol l \<noteq> FENCE" by (simp add: front_eval)
  from rendered_file_parses [OF ex_render this] show ?thesis by blast
qed

end
