(* ===== verification/Bytes.thy ===== *)
theory Bytes
  imports Prelude
begin

text \<open>
  Little-endian encodings and the signed 64-bit integers the retrieval store uses as document ids.
\<close>

section \<open>Little-endian bytes\<close>

fun le_bytes :: "nat \<Rightarrow> nat \<Rightarrow> bytes" where
  "le_bytes 0 v = []"
| "le_bytes (Suc n) v = of_nat v # le_bytes n (v div 256)"

fun le_value :: "bytes \<Rightarrow> nat" where
  "le_value [] = 0"
| "le_value (b # bs) = unat b + 256 * le_value bs"

lemma length_le_bytes [simp]: "length (le_bytes n v) = n"
  by (induction n v rule: le_bytes.induct) auto

lemma le_value_bytes: "le_value (le_bytes n v) = v mod 256 ^ n"
proof (induction n v rule: le_bytes.induct)
  case (2 n v)
  have "unat (of_nat v :: u8) = v mod 256" by (simp add: unat_of_nat)
  with 2 show ?case by (simp add: mod_mult2_eq)
qed simp

lemma le_value_unat: "LENGTH('a) = 8 * n \<Longrightarrow> le_value (le_bytes n (unat w)) = unat w" for w :: "'a::len word"
  using unat_bound [of w] by (simp add: le_value_bytes power_mult)

section \<open>\<open>i64\<close>\<close>

datatype i64 = I64 (bits: u64)

instantiation i64 :: linorder
begin

definition less_eq_i64 :: "i64 \<Rightarrow> i64 \<Rightarrow> bool" where
  "less_eq_i64 a b \<longleftrightarrow> sint (bits a) \<le> sint (bits b)"

definition less_i64 :: "i64 \<Rightarrow> i64 \<Rightarrow> bool" where
  "less_i64 a b \<longleftrightarrow> sint (bits a) < sint (bits b)"

instance
  by standard (auto simp: less_eq_i64_def less_i64_def intro!: i64.expand dest: signed_word_eqI)

end

definition i64_to_le :: "i64 \<Rightarrow> bytes" where
  "i64_to_le i = le_bytes 8 (unat (bits i))"

definition i64_from_le :: "bytes \<Rightarrow> i64" where
  "i64_from_le b = I64 (of_nat (le_value b))"

lemma i64_le_roundtrip [simp]: "i64_from_le (i64_to_le i) = i"
proof -
  have "le_value (le_bytes 8 (unat (bits i))) = unat (bits i)" by (rule le_value_unat) simp
  then show ?thesis by (simp add: i64_from_le_def i64_to_le_def)
qed

lemma length_i64_to_le [simp]: "length (i64_to_le i) = 8"
  by (simp add: i64_to_le_def)

end
