(* ===== verification/Ann.thy ===== *)
theory Ann
  imports BTreeMap Bytes
begin

text \<open>
  The approximate index over a store's vectors (\<open>sapphire-framework-retrieve/src/ann.rs\<close>) and the threads
  that use it: writers that commit a vector and mark it afterwards, a reset, and builds that run in the
  background from a snapshot. The graph of \<open>instant_distance\<close> is a parameter; an index is modelled by the
  vectors it was built from. The counters \<open>generation\<close> and \<open>seq\<close> are unbounded here (64 bits in the code).
\<close>

definition ANN_MIN :: nat where
  "ANN_MIN = 10000"

definition EF_SEARCH :: nat where
  "EF_SEARCH = 200"

section \<open>State and operations\<close>

record 'v ann_state =
  built :: "(i64, 'v) btmap option"
  building :: bool
  generation :: nat
  seq :: nat
  changed_at :: "(i64, nat) btmap"

record ticket =
  tk_generation :: nat
  tk_seq :: nat

definition ann_new :: "'v ann_state" where
  "ann_new = \<lparr>built = None, building = False, generation = 0, seq = 0, changed_at = bt_empty\<rparr>"

text \<open>\<open>Ann::changed\<close>.\<close>

definition ann_changed :: "i64 \<Rightarrow> 'v ann_state \<Rightarrow> 'v ann_state" where
  "ann_changed i s = (if built s \<noteq> None \<or> building s
     then s\<lparr>seq := seq s + 1, changed_at := bt_insert i (seq s + 1) (changed_at s)\<rparr> else s)"

definition ann_clear :: "'v ann_state \<Rightarrow> 'v ann_state" where
  "ann_clear s = ann_new\<lparr>generation := generation s + 1\<rparr>"

text \<open>\<open>Ann::start\<close>, of an index made with the threshold \<open>least\<close>.\<close>

definition ann_start :: "nat \<Rightarrow> nat \<Rightarrow> 'v ann_state \<Rightarrow> ticket option \<times> 'v ann_state" where
  "ann_start least count s =
     (if count < least \<or> building s then (None, s)
      else let stale = (case built s of
             None \<Rightarrow> True
           | Some b \<Rightarrow> size (changed_at s) * 10 > max (size b) 1) in
        if \<not> stale then (None, s)
        else (Some \<lparr>tk_generation = generation s, tk_seq = seq s\<rparr>, s\<lparr>building := True\<rparr>))"

text \<open>\<open>Ann::finish\<close>: \<open>index\<close> is what the build made, if it did not fail.\<close>

definition ann_finish :: "ticket \<Rightarrow> (i64, 'v) btmap option \<Rightarrow> 'v ann_state \<Rightarrow> 'v ann_state" where
  "ann_finish t index s =
     (if generation s \<noteq> tk_generation t then s
      else let s = s\<lparr>building := False\<rparr> in
        (case index of
           None \<Rightarrow> s
         | Some b \<Rightarrow> s\<lparr>built := Some b, changed_at := bt_filter (\<lambda>(_, k). tk_seq t < k) (changed_at s)\<rparr>))"

text \<open>
  \<open>Ann::search\<close>: what the graph gives (\<open>nearest\<close> of the built vectors), without the changed ids, and the
  changed ids.
\<close>

definition ann_search :: "((i64, 'v) btmap \<Rightarrow> 'q \<Rightarrow> ('d \<times> i64) list) \<Rightarrow> 'q \<Rightarrow> nat \<Rightarrow> 'v ann_state \<Rightarrow>
    (('d \<times> i64) list \<times> i64 list) option" where
  "ann_search hnsw q want s = (case built s of
     None \<Rightarrow> None
   | Some b \<Rightarrow> Some (take want (filter (\<lambda>(_, i). \<not> bt_has (changed_at s) i) (hnsw b q)), bt_keys (changed_at s)))"

section \<open>The threads around the index\<close>

text \<open>
  \<open>vectors\<close> is the committed table. \<open>unmarked\<close> are the ids whose commit was made and whose mark was not yet;
  \<open>clearing\<close> counts resets whose \<open>clear\<close> has not been called; a build in flight has its ticket and, once
  taken, its snapshot.
\<close>

record 'v ann_world =
  vectors :: "(i64, 'v) btmap"
  ann :: "'v ann_state"
  unmarked :: "i64 list"
  clearing :: nat
  builds :: "(ticket \<times> (i64, 'v) btmap option) list"

definition world_new :: "(i64, 'v) btmap \<Rightarrow> 'v ann_world" where
  "world_new vs = \<lparr>vectors = vs, ann = ann_new, unmarked = [], clearing = 0, builds = []\<rparr>"

text \<open>
  One step of any thread: \<open>put_vectors\<close>, \<open>upsert_document\<close> and \<open>remove_document\<close> commit and then mark,
  \<open>configure_vectors\<close> commits the empty table and then clears, a search may start a build whatever count it
  read, and the build's thread takes its snapshot and finishes.
\<close>

inductive ann_step :: "nat \<Rightarrow> 'v ann_world \<Rightarrow> 'v ann_world \<Rightarrow> bool" for least where
  Put: "ann_step least w (w\<lparr>vectors := bt_insert i v (vectors w), unmarked := i # unmarked w\<rparr>)"
| Take: "ann_step least w (w\<lparr>vectors := bt_remove i (vectors w), unmarked := i # unmarked w\<rparr>)"
| Mark: "i \<in> set (unmarked w) \<Longrightarrow> ann_step least w (w\<lparr>unmarked := remove1 i (unmarked w), ann := ann_changed i (ann w)\<rparr>)"
| Reset: "ann_step least w (w\<lparr>vectors := bt_empty, clearing := clearing w + 1\<rparr>)"
| Clear: "0 < clearing w \<Longrightarrow> ann_step least w (w\<lparr>clearing := clearing w - 1, ann := ann_clear (ann w)\<rparr>)"
| Start: "ann_start least count (ann w) = (Some t, a) \<Longrightarrow> ann_step least w (w\<lparr>ann := a, builds := builds w @ [(t, None)]\<rparr>)"
| Snapshot: "builds w = bs @ (t, None) # cs \<Longrightarrow> ann_step least w (w\<lparr>builds := bs @ (t, Some (vectors w)) # cs\<rparr>)"
| Finish: "builds w = bs @ (t, Some s) # cs \<Longrightarrow>
     ann_step least w (w\<lparr>builds := bs @ cs, ann := ann_finish t (Some s) (ann w)\<rparr>)"
| Fail: "builds w = bs @ (t, s) # cs \<Longrightarrow> ann_step least w (w\<lparr>builds := bs @ cs, ann := ann_finish t None (ann w)\<rparr>)"

inductive ann_reachable :: "nat \<Rightarrow> 'v ann_world \<Rightarrow> bool" for least where
  New: "ann_reachable least (world_new vs)"
| Step: "\<lbrakk>ann_reachable least w; ann_step least w w'\<rbrakk> \<Longrightarrow> ann_reachable least w'"

inductive_cases ann_stepE: "ann_step least w w'"

section \<open>The invariant\<close>

text \<open>Two tables agree on an id, or the id is marked, still to be marked, or everything is being reset.\<close>

definition tracked_in :: "'v ann_world \<Rightarrow> nat \<Rightarrow> (i64, 'v) btmap \<Rightarrow> bool" where
  "tracked_in w since b \<longleftrightarrow> clearing w > 0 \<or> (\<forall>i. bt_get (vectors w) i = bt_get b i \<or> i \<in> set (unmarked w) \<or>
     (\<exists>k > since. bt_get (changed_at (ann w)) i = Some k))"

text \<open>The builds in flight whose ticket still counts.\<close>

definition current :: "'v ann_world \<Rightarrow> (ticket \<times> (i64, 'v) btmap option) list" where
  "current w = filter (\<lambda>(t, _). tk_generation t = generation (ann w)) (builds w)"

text \<open>Every mark is later than nothing; the built table is tracked from the start, a snapshot from its ticket.\<close>

definition ann_ok :: "'v ann_world \<Rightarrow> bool" where
  "ann_ok w \<longleftrightarrow>
     (\<forall>i k. bt_get (changed_at (ann w)) i = Some k \<longrightarrow> 0 < k \<and> k \<le> seq (ann w)) \<and>
     (\<forall>b. built (ann w) = Some b \<longrightarrow> tracked_in w 0 b) \<and>
     (\<forall>(t, _) \<in> set (builds w). tk_generation t \<le> generation (ann w)) \<and>
     length (current w) = (if building (ann w) then 1 else 0) \<and>
     (\<forall>(t, s) \<in> set (current w). tk_seq t \<le> seq (ann w) \<and> (\<forall>b. s = Some b \<longrightarrow> tracked_in w (tk_seq t) b))"


lemma tracked_in_empty [simp]: "clearing w > 0 \<Longrightarrow> tracked_in w k b"
  by (simp add: tracked_in_def)

lemma tracked_in_self: "tracked_in w k (vectors w)"
  by (simp add: tracked_in_def)

lemma tracked_in_builds [simp]: "tracked_in (w\<lparr>builds := bs\<rparr>) k b = tracked_in w k b"
  by (simp add: tracked_in_def)

lemma tracked_in_commit:
  "\<lbrakk>tracked_in w k b; \<And>j. j \<noteq> i \<Longrightarrow> bt_get vs j = bt_get (vectors w) j\<rbrakk> \<Longrightarrow>
   tracked_in (w\<lparr>vectors := vs, unmarked := i # unmarked w\<rparr>) k b"
  unfolding tracked_in_def by auto

lemma tracked_in_mark:
  assumes "tracked_in w k b" "k \<le> seq (ann w)" "built (ann w) \<noteq> None \<or> building (ann w)"
  shows "tracked_in (w\<lparr>unmarked := remove1 i (unmarked w), ann := ann_changed i (ann w)\<rparr>) k b"
proof -
  have "k < seq (ann w) + 1" using assms(2) by simp
  then show ?thesis using assms(1,3) unfolding tracked_in_def ann_changed_def
    by auto
qed

lemma tracked_in_finish:
  assumes "tracked_in w (tk_seq t) b" "changed_at a = bt_filter (\<lambda>(_, k). tk_seq t < k) (changed_at (ann w))"
  shows "tracked_in (w\<lparr>builds := bs, ann := a\<rparr>) 0 b"
proof -
  have "\<exists>k' > 0. bt_get (changed_at a) i = Some k'" if "tk_seq t < k" "bt_get (changed_at (ann w)) i = Some k" for i k
    using that assms(2) by (auto simp: bt_get_filter)
  then show ?thesis using assms(1) unfolding tracked_in_def by auto
qed

lemma ann_okI:
  assumes "\<And>i k. bt_get (changed_at (ann w)) i = Some k \<Longrightarrow> 0 < k \<and> k \<le> seq (ann w)"
    and "\<And>b. built (ann w) = Some b \<Longrightarrow> tracked_in w 0 b"
    and "\<And>t s. (t, s) \<in> set (builds w) \<Longrightarrow> tk_generation t \<le> generation (ann w)"
    and "length (current w) = (if building (ann w) then 1 else 0)"
    and "\<And>t s. (t, s) \<in> set (current w) \<Longrightarrow> tk_seq t \<le> seq (ann w)"
    and "\<And>t b. (t, Some b) \<in> set (current w) \<Longrightarrow> tracked_in w (tk_seq t) b"
  shows "ann_ok w"
  using assms unfolding ann_ok_def by blast

lemma ann_okD:
  assumes "ann_ok w"
  shows "bt_get (changed_at (ann w)) i = Some k \<Longrightarrow> 0 < k \<and> k \<le> seq (ann w)"
    and "built (ann w) = Some b \<Longrightarrow> tracked_in w 0 b"
    and "(t, s) \<in> set (builds w) \<Longrightarrow> tk_generation t \<le> generation (ann w)"
    and "length (current w) = (if building (ann w) then 1 else 0)"
    and "(t, s) \<in> set (current w) \<Longrightarrow> tk_seq t \<le> seq (ann w)"
    and "(t, Some b) \<in> set (current w) \<Longrightarrow> tracked_in w (tk_seq t) b"
  using assms unfolding ann_ok_def by blast+

text \<open>A step that leaves the index and the builds alone keeps the invariant when the tables stay tracked.\<close>

lemma ann_ok_same:
  assumes "ann_ok w" "ann w' = ann w" "builds w' = builds w" "\<And>k b. tracked_in w k b \<Longrightarrow> tracked_in w' k b"
  shows "ann_ok w'"
proof -
  have "current w' = current w" by (simp add: current_def assms(2,3))
  with assms(1,4) show ?thesis unfolding ann_ok_def assms(2,3) by simp blast
qed

lemma ann_ok_mark:
  assumes ok: "ann_ok w"
  shows "ann_ok (w\<lparr>unmarked := remove1 i (unmarked w), ann := ann_changed i (ann w)\<rparr>)" (is "ann_ok ?w")
proof -
  have cur: "current ?w = current w" by (simp add: current_def ann_changed_def)
  note D = ann_okD [OF ok]
  have busy: "building (ann w)" if "x \<in> set (current w)" for x
    using D(4) that by (auto split: if_splits)
  show ?thesis
  proof (rule ann_okI)
    show "0 < k \<and> k \<le> seq (ann ?w)" if "bt_get (changed_at (ann ?w)) j = Some k" for j k
      using that D(1) [of j k] by (auto simp: ann_changed_def split: if_splits)
    show "tracked_in ?w 0 b" if "built (ann ?w) = Some b" for b
      using that D(2) [of b] by (intro tracked_in_mark) (auto simp: ann_changed_def split: if_splits)
    show "tracked_in ?w (tk_seq t) b" if "(t, Some b) \<in> set (current ?w)" for t b
      using that busy [of "(t, Some b)"] D(5,6) unfolding cur by (intro tracked_in_mark) auto
    show "tk_seq t \<le> seq (ann ?w)" if "(t, s) \<in> set (current ?w)" for t s
      using D(5) that unfolding cur by (force simp: ann_changed_def)
    show "tk_generation t \<le> generation (ann ?w)" if "(t, s) \<in> set (builds ?w)" for t s
      using D(3) [of t s] that by (auto simp: ann_changed_def)
    show "length (current ?w) = (if building (ann ?w) then 1 else 0)"
      unfolding cur using D(4) by (simp add: ann_changed_def)
  qed
qed

lemma ann_ok_clear:
  assumes ok: "ann_ok w"
  shows "ann_ok (w\<lparr>clearing := n, ann := ann_clear (ann w)\<rparr>)" (is "ann_ok ?w")
proof -
  have "current ?w = []"
    using ann_okD(3) [OF ok] by (fastforce simp: current_def filter_empty_conv ann_clear_def ann_new_def)
  then show ?thesis
    by (intro ann_okI) (use ann_okD(3) [OF ok] in \<open>force simp: ann_clear_def ann_new_def\<close>)+
qed

lemma ann_ok_start:
  assumes ok: "ann_ok w" and start: "ann_start least count (ann w) = (Some t, a)"
  shows "ann_ok (w\<lparr>ann := a, builds := builds w @ [(t, None)]\<rparr>)" (is "ann_ok ?w")
proof -
  have a: "a = (ann w)\<lparr>building := True\<rparr>" "tk_generation t = generation (ann w)" "tk_seq t = seq (ann w)" "\<not> building (ann w)"
    using start by (auto simp: ann_start_def Let_def split: if_splits)
  note D = ann_okD [OF ok]
  have none: "current w = []" using D(4) a(4) by simp
  have cur: "current ?w = [(t, None)]" using none a by (simp add: current_def)
  have same: "tracked_in ?w k b = tracked_in w k b" for k b by (simp add: tracked_in_def a(1))
  show ?thesis
  proof (rule ann_okI)
    show "tk_generation t' \<le> generation (ann ?w)" if "(t', s) \<in> set (builds ?w)" for t' s
      using that D(3) [of t' s] a by auto
    show "0 < k \<and> k \<le> seq (ann ?w)" if "bt_get (changed_at (ann ?w)) i = Some k" for i k
      using that D(1) [of i k] a(1) by simp
    show "tracked_in ?w 0 b" if "built (ann ?w) = Some b" for b
      using that D(2) [of b] unfolding same by (simp add: a(1))
    show "length (current ?w) = (if building (ann ?w) then 1 else 0)"
      unfolding cur by (simp add: a(1))
    show "tk_seq t' \<le> seq (ann ?w)" if "(t', s) \<in> set (current ?w)" for t' s
      using that a unfolding cur by simp
    show "tracked_in ?w (tk_seq t') b" if "(t', Some b) \<in> set (current ?w)" for t' b
      using that unfolding cur by simp
  qed
qed

lemma ann_ok_finish:
  assumes ok: "ann_ok w" and b: "builds w = bs @ (t, s) # cs" and i: "index = None \<or> index = s"
  shows "ann_ok (w\<lparr>builds := bs @ cs, ann := ann_finish t index (ann w)\<rparr>)" (is "ann_ok ?w")
proof (cases "generation (ann w) = tk_generation t")
  case False
  then have fin: "ann_finish t index (ann w) = ann w" by (simp add: ann_finish_def)
  have cur: "current (w\<lparr>builds := bs @ cs\<rparr>) = current w" using b False by (simp add: current_def)
  have "set (bs @ cs) \<subseteq> set (builds w)" using b by auto
  then have "ann_ok (w\<lparr>builds := bs @ cs\<rparr>)" using ok unfolding ann_ok_def cur by simp blast
  then show ?thesis by (simp add: fin)
next
  case True
  note D = ann_okD [OF ok]
  have "length (current w) \<le> 1" using D(4) by simp
  moreover have in_cur: "(t, s) \<in> set (current w)" using b True by (simp add: current_def)
  ultimately have cur1: "current w = [(t, s)]" by (cases "current w") auto
  then have none: "current ?w = []"
    using b True by (auto simp: current_def ann_finish_def Let_def append_eq_Cons_conv filter_empty_conv split: option.splits)
  have gen: "generation (ann ?w) = generation (ann w)" "building (ann ?w) = False" "seq (ann ?w) = seq (ann w)"
    using True by (simp_all add: ann_finish_def Let_def split: option.splits)
  show ?thesis
  proof (rule ann_okI)
    show "0 < k \<and> k \<le> seq (ann ?w)" if "bt_get (changed_at (ann ?w)) j = Some k" for j k
      using that D(1) [of j k] True
      by (auto simp: ann_finish_def Let_def bt_get_filter split: option.splits if_splits)
    show "tracked_in ?w 0 x" if x: "built (ann ?w) = Some x" for x
    proof (cases index)
      case None
      with x D(2) [of x] True show ?thesis by (simp add: ann_finish_def tracked_in_def)
    next
      case (Some y)
      with x True i have "s = Some x" by (simp add: ann_finish_def)
      with D(6) [of t x] in_cur have "tracked_in w (tk_seq t) x" by simp
      from tracked_in_finish [OF this] Some True show ?thesis by (simp add: ann_finish_def Let_def)
    qed
  qed (use D(3) b none gen in auto)
qed

lemma ann_ok_step: "\<lbrakk>ann_step least w w'; ann_ok w\<rbrakk> \<Longrightarrow> ann_ok w'"
proof (induction rule: ann_step.induct)
  case (Put w i v)
  then show ?case by (rule ann_ok_same) (auto intro: tracked_in_commit)
next
  case (Take w i)
  then show ?case by (rule ann_ok_same) (auto intro: tracked_in_commit)
next
  case (Snapshot w bs t cs)
  note D = ann_okD [OF Snapshot.prems]
  let ?w = "w\<lparr>builds := bs @ (t, Some (vectors w)) # cs\<rparr>"
  have cur: "(t', s) \<in> set (current ?w) \<Longrightarrow> (t', s) \<in> set (current w) \<or> (t' = t \<and> s = Some (vectors w) \<and> (t, None) \<in> set (current w))" for t' s
    using Snapshot.hyps by (auto simp: current_def)
  have "length (current ?w) = length (current w)" using Snapshot.hyps by (simp add: current_def)
  moreover have "tk_generation t' \<le> generation (ann w)" if "(t', s) \<in> set (builds ?w)" for t' s
    using that D(3) [of t'] Snapshot.hyps by auto
  ultimately show ?case using D
    by (intro ann_okI) (auto dest!: cur intro: tracked_in_self)
qed (auto intro: ann_ok_mark ann_ok_clear ann_ok_start ann_ok_finish ann_ok_same)

lemma ann_ok_reachable: "ann_reachable least w \<Longrightarrow> ann_ok w"
proof (induction rule: ann_reachable.induct)
  case (New vs)
  show ?case by (rule ann_okI) (auto simp: world_new_def ann_new_def current_def)
qed (rule ann_ok_step)

section \<open>Properties\<close>

text \<open>
  C36: A search misses no vector and uses no stale one. In every state the writers, resets and background
  builds can reach, when every commit has been marked and no reset is half done, the vectors a search sees,
  those of the index whose ids are not marked and the table's for the ids that are, are exactly the table's
  current vectors.
\<close>

theorem search_sees_table:
  assumes "ann_reachable least w" "unmarked w = []" "clearing w = 0" "built (ann w) = Some b"
  shows "(bt_get b i = Some v \<and> \<not> bt_has (changed_at (ann w)) i) \<or>
     (i \<in> set (bt_keys (changed_at (ann w))) \<and> bt_get (vectors w) i = Some v) \<longleftrightarrow> bt_get (vectors w) i = Some v"
proof -
  have "tracked_in w 0 b" by (rule ann_okD(2) [OF ann_ok_reachable [OF assms(1)] assms(4)])
  with assms(2,3) have "bt_get (vectors w) i = bt_get b i \<or> bt_has (changed_at (ann w)) i"
    by (auto simp: tracked_in_def bt_has_def)
  then show ?thesis by (auto simp: bt_keys_iff)
qed

text \<open>A build that starts while a vector is marked and finishes with the vector it saw.\<close>

definition ex_world :: "nat ann_world" where
  "ex_world = \<lparr>vectors = bt_insert (I64 1) 7 bt_empty, ann = ann_new\<lparr>built := Some (bt_insert (I64 1) 7 bt_empty)\<rparr>, unmarked = [],
     clearing = 0, builds = []\<rparr>"

lemma ex_world_reachable: "ann_reachable 1 ex_world"
proof -
  let ?t = "\<lparr>tk_generation = 0, tk_seq = 0\<rparr>" and ?v = "bt_insert (I64 1) (7 :: nat) bt_empty"
  let ?w1 = "world_new ?v"
  let ?w2 = "?w1\<lparr>ann := ann_new\<lparr>building := True\<rparr>, builds := [(?t, None)]\<rparr>"
  let ?w3 = "?w2\<lparr>builds := [(?t, Some ?v)]\<rparr>"
  have "ann_step 1 ?w1 (?w1\<lparr>ann := ann_new\<lparr>building := True\<rparr>, builds := builds ?w1 @ [(?t, None)]\<rparr>)"
    by (rule ann_step.Start [of 1 1]) (simp add: world_new_def ann_start_def ann_new_def)
  then have 2: "ann_step 1 ?w1 ?w2" by (simp add: world_new_def)
  have "ann_step 1 ?w2 (?w2\<lparr>builds := [] @ (?t, Some (vectors ?w2)) # []\<rparr>)" by (rule ann_step.Snapshot) simp
  then have 3: "ann_step 1 ?w2 ?w3" by (simp add: world_new_def)
  have "ann_step 1 ?w3 (?w3\<lparr>builds := [] @ [], ann := ann_finish ?t (Some ?v) (ann ?w3)\<rparr>)" by (rule ann_step.Finish) simp
  moreover have "bt_filter P bt_empty = bt_empty" for P :: "i64 \<times> nat \<Rightarrow> bool" by (simp add: bt_eq_iff bt_get_filter)
  ultimately have 4: "ann_step 1 ?w3 ex_world" by (simp add: world_new_def ex_world_def ann_finish_def ann_new_def)
  show ?thesis
    by (rule ann_reachable.Step [OF ann_reachable.Step [OF ann_reachable.Step [OF ann_reachable.New 2] 3] 4])
qed

theorem search_sees_table_witness: "bt_get (bt_insert (I64 1) 7 bt_empty) (I64 1) = Some (7 :: nat) \<and> built (ann ex_world) \<noteq> None"
  using search_sees_table [OF ex_world_reachable, of "bt_insert (I64 1) 7 bt_empty" "I64 1" 7] by (simp add: ex_world_def)

end
