(* ===== verification/Retrieve.thy ===== *)
theory Retrieve
  imports Effects Text Ann
begin

text \<open>
  The retrieval store (\<open>sapphire-framework-retrieve/src/redb_store.rs\<close>, \<open>retrieve_store.rs\<close>,
  \<open>vector_store.rs\<close>): its tables, the full-text writer and the operations on documents and vectors. A
  transaction of redb happens as a whole or fails; the JSON of the records is not modelled. Tantivy is
  another crate: its index is modelled by the operations that were committed to it, in order, and what a
  search finds in them is a parameter of \<open>Search\<close>.
\<close>

section \<open>Documents\<close>

type_synonym f32 = u32
type_synonym fvec = "f32 list"

datatype doc_kind = TextDoc | Image string

record document =
  doc_id :: i64
  body :: string
  doc_path :: string
  kind :: doc_kind

record doc_record =
  r_path :: string
  r_text :: string
  r_kind :: doc_kind

text \<open>What a vector is computed from.\<close>

datatype content = TextContent string | ImageContent string

definition embeddable :: "doc_record \<Rightarrow> bool" where
  "embeddable r = (case r_kind r of TextDoc \<Rightarrow> trim (r_text r) \<noteq> '''' | Image _ \<Rightarrow> True)"

definition content_of :: "doc_kind \<Rightarrow> string \<Rightarrow> content" where
  "content_of k t = (case k of TextDoc \<Rightarrow> TextContent t | Image h \<Rightarrow> ImageContent h)"

definition record_of :: "document \<Rightarrow> doc_record" where
  "record_of d = \<lparr>r_path = doc_path d, r_text = body d, r_kind = kind d\<rparr>"

section \<open>Vectors as bytes\<close>

definition vkey :: "i64 \<Rightarrow> bytes" where
  "vkey i = i64_to_le i"

definition vkey_parse :: "bytes \<Rightarrow> i64 option" where
  "vkey_parse b = (if length b < 8 then None else Some (i64_from_le (take 8 b)))"

definition vec_serialize :: "fvec \<Rightarrow> bytes" where
  "vec_serialize v = concat (map (\<lambda>f. le_bytes 4 (unat f)) v)"

fun vec_deserialize :: "bytes \<Rightarrow> fvec" where
  "vec_deserialize (a # b # c # d # bs) = of_nat (le_value [a, b, c, d]) # vec_deserialize bs"
| "vec_deserialize _ = []"

lemma vkey_roundtrip [simp]: "vkey_parse (vkey i) = Some i"
  by (simp add: vkey_def vkey_parse_def)

lemma vkey_inj [simp]: "vkey i = vkey j \<longleftrightarrow> i = j"
  by (metis vkey_roundtrip option.inject)

lemma vec_roundtrip [simp]: "vec_deserialize (vec_serialize v) = v"
proof (induction v)
  case (Cons f v)
  have "length (le_bytes 4 (unat f)) = Suc (Suc (Suc (Suc 0)))" by simp
  then obtain a b c d where bs: "le_bytes 4 (unat f) = [a, b, c, d]"
    by (auto simp only: length_Suc_conv length_0_conv)
  have "le_value (le_bytes 4 (unat f)) = unat f" by (rule le_value_unat) simp
  with bs have f: "of_nat (le_value [a, b, c, d]) = f" by simp
  have "vec_serialize (f # v) = a # b # c # d # vec_serialize v" by (simp only: vec_serialize_def list.map bs concat.simps append.simps)
  then show ?case using f Cons by (simp only: vec_deserialize.simps)
qed (simp add: vec_serialize_def)

section \<open>The store\<close>

datatype ret_error = RetRedb | RetTantivy | RetEmbed string | RetIo io_kind

text \<open>What the full-text writer is told; \<open>DeleteTerm\<close> deletes the documents of an id added before it.\<close>

datatype fts_op = DeleteTerm i64 | AddDoc i64 string

text \<open>
  The tables of \<open>docs.redb\<close> (of \<open>meta\<close>, the two entries about vectors), the committed and the buffered
  operations of the full-text index, and what the process keeps: the dimension, the images found bad and
  the approximate index. \<open>handed\<close> is what was given to the vector source, \<open>rs_step\<close> numbers the calls.
\<close>

record retrieve_db =
  documents :: "(i64, doc_record) btmap"
  vecs :: "(bytes, bytes) btmap"
  embedding_model :: "string option"
  embedding_dim :: "u32 option"
  fts_log :: "fts_op list"
  fts_buffer :: "fts_op list"
  dim :: "u32 option"
  bad_images :: "(i64 \<times> string) set"
  rs_ann :: "fvec ann_state"
  handed :: "(string \<times> content \<times> fvec) list"
  rs_step :: nat

text \<open>A call that may fail, with the error it gives.\<close>

definition db_call :: "(nat \<Rightarrow> bool) \<Rightarrow> ret_error \<Rightarrow> (retrieve_db, ret_error, unit) op" where
  "db_call fails e s = (if fails (rs_step s) then Inl e else Inr (), s\<lparr>rs_step := rs_step s + 1\<rparr>)"

text \<open>A read transaction.\<close>

definition db_read :: "(nat \<Rightarrow> bool) \<Rightarrow> (retrieve_db \<Rightarrow> 'a) \<Rightarrow> (retrieve_db, ret_error, 'a) op" where
  "db_read fails f s = thenE (db_call fails RetRedb) (reading f) s"

definition db_write :: "(nat \<Rightarrow> bool) \<Rightarrow> (retrieve_db \<Rightarrow> retrieve_db) \<Rightarrow> (retrieve_db, ret_error, unit) op" where
  "db_write fails f s = thenE (db_call fails RetRedb) (update f) s"

definition mark :: "i64 \<Rightarrow> retrieve_db \<Rightarrow> retrieve_db" where
  "mark i s = s\<lparr>rs_ann := ann_changed i (rs_ann s)\<rparr>"

definition get_doc :: "(nat \<Rightarrow> bool) \<Rightarrow> i64 \<Rightarrow> (retrieve_db, ret_error, doc_record option) op" where
  "get_doc fails i s = db_read fails (\<lambda>s. bt_get (documents s) i) s"

definition buffer :: "fts_op \<Rightarrow> retrieve_db \<Rightarrow> retrieve_db" where
  "buffer x s = s\<lparr>fts_buffer := fts_buffer s @ [x]\<rparr>"

definition reindex_fts :: "(nat \<Rightarrow> bool) \<Rightarrow> i64 \<Rightarrow> string \<Rightarrow> (retrieve_db, ret_error, unit) op" where
  "reindex_fts fails i t s =
     thenE (update (buffer (DeleteTerm i))) (thenE (db_call fails RetTantivy) (update (buffer (AddDoc i t)))) s"

definition put_document :: "bool \<Rightarrow> document \<Rightarrow> retrieve_db \<Rightarrow> retrieve_db" where
  "put_document drop_vector d s = s\<lparr>documents := bt_insert (doc_id d) (record_of d) (documents s),
     vecs := (if drop_vector then bt_remove (vkey (doc_id d)) (vecs s) else vecs s)\<rparr>"

definition upsert_document :: "(nat \<Rightarrow> bool) \<Rightarrow> document \<Rightarrow> (retrieve_db, ret_error, unit) op" where
  "upsert_document fails d s =
     bindE (get_doc fails (doc_id d)) (\<lambda>prev.
       let drop_vector = (case prev of None \<Rightarrow> True | Some p \<Rightarrow> r_text p \<noteq> body d \<or> r_kind p \<noteq> kind d) in
       thenE (db_write fails (put_document drop_vector d))
      (thenE (update (if drop_vector then mark (doc_id d) else id))
             (reindex_fts fails (doc_id d) (body d)))) s"

definition take_document :: "i64 \<Rightarrow> retrieve_db \<Rightarrow> retrieve_db" where
  "take_document i s = s\<lparr>documents := bt_remove i (documents s), vecs := bt_remove (vkey i) (vecs s)\<rparr>"

definition remove_document :: "(nat \<Rightarrow> bool) \<Rightarrow> i64 \<Rightarrow> (retrieve_db, ret_error, unit) op" where
  "remove_document fails i s =
     thenE (db_write fails (take_document i)) (thenE (update (mark i)) (update (buffer (DeleteTerm i)))) s"

text \<open>A commit that fails leaves the operations in the writer; then the reader is told to look again.\<close>

definition rebuild_fts :: "(nat \<Rightarrow> bool) \<Rightarrow> (retrieve_db, ret_error, unit) op" where
  "rebuild_fts fails s =
     thenE (db_call fails RetTantivy)
    (thenE (update (\<lambda>s. s\<lparr>fts_log := fts_log s @ fts_buffer s, fts_buffer := []\<rparr>)) (db_call fails RetTantivy)) s"

definition document_ids :: "(nat \<Rightarrow> bool) \<Rightarrow> (retrieve_db, ret_error, i64 list) op" where
  "document_ids fails s = db_read fails (\<lambda>s. bt_keys (documents s)) s"

definition document_count :: "(nat \<Rightarrow> bool) \<Rightarrow> (retrieve_db, ret_error, u64) op" where
  "document_count fails s = db_read fails (\<lambda>s. of_nat (size (documents s))) s"

section \<open>Vectors\<close>

definition set_dim :: "(nat \<Rightarrow> bool) \<Rightarrow> u32 \<Rightarrow> (retrieve_db, ret_error, unit) op" where
  "set_dim fails d s = thenE (db_write fails (\<lambda>s. s\<lparr>embedding_dim := Some d\<rparr>)) (update (\<lambda>s. s\<lparr>dim := Some d\<rparr>)) s"

definition configure_vectors :: "(nat \<Rightarrow> bool) \<Rightarrow> string \<Rightarrow> u32 \<Rightarrow> (retrieve_db, ret_error, unit) op" where
  "configure_vectors fails model d s =
     thenE (bindE (reading (\<lambda>s. \<not> (embedding_model s = Some model \<and> embedding_dim s = Some d))) (\<lambda>changed.
       if changed then
         thenE (db_write fails (\<lambda>s. s\<lparr>vecs := bt_empty, embedding_model := Some model, embedding_dim := Some d\<rparr>))
               (update (\<lambda>s. s\<lparr>rs_ann := ann_clear (rs_ann s)\<rparr>))
       else db_call fails RetRedb))
     (update (\<lambda>s. s\<lparr>dim := Some d\<rparr>)) s"

definition insert_vectors :: "(i64 \<times> fvec) list \<Rightarrow> (bytes, bytes) btmap \<Rightarrow> (bytes, bytes) btmap" where
  "insert_vectors vs m = foldl (\<lambda>m (i, v). bt_insert (vkey i) (vec_serialize v) m) m vs"

text \<open>A vector whose length is not the dimension is dropped; every id given is marked.\<close>

definition put_vectors :: "(nat \<Rightarrow> bool) \<Rightarrow> (i64 \<times> fvec) list \<Rightarrow> (retrieve_db, ret_error, nat) op" where
  "put_vectors fails vs s =
     (if vs = [] then ret 0
      else bindE (reading dim) (\<lambda>d. case d of
        None \<Rightarrow> ret 0
      | Some want \<Rightarrow>
          let fit = filter (\<lambda>(_, v). length v = unat want) vs in
          thenE (db_write fails (\<lambda>s. s\<lparr>vecs := insert_vectors fit (vecs s)\<rparr>))
         (thenE (update (fold (\<lambda>(i, _). mark i) vs)) (ret (length fit))))) s"

section \<open>Opening\<close>

text \<open>
  What a process leaves behind when it ends: the tables and the committed operations. Opening the store
  again with nothing wrong with the files starts from them; \<open>with_dim\<close> is the dimension asked for.
\<close>

definition reopen :: "(nat \<Rightarrow> bool) \<Rightarrow> u32 option \<Rightarrow> (retrieve_db, ret_error, unit) op" where
  "reopen fails with_dim s =
     thenE (update (\<lambda>s. s\<lparr>fts_buffer := [], dim := with_dim, bad_images := {}, rs_ann := ann_new, handed := []\<rparr>))
     (case with_dim of
        Some d \<Rightarrow> db_write fails (\<lambda>s. s\<lparr>embedding_dim := Some d\<rparr>)
      | None \<Rightarrow> bindE (db_read fails embedding_dim) (\<lambda>d. case d of
          None \<Rightarrow> ret ()
        | Some d \<Rightarrow> update (\<lambda>s. s\<lparr>dim := Some d\<rparr>))) s"

record vec_info =
  vi_dim :: u32
  vi_count :: nat
  vi_pending :: nat

definition vec_info :: "(nat \<Rightarrow> bool) \<Rightarrow> (retrieve_db, ret_error, vec_info) op" where
  "vec_info fails s = bindE (reading dim) (\<lambda>d. case d of
     None \<Rightarrow> ret \<lparr>vi_dim = 0, vi_count = 0, vi_pending = 0\<rparr>
   | Some d \<Rightarrow> db_read fails (\<lambda>s.
       let n = length (filter (\<lambda>(_, r). embeddable r) (entries (documents s))) in
       \<lparr>vi_dim = d, vi_count = size (vecs s), vi_pending = n - size (vecs s)\<rparr>)) s"


section \<open>What the operations do\<close>

lemma db_call_run: "db_call fails e s = (if fails (rs_step s) then Inl e else Inr (), s\<lparr>rs_step := rs_step s + 1\<rparr>)"
  by (simp add: db_call_def)

lemma db_read_run: "db_read fails f s =
    (if fails (rs_step s) then Inl RetRedb else Inr (f (s\<lparr>rs_step := rs_step s + 1\<rparr>)), s\<lparr>rs_step := rs_step s + 1\<rparr>)"
  by (simp add: db_read_def thenE_def bindE_def db_call_run)

lemma db_write_run: "db_write fails f s =
    (if fails (rs_step s) then (Inl RetRedb, s\<lparr>rs_step := rs_step s + 1\<rparr>) else (Inr (), f (s\<lparr>rs_step := rs_step s + 1\<rparr>)))"
  by (simp add: db_write_def thenE_def bindE_def db_call_run)

lemmas db_runs = db_call_run db_read_run db_write_run

text \<open>What is kept of the tables; the marks, buffers and counters are not looked at.\<close>

definition same_tables :: "retrieve_db \<Rightarrow> retrieve_db \<Rightarrow> bool" where
  "same_tables s t \<longleftrightarrow> documents t = documents s \<and> vecs t = vecs s \<and> embedding_model t = embedding_model s \<and>
     embedding_dim t = embedding_dim s \<and> dim t = dim s"

lemma mark_fields [simp]: "documents (mark i s) = documents s" "vecs (mark i s) = vecs s"
  "embedding_model (mark i s) = embedding_model s" "embedding_dim (mark i s) = embedding_dim s" "dim (mark i s) = dim s"
  "fts_log (mark i s) = fts_log s" "fts_buffer (mark i s) = fts_buffer s" "handed (mark i s) = handed s"
  "rs_step (mark i s) = rs_step s"
  by (simp_all add: mark_def)

lemma buffer_fields [simp]: "documents (buffer x s) = documents s" "vecs (buffer x s) = vecs s"
  "embedding_model (buffer x s) = embedding_model s" "embedding_dim (buffer x s) = embedding_dim s" "dim (buffer x s) = dim s"
  "fts_log (buffer x s) = fts_log s" "fts_buffer (buffer x s) = fts_buffer s @ [x]"
  "rs_step (buffer x s) = rs_step s"
  by (simp_all add: buffer_def)

definition new_vector :: "document \<Rightarrow> retrieve_db \<Rightarrow> bool" where
  "new_vector d s = (case bt_get (documents s) (doc_id d) of
     None \<Rightarrow> True | Some p \<Rightarrow> r_text p \<noteq> body d \<or> r_kind p \<noteq> kind d)"

lemma upsert_run:
  assumes "upsert_document fails d s = (r, t)"
  shows "fts_log t = fts_log s \<and> dim t = dim s \<and> embedding_dim t = embedding_dim s \<and> embedding_model t = embedding_model s \<and>
    (documents t = documents s \<and> vecs t = vecs s \<and> r \<noteq> Inr () \<or>
     documents t = documents (put_document (new_vector d s) d s) \<and> vecs t = vecs (put_document (new_vector d s) d s)) \<and>
    (r = Inr () \<longrightarrow> fts_buffer t = fts_buffer s @ [DeleteTerm (doc_id d), AddDoc (doc_id d) (body d)])"
  using assms
  by (auto simp: upsert_document_def get_doc_def reindex_fts_def bindE_def thenE_def db_runs Let_def new_vector_def put_document_def
      split: if_splits option.splits)

lemma remove_run:
  assumes "remove_document fails i s = (r, t)"
  shows "fts_log t = fts_log s \<and> dim t = dim s \<and> embedding_dim t = embedding_dim s \<and> embedding_model t = embedding_model s \<and>
    documents t = (if r = Inr () then bt_remove i (documents s) else documents s) \<and>
    vecs t = (if r = Inr () then bt_remove (vkey i) (vecs s) else vecs s) \<and>
    fts_buffer t = (if r = Inr () then fts_buffer s @ [DeleteTerm i] else fts_buffer s)"
  using assms
  by (auto simp: remove_document_def thenE_def bindE_def db_runs take_document_def split: if_splits)

lemma rebuild_run:
  assumes "rebuild_fts fails s = (r, t)"
  shows "same_tables s t \<and> fts_log t @ fts_buffer t = fts_log s @ fts_buffer s \<and> (r = Inr () \<longrightarrow> fts_buffer t = [])"
  using assms by (auto simp: rebuild_fts_def thenE_def bindE_def db_runs same_tables_def split: if_splits)

lemma document_ids_run:
  assumes "document_ids fails s = (r, t)"
  shows "t = s\<lparr>rs_step := rs_step s + 1\<rparr> \<and> (\<forall>ids. r = Inr ids \<longrightarrow> ids = bt_keys (documents s))"
  using assms by (auto simp: document_ids_def db_runs split: if_splits)

lemma document_count_run:
  assumes "document_count fails s = (r, t)"
  shows "t = s\<lparr>rs_step := rs_step s + 1\<rparr> \<and> (\<forall>n. r = Inr n \<longrightarrow> n = of_nat (size (documents s)))"
  using assms by (auto simp: document_count_def db_runs split: if_splits)

section \<open>The invariant of the vectors\<close>

text \<open>
  Every vector is that of a document with content and has the dimension the store is configured for.
\<close>

definition vectors_ok :: "retrieve_db \<Rightarrow> bool" where
  "vectors_ok s \<longleftrightarrow> (\<forall>d. dim s = Some d \<longrightarrow> embedding_dim s = Some d) \<and>
     (\<forall>k b. bt_get (vecs s) k = Some b \<longrightarrow>
       (\<exists>i v r d. k = vkey i \<and> b = vec_serialize v \<and> bt_get (documents s) i = Some r \<and> embeddable r \<and>
         embedding_dim s = Some d \<and> length v = unat d))"

lemma vectors_ok_same: "\<lbrakk>vectors_ok s; same_tables s t\<rbrakk> \<Longrightarrow> vectors_ok t"
  by (simp add: vectors_ok_def same_tables_def)

lemma upsert_vectors:
  assumes "upsert_document fails d s = (r, t)" "vectors_ok s"
  shows "vectors_ok t"
proof -
  note U = upsert_run [OF assms(1)]
  show ?thesis
  proof (cases "documents t = documents s \<and> vecs t = vecs s")
    case True
    with U have "same_tables s t" by (simp add: same_tables_def)
    with assms(2) show ?thesis by (rule vectors_ok_same)
  next
    case False
    let ?p = "put_document (new_vector d s) d s"
    from False U have t: "documents t = documents ?p" "vecs t = vecs ?p" by blast+
    show ?thesis unfolding vectors_ok_def
    proof (intro conjI allI impI)
      fix k b assume k: "bt_get (vecs t) k = Some b"
      then have "bt_get (vecs s) k = Some b" and new: "new_vector d s \<longrightarrow> k \<noteq> vkey (doc_id d)"
        by (auto simp: t put_document_def split: if_splits)
      then obtain i v r0 dd where old: "k = vkey i" "b = vec_serialize v" "bt_get (documents s) i = Some r0" "embeddable r0"
        "embedding_dim s = Some dd" "length v = unat dd" using assms(2) unfolding vectors_ok_def by meson
      have "\<exists>r. bt_get (documents t) i = Some r \<and> embeddable r"
      proof (cases "i = doc_id d")
        case True
        with new old(1,3) have "r_text r0 = body d" "r_kind r0 = kind d" by (auto simp: new_vector_def)
        with old(4) have "embeddable (record_of d)" by (simp add: embeddable_def record_of_def split: doc_kind.splits)
        with True show ?thesis by (simp add: t(1) put_document_def)
      next
        case False
        with old show ?thesis by (simp add: t(1) put_document_def)
      qed
      with old U show "\<exists>i v r d. k = vkey i \<and> b = vec_serialize v \<and> bt_get (documents t) i = Some r \<and> embeddable r \<and>
          embedding_dim t = Some d \<and> length v = unat d" by auto
    qed (use U assms(2) in \<open>simp add: vectors_ok_def\<close>)
  qed
qed

lemma remove_vectors:
  assumes "remove_document fails i s = (r, t)" "vectors_ok s"
  shows "vectors_ok t"
  using remove_run [OF assms(1)] assms(2) unfolding vectors_ok_def
  by (auto split: if_splits) (metis vkey_inj)+

lemma configure_run:
  assumes "configure_vectors fails model d s = (r, t)"
  shows "documents t = documents s \<and> fts_log t = fts_log s \<and> fts_buffer t = fts_buffer s \<and>
    (if r = Inr () then dim t = Some d \<and> embedding_dim t = Some d \<and> embedding_model t = Some model \<and>
       vecs t = (if embedding_model s = Some model \<and> embedding_dim s = Some d then vecs s else bt_empty)
     else same_tables s t)"
  using assms
  by (auto simp: configure_vectors_def thenE_def bindE_def db_runs same_tables_def split: if_splits)

lemma configure_vectors_ok: "\<lbrakk>configure_vectors fails model d s = (r, t); vectors_ok s\<rbrakk> \<Longrightarrow> vectors_ok t"
  using configure_run [of fails model d s r t] by (auto simp: vectors_ok_def same_tables_def split: if_splits)

lemma reopen_vectors_ok: "\<lbrakk>reopen fails None s = (Inr (), t); vectors_ok s\<rbrakk> \<Longrightarrow> vectors_ok t"
  by (auto simp: reopen_def thenE_def bindE_def db_runs vectors_ok_def split: if_splits option.splits)

lemma fold_mark_fields [simp]:
  "documents (fold (\<lambda>(i, _). mark i) vs s) = documents s" "vecs (fold (\<lambda>(i, _). mark i) vs s) = vecs s"
  "embedding_model (fold (\<lambda>(i, _). mark i) vs s) = embedding_model s" "embedding_dim (fold (\<lambda>(i, _). mark i) vs s) = embedding_dim s"
  "dim (fold (\<lambda>(i, _). mark i) vs s) = dim s" "handed (fold (\<lambda>(i, _). mark i) vs s) = handed s"
  "fts_log (fold (\<lambda>(i, _). mark i) vs s) = fts_log s" "fts_buffer (fold (\<lambda>(i, _). mark i) vs s) = fts_buffer s"
  by (induction vs arbitrary: s) auto

lemma insert_vectors_get:
  "bt_get (insert_vectors vs m) k = (case find (\<lambda>(i, _). vkey i = k) (rev vs) of Some (_, v) \<Rightarrow> Some (vec_serialize v) | None \<Rightarrow> bt_get m k)"
  by (induction vs arbitrary: m rule: rev_induct) (auto simp: insert_vectors_def split: prod.splits)

text \<open>The vectors of a list that fit the dimension.\<close>

definition fitting :: "u32 option \<Rightarrow> (i64 \<times> fvec) list \<Rightarrow> (i64 \<times> fvec) list" where
  "fitting d vs = (case d of None \<Rightarrow> [] | Some want \<Rightarrow> filter (\<lambda>(_, v). length v = unat want) vs)"

lemma put_vectors_run:
  assumes "put_vectors fails vs s = (r, t)"
  shows "documents t = documents s \<and> dim t = dim s \<and> embedding_dim t = embedding_dim s \<and> embedding_model t = embedding_model s \<and>
    handed t = handed s \<and>
    (case r of Inr n \<Rightarrow> vecs t = insert_vectors (fitting (dim s) vs) (vecs s) \<and> n = length (fitting (dim s) vs)
     | Inl _ \<Rightarrow> vecs t = vecs s)"
proof (cases "vs = [] \<or> dim s = None")
  case True
  then have "r = Inr 0" "t = s" using assms by (cases "vs = []"; simp add: put_vectors_def bindE_def)+
  with True show ?thesis by (auto simp: fitting_def insert_vectors_def split: option.splits)
next
  case False
  with assms show ?thesis
    by (auto simp: put_vectors_def thenE_def bindE_def db_runs fitting_def Let_def split: if_splits)
qed

lemma insert_vectors_origin:
  "bt_get (insert_vectors vs m) k = Some b \<Longrightarrow>
   (\<exists>i v. (i, v) \<in> set vs \<and> k = vkey i \<and> b = vec_serialize v) \<or> bt_get m k = Some b"
proof (cases "find (\<lambda>(i, _). vkey i = k) (rev vs)")
  case (Some iv)
  obtain i v where iv: "iv = (i, v)" by (cases iv)
  obtain n where "n < length (rev vs)" "rev vs ! n = (i, v)" "vkey i = k"
    using Some unfolding iv find_Some_iff by auto
  then have "(i, v) \<in> set vs" "vkey i = k" using nth_mem [of n "rev vs"] by simp_all
  moreover assume "bt_get (insert_vectors vs m) k = Some b"
  ultimately show ?thesis using Some iv by (auto simp: insert_vectors_get)
qed (simp add: insert_vectors_get)

lemma put_vectors_ok:
  assumes "put_vectors fails vs s = (r, t)" "vectors_ok s"
    and "\<And>i v. (i, v) \<in> set vs \<Longrightarrow> \<exists>r. bt_get (documents s) i = Some r \<and> embeddable r"
  shows "vectors_ok t"
proof -
  note P = put_vectors_run [OF assms(1)]
  have d: "dim t = dim s" "embedding_dim t = embedding_dim s" "documents t = documents s" using P by auto
  show ?thesis unfolding vectors_ok_def d
  proof (intro conjI allI impI)
    fix k b assume "bt_get (vecs t) k = Some b"
    then consider "bt_get (vecs s) k = Some b"
      | i v where "(i, v) \<in> set (fitting (dim s) vs)" "k = vkey i" "b = vec_serialize v"
      using P by (cases r) (auto dest: insert_vectors_origin)
    then show "\<exists>i v r d. k = vkey i \<and> b = vec_serialize v \<and> bt_get (documents s) i = Some r \<and> embeddable r \<and>
        embedding_dim s = Some d \<and> length v = unat d"
    proof cases
      case 2
      then obtain w where "dim s = Some w" "(i, v) \<in> set vs" "length v = unat w"
        by (cases "dim s") (auto simp: fitting_def)
      moreover from this assms(3) obtain r where "bt_get (documents s) i = Some r" "embeddable r" by blast
      moreover have "embedding_dim s = Some w" using \<open>dim s = Some w\<close> assms(2) by (simp add: vectors_ok_def)
      ultimately show ?thesis using 2(2,3) by blast
    qed (use assms(2) in \<open>auto simp: vectors_ok_def\<close>)
  qed (use assms(2) in \<open>auto simp: vectors_ok_def\<close>)
qed

text \<open>With the invariant, the number of vectors still missing is reported exactly.\<close>

definition lacking :: "retrieve_db \<Rightarrow> (i64 \<times> doc_record) list" where
  "lacking s = filter (\<lambda>(i, r). embeddable r \<and> \<not> bt_has (vecs s) (vkey i)) (entries (documents s))"

lemma filter_parts: "length (filter (\<lambda>(_, r). P r) xs) =
    length (filter (\<lambda>(i, r). P r \<and> Q i) xs) + length (filter (\<lambda>(i, r). P r \<and> \<not> Q i) xs)"
  by (induction xs) auto

lemma count_vectors:
  assumes "vectors_ok s"
  shows "length (filter (\<lambda>(_, r). embeddable r) (entries (documents s))) = size (vecs s) + length (lacking s)"
proof -
  let ?has = "filter (\<lambda>(i, r). embeddable r \<and> bt_has (vecs s) (vkey i)) (entries (documents s))"
  have "length (filter (\<lambda>(_, r). embeddable r) (entries (documents s))) = length ?has + length (lacking s)"
    unfolding lacking_def by (rule filter_parts)
  moreover have "size (vecs s) = length ?has"
  proof -
    have "distinct (map fst ?has)"
      using bt_entries_distinct [of "documents s"] by (rule distinct_map_filter)
    then have "length ?has = card (fst ` set ?has)" using distinct_card [of "map fst ?has"] by simp
    also have "\<dots> = card (vkey ` fst ` set ?has)" by (rule card_image [symmetric]) (auto simp: inj_on_def)
    also have "vkey ` fst ` set ?has = fst ` set (entries (vecs s))"
    proof -
      have "k \<in> vkey ` fst ` set ?has \<longleftrightarrow> bt_has (vecs s) k" for k
      proof
        assume "bt_has (vecs s) k"
        then obtain b where "bt_get (vecs s) k = Some b" by (auto simp: bt_has_def)
        then obtain i r where i: "k = vkey i" "bt_get (documents s) i = Some r" "embeddable r"
          using assms unfolding vectors_ok_def by meson
        with \<open>bt_has (vecs s) k\<close> have "(i, r) \<in> set ?has" by (simp add: bt_entries_iff)
        then show "k \<in> vkey ` fst ` set ?has" unfolding i(1) by (intro imageI) force
      qed auto
      moreover have "fst ` set (entries (vecs s)) = {k. bt_has (vecs s) k}"
        using bt_keys_iff [of _ "vecs s"] by (auto simp: bt_keys_def)
      ultimately show ?thesis by blast
    qed
    also have "card (fst ` set (entries (vecs s))) = size (vecs s)"
      using distinct_card [OF bt_entries_distinct [of "vecs s"]] by (simp add: size_btmap_def)
    finally show ?thesis by simp
  qed
  ultimately show ?thesis by simp
qed

lemma vec_info_run:
  assumes "vec_info fails s = (Inr v, t)" "vectors_ok s" "dim s = Some d"
  shows "v = \<lparr>vi_dim = d, vi_count = size (vecs s), vi_pending = length (lacking s)\<rparr>"
  using assms by (auto simp: vec_info_def bindE_def db_runs count_vectors Let_def split: if_splits)

end
