(* ===== verification/Embedding.thy ===== *)
theory Embedding
  imports Retrieve "HOL-Library.Multiset"
begin

text \<open>
  Giving documents their vectors: \<open>embed_pending\<close> of
  \<open>sapphire-framework-retrieve/src/redb_store.rs\<close>. The embedder and the vector source are traits others
  implement and parameters here; an answer of the embedder may depend on the number of the call. What is
  reported as progress is not modelled.
\<close>

section \<open>The parameters\<close>

record embedder =
  em_images :: bool
  em_texts :: "nat \<Rightarrow> string list \<Rightarrow> ret_error + fvec list"
  em_pictures :: "nat \<Rightarrow> bytes list \<Rightarrow> ret_error + fvec list"

record vector_source =
  vs_find :: "string \<Rightarrow> content \<Rightarrow> fvec option"
  vs_may_embed :: "string \<Rightarrow> content \<Rightarrow> bool"
  vs_batch_size :: nat

text \<open>\<open>db_fails\<close> and \<open>read_file\<close> say which calls on the database and on files fail.\<close>

record embed_env =
  db_fails :: "nat \<Rightarrow> bool"
  read_file :: "nat \<Rightarrow> string \<Rightarrow> io_kind + bytes"

record pending =
  pd_id :: i64
  pd_path :: string
  pd_text :: string
  pd_kind :: doc_kind

definition pd_content :: "pending \<Rightarrow> content" where
  "pd_content p = content_of (pd_kind p) (pd_text p)"

definition ask :: "(nat \<Rightarrow> ret_error + 'a) \<Rightarrow> (retrieve_db, ret_error, 'a) op" where
  "ask f s = (f (rs_step s), s\<lparr>rs_step := rs_step s + 1\<rparr>)"

section \<open>What is pending\<close>

definition pending_of :: "retrieve_db \<Rightarrow> pending list" where
  "pending_of s = [\<lparr>pd_id = i, pd_path = r_path r, pd_text = r_text r, pd_kind = r_kind r\<rparr>.
     (i, r) \<leftarrow> entries (documents s), embeddable r \<and> \<not> bt_has (vecs s) (vkey i)]"

text \<open>One pending document is found, to be computed as a text or as an image, or left.\<close>

definition sort_out :: "embedder \<Rightarrow> vector_source \<Rightarrow> (i64 \<times> string) set \<Rightarrow> pending \<Rightarrow>
    (i64 \<times> fvec) list \<times> pending list \<times> pending list \<Rightarrow> (i64 \<times> fvec) list \<times> pending list \<times> pending list" where
  "sort_out em src bad p acc = (case acc of (found, texts, images) \<Rightarrow>
     (case vs_find src (pd_path p) (pd_content p) of
        Some v \<Rightarrow> (found @ [(pd_id p, v)], texts, images)
      | None \<Rightarrow>
          if vs_may_embed src (pd_path p) (pd_content p) then
            (case pd_kind p of
               TextDoc \<Rightarrow> (found, texts @ [p], images)
             | Image h \<Rightarrow> if em_images em \<and> (pd_id p, h) \<notin> bad then (found, texts, images @ [p]) else acc)
          else acc))"

function chunks :: "nat \<Rightarrow> 'a list \<Rightarrow> 'a list list" where
  "chunks n xs = (if n = 0 \<or> xs = [] then [] else take n xs # chunks n (drop n xs))"
  by pat_completeness auto

termination
  by (relation "measure (\<lambda>(_, xs). length xs)") auto

declare chunks.simps [simp del]

definition IMAGE_BATCH :: nat where
  "IMAGE_BATCH = 4"

section \<open>Embedding a batch\<close>

text \<open>\<open>embed_one\<close>: an answer of any other number than one vector is an error.\<close>

definition embed_one :: "embed_env \<Rightarrow> embedder \<Rightarrow> pending \<Rightarrow> (retrieve_db, ret_error, fvec) op" where
  "embed_one E em p s =
     bindE (case pd_kind p of
         TextDoc \<Rightarrow> ask (\<lambda>k. em_texts em k [pd_text p])
       | Image _ \<Rightarrow> bindE (ask (\<lambda>k. case read_file E k (pd_path p) of Inl e \<Rightarrow> Inl (RetIo e) | Inr b \<Rightarrow> Inr b)) (\<lambda>b.
           ask (\<lambda>k. em_pictures em k [b])))
     (\<lambda>vs. case vs of [v] \<Rightarrow> ret v | _ \<Rightarrow> throw (RetEmbed ''embedder returned another number of vectors for 1 input'')) s"

text \<open>One after another: the vectors made and the last error; logging a failure reads the document.\<close>

fun embed_each :: "embed_env \<Rightarrow> embedder \<Rightarrow> pending list \<Rightarrow> (i64 \<times> fvec) list \<times> ret_error option \<Rightarrow>
    (retrieve_db, ret_error, (i64 \<times> fvec) list \<times> ret_error option) op" where
  "embed_each E em [] acc s = ret acc s"
| "embed_each E em (p # ps) acc s =
     bindE (attempt (embed_one E em p)) (\<lambda>r. case r of
       Inr v \<Rightarrow> embed_each E em ps (fst acc @ [(pd_id p, v)], snd acc)
     | Inl e \<Rightarrow> thenE (get_doc (db_fails E) (pd_id p)) (embed_each E em ps (fst acc, Some e))) s"

definition bad_of :: "(i64 \<times> fvec) list \<Rightarrow> pending list \<Rightarrow> (i64 \<times> string) set" where
  "bad_of made ps = set [(pd_id p, h). p \<leftarrow> ps, h \<leftarrow> (case pd_kind p of Image h \<Rightarrow> [h] | TextDoc \<Rightarrow> []),
     \<not> list_ex (\<lambda>(i, _). i = pd_id p) made]"

text \<open>A batch: the vectors made, whether the provider is down, and the last error so far.\<close>

definition embed_batch :: "embed_env \<Rightarrow> embedder \<Rightarrow> pending list \<Rightarrow> ret_error option \<Rightarrow>
    (retrieve_db, ret_error, (i64 \<times> fvec) list \<times> bool \<times> ret_error option) op" where
  "embed_batch E em ps last_err s =
     bindE (if ps \<noteq> [] \<and> pd_kind (hd ps) = TextDoc
            then bindE (attempt (ask (\<lambda>k. em_texts em k (map pd_text ps)))) (\<lambda>r. ret (case r of Inl _ \<Rightarrow> None | Inr vs \<Rightarrow> Some vs))
            else ret None) (\<lambda>all_at_once. case all_at_once of
       Some vs \<Rightarrow> ret (zip (map pd_id ps) vs, False, last_err)
     | None \<Rightarrow> bindE (embed_each E em ps ([], last_err)) (\<lambda>(made, err).
         if made = [] \<and> ps \<noteq> [] \<and> pd_kind (hd ps) \<noteq> TextDoc then
           bindE (attempt (ask (\<lambda>k. em_texts em k [''ok'']))) (\<lambda>r. case r of
             Inr _ \<Rightarrow> thenE (update (\<lambda>s. s\<lparr>bad_images := bad_images s \<union> bad_of made ps\<rparr>)) (ret (made, False, err))
           | Inl _ \<Rightarrow> ret (made, True, err))
         else ret (made, made = [], err))) s"

text \<open>What the index holds now is handed on to the source.\<close>

definition hand_on :: "pending list \<Rightarrow> (i64 \<times> fvec) list \<Rightarrow> retrieve_db \<Rightarrow> retrieve_db" where
  "hand_on ps vs s =
     (let want = (case dim s of None \<Rightarrow> 0 | Some d \<Rightarrow> unat d) in
      s\<lparr>handed := handed s @ [(pd_path p, pd_content p, v). (i, v) \<leftarrow> vs, length v = want, p \<leftarrow> ps, pd_id p = i]\<rparr>)"

text \<open>The body of the loop: a batch, stored and handed on.\<close>

definition batch_step :: "embed_env \<Rightarrow> embedder \<Rightarrow> pending list \<Rightarrow> ret_error option \<Rightarrow>
    (retrieve_db, ret_error, nat \<times> bool \<times> ret_error option) op" where
  "batch_step E em ps err s =
     bindE (embed_batch E em ps err) (\<lambda>(vs, outage, err).
     bindE (put_vectors (db_fails E) vs) (\<lambda>k.
     thenE (update (hand_on ps vs)) (ret (k, outage, err)))) s"

text \<open>The loop over the batches: how many were embedded, the last error, and whether it broke off.\<close>

fun embed_batches :: "embed_env \<Rightarrow> embedder \<Rightarrow> pending list list \<Rightarrow> nat \<Rightarrow> ret_error option \<Rightarrow>
    (retrieve_db, ret_error, nat \<times> ret_error option \<times> bool) op" where
  "embed_batches E em [] n err s = ret (n, err, False) s"
| "embed_batches E em (ps # pss) n err s =
     bindE (batch_step E em ps err) (\<lambda>(k, outage, err).
       if outage then ret (n + k, err, True) else embed_batches E em pss (n + k) err) s"

definition embed_pending :: "embed_env \<Rightarrow> embedder \<Rightarrow> vector_source \<Rightarrow> (retrieve_db, ret_error, nat) op" where
  "embed_pending E em src s =
     bindE (reading dim) (\<lambda>d. if d = None then ret 0 else
     bindE (db_read (db_fails E) pending_of) (\<lambda>pend.
     bindE (reading bad_images) (\<lambda>bad.
       case fold (sort_out em src bad) pend ([], [], []) of (found, texts, images) \<Rightarrow>
       bindE (put_vectors (db_fails E) found) (\<lambda>n.
       let size = max 1 (vs_batch_size src) in
       bindE (embed_batches E em (chunks size texts @ chunks (min size IMAGE_BATCH) images) n None) (\<lambda>(embedded, err, broke).
         if broke then throw (case err of None \<Rightarrow> RetEmbed ''the embedding provider went down'' | Some e \<Rightarrow> e)
         else (case err of
           Some e \<Rightarrow> if embedded = 0 then throw e else ret embedded
         | None \<Rightarrow> ret embedded)))))) s"


section \<open>What a batch gives\<close>

text \<open>Neither a table nor what was handed on changes.\<close>

definition quiet :: "retrieve_db \<Rightarrow> retrieve_db \<Rightarrow> bool" where
  "quiet s t \<longleftrightarrow> same_tables s t \<and> handed t = handed s"

interpretation quiet: step_relation quiet
  by unfold_locales (auto simp: quiet_def same_tables_def)

lemma ask_quiet: "keeps quiet (ask f)"
  by (simp add: keeps_def ask_def quiet_def same_tables_def)

lemma get_doc_quiet: "keeps quiet (get_doc fails i)"
  by (simp add: keeps_def get_doc_def db_read_run quiet_def same_tables_def)

lemma embed_one_quiet: "keeps quiet (embed_one E em p)"
  unfolding embed_one_def [abs_def]
  by (intro quiet.bindE_r) (auto intro!: quiet.bindE_r quiet.ret_r quiet.throw_r ask_quiet split: doc_kind.split list.split)

text \<open>The vectors made are for documents of the batch, each at most once.\<close>

lemma embed_each_run:
  "embed_each E em ps acc s = (r, t) \<Longrightarrow>
   quiet s t \<and> (\<forall>vs err. r = Inr (vs, err) \<longrightarrow> (\<exists>new. vs = fst acc @ new \<and> subseq (map fst new) (map pd_id ps)))"
proof (induction ps arbitrary: acc s)
  case Nil
  then show ?case by (auto simp: quiet.same)
next
  case (Cons p ps)
  obtain q u where one: "embed_one E em p s = (q, u)" by force
  have u: "quiet s u" by (rule keepsE [OF embed_one_quiet one])
  show ?case
  proof (cases q)
    case (Inr v)
    with Cons.prems one have "embed_each E em ps (fst acc @ [(pd_id p, v)], snd acc) u = (r, t)" by (simp add: runs)
    from Cons.IH [OF this] u show ?thesis by (auto intro: quiet.comp)
  next
    case (Inl e)
    obtain q' w where doc: "get_doc (db_fails E) (pd_id p) u = (q', w)" by force
    have w: "quiet u w" by (rule keepsE [OF get_doc_quiet doc])
    show ?thesis
    proof (cases q')
      case Inl': (Inl e')
      with Cons.prems one Inl doc show ?thesis using u w by (auto simp: runs intro: quiet.comp)
    next
      case (Inr x)
      with Cons.prems one Inl doc have "embed_each E em ps (fst acc, Some e) w = (r, t)" by (simp add: runs)
      from Cons.IH [OF this] u w show ?thesis by (auto intro: quiet.comp)
    qed
  qed
qed

lemma embed_each_quiet: "keeps quiet (embed_each E em ps acc)"
  by (rule keepsI) (metis embed_each_run prod.collapse)

lemma embed_batch_quiet: "keeps quiet (embed_batch E em ps err)"
  unfolding embed_batch_def [abs_def]
  by (intro quiet.bindE_r quiet.attempt_r keeps_control quiet.ret_r quiet.throw_r ask_quiet embed_each_quiet quiet.thenE_r quiet.update_r)
    (auto simp: quiet_def same_tables_def)

lemma embed_batch_ids:
  assumes "embed_batch E em ps err s = (Inr (vs, outage, err'), t)"
  shows "subseq (map fst vs) (map pd_id ps)"
proof -
  have zips: "subseq (map fst (zip (map pd_id ps) ws)) (map pd_id ps)" for ws :: "fvec list"
    by (simp add: map_fst_zip_take take_is_prefix prefix_imp_subseq)
  from assms show ?thesis unfolding embed_batch_def
    by (auto simp: run_simps zips split: if_splits option.splits sum.splits prod.splits dest!: embed_each_run)
      (metis sum.exhaust)
qed


section \<open>What the loop does\<close>

lemma subseq_sub: "subseq xs ys \<Longrightarrow> set xs \<subseteq> set ys"
  by (induction rule: list_emb.induct) auto

lemma subseq_distinct: "subseq xs ys \<Longrightarrow> distinct ys \<Longrightarrow> distinct xs"
  by (induction rule: list_emb.induct) (auto dest: list_emb_set)

text \<open>A document that waits for its vector, as the store has it.\<close>

definition waiting :: "retrieve_db \<Rightarrow> pending \<Rightarrow> bool" where
  "waiting s p \<longleftrightarrow> (\<exists>r. bt_get (documents s) (pd_id p) = Some r \<and> embeddable r \<and> \<not> bt_has (vecs s) (vkey (pd_id p)) \<and>
     pd_path p = r_path r \<and> pd_content p = content_of (r_kind r) (r_text r))"

text \<open>What was handed on is in the index, as the vector of the document it was handed on for.\<close>

definition indexed :: "retrieve_db \<Rightarrow> string \<times> content \<times> fvec \<Rightarrow> bool" where
  "indexed s = (\<lambda>(p, c, v). \<exists>i r. bt_get (documents s) i = Some r \<and> p = r_path r \<and> c = content_of (r_kind r) (r_text r) \<and>
     bt_get (vecs s) (vkey i) = Some (vec_serialize v))"

text \<open>
  The step of embedding: documents and configuration stay, vectors are only added, for the given ids, and
  only what is indexed is handed on.
\<close>

definition grows :: "i64 set \<Rightarrow> retrieve_db \<Rightarrow> retrieve_db \<Rightarrow> bool" where
  "grows I s t \<longleftrightarrow> documents t = documents s \<and> dim t = dim s \<and> embedding_dim t = embedding_dim s \<and>
     embedding_model t = embedding_model s \<and> (vectors_ok s \<longrightarrow> vectors_ok t) \<and>
     (\<forall>k b. bt_get (vecs s) k = Some b \<longrightarrow> bt_get (vecs t) k = Some b) \<and>
     (\<forall>k. bt_has (vecs t) k \<longrightarrow> bt_has (vecs s) k \<or> k \<in> vkey ` I) \<and>
     (\<exists>new. handed t = handed s @ new \<and> (\<forall>x \<in> set new. indexed t x))"

lemma grows_quiet: "quiet s t \<Longrightarrow> grows I s t"
  unfolding grows_def quiet_def by (auto simp: same_tables_def vectors_ok_def)

lemma grows_mono: "\<lbrakk>grows I s t; I \<subseteq> J\<rbrakk> \<Longrightarrow> grows J s t"
  unfolding grows_def by blast

lemma indexed_grows: "\<lbrakk>indexed s x; grows I s t\<rbrakk> \<Longrightarrow> indexed t x"
  unfolding indexed_def grows_def by (cases x) auto

lemma grows_comp:
  assumes "grows I s t" "grows I t u"
  shows "grows I s u"
proof -
  obtain n1 where n1: "handed t = handed s @ n1" "\<forall>x \<in> set n1. indexed t x" using assms(1) unfolding grows_def by blast
  obtain n2 where n2: "handed u = handed t @ n2" "\<forall>x \<in> set n2. indexed u x" using assms(2) unfolding grows_def by blast
  have "\<exists>new. handed u = handed s @ new \<and> (\<forall>x \<in> set new. indexed u x)"
    using n1 n2 indexed_grows [OF _ assms(2)] by (intro exI [of _ "n1 @ n2"]) auto
  then show ?thesis using assms unfolding grows_def by (intro conjI) (simp, simp, simp, simp, blast, blast, blast, blast)
qed

lemma waiting_grows: "\<lbrakk>waiting s p; grows I s t; pd_id p \<notin> I\<rbrakk> \<Longrightarrow> waiting t p"
  unfolding waiting_def grows_def by (auto simp: image_iff)


lemma size_card: "size m = card {k. bt_has m k}" for m :: "('k::linorder, 'v) btmap"
proof -
  have "size m = card (set (bt_keys m))"
    using distinct_card [OF bt_entries_distinct [of m]] by (simp add: size_btmap_def bt_keys_def)
  also have "set (bt_keys m) = {k. bt_has m k}" by (auto simp: bt_keys_iff)
  finally show ?thesis .
qed

lemma finite_has [simp]: "finite {k. bt_has m k}" for m :: "('k::linorder, 'v) btmap"
proof -
  have "{k. bt_has m k} = set (bt_keys m)" by (auto simp: bt_keys_iff)
  then show ?thesis by simp
qed

lemma size_insert_new: "\<not> bt_has m k \<Longrightarrow> size (bt_insert k v m) = size m + 1" for m :: "('k::linorder, 'v) btmap"
proof -
  assume new: "\<not> bt_has m k"
  have "{j. bt_has (bt_insert k v m) j} = insert k {j. bt_has m j}" by (auto simp: bt_has_def)
  with new show ?thesis by (simp add: size_card)
qed

lemma insert_vectors_distinct:
  assumes "distinct (map fst vs)" "\<forall>i \<in> fst ` set vs. \<not> bt_has m (vkey i)"
  shows "size (insert_vectors vs m) = size m + length vs \<and>
    (\<forall>(i, v) \<in> set vs. bt_get (insert_vectors vs m) (vkey i) = Some (vec_serialize v)) \<and>
    (\<forall>k. k \<notin> vkey ` fst ` set vs \<longrightarrow> bt_get (insert_vectors vs m) k = bt_get m k)"
  using assms
proof (induction vs arbitrary: m)
  case (Cons x vs)
  obtain i v where x: "x = (i, v)" by (cases x)
  let ?m = "bt_insert (vkey i) (vec_serialize v) m"
  have eq: "insert_vectors (x # vs) m = insert_vectors vs ?m" by (simp add: insert_vectors_def x)
  have i: "i \<notin> fst ` set vs" using Cons.prems(1) x by auto
  then have "\<forall>j \<in> fst ` set vs. \<not> bt_has ?m (vkey j)" using Cons.prems(2) by (auto simp: bt_has_def)
  note IH = Cons.IH [OF _ this]
  have "distinct (map fst vs)" using Cons.prems(1) by simp
  note IH = IH [OF this]
  have "size ?m = size m + 1" using Cons.prems(2) x by (intro size_insert_new) auto
  moreover have "vkey i \<notin> vkey ` fst ` set vs" using i by (metis imageE vkey_inj)
  then have "bt_get (insert_vectors vs ?m) (vkey i) = Some (vec_serialize v)" using IH by simp
  ultimately show ?case using IH unfolding eq by (auto simp: x)
qed (simp add: insert_vectors_def)

lemma fitting_sub: "set (fitting d vs) \<subseteq> set vs" "distinct (map fst vs) \<Longrightarrow> distinct (map fst (fitting d vs))"
  by (cases d; simp add: fitting_def distinct_map_filter)+

text \<open>Storing vectors for distinct documents that wait for one.\<close>

lemma put_vectors_grows:
  assumes "put_vectors fails vs s = (r, t)" "distinct (map fst vs)"
    and "\<And>i v. (i, v) \<in> set vs \<Longrightarrow> \<exists>p. waiting s p \<and> pd_id p = i"
  shows "grows (fst ` set vs) s t \<and> handed t = handed s \<and>
    (\<forall>n. r = Inr n \<longrightarrow> size (vecs t) = size (vecs s) + n \<and>
      (\<forall>(i, v) \<in> set (fitting (dim s) vs). bt_get (vecs t) (vkey i) = Some (vec_serialize v)))"
proof -
  note P = put_vectors_run [OF assms(1)]
  let ?f = "fitting (dim s) vs"
  have "\<exists>r. bt_get (documents s) i = Some r \<and> embeddable r" if "(i, v) \<in> set vs" for i v
    using assms(3) [OF that] by (auto simp: waiting_def)
  then have ok: "vectors_ok t" if "vectors_ok s" using put_vectors_ok [OF assms(1) that] by blast
  have new: "\<forall>i \<in> fst ` set ?f. \<not> bt_has (vecs s) (vkey i)"
    using assms(3) fitting_sub(1) [of "dim s" vs] by (fastforce simp: waiting_def)
  note I = insert_vectors_distinct [OF fitting_sub(2) [OF assms(2)] new]
  show ?thesis
  proof (cases r)
    case (Inl e)
    with P ok show ?thesis by (auto simp: grows_def)
  next
    case (Inr n)
    then have v: "vecs t = insert_vectors ?f (vecs s)" "n = length ?f" using P by auto
    have "bt_get (vecs t) k = Some b" if "bt_get (vecs s) k = Some b" for k b
    proof -
      have "k \<notin> vkey ` fst ` set ?f" using new that by (force simp: bt_has_def)
      with I that show ?thesis by (simp add: v)
    qed
    moreover have "bt_has (vecs s) k \<or> k \<in> vkey ` fst ` set vs" if "bt_has (vecs t) k" for k
    proof (cases "k \<in> vkey ` fst ` set ?f")
      case True
      with fitting_sub(1) [of "dim s" vs] show ?thesis by blast
    next
      case False
      with I that show ?thesis by (simp add: v bt_has_def)
    qed
    ultimately show ?thesis using P ok I Inr v by (auto simp: grows_def)
  qed
qed

lemma indexed_hand_on:
  assumes "\<And>i v. (i, v) \<in> set (fitting (dim s) vs) \<Longrightarrow> bt_get (vecs s) (vkey i) = Some (vec_serialize v)"
    and "\<And>p. p \<in> set ps \<Longrightarrow> \<exists>r. bt_get (documents s) (pd_id p) = Some r \<and> pd_path p = r_path r \<and> pd_content p = content_of (r_kind r) (r_text r)"
    and "dim s \<noteq> None"
  shows "grows {} s (hand_on ps vs s)"
proof -
  obtain d where d: "dim s = Some d" using assms(3) by blast
  let ?new = "[(pd_path p, pd_content p, v). (i, v) \<leftarrow> vs, length v = unat d, p \<leftarrow> ps, pd_id p = i]"
  have h: "hand_on ps vs s = s\<lparr>handed := handed s @ ?new\<rparr>" by (simp add: hand_on_def d)
  have "indexed s x" if "x \<in> set ?new" for x
  proof -
    from that obtain p v where x: "x = (pd_path p, pd_content p, v)" "(pd_id p, v) \<in> set vs" "length v = unat d" "p \<in> set ps"
      by auto
    then have "(pd_id p, v) \<in> set (fitting (dim s) vs)" by (simp add: d fitting_def)
    from assms(1) [OF this] assms(2) [OF x(4)] show ?thesis unfolding indexed_def x(1) by auto
  qed
  then have "\<forall>x \<in> set ?new. indexed (s\<lparr>handed := handed s @ ?new\<rparr>) x" by (simp add: indexed_def)
  then show ?thesis unfolding h grows_def by (auto simp: vectors_ok_def)
qed


text \<open>One batch, and what it adds to the index and to the source.\<close>

lemma batch_grows:
  assumes run: "batch_step E em ps err s = (r, t)"
    and wait: "\<forall>p \<in> set ps. waiting s p" and dist: "distinct (map pd_id ps)" and dim: "dim s \<noteq> None"
  shows "grows (pd_id ` set ps) s t \<and> (\<forall>k outage err. r = Inr (k, outage, err) \<longrightarrow> size (vecs t) = size (vecs s) + k)"
proof -
  note run = run [unfolded batch_step_def]
  let ?I = "pd_id ` set ps"
  obtain q u where b: "embed_batch E em ps err s = (q, u)" by force
  have quiet: "quiet s u" by (rule keepsE [OF embed_batch_quiet b])
  then have tab: "documents u = documents s" "vecs u = vecs s" "dim u = dim s" by (auto simp: quiet_def same_tables_def)
  show ?thesis
  proof (cases q)
    case (Inl e)
    with run b grows_quiet [OF quiet] show ?thesis by (auto simp: runs)
  next
    case (Inr x)
    obtain vs outage err' where x: "x = (vs, outage, err')" by (cases x)
    obtain q' w where p: "put_vectors (db_fails E) vs u = (q', w)" by force
    have sub: "subseq (map fst vs) (map pd_id ps)" using embed_batch_ids b Inr x by blast
    have ids: "fst ` set vs \<subseteq> ?I" using subseq_sub [OF sub] by simp
    have vw: "\<exists>p. waiting u p \<and> pd_id p = i" if "(i, v) \<in> set vs" for i v
    proof -
      from that ids obtain p where "p \<in> set ps" "pd_id p = i" by force
      moreover from this(1) wait tab have "waiting u p" by (simp add: waiting_def)
      ultimately show ?thesis by blast
    qed
    have G: "grows (fst ` set vs) u w \<and> handed w = handed u \<and> (\<forall>n. q' = Inr n \<longrightarrow> size (vecs w) = size (vecs u) + n \<and>
        (\<forall>(i, v) \<in> set (fitting (dim u) vs). bt_get (vecs w) (vkey i) = Some (vec_serialize v)))"
      by (rule put_vectors_grows [OF p subseq_distinct [OF sub dist]]) (rule vw)
    have sw: "grows ?I s w" using grows_comp [OF grows_quiet [OF quiet] grows_mono [OF conjunct1 [OF G] ids]] .
    show ?thesis
    proof (cases q')
      case Inl': (Inl e)
      with run b Inr x p sw show ?thesis by (auto simp: runs)
    next
      case Inr': (Inr k)
      with run b Inr x p have t: "t = hand_on ps vs w" "r = Inr (k, outage, err')" by (auto simp: runs thenE_def bindE_def)
      have w: "dim w = dim u" "documents w = documents u" using G by (auto simp: grows_def)
      have "grows {} w (hand_on ps vs w)"
      proof (rule indexed_hand_on)
        show "bt_get (vecs w) (vkey i) = Some (vec_serialize v)" if "(i, v) \<in> set (fitting (dim w) vs)" for i v
          using G that Inr' unfolding w by auto
        show "\<exists>r. bt_get (documents w) (pd_id p) = Some r \<and> pd_path p = r_path r \<and> pd_content p = content_of (r_kind r) (r_text r)"
          if "p \<in> set ps" for p
          using wait that unfolding w tab waiting_def by blast
      qed (use dim tab w in simp)
      then have "grows ?I s t" unfolding t(1) using grows_comp [OF sw] grows_mono by blast
      moreover have "size (vecs t) = size (vecs s) + k" using G Inr' tab t(1) by (simp add: hand_on_def Let_def)
      ultimately show ?thesis using t by simp
    qed
  qed
qed



lemma batches_grow:
  "\<lbrakk>embed_batches E em pss n err s = (r, t); \<forall>p \<in> set (concat pss). waiting s p; distinct (map pd_id (concat pss)); dim s \<noteq> None\<rbrakk> \<Longrightarrow>
   grows (pd_id ` set (concat pss)) s t \<and>
   (\<forall>m err broke. r = Inr (m, err, broke) \<longrightarrow> n \<le> m \<and> size (vecs t) = size (vecs s) + (m - n))"
proof (induction pss arbitrary: n err s)
  case Nil
  then show ?case by (auto simp: grows_quiet quiet.same)
next
  case (Cons ps pss)
  let ?I = "pd_id ` set (concat (ps # pss))"
  obtain q u where one: "batch_step E em ps err s = (q, u)" by force
  have G: "grows (pd_id ` set ps) s u \<and> (\<forall>k outage err. q = Inr (k, outage, err) \<longrightarrow> size (vecs u) = size (vecs s) + k)"
    by (rule batch_grows [OF one]) (use Cons.prems in auto)
  have "pd_id ` set ps \<subseteq> ?I" by auto
  with G have su: "grows ?I s u" by (blast intro: grows_mono)
  show ?case
  proof (cases q)
    case (Inl e)
    with Cons.prems(1) one su show ?thesis by (auto simp: runs)
  next
    case (Inr x)
    obtain k outage err' where x: "x = (k, outage, err')" by (cases x)
    have run: "(if outage then ret (n + k, err', True) else embed_batches E em pss (n + k) err') u = (r, t)"
      using Cons.prems(1) one Inr x by (simp add: bindE_def)
    show ?thesis
    proof (cases outage)
      case True
      with run su G Inr x show ?thesis by auto
    next
      case False
      have wait: "\<forall>p \<in> set (concat pss). waiting u p"
      proof
        fix p assume p: "p \<in> set (concat pss)"
        then have "pd_id p \<notin> pd_id ` set ps" using Cons.prems(3) by (auto simp: image_iff)
        with p Cons.prems(2) G show "waiting u p" by (auto intro: waiting_grows)
      qed
      have rest: "embed_batches E em pss (n + k) err' u = (r, t)" using run False by simp
      have "dim u \<noteq> None" "distinct (map pd_id (concat pss))" using Cons.prems(3,4) G by (auto simp: grows_def)
      note IH = Cons.IH [OF rest wait this(2,1)]
      moreover have "pd_id ` set (concat pss) \<subseteq> ?I" by auto
      ultimately have "grows ?I u t" by (blast intro: grows_mono)
      with su have "grows ?I s t" by (rule grows_comp)
      then show ?thesis using IH G Inr x by fastforce
    qed
  qed
qed


section \<open>The whole pass\<close>

lemma pending_of_iff: "p \<in> set (pending_of s) \<Longrightarrow> waiting s p"
  by (auto simp: pending_of_def waiting_def pd_content_def bt_entries_iff split: if_splits)

lemma picked_ids: "map pd_id [\<lparr>pd_id = i, pd_path = r_path r, pd_text = r_text r, pd_kind = r_kind r\<rparr>. (i, r) \<leftarrow> xs, P i r] =
    map fst (filter (\<lambda>(i, r). P i r) xs)"
  by (induction xs) auto

lemma pending_ids: "distinct (map pd_id (pending_of s))"
proof -
  have "map pd_id (pending_of s) = map fst (filter (\<lambda>(i, r). embeddable r \<and> \<not> bt_has (vecs s) (vkey i)) (entries (documents s)))"
    unfolding pending_of_def by (rule picked_ids)
  then show ?thesis using bt_entries_distinct [of "documents s"] by (simp add: distinct_map_filter)
qed

text \<open>The sorting keeps every document at most once and in one of the lists.\<close>

lemma mset_sub_distinct: "\<lbrakk>mset xs \<subseteq># mset ys; distinct ys\<rbrakk> \<Longrightarrow> distinct xs"
proof -
  assume sub: "mset xs \<subseteq># mset ys" and "distinct ys"
  then have "count (mset xs) a \<le> 1" for a
    using mset_subset_eq_count [OF sub, of a] by (auto simp: distinct_count_atmost_1 intro: order_trans)
  moreover have "a \<in> set xs \<Longrightarrow> 0 < count (mset xs) a" for a by simp
  ultimately show ?thesis unfolding distinct_count_atmost_1
    by (metis One_nat_def Suc_leI count_mset_0_iff le_antisym)
qed

lemma sort_out_split:
  "fold (sort_out em src bad) ps (found, texts, images) = (found', texts', images') \<Longrightarrow>
   \<exists>f t i. found' = found @ f \<and> texts' = texts @ t \<and> images' = images @ i \<and>
     mset (map fst f @ map pd_id t @ map pd_id i) \<subseteq># mset (map pd_id ps) \<and>
     set t \<union> set i \<subseteq> set ps \<and> fst ` set f \<subseteq> pd_id ` set ps"
proof (induction ps arbitrary: found texts images)
  case (Cons p ps)
  obtain f0 t0 i0 where step: "sort_out em src bad p (found, texts, images) = (found @ f0, texts @ t0, images @ i0)"
    "mset (map fst f0 @ map pd_id t0 @ map pd_id i0) \<subseteq># {#pd_id p#}" "set t0 \<union> set i0 \<subseteq> {p}" "fst ` set f0 \<subseteq> {pd_id p}"
  proof (rule that)
    let ?c = "sort_out em src bad p ([], [], [])"
    show "sort_out em src bad p (found, texts, images) = (found @ fst ?c, texts @ fst (snd ?c), images @ snd (snd ?c))"
      by (auto simp: sort_out_def split: option.split doc_kind.split)
  qed (auto simp: sort_out_def split: option.split doc_kind.split)
  from Cons.prems step(1) have "fold (sort_out em src bad) ps (found @ f0, texts @ t0, images @ i0) = (found', texts', images')" by simp
  from Cons.IH [OF this] obtain f t i where IH: "found' = (found @ f0) @ f" "texts' = (texts @ t0) @ t" "images' = (images @ i0) @ i"
    "mset (map fst f @ map pd_id t @ map pd_id i) \<subseteq># mset (map pd_id ps)" "set t \<union> set i \<subseteq> set ps" "fst ` set f \<subseteq> pd_id ` set ps" by blast
  have "mset (map fst (f0 @ f) @ map pd_id (t0 @ t) @ map pd_id (i0 @ i)) =
      mset (map fst f0 @ map pd_id t0 @ map pd_id i0) + mset (map fst f @ map pd_id t @ map pd_id i)" by (simp add: ac_simps)
  then have "mset (map fst (f0 @ f) @ map pd_id (t0 @ t) @ map pd_id (i0 @ i)) \<subseteq># mset (map pd_id (p # ps))"
    using subset_mset.add_mono [OF step(2) IH(4)] by (simp add: ac_simps)
  with IH step(3,4) show ?case
    by (intro exI [of _ "f0 @ f"] exI [of _ "t0 @ t"] exI [of _ "i0 @ i"]) auto
qed simp

lemma concat_chunks [simp]: "0 < n \<Longrightarrow> concat (chunks n xs) = xs"
  by (induction n xs rule: chunks.induct) (subst chunks.simps, auto)


lemma embed_pending_grows:
  assumes run: "embed_pending E em src s = (r, t)"
  shows "grows UNIV s t \<and> (\<forall>n. r = Inr n \<longrightarrow> size (vecs t) = size (vecs s) + n)"
proof (cases "dim s = None")
  case True
  with run show ?thesis by (auto simp: embed_pending_def bindE_def grows_quiet quiet.same)
next
  case False
  let ?s = "s\<lparr>rs_step := rs_step s + 1\<rparr>"
  have quiet: "quiet s ?s" by (simp add: quiet_def same_tables_def)
  have pend: "pending_of ?s = pending_of s" by (simp add: pending_of_def)
  show ?thesis
  proof (cases "db_fails E (rs_step s)")
    case True
    with run False have "t = ?s" "\<exists>e. r = Inl e" by (auto simp: embed_pending_def bindE_def db_runs)
    with grows_quiet [OF quiet] show ?thesis by auto
  next
    case ok: False
    obtain found texts images where sorted: "fold (sort_out em src (bad_images s)) (pending_of s) ([], [], []) = (found, texts, images)"
      by (metis prod_cases3)
    from sort_out_split [OF sorted] have S: "mset (map fst found @ map pd_id texts @ map pd_id images) \<subseteq># mset (map pd_id (pending_of s))"
      "set texts \<union> set images \<subseteq> set (pending_of s)" "fst ` set found \<subseteq> pd_id ` set (pending_of s)" by auto
    have dist: "distinct (map fst found @ map pd_id texts @ map pd_id images)" by (rule mset_sub_distinct [OF S(1) pending_ids])
    obtain q u where put: "put_vectors (db_fails E) found ?s = (q, u)" by force
    have fw: "\<exists>p. waiting ?s p \<and> pd_id p = i" if "(i, v) \<in> set found" for i v
    proof -
      have "i \<in> fst ` set found" using that by force
      with S(3) have "i \<in> pd_id ` set (pending_of s)" by (rule subsetD)
      then obtain p where "p \<in> set (pending_of ?s)" "pd_id p = i" unfolding pend by (metis imageE)
      then show ?thesis using pending_of_iff by blast
    qed
    have "distinct (map fst found)" using dist by simp
    then have "grows (fst ` set found) ?s u \<and> handed u = handed ?s \<and> (\<forall>n. q = Inr n \<longrightarrow> size (vecs u) = size (vecs ?s) + n \<and>
        (\<forall>(i, v) \<in> set (fitting (dim ?s) found). bt_get (vecs u) (vkey i) = Some (vec_serialize v)))"
      by (rule put_vectors_grows [OF put]) (rule fw)
    then have P: "grows (fst ` set found) ?s u" "\<forall>n. q = Inr n \<longrightarrow> size (vecs u) = size (vecs ?s) + n" by blast+
    have su: "grows UNIV s u" using grows_comp [OF grows_quiet [OF quiet] grows_mono [OF P(1)]] by blast
    show ?thesis
    proof (cases q)
      case (Inl e)
      with run False ok sorted put pend have "r = Inl e" "t = u" by (simp_all add: embed_pending_def bindE_def db_runs)
      with su show ?thesis by simp
    next
      case (Inr n)
      let ?size = "max 1 (vs_batch_size src)"
      let ?pss = "chunks ?size texts @ chunks (min ?size IMAGE_BATCH) images"
      have cc: "concat ?pss = texts @ images" by (simp add: IMAGE_BATCH_def)
      obtain q' w where loop: "embed_batches E em ?pss n None u = (q', w)" by force
      have wait: "\<forall>p \<in> set (concat ?pss). waiting u p"
      proof
        fix p assume "p \<in> set (concat ?pss)"
        then have p: "p \<in> set texts \<union> set images" unfolding cc by simp
        then have "pd_id p \<notin> fst ` set found" using dist by auto
        moreover have "p \<in> set (pending_of ?s)" using p S(2) unfolding pend by blast
        then have "waiting ?s p" by (rule pending_of_iff)
        ultimately show "waiting u p" using waiting_grows [OF _ P(1)] by blast
      qed
      have "distinct (map pd_id (concat ?pss))" "dim u \<noteq> None" using dist False P(1) unfolding cc by (auto simp: grows_def)
      note L = batches_grow [OF loop wait this]
      have "grows UNIV s w" by (rule grows_comp [OF su grows_mono [OF conjunct1 [OF L]]]) simp
      moreover have "t = w \<and> (\<forall>m. r = Inr m \<longrightarrow> (\<exists>err. q' = Inr (m, err, False)))"
        using run False ok sorted put pend Inr loop
        by (auto simp: embed_pending_def bindE_def db_runs Let_def split: sum.splits prod.splits if_splits option.splits)
      ultimately show ?thesis using L P(2) Inr by fastforce
    qed
  qed
qed


section \<open>Properties\<close>

text \<open>
  C35: Embedding only adds, and hands on only what the index holds. Whatever the embedder, the source and the
  database do, a pass leaves the documents and the configuration as they were, keeps every vector, adds at
  most vectors for documents that lacked one, keeps the store's invariant, and gives the source only vectors
  that are in the index as the vector of the document they were made for; and when it returns a number, that
  is how many documents got a vector.
\<close>

theorem embed_pending_sound:
  assumes "embed_pending E em src s = (r, t)" "vectors_ok s"
  shows "vectors_ok t \<and> documents t = documents s \<and> dim t = dim s \<and> embedding_model t = embedding_model s \<and>
    (\<forall>k b. bt_get (vecs s) k = Some b \<longrightarrow> bt_get (vecs t) k = Some b) \<and>
    (\<exists>new. handed t = handed s @ new \<and>
      (\<forall>(p, c, v) \<in> set new. \<exists>i rec d. bt_get (documents t) i = Some rec \<and> p = r_path rec \<and>
         c = content_of (r_kind rec) (r_text rec) \<and> bt_get (vecs t) (vkey i) = Some (vec_serialize v) \<and>
         embedding_dim t = Some d \<and> length v = unat d)) \<and>
    (\<forall>n. r = Inr n \<longrightarrow> size (vecs t) = size (vecs s) + n \<and> length (lacking s) = length (lacking t) + n)"
proof -
  note G = embed_pending_grows [OF assms(1)]
  then have ok: "vectors_ok t" using assms(2) by (simp add: grows_def)
  have docs: "documents t = documents s" using G by (simp add: grows_def)
  obtain new where new: "handed t = handed s @ new" "\<forall>x \<in> set new. indexed t x" using G by (auto simp: grows_def)
  have "\<exists>i rec d. bt_get (documents t) i = Some rec \<and> p = r_path rec \<and> c = content_of (r_kind rec) (r_text rec) \<and>
      bt_get (vecs t) (vkey i) = Some (vec_serialize v) \<and> embedding_dim t = Some d \<and> length v = unat d"
    if "(p, c, v) \<in> set new" for p c v
  proof -
    from new(2) that obtain i rec where i: "bt_get (documents t) i = Some rec" "p = r_path rec"
      "c = content_of (r_kind rec) (r_text rec)" "bt_get (vecs t) (vkey i) = Some (vec_serialize v)"
      by (auto simp: indexed_def)
    from ok i(4) obtain w d where "vec_serialize v = vec_serialize w" "embedding_dim t = Some d" "length w = unat d"
      unfolding vectors_ok_def by metis
    with i show ?thesis by (metis vec_roundtrip)
  qed
  moreover have "length (lacking s) = length (lacking t) + n" if "r = Inr n" for n
    using G that count_vectors [OF assms(2)] count_vectors [OF ok] by (simp add: docs)
  ultimately have "\<exists>new. handed t = handed s @ new \<and>
      (\<forall>(p, c, v) \<in> set new. \<exists>i rec d. bt_get (documents t) i = Some rec \<and> p = r_path rec \<and>
         c = content_of (r_kind rec) (r_text rec) \<and> bt_get (vecs t) (vkey i) = Some (vec_serialize v) \<and>
         embedding_dim t = Some d \<and> length v = unat d)"
    "\<forall>n. r = Inr n \<longrightarrow> length (lacking s) = length (lacking t) + n"
    using new(1) by (auto intro!: exI [of _ new])
  then show ?thesis using conjunct1 [OF G [unfolded grows_def]] conjunct2 [OF G] ok docs by (intro conjI) simp_all
qed


section \<open>Examples\<close>

text \<open>Two images without vectors, an embedder that answers one call only, and a batch of one.\<close>

definition ex_record :: doc_record where
  "ex_record = \<lparr>r_path = ''p'', r_text = ''n'', r_kind = Image ''h''\<rparr>"

definition ex_store :: retrieve_db where
  "ex_store = \<lparr>documents = bt_insert (I64 2) ex_record (bt_insert (I64 1) ex_record bt_empty), vecs = bt_empty,
     embedding_model = None, embedding_dim = Some 1, fts_log = [], fts_buffer = [], dim = Some 1, bad_images = {},
     rs_ann = ann_new, handed = [], rs_step = 0\<rparr>"

definition ex_embedder :: embedder where
  "ex_embedder = \<lparr>em_images = True, em_texts = (\<lambda>_ _. Inl (RetEmbed ''down'')),
     em_pictures = (\<lambda>k bs. if k \<le> 2 then Inr (map (\<lambda>_. [5]) bs) else Inl (RetEmbed ''down''))\<rparr>"

definition ex_source :: vector_source where
  "ex_source = \<lparr>vs_find = (\<lambda>_ _. None), vs_may_embed = (\<lambda>_ _. True), vs_batch_size = 1\<rparr>"

definition ex_env :: embed_env where
  "ex_env = \<lparr>db_fails = (\<lambda>_. False), read_file = (\<lambda>_ _. Inr [])\<rparr>"

lemma ex_store_ok: "vectors_ok ex_store"
  by (simp add: vectors_ok_def ex_store_def)

text \<open>
  The call fails although it embedded: after the first batch was embedded and stored, a batch that fails
  makes the call an error, whatever the trait says about calls that embedded something.
\<close>


lemma ex_entries: "entries (documents ex_store) = [(I64 1, ex_record), (I64 2, ex_record)]"
  by (simp add: ex_store_def bt_insert.rep_eq less_i64_def)

definition ex_item :: "i64 \<Rightarrow> pending" where
  "ex_item i = \<lparr>pd_id = i, pd_path = ''p'', pd_text = ''n'', pd_kind = Image ''h''\<rparr>"

lemma ex_pending: "pending_of (ex_store\<lparr>rs_step := 1\<rparr>) = [ex_item (I64 1), ex_item (I64 2)]"
proof -
  have "entries (documents (ex_store\<lparr>rs_step := 1\<rparr>)) = [(I64 1, ex_record), (I64 2, ex_record)]" using ex_entries by simp
  moreover have "vecs ex_store = bt_empty" by (simp add: ex_store_def)
  ultimately show ?thesis by (simp add: pending_of_def ex_item_def ex_record_def embeddable_def bt_has_def)
qed

lemma ex_sorted: "fold (sort_out ex_embedder ex_source {}) [ex_item (I64 1), ex_item (I64 2)] ([], [], []) =
    ([], [], [ex_item (I64 1), ex_item (I64 2)])"
  by (simp add: sort_out_def ex_embedder_def ex_source_def ex_item_def)

lemma ex_chunks: "chunks (Suc 0) [a, b] = [[a], [b]]" "chunks (Suc 0) [] = []"
  by (simp_all add: chunks.simps)

lemma ex_first: "\<exists>t. batch_step ex_env ex_embedder [ex_item (I64 1)] None (ex_store\<lparr>rs_step := 1\<rparr>) = (Inr (1, False, None), t) \<and>
    rs_step t = 4 \<and> size (vecs t) = 1 \<and> dim t = Some 1"
  by (simp add: batch_step_def embed_batch_def ex_item_def ex_env_def ex_embedder_def bindE_def thenE_def attempt_def embed_one_def
      ask_def ex_store_def put_vectors_def db_write_run insert_vectors_def size_insert_new bt_has_def hand_on_def Let_def)

lemma ex_second: "\<lbrakk>rs_step s = 4; dim s = Some 1\<rbrakk> \<Longrightarrow> \<exists>e t. batch_step ex_env ex_embedder [ex_item (I64 2)] None s =
    (Inr (0, True, Some e), t) \<and> vecs t = vecs s"
  by (simp add: batch_step_def embed_batch_def ex_item_def ex_env_def ex_embedder_def bindE_def thenE_def attempt_def embed_one_def
      ask_def get_doc_def db_read_run put_vectors_def hand_on_def Let_def)

lemma outage_after_success:
  "\<exists>e t. embed_pending ex_env ex_embedder ex_source ex_store = (Inl e, t) \<and> size (vecs ex_store) = 0 \<and> size (vecs t) = 1"
proof -
  obtain t1 where 1: "batch_step ex_env ex_embedder [ex_item (I64 1)] None (ex_store\<lparr>rs_step := 1\<rparr>) = (Inr (1, False, None), t1)"
    "rs_step t1 = 4" "size (vecs t1) = 1" "dim t1 = Some 1" using ex_first by blast
  obtain e t where 2: "batch_step ex_env ex_embedder [ex_item (I64 2)] None t1 = (Inr (0, True, Some e), t)" "vecs t = vecs t1"
    using ex_second [OF 1(2,4)] by blast
  have s: "dim ex_store = Some 1" "bad_images ex_store = {}" "rs_step ex_store = 0" "size (vecs ex_store) = 0"
    "vs_batch_size ex_source = 1" by (simp_all add: ex_store_def ex_source_def)
  have "embed_pending ex_env ex_embedder ex_source ex_store = (Inl e, t)"
    using 1(1) 2(1) ex_pending ex_sorted
    by (simp add: ex_chunks embed_pending_def bindE_def db_read_run s ex_env_def put_vectors_def Let_def IMAGE_BATCH_def)
  with 1(3) 2(2) s(4) show ?thesis by simp
qed

theorem embed_pending_sound_witness:
  "\<exists>e t. embed_pending ex_env ex_embedder ex_source ex_store = (Inl e, t) \<and> vectors_ok t \<and> documents t = documents ex_store"
proof -
  obtain e t where run: "embed_pending ex_env ex_embedder ex_source ex_store = (Inl e, t)" using outage_after_success by blast
  from embed_pending_sound [OF run ex_store_ok] run show ?thesis by blast
qed

end
