(* ===== verification/Track.thy ===== *)
theory Track
  imports Effects BTreeMap Bytes
begin

text \<open>
  Change detection by stamps (\<open>sapphire-framework-track/src/lib.rs\<close>, \<open>redb_store.rs\<close>): the snapshot of path
  stamps, its two stores and the comparison with what a scan observes. Paths are UTF-8; the walk of a
  directory tree (\<open>scan\<close>) is another crate's. A transaction of the database happens as a whole or fails.
\<close>

section \<open>Stamps\<close>

record stamp =
  mtime_ns :: i64
  len :: u64

text \<open>
  \<open>file_stamp\<close>, from what \<open>metadata\<close> says: the time of the last change in nanoseconds since the epoch,
  unless it cannot be told, and the length. A time before the epoch and an error count as 0; a time that
  does not fit 64 bits is cut.
\<close>

record metadata =
  md_modified :: "int option"
  md_len :: u64

definition file_stamp :: "metadata option \<Rightarrow> stamp" where
  "file_stamp md = (case md of
     None \<Rightarrow> \<lparr>mtime_ns = I64 0, len = 0\<rparr>
   | Some m \<Rightarrow> \<lparr>mtime_ns = (case md_modified m of None \<Rightarrow> I64 0 | Some t \<Rightarrow> if t < 0 then I64 0 else I64 (word_of_int t)),
                len = md_len m\<rparr>)"

section \<open>Comparing\<close>

record observed =
  ob_path :: string
  ob_stamp :: stamp

record changes =
  added :: "string list"
  modified :: "string list"
  removed :: "string list"

definition no_changes :: changes where
  "no_changes = \<lparr>added = [], modified = [], removed = []\<rparr>"

definition is_empty :: "changes \<Rightarrow> bool" where
  "is_empty c \<longleftrightarrow> added c = [] \<and> modified c = [] \<and> removed c = []"

definition upserted :: "changes \<Rightarrow> string list" where
  "upserted c = added c @ modified c"

definition diff_one :: "(string, stamp) btmap \<Rightarrow> changes \<times> string list \<Rightarrow> observed \<Rightarrow> changes \<times> string list" where
  "diff_one stored acc ob = (case acc of (c, seen) \<Rightarrow>
     ((case bt_get stored (ob_path ob) of
         None \<Rightarrow> c\<lparr>added := added c @ [ob_path ob]\<rparr>
       | Some prev \<Rightarrow> if prev \<noteq> ob_stamp ob then c\<lparr>modified := modified c @ [ob_path ob]\<rparr> else c),
      ob_path ob # seen))"

text \<open>\<open>diff\<close>; \<open>ord\<close> is the order in which the stored map happens to be visited.\<close>

definition diff :: "(string list \<Rightarrow> string list) \<Rightarrow> (string, stamp) btmap \<Rightarrow> observed list \<Rightarrow> changes" where
  "diff ord stored obs = (case foldl (diff_one stored) (no_changes, []) obs of (c, seen) \<Rightarrow>
     c\<lparr>removed := removed c @ filter (\<lambda>p. p \<notin> set seen) (ord (bt_keys stored))\<rparr>)"

section \<open>The stores\<close>

datatype track_error = TrackIo io_kind | TrackRedb

text \<open>The trait \<open>TrackStore\<close>: what a store offers.\<close>

record 't track_ops =
  t_mtimes :: "('t, track_error, (string, stamp) btmap) op"
  t_upsert :: "string \<Rightarrow> stamp \<Rightarrow> ('t, track_error, unit) op"
  t_remove :: "string \<Rightarrow> ('t, track_error, unit) op"
  t_count :: "('t, track_error, u64) op"
  t_clear :: "('t, track_error, unit) op"
  t_upsert_many :: "(string \<times> stamp) list \<Rightarrow> ('t, track_error, unit) op"

definition default_upsert_many :: "(string \<Rightarrow> stamp \<Rightarrow> ('t, track_error, unit) op) \<Rightarrow> (string \<times> stamp) list \<Rightarrow>
    ('t, track_error, unit) op" where
  "default_upsert_many up kvs s = each (\<lambda>(p, st). up p st) kvs s"

definition default_clear :: "(string list \<Rightarrow> string list) \<Rightarrow> ('t, track_error, (string, stamp) btmap) op \<Rightarrow>
    (string \<Rightarrow> ('t, track_error, unit) op) \<Rightarrow> ('t, track_error, unit) op" where
  "default_clear ord mtimes rm s = bindE mtimes (\<lambda>m. each rm (ord (bt_keys m))) s"

text \<open>\<open>InMemoryTrackStore\<close>: a map behind a lock.\<close>

type_synonym memory_track = "(string, stamp) btmap"

definition memory_upsert :: "string \<Rightarrow> stamp \<Rightarrow> (memory_track, track_error, unit) op" where
  "memory_upsert p st s = update (bt_insert p st) s"

definition memory_track_ops :: "memory_track track_ops" where
  "memory_track_ops = \<lparr>t_mtimes = reading (\<lambda>m. m), t_upsert = memory_upsert, t_remove = (\<lambda>p. update (bt_remove p)),
     t_count = reading (\<lambda>m. of_nat (size m)), t_clear = update (\<lambda>_. bt_empty),
     t_upsert_many = default_upsert_many memory_upsert\<rparr>"

text \<open>\<open>RedbTrackStore\<close>: the \<open>k\<close>-th transaction fails when \<open>fails k\<close>.\<close>

record redb_track =
  rt_table :: "(string, stamp) btmap"
  rt_step :: nat

definition transaction :: "(nat \<Rightarrow> bool) \<Rightarrow> (redb_track \<Rightarrow> 'a) \<Rightarrow> (memory_track \<Rightarrow> memory_track) \<Rightarrow> (redb_track, track_error, 'a) op" where
  "transaction fails val f s =
     (if fails (rt_step s) then (Inl TrackRedb, s\<lparr>rt_step := rt_step s + 1\<rparr>)
      else (Inr (val s), s\<lparr>rt_step := rt_step s + 1, rt_table := f (rt_table s)\<rparr>))"

definition redb_track_ops :: "(nat \<Rightarrow> bool) \<Rightarrow> redb_track track_ops" where
  "redb_track_ops fails = \<lparr>t_mtimes = transaction fails rt_table (\<lambda>m. m),
     t_upsert = (\<lambda>p st. transaction fails (\<lambda>_. ()) (bt_insert p st)),
     t_remove = (\<lambda>p. transaction fails (\<lambda>_. ()) (bt_remove p)),
     t_count = transaction fails (\<lambda>s. of_nat (size (rt_table s))) (\<lambda>m. m),
     t_clear = transaction fails (\<lambda>_. ()) (\<lambda>_. bt_empty),
     t_upsert_many = (\<lambda>kvs. transaction fails (\<lambda>_. ()) (bt_insert_all kvs))\<rparr>"

text \<open>
  \<open>create_or_reset\<close>: a file of another format or another table is deleted and made anew. \<open>opened\<close> is what
  opening the file gives, \<open>fresh\<close> what opening it after the deletion does.
\<close>

datatype open_error = UpgradeRequired | TableTypeMismatch | TypeDefinitionChanged | OtherRedb | OpenIo io_kind

definition is_schema_mismatch :: "open_error \<Rightarrow> bool" where
  "is_schema_mismatch e \<longleftrightarrow> e = UpgradeRequired \<or> e = TableTypeMismatch \<or> e = TypeDefinitionChanged"

definition create_or_reset :: "open_error + memory_track \<Rightarrow> io_kind + unit \<Rightarrow> open_error + memory_track \<Rightarrow> open_error + memory_track" where
  "create_or_reset opened removing fresh = (case opened of
     Inr m \<Rightarrow> Inr m
   | Inl e \<Rightarrow> if is_schema_mismatch e
       then (case removing of Inl k \<Rightarrow> Inl (OpenIo k) | Inr _ \<Rightarrow> fresh) else Inl e)"

definition detect_changes :: "(string list \<Rightarrow> string list) \<Rightarrow> 't track_ops \<Rightarrow> observed list \<Rightarrow> ('t, track_error, changes) op" where
  "detect_changes ord T obs s = bindE (t_mtimes T) (\<lambda>stored. ret (diff ord stored obs)) s"

section \<open>The contract of a store\<close>

text \<open>
  What users of a store rely on: an operation that returns did what it says to the table, one that fails
  changed nothing (but for a batch, of which a part may be stored).
\<close>

locale track_store =
  fixes T :: "'t track_ops" and stamps :: "'t \<Rightarrow> (string, stamp) btmap"
  assumes mtimes_law: "t_mtimes T s = (q, t) \<Longrightarrow> stamps t = stamps s \<and> (\<forall>m. q = Inr m \<longrightarrow> m = stamps s)"
    and upsert_law: "t_upsert T p st s = (r, t) \<Longrightarrow> stamps t = (if r = Inr () then bt_insert p st (stamps s) else stamps s)"
    and remove_law: "t_remove T p s = (r, t) \<Longrightarrow> stamps t = (if r = Inr () then bt_remove p (stamps s) else stamps s)"
    and count_law: "t_count T s = (c, t) \<Longrightarrow> stamps t = stamps s \<and> (\<forall>n. c = Inr n \<longrightarrow> n = of_nat (size (stamps s)))"
    and clear_law: "t_clear T s = (r, t) \<Longrightarrow> stamps t = (if r = Inr () then bt_empty else stamps s)"
    and upsert_many_law: "t_upsert_many T kvs s = (Inr (), t) \<Longrightarrow> stamps t = bt_insert_all kvs (stamps s)"

lemma default_upsert_many_run:
  "default_upsert_many memory_upsert kvs s = (Inr (), bt_insert_all kvs s)"
proof (induction kvs arbitrary: s)
  case (Cons kv kvs)
  obtain k v where "kv = (k, v)" by (cases kv)
  with Cons show ?case by (simp add: default_upsert_many_def thenE_def bindE_def memory_upsert_def)
qed (simp add: default_upsert_many_def)

interpretation memory: track_store memory_track_ops "\<lambda>m. m"
  by unfold_locales (auto simp: memory_track_ops_def memory_upsert_def default_upsert_many_run)

interpretation redb: track_store "redb_track_ops fails" rt_table for fails
  by unfold_locales (auto simp: redb_track_ops_def transaction_def split: if_splits)

section \<open>What a comparison finds\<close>

definition stale :: "(string, stamp) btmap \<Rightarrow> observed \<Rightarrow> bool" where
  "stale stored ob \<longleftrightarrow> (case bt_get stored (ob_path ob) of None \<Rightarrow> False | Some prev \<Rightarrow> prev \<noteq> ob_stamp ob)"

lemma foldl_diff:
  "foldl (diff_one stored) (c, seen) obs =
     (c\<lparr>added := added c @ map ob_path (filter (\<lambda>ob. bt_get stored (ob_path ob) = None) obs),
        modified := modified c @ map ob_path (filter (stale stored) obs)\<rparr>,
      rev (map ob_path obs) @ seen)"
proof (induction obs arbitrary: c seen)
  case (Cons ob obs)
  have "diff_one stored (c, seen) ob =
      (c\<lparr>added := added c @ (if bt_get stored (ob_path ob) = None then [ob_path ob] else []),
         modified := modified c @ (if stale stored ob then [ob_path ob] else [])\<rparr>, ob_path ob # seen)"
    by (cases "bt_get stored (ob_path ob)") (simp_all add: diff_one_def stale_def)
  then show ?case by (simp add: Cons.IH)

qed simp

lemma diff_eq:
  "diff ord stored obs =
     \<lparr>added = map ob_path (filter (\<lambda>ob. bt_get stored (ob_path ob) = None) obs),
      modified = map ob_path (filter (stale stored) obs),
      removed = filter (\<lambda>p. p \<notin> ob_path ` set obs) (ord (bt_keys stored))\<rparr>"
  by (simp add: diff_def foldl_diff no_changes_def)

context track_store
begin

lemma detect_run:
  assumes "detect_changes ord T obs s = (Inr c, t)"
  shows "stamps t = stamps s \<and> c = diff ord (stamps s) obs"
proof -
  from assms obtain m where "t_mtimes T s = (Inr m, t)" "c = diff ord m obs"
    by (auto simp: detect_changes_def run_simps)
  with mtimes_law [OF this(1)] show ?thesis by auto
qed

lemma removes_run:
  "each (t_remove T) ps s = (Inr (), t) \<Longrightarrow> bt_get (stamps t) p = (if p \<in> set ps then None else bt_get (stamps s) p)"
proof (induction ps arbitrary: s)
  case (Cons q ps)
  then obtain u where "t_remove T q s = (Inr (), u)" "each (t_remove T) ps u = (Inr (), t)" by (auto simp: run_simps)
  with Cons.IH [OF this(2)] remove_law [OF this(1)] show ?case by auto
qed simp

text \<open>Once the stamps observed are stored for what changed, and what is gone removed, nothing has changed.\<close>

lemma committed_settles:
  assumes "detect_changes ord T obs s = (Inr c, s1)" "\<And>xs. set (ord xs) = set xs"
    and "t_upsert_many T (map (\<lambda>ob. (ob_path ob, ob_stamp ob)) (filter (\<lambda>ob. ob_path ob \<in> set (upserted c)) obs)) s1 = (Inr (), s2)"
    and "each (t_remove T) (removed c) s2 = (Inr (), s3)"
    and "detect_changes ord T obs s3 = (Inr d, s4)" "distinct (map ob_path obs)"
  shows "is_empty d \<and> stamps s4 = stamps s3 \<and> (\<forall>p. bt_get (stamps s3) p = map_of (map (\<lambda>ob. (ob_path ob, ob_stamp ob)) obs) p)"
proof -
  define all where "all = map (\<lambda>ob. (ob_path ob, ob_stamp ob)) obs"
  define kvs where "kvs = map (\<lambda>ob. (ob_path ob, ob_stamp ob)) (filter (\<lambda>ob. ob_path ob \<in> set (upserted c)) obs)"
  have c: "stamps s1 = stamps s" "c = diff ord (stamps s) obs" using detect_run [OF assms(1)] by auto
  have d: "stamps s4 = stamps s3" "d = diff ord (stamps s3) obs" using detect_run [OF assms(5)] by auto
  have dist: "distinct (map fst kvs)" "distinct (map fst all)"
    unfolding kvs_def all_def using assms(6) by (simp_all add: comp_def distinct_map_filter)
  have s2: "bt_get (stamps s2) p = (case al_get kvs p of Some v \<Rightarrow> Some v | None \<Rightarrow> bt_get (stamps s) p)" for p
    using upsert_many_law [OF assms(3) [folded kvs_def]] bt_get_insert_all [OF dist(1)] c(1) by simp
  have al: "al_get xs p = map_of xs p" for xs :: "(string \<times> stamp) list" and p
    by (induction xs) auto
  have s3: "bt_get (stamps s3) p = map_of all p" for p
  proof (cases "\<exists>ob \<in> set obs. p = ob_path ob")
    case True
    then obtain ob where ob: "ob \<in> set obs" "p = ob_path ob" by blast
    have mo: "map_of all p = Some (ob_stamp ob)" using dist(2) ob by (auto simp: all_def map_of_eq_Some_iff)
    have "p \<notin> set (removed c)" using ob by (auto simp: c(2) diff_eq)
    then have "bt_get (stamps s3) p = bt_get (stamps s2) p" using removes_run [OF assms(4)] by simp
    also have "\<dots> = Some (ob_stamp ob)"
    proof (cases "p \<in> set (upserted c)")
      case True
      then have "map_of kvs p = Some (ob_stamp ob)" using dist(1) ob by (auto simp: kvs_def map_of_eq_Some_iff)
      then show ?thesis by (simp add: s2 al)
    next
      case False
      then have "al_get kvs p = None" using ob by (auto simp: kvs_def al_get_None)
      moreover have "bt_get (stamps s) p = Some (ob_stamp ob)"
        using False ob by (auto simp: upserted_def c(2) diff_eq stale_def image_iff split: option.splits)
      ultimately show ?thesis by (simp add: s2)
    qed
    finally show ?thesis using mo by simp
  next
    case False
    then have no: "map_of all p = None" "al_get kvs p = None" by (auto simp: all_def kvs_def al_get_None map_of_eq_None_iff)
    have "bt_get (stamps s3) p = None"
    proof (cases "bt_get (stamps s) p")
      case None
      with no(2) show ?thesis using removes_run [OF assms(4)] by (simp add: s2)
    next
      case (Some v)
      then have "p \<in> set (removed c)" using False assms(2) by (auto simp: c(2) diff_eq bt_keys_iff bt_has_def)
      then show ?thesis using removes_run [OF assms(4)] by simp
    qed
    with no show ?thesis by simp
  qed
  have hit: "bt_get (stamps s3) (ob_path ob) = Some (ob_stamp ob)" if "ob \<in> set obs" for ob
    using that dist(2) by (auto simp: s3 all_def map_of_eq_Some_iff)
  have "is_empty d"
  proof -
    have "bt_get (stamps s3) p \<noteq> None \<Longrightarrow> p \<in> ob_path ` set obs" for p
      using s3 by (auto simp: all_def dest!: map_of_SomeD)
    then show ?thesis using hit assms(2)
      by (auto simp: d(2) diff_eq is_empty_def filter_empty_conv stale_def bt_keys_iff bt_has_def)
  qed
  with d(1) s3 show ?thesis by (simp add: all_def)
qed

end


section \<open>Properties\<close>

text \<open>
  C37: Storing what a comparison found settles it. With the database: when the changes of the observed files
  are detected, their stamps are stored in one batch and the removed paths are removed, then the table
  holds exactly the observed stamps, and detecting changes again in the same observation finds none.
\<close>

theorem committed_changes_settle:
  assumes "detect_changes ord (redb_track_ops fails) obs s = (Inr c, s1)" "\<And>xs. set (ord xs) = set xs"
    and "t_upsert_many (redb_track_ops fails) (map (\<lambda>ob. (ob_path ob, ob_stamp ob))
      (filter (\<lambda>ob. ob_path ob \<in> set (upserted c)) obs)) s1 = (Inr (), s2)"
    and "each (t_remove (redb_track_ops fails)) (removed c) s2 = (Inr (), s3)"
    and "detect_changes ord (redb_track_ops fails) obs s3 = (Inr d, s4)" "distinct (map ob_path obs)"
  shows "is_empty d \<and> rt_table s4 = rt_table s3 \<and>
    (\<forall>p. bt_get (rt_table s3) p = map_of (map (\<lambda>ob. (ob_path ob, ob_stamp ob)) obs) p)"
  using redb.committed_settles [OF assms] .

text \<open>One new file and one that is gone.\<close>

definition ex_observed :: "observed list" where
  "ex_observed = [\<lparr>ob_path = ''a'', ob_stamp = \<lparr>mtime_ns = I64 5, len = 3\<rparr>\<rparr>]"

definition ex_tracked :: redb_track where
  "ex_tracked = \<lparr>rt_table = bt_insert ''b'' \<lparr>mtime_ns = I64 1, len = 1\<rparr> bt_empty, rt_step = 0\<rparr>"

lemma ex_detect: "detect_changes id (redb_track_ops (\<lambda>_. False)) ex_observed ex_tracked =
    (Inr \<lparr>added = [''a''], modified = [], removed = [''b'']\<rparr>, ex_tracked\<lparr>rt_step := 1\<rparr>)"
  by (simp add: detect_changes_def redb_track_ops_def transaction_def bindE_def diff_eq ex_observed_def ex_tracked_def bt_keys_def stale_def
      bt_insert.rep_eq)

theorem committed_changes_settle_witness:
  "\<exists>c s3 d s4. detect_changes id (redb_track_ops (\<lambda>_. False)) ex_observed ex_tracked = (Inr c, ex_tracked\<lparr>rt_step := 1\<rparr>) \<and>
     removed c = [''b''] \<and> detect_changes id (redb_track_ops (\<lambda>_. False)) ex_observed s3 = (Inr d, s4) \<and> is_empty d"
proof -
  let ?T = "redb_track_ops (\<lambda>_. False)" and ?c = "\<lparr>added = [''a''], modified = [], removed = [''b'']\<rparr>"
  let ?kvs = "map (\<lambda>ob. (ob_path ob, ob_stamp ob)) (filter (\<lambda>ob. ob_path ob \<in> set (upserted ?c)) ex_observed)"
  obtain s2 where 2: "t_upsert_many ?T ?kvs (ex_tracked\<lparr>rt_step := 1\<rparr>) = (Inr (), s2)"
    by (simp add: redb_track_ops_def transaction_def)
  obtain s3 where 3: "each (t_remove ?T) (removed ?c) s2 = (Inr (), s3)"
    by (simp add: redb_track_ops_def transaction_def thenE_def bindE_def)
  obtain d s4 where 4: "detect_changes id ?T ex_observed s3 = (Inr d, s4)"
    by (simp add: detect_changes_def redb_track_ops_def transaction_def bindE_def)
  have "is_empty d"
    using committed_changes_settle [OF ex_detect _ 2 3 4] by (simp add: ex_observed_def)
  with ex_detect 4 show ?thesis by (intro exI conjI) (assumption | simp)+
qed

end
