(* ===== verification/Indexer.thy ===== *)
theory Indexer
  imports Embedding Track ContentHash
begin

text \<open>
  Indexing a workspace (\<open>sapphire-framework-workspace/src/indexer.rs\<close>): which files are documents, how a file
  becomes one, and the sync of the retrieval store and the stamps with the files. Both stores and the hook are
  traits; the model takes them as tables of operations, as the code takes trait objects. Directories are
  listed and files read through the parameters of \<open>disk_env\<close>; a reading may depend on its number.
\<close>

section \<open>Which files are documents\<close>

definition MARKDOWN_EXTENSIONS :: "string list" where
  "MARKDOWN_EXTENSIONS = [''md'', ''markdown'', ''txt'', ''rst'', ''org'']"

definition JSONL_EXTENSIONS :: "string list" where
  "JSONL_EXTENSIONS = [''jsonl'']"

definition TOML_EXTENSIONS :: "string list" where
  "TOML_EXTENSIONS = [''toml'']"

definition IMAGE_EXTENSIONS :: "string list" where
  "IMAGE_EXTENSIONS = [''png'', ''jpg'', ''jpeg'', ''webp'', ''gif'']"

definition MAX_IMAGE_BYTES :: nat where
  "MAX_IMAGE_BYTES = 20 * 1024 * 1024"

text \<open>
  \<open>str::to_lowercase\<close>, as far as a comparison with ASCII strings can tell: the ASCII letters and the Kelvin
  sign, the only other character whose lower case is ASCII.
\<close>

fun lowercase :: "string \<Rightarrow> string" where
  "lowercase (a # b # c # s) =
     (if [a, b, c] = map byte [0xE2, 0x84, 0xAA] then CHR ''k'' # lowercase s
      else (if is_ascii_upper a then char_of (of_char a + (32 :: nat)) else a) # lowercase (b # c # s))"
| "lowercase (a # s) = (if is_ascii_upper a then char_of (of_char a + (32 :: nat)) else a) # lowercase s"
| "lowercase [] = []"

text \<open>The last name of a path, and its extension: what follows the last dot, unless the name starts with it.\<close>

definition file_name_of :: "string \<Rightarrow> string" where
  "file_name_of p = last (split_on (CHR ''/'') p)"

definition extension :: "string \<Rightarrow> string" where
  "extension p = (case rsplit_at (CHR ''.'') (file_name_of p) of
     Some (l, r) \<Rightarrow> if l = '''' then '''' else lowercase r
   | None \<Rightarrow> '''')"

definition is_indexable_path :: "string \<Rightarrow> bool" where
  "is_indexable_path p = (let ext = extension p in
     ext \<in> set MARKDOWN_EXTENSIONS \<or> ext \<in> set JSONL_EXTENSIONS \<or> ext \<in> set TOML_EXTENSIONS \<or> ext \<in> set IMAGE_EXTENSIONS)"

definition is_image_path :: "string \<Rightarrow> bool" where
  "is_image_path p \<longleftrightarrow> extension p \<in> set IMAGE_EXTENSIONS"

text \<open>FNV-1a on the bytes of the path.\<close>

definition path_to_doc_id :: "string \<Rightarrow> i64" where
  "path_to_doc_id p = I64 (foldl (\<lambda>h c. Bit_Operations.xor h (of_char c) * 1099511628211) 14695981039346656037 p)"

section \<open>Reading a file\<close>

text \<open>\<open>String::from_utf8\<close>: the well-formed byte sequences of the standard.\<close>

definition between :: "nat \<Rightarrow> char \<Rightarrow> nat \<Rightarrow> bool" where
  "between a c b \<longleftrightarrow> a \<le> of_char c \<and> of_char c \<le> b"

definition lead2 :: "char \<Rightarrow> bool" where
  "lead2 a \<longleftrightarrow> between 0xC2 a 0xDF"

definition lead3 :: "char \<Rightarrow> char \<Rightarrow> bool" where
  "lead3 a b \<longleftrightarrow> (a = byte 0xE0 \<and> between 0xA0 b 0xBF) \<or> ((between 0xE1 a 0xEC \<or> between 0xEE a 0xEF) \<and> between 0x80 b 0xBF) \<or>
     (a = byte 0xED \<and> between 0x80 b 0x9F)"

definition lead4 :: "char \<Rightarrow> char \<Rightarrow> bool" where
  "lead4 a b \<longleftrightarrow> (a = byte 0xF0 \<and> between 0x90 b 0xBF) \<or> (between 0xF1 a 0xF3 \<and> between 0x80 b 0xBF) \<or>
     (a = byte 0xF4 \<and> between 0x80 b 0x8F)"

function valid_utf8 :: "string \<Rightarrow> bool" where
  "valid_utf8 s = (case s of
     [] \<Rightarrow> True
   | a # s1 \<Rightarrow> if between 0 a 0x7F then valid_utf8 s1 else (case s1 of
       [] \<Rightarrow> False
     | b # s2 \<Rightarrow> if lead2 a \<and> between 0x80 b 0xBF then valid_utf8 s2 else (case s2 of
         [] \<Rightarrow> False
       | c # s3 \<Rightarrow> if lead3 a b \<and> between 0x80 c 0xBF then valid_utf8 s3 else (case s3 of
           [] \<Rightarrow> False
         | d # s4 \<Rightarrow> lead4 a b \<and> between 0x80 c 0xBF \<and> between 0x80 d 0xBF \<and> valid_utf8 s4))))"
  by pat_completeness auto

termination
  by (relation "measure length") auto

declare valid_utf8.simps [simp del]

text \<open>A directory tree as the walk meets it; \<open>Unreadable\<close> is an entry whose visit is an error.\<close>

datatype tree = FileNode | OtherNode | Unreadable io_kind | DirNode "(string \<times> tree) list"

text \<open>
  The files of the workspace: \<open>disk_tree\<close> and the name of the root are what the walk meets, \<open>disk_meta\<close> and
  \<open>disk_read\<close> answer the \<open>k\<close>-th reading of a path.
\<close>

record disk_env =
  root_path :: string
  root_name :: string
  disk_tree :: tree
  disk_meta :: "nat \<Rightarrow> string \<Rightarrow> io_kind + metadata"
  disk_read :: "nat \<Rightarrow> string \<Rightarrow> io_kind + string"
  disk_sha :: "bytes \<Rightarrow> content_hash"
  path_order :: "string list \<Rightarrow> string list"
  id_order :: "i64 list \<Rightarrow> i64 list"

text \<open>\<open>vectors::content_hash\<close>: the hex SHA-256 of the bytes; the hash function is another crate's.\<close>

definition content_hex :: "disk_env \<Rightarrow> string \<Rightarrow> string" where
  "content_hex D b = to_hex (disk_sha D (map of_char b))"

text \<open>\<open>collect_candidates\<close>: directories whose name starts with a dot are not entered.\<close>

fun collect :: "string \<Rightarrow> string \<Rightarrow> tree \<Rightarrow> io_kind + string list"
  and collect_all :: "string \<Rightarrow> (string \<times> tree) list \<Rightarrow> io_kind + string list" where
  "collect p name FileNode = Inr (if is_indexable_path p then [p] else [])"
| "collect p name OtherNode = Inr []"
| "collect p name (Unreadable e) = Inl e"
| "collect p name (DirNode es) = (if prefix ''.'' name then Inr [] else collect_all p es)"
| "collect_all p [] = Inr []"
| "collect_all p ((n, t) # es) = (case collect (p @ ''/'' @ n) n t of
     Inl e \<Rightarrow> Inl e
   | Inr xs \<Rightarrow> (case collect_all p es of Inl e \<Rightarrow> Inl e | Inr ys \<Rightarrow> Inr (xs @ ys)))"

definition collect_candidates :: "disk_env \<Rightarrow> io_kind + string list" where
  "collect_candidates D = collect (root_path D) (root_name D) (disk_tree D)"

section \<open>The traits\<close>

text \<open>The trait \<open>RetrieveStore\<close>, as far as indexing uses it.\<close>

record 'r retrieve_ops =
  o_upsert :: "document \<Rightarrow> ('r, ret_error, unit) op"
  o_remove :: "i64 \<Rightarrow> ('r, ret_error, unit) op"
  o_rebuild :: "('r, ret_error, unit) op"
  o_ids :: "('r, ret_error, i64 list) op"
  o_count :: "('r, ret_error, u64) op"

definition redb_retrieve_ops :: "(nat \<Rightarrow> bool) \<Rightarrow> retrieve_db retrieve_ops" where
  "redb_retrieve_ops fails = \<lparr>o_upsert = upsert_document fails, o_remove = remove_document fails, o_rebuild = rebuild_fts fails,
     o_ids = document_ids fails, o_count = document_count fails\<rparr>"

text \<open>\<open>InMemoryStore\<close> of \<open>sapphire-framework-retrieve/src/db.rs\<close>: a map of the documents.\<close>

type_synonym memory_retrieve = "(i64, document) btmap"

definition memory_retrieve_ops :: "memory_retrieve retrieve_ops" where
  "memory_retrieve_ops = \<lparr>o_upsert = (\<lambda>d. update (bt_insert (doc_id d) d)), o_remove = (\<lambda>i. update (bt_remove i)),
     o_rebuild = ret (), o_ids = reading bt_keys, o_count = reading (\<lambda>m. of_nat (size m))\<rparr>"

text \<open>The trait \<open>IndexHook\<close>, and the hook that does nothing.\<close>

record ('h, 'e) hook_ops =
  on_changed :: "string \<Rightarrow> i64 \<Rightarrow> ('h, 'e, unit) op"
  on_removed :: "string \<Rightarrow> ('h, 'e, unit) op"
  after_sweep :: "('h, 'e, unit) op"

definition NoopHook :: "(unit, 'e) hook_ops" where
  "NoopHook = \<lparr>on_changed = (\<lambda>_ _. ret ()), on_removed = (\<lambda>_. ret ()), after_sweep = ret ()\<rparr>"

datatype 'e sync_error = SyIo io_kind | SyRetrieve ret_error | SyTrack track_error | SyHook 'e

record ('r, 't, 'h) sync_state =
  sy_retrieve :: 'r
  sy_track :: 't
  sy_hook :: 'h
  sy_step :: nat

definition on_retrieve :: "('r, ret_error, 'a) op \<Rightarrow> (('r, 't, 'h) sync_state, 'e sync_error, 'a) op" where
  "on_retrieve m s = (case m (sy_retrieve s) of (r, x) \<Rightarrow>
     (case r of Inl e \<Rightarrow> Inl (SyRetrieve e) | Inr y \<Rightarrow> Inr y, s\<lparr>sy_retrieve := x\<rparr>))"

definition on_track :: "('t, track_error, 'a) op \<Rightarrow> (('r, 't, 'h) sync_state, 'e sync_error, 'a) op" where
  "on_track m s = (case m (sy_track s) of (r, x) \<Rightarrow>
     (case r of Inl e \<Rightarrow> Inl (SyTrack e) | Inr y \<Rightarrow> Inr y, s\<lparr>sy_track := x\<rparr>))"

definition on_hook :: "('h, 'e, 'a) op \<Rightarrow> (('r, 't, 'h) sync_state, 'e sync_error, 'a) op" where
  "on_hook m s = (case m (sy_hook s) of (r, x) \<Rightarrow>
     (case r of Inl e \<Rightarrow> Inl (SyHook e) | Inr y \<Rightarrow> Inr y, s\<lparr>sy_hook := x\<rparr>))"

text \<open>One reading of the disk.\<close>

definition on_disk :: "(nat \<Rightarrow> io_kind + 'a) \<Rightarrow> (('r, 't, 'h) sync_state, io_kind, 'a) op" where
  "on_disk f s = (f (sy_step s), s\<lparr>sy_step := sy_step s + 1\<rparr>)"

section \<open>Documents from files\<close>

definition stamp_on_disk :: "disk_env \<Rightarrow> string \<Rightarrow> (('r, 't, 'h) sync_state, 'e, stamp) op" where
  "stamp_on_disk D p s = bindE (attempt (on_disk (\<lambda>k. disk_meta D k p)))
     (\<lambda>r. ret (file_stamp (case r of Inl _ \<Rightarrow> None | Inr m \<Rightarrow> Some m))) s"

definition image_document :: "disk_env \<Rightarrow> string \<Rightarrow> string \<Rightarrow> document" where
  "image_document D p b = \<lparr>doc_id = path_to_doc_id p, body = file_name_of p, doc_path = p, kind = Image (content_hex D b)\<rparr>"

definition text_document :: "string \<Rightarrow> string \<Rightarrow> document" where
  "text_document p b = \<lparr>doc_id = path_to_doc_id p, body = b, doc_path = p, kind = TextDoc\<rparr>"

definition build_document_from_disk :: "disk_env \<Rightarrow> string \<Rightarrow> (('r, 't, 'h) sync_state, io_kind, document option) op" where
  "build_document_from_disk D p s =
     (if is_image_path p then
        bindE (on_disk (\<lambda>k. disk_meta D k p)) (\<lambda>m.
          if unat (md_len m) > MAX_IMAGE_BYTES then ret None
          else bindE (on_disk (\<lambda>k. disk_read D k p)) (\<lambda>b. ret (Some (image_document D p b))))
      else bindE (on_disk (\<lambda>k. disk_read D k p)) (\<lambda>b.
        ret (if valid_utf8 b then Some (text_document p b) else None))) s"

section \<open>The sync\<close>

record sync_report =
  rp_upserted :: nat
  rp_removed :: nat

text \<open>One candidate; the count of the documents written goes through.\<close>

definition sync_file :: "disk_env \<Rightarrow> 'r retrieve_ops \<Rightarrow> 't track_ops \<Rightarrow> ('h, 'e) hook_ops \<Rightarrow> bool \<Rightarrow> (string, stamp) btmap \<Rightarrow>
    nat \<Rightarrow> string \<Rightarrow> (('r, 't, 'h) sync_state, 'e sync_error, nat) op" where
  "sync_file D R T H full known n p s =
     bindE (stamp_on_disk D p) (\<lambda>st.
       if \<not> full \<and> bt_get known p = Some st then ret n
       else thenE (on_hook (on_changed H p (mtime_ns st)))
         (bindE (attempt (build_document_from_disk D p)) (\<lambda>r. case r of
            Inr (Some d) \<Rightarrow>
              thenE (on_retrieve (o_upsert R d)) (thenE (on_track (t_upsert T p st)) (ret (n + 1)))
          | _ \<Rightarrow> ret n))) s"

text \<open>A tracked path that is gone; the ids removed and their number go through.\<close>

definition sync_gone :: "'r retrieve_ops \<Rightarrow> 't track_ops \<Rightarrow> ('h, 'e) hook_ops \<Rightarrow> i64 set \<Rightarrow> i64 set \<times> nat \<Rightarrow> string \<Rightarrow>
    (('r, 't, 'h) sync_state, 'e sync_error, i64 set \<times> nat) op" where
  "sync_gone R T H existing acc p s =
     thenE (on_hook (on_removed H p))
    (let i = path_to_doc_id p in
     bindE (if i \<in> existing \<and> i \<notin> fst acc
            then thenE (on_retrieve (o_remove R i)) (ret (insert i (fst acc), snd acc + 1)) else ret acc) (\<lambda>acc.
     thenE (on_track (t_remove T p)) (ret acc))) s"

definition sync_orphan :: "'r retrieve_ops \<Rightarrow> nat \<Rightarrow> i64 \<Rightarrow> (('r, 't, 'h) sync_state, 'e sync_error, nat) op" where
  "sync_orphan R n i s = thenE (on_retrieve (o_remove R i)) (ret (n + 1)) s"

definition sync_inner :: "disk_env \<Rightarrow> 'r retrieve_ops \<Rightarrow> 't track_ops \<Rightarrow> ('h, 'e) hook_ops \<Rightarrow> bool \<Rightarrow>
    (('r, 't, 'h) sync_state, 'e sync_error, sync_report) op" where
  "sync_inner D R T H full s =
     bindE (on_track (t_mtimes T)) (\<lambda>known.
     bindE (on_retrieve (o_ids R)) (\<lambda>existing.
     bindE (outcome (case collect_candidates D of Inl e \<Rightarrow> Inl (SyIo e) | Inr c \<Rightarrow> Inr c)) (\<lambda>candidates.
     bindE (folding (sync_file D R T H full known) 0 candidates) (\<lambda>upserted.
     bindE (folding (sync_gone R T H (set existing)) ({}, 0)
       (filter (\<lambda>p. p \<notin> set candidates) (path_order D (bt_keys known)))) (\<lambda>(gone, removed).
     bindE (folding (sync_orphan R) removed
       (filter (\<lambda>i. i \<notin> path_to_doc_id ` set candidates \<and> i \<notin> gone) (id_order D existing))) (\<lambda>removed.
     thenE (on_hook (after_sweep H))
    (thenE (if upserted > 0 \<or> removed > 0 then on_retrieve (o_rebuild R) else ret ())
     (ret \<lparr>rp_upserted = upserted, rp_removed = removed\<rparr>)))))))) s"

definition sync_workspace_with_hook :: "disk_env \<Rightarrow> 'r retrieve_ops \<Rightarrow> 't track_ops \<Rightarrow> ('h, 'e) hook_ops \<Rightarrow>
    (('r, 't, 'h) sync_state, 'e sync_error, sync_report) op" where
  "sync_workspace_with_hook D R T H s = sync_inner D R T H False s"

definition sync_workspace_full_with_hook :: "disk_env \<Rightarrow> 'r retrieve_ops \<Rightarrow> 't track_ops \<Rightarrow> ('h, 'e) hook_ops \<Rightarrow>
    (('r, 't, 'h) sync_state, 'e sync_error, sync_report) op" where
  "sync_workspace_full_with_hook D R T H s = sync_inner D R T H True s"

definition sync_workspace :: "disk_env \<Rightarrow> 'r retrieve_ops \<Rightarrow> 't track_ops \<Rightarrow>
    (('r, 't, unit) sync_state, unit sync_error, nat \<times> nat) op" where
  "sync_workspace D R T s = bindE (sync_workspace_full_with_hook D R T NoopHook) (\<lambda>r. ret (rp_upserted r, rp_removed r)) s"

definition sync_workspace_incremental :: "disk_env \<Rightarrow> 'r retrieve_ops \<Rightarrow> 't track_ops \<Rightarrow>
    (('r, 't, unit) sync_state, unit sync_error, nat \<times> nat) op" where
  "sync_workspace_incremental D R T s = bindE (sync_workspace_with_hook D R T NoopHook) (\<lambda>r. ret (rp_upserted r, rp_removed r)) s"


section \<open>The contract of a retrieval store\<close>

text \<open>
  What indexing relies on: an operation that returns did what it says to the documents; one that fails
  changed nothing, but a document may be stored although its indexing failed.
\<close>

locale doc_store =
  fixes R :: "'r retrieve_ops" and docs :: "'r \<Rightarrow> i64 \<Rightarrow> doc_record option"
  assumes upsert_doc_law: "o_upsert R d s = (r, t) \<Longrightarrow>
      docs t = (docs s)(doc_id d \<mapsto> record_of d) \<or> (r \<noteq> Inr () \<and> docs t = docs s)"
    and remove_doc_law: "o_remove R i s = (r, t) \<Longrightarrow> docs t = (if r = Inr () then (docs s)(i := None) else docs s)"
    and rebuild_doc_law: "o_rebuild R s = (r, t) \<Longrightarrow> docs t = docs s"
    and ids_doc_law: "o_ids R s = (q, t) \<Longrightarrow> docs t = docs s \<and> (\<forall>l. q = Inr l \<longrightarrow> set l = dom (docs s))"
    and count_doc_law: "o_count R s = (c, t) \<Longrightarrow> docs t = docs s \<and> (\<forall>n. c = Inr n \<longrightarrow> n = of_nat (card (dom (docs s))))"

lemma keys_dom: "set (bt_keys m) = dom (bt_get m)" for m :: "('k::linorder, 'v) btmap"
  by (auto simp: bt_keys_iff bt_has_def)

lemma size_dom: "size m = card (dom (bt_get m))" for m :: "('k::linorder, 'v) btmap"
  by (simp add: size_card bt_has_def dom_def)

interpretation redb_docs: doc_store "redb_retrieve_ops fails" "\<lambda>s. bt_get (documents s)" for fails
proof unfold_locales
  show "o_upsert (redb_retrieve_ops fails) d s = (r, t) \<Longrightarrow>
      bt_get (documents t) = (bt_get (documents s))(doc_id d \<mapsto> record_of d) \<or> (r \<noteq> Inr () \<and> bt_get (documents t) = bt_get (documents s))"
    for d s r t
    using upsert_run [of fails d s r t] by (auto simp: redb_retrieve_ops_def put_document_def fun_eq_iff)
  show "o_remove (redb_retrieve_ops fails) i s = (r, t) \<Longrightarrow>
      bt_get (documents t) = (if r = Inr () then (bt_get (documents s))(i := None) else bt_get (documents s))" for i s r t
    using remove_run [of fails i s r t] by (auto simp: redb_retrieve_ops_def fun_eq_iff)
  show "o_rebuild (redb_retrieve_ops fails) s = (r, t) \<Longrightarrow> bt_get (documents t) = bt_get (documents s)" for s r t
    using rebuild_run [of fails s r t] by (auto simp: redb_retrieve_ops_def same_tables_def)
  show "o_ids (redb_retrieve_ops fails) s = (q, t) \<Longrightarrow>
      bt_get (documents t) = bt_get (documents s) \<and> (\<forall>l. q = Inr l \<longrightarrow> set l = dom (bt_get (documents s)))" for s q t
    using document_ids_run [of fails s q t] by (auto simp: redb_retrieve_ops_def keys_dom simp del: bt_simps)
  show "o_count (redb_retrieve_ops fails) s = (c, t) \<Longrightarrow>
      bt_get (documents t) = bt_get (documents s) \<and> (\<forall>n. c = Inr n \<longrightarrow> n = of_nat (card (dom (bt_get (documents s)))))" for s c t
    using document_count_run [of fails s c t] by (auto simp: redb_retrieve_ops_def size_dom)
qed

interpretation memory_docs: doc_store memory_retrieve_ops "\<lambda>m i. map_option record_of (bt_get m i)"
  by unfold_locales (auto simp: memory_retrieve_ops_def fun_eq_iff bt_keys_iff bt_has_def size_dom dom_def)

section \<open>A steady disk\<close>

text \<open>The files do not change while the sync runs: the stamp and the document of every path.\<close>

definition steady :: "disk_env \<Rightarrow> bool" where
  "steady D \<longleftrightarrow> (\<forall>k p. disk_meta D k p = disk_meta D 0 p \<and> disk_read D k p = disk_read D 0 p)"

definition now_stamp :: "disk_env \<Rightarrow> string \<Rightarrow> stamp" where
  "now_stamp D p = file_stamp (case disk_meta D 0 p of Inl _ \<Rightarrow> None | Inr m \<Rightarrow> Some m)"

definition now_doc :: "disk_env \<Rightarrow> string \<Rightarrow> document option" where
  "now_doc D p =
     (if is_image_path p then
        (case (disk_meta D 0 p, disk_read D 0 p) of
           (Inr m, Inr b) \<Rightarrow> if unat (md_len m) > MAX_IMAGE_BYTES then None else Some (image_document D p b)
         | _ \<Rightarrow> None)
      else (case disk_read D 0 p of Inr b \<Rightarrow> if valid_utf8 b then Some (text_document p b) else None | Inl _ \<Rightarrow> None))"

lemma now_doc_id: "now_doc D p = Some d \<Longrightarrow> doc_id d = path_to_doc_id p"
  by (auto simp: now_doc_def image_document_def text_document_def split: if_splits sum.splits)


lemma steadyE:
  assumes "steady D"
  obtains m f where "disk_meta D = (\<lambda>_. m)" "disk_read D = (\<lambda>_. f)"
proof
  show "disk_meta D = (\<lambda>_. disk_meta D 0)" "disk_read D = (\<lambda>_. disk_read D 0)"
    using assms unfolding steady_def fun_eq_iff by blast+
qed

lemma steady_stamp: "steady D \<Longrightarrow> stamp_on_disk D p s = (Inr (now_stamp D p), s\<lparr>sy_step := sy_step s + 1\<rparr>)"
  by (erule steadyE) (simp add: stamp_on_disk_def bindE_def attempt_def on_disk_def now_stamp_def)

lemma steady_build:
  assumes "steady D"
  shows "\<exists>r t. build_document_from_disk D p s = (r, t) \<and> sy_retrieve t = sy_retrieve s \<and> sy_track t = sy_track s \<and> sy_hook t = sy_hook s \<and>
    (case r of Inr (Some d) \<Rightarrow> now_doc D p = Some d | _ \<Rightarrow> now_doc D p = None)"
proof -
  obtain m f where d: "disk_meta D = (\<lambda>_. m)" "disk_read D = (\<lambda>_. f)" by (rule steadyE [OF assms])
  show ?thesis
    by (cases "m p"; cases "f p") (simp_all add: build_document_from_disk_def bindE_def on_disk_def d now_doc_def)
qed


section \<open>The sync as a client of the stores\<close>

text \<open>
  A stamp that is the present one vouches for the document: the index never claims a file it does not hold.
  \<open>settled\<close> is a file the sync has taken in.
\<close>

definition honest :: "disk_env \<Rightarrow> string set \<Rightarrow> (string, stamp) btmap \<Rightarrow> (i64 \<Rightarrow> doc_record option) \<Rightarrow> bool" where
  "honest D C st dc \<longleftrightarrow> (\<forall>p \<in> C. bt_get st p = Some (now_stamp D p) \<longrightarrow>
     (\<exists>d. now_doc D p = Some d \<and> dc (path_to_doc_id p) = Some (record_of d)))"

definition settled :: "disk_env \<Rightarrow> (string, stamp) btmap \<Rightarrow> (i64 \<Rightarrow> doc_record option) \<Rightarrow> string \<Rightarrow> bool" where
  "settled D st dc p \<longleftrightarrow> (\<forall>d. now_doc D p = Some d \<longrightarrow>
     bt_get st p = Some (now_stamp D p) \<and> dc (path_to_doc_id p) = Some (record_of d))"

text \<open>The two tables after a document is written, and after one is removed.\<close>

definition may_write :: "disk_env \<Rightarrow> string \<Rightarrow> (string, stamp) btmap \<Rightarrow> (i64 \<Rightarrow> doc_record option) \<Rightarrow>
    (string, stamp) btmap \<Rightarrow> (i64 \<Rightarrow> doc_record option) \<Rightarrow> bool" where
  "may_write D p st dc st' dc' \<longleftrightarrow> (st' = st \<and> dc' = dc) \<or>
     (\<exists>d. now_doc D p = Some d \<and> dc' = dc(path_to_doc_id p \<mapsto> record_of d) \<and> (st' = st \<or> st' = bt_insert p (now_stamp D p) st))"

lemma may_write_cases:
  assumes "may_write D p st dc st' dc'"
  obtains "st' = st" "dc' = dc"
    | d where "now_doc D p = Some d" "dc' = dc(path_to_doc_id p \<mapsto> record_of d)" "st' = st"
    | d where "now_doc D p = Some d" "dc' = dc(path_to_doc_id p \<mapsto> record_of d)" "st' = bt_insert p (now_stamp D p) st"
  using assms unfolding may_write_def by blast

text \<open>What is said of a path stays true when its own or another path's document is written.\<close>

lemma may_write_doc:
  assumes "may_write D p st dc st' dc'" "inj_on path_to_doc_id C" "p \<in> C" "q \<in> C"
    and "now_doc D q = Some d" "dc (path_to_doc_id q) = Some (record_of d)"
  shows "dc' (path_to_doc_id q) = Some (record_of d)"
proof -
  have put: "(dc(path_to_doc_id p \<mapsto> record_of e)) (path_to_doc_id q) = Some (record_of d)" if "now_doc D p = Some e" for e
  proof (cases "q = p")
    case True
    with that assms(5) show ?thesis by simp
  next
    case False
    with inj_onD [OF assms(2) _ assms(4,3)] have "path_to_doc_id q \<noteq> path_to_doc_id p" by blast
    with assms(6) show ?thesis by simp
  qed
  from assms(1) show ?thesis
  proof (cases rule: may_write_cases)
    case 1
    then show ?thesis using assms(6) by simp
  next
    case (2 e)
    show ?thesis unfolding 2(2) by (rule put [OF 2(1)])
  next
    case (3 e)
    show ?thesis unfolding 3(2) by (rule put [OF 3(1)])
  qed
qed

lemma may_write_stamp: "\<lbrakk>may_write D p st dc st' dc'; bt_get st q = Some (now_stamp D q)\<rbrakk> \<Longrightarrow> bt_get st' q = Some (now_stamp D q)"
  by (erule may_write_cases) auto

lemma may_write_stamps: "\<lbrakk>may_write D p st dc st' dc'; bt_has st' q\<rbrakk> \<Longrightarrow> bt_has st q \<or> q = p"
  by (erule may_write_cases) (auto simp: bt_has_def split: if_splits)

lemma may_write_docs: "\<lbrakk>may_write D p st dc st' dc'; dc' i \<noteq> None\<rbrakk> \<Longrightarrow> dc i \<noteq> None \<or> i = path_to_doc_id p"
  by (erule may_write_cases) (auto split: if_splits)

lemma may_write_honest:
  assumes "may_write D p st dc st' dc'" "inj_on path_to_doc_id C" "p \<in> C" "honest D C st dc"
  shows "honest D C st' dc'"
  unfolding honest_def
proof (intro ballI impI)
  fix q assume q: "q \<in> C" "bt_get st' q = Some (now_stamp D q)"
  show "\<exists>d. now_doc D q = Some d \<and> dc' (path_to_doc_id q) = Some (record_of d)"
  proof (cases "bt_get st q = Some (now_stamp D q)")
    case True
    with assms(4) q(1) obtain d where "now_doc D q = Some d" "dc (path_to_doc_id q) = Some (record_of d)" by (auto simp: honest_def)
    with may_write_doc [OF assms(1-3) q(1)] show ?thesis by blast
  next
    case False
    from assms(1) show ?thesis
    proof (cases rule: may_write_cases)
      case 1
      then show ?thesis using q(2) False by simp
    next
      case (2 d)
      then show ?thesis using q(2) False by simp
    next
      case (3 d)
      have "q = p"
      proof (rule ccontr)
        assume "q \<noteq> p"
        then have "bt_get st' q = bt_get st q" unfolding 3(3) by simp
        with q(2) False show False by simp
      qed
      then show ?thesis unfolding 3(2) using 3(1) by simp
    qed
  qed
qed

lemma may_write_settled:
  assumes "may_write D p st dc st' dc'" "inj_on path_to_doc_id C" "p \<in> C" "q \<in> C" "settled D st dc q"
  shows "settled D st' dc' q"
  using assms(5) may_write_doc [OF assms(1-4)] may_write_stamp [OF assms(1)] by (auto simp: settled_def)

locale index_stores = track_store T stamps + doc_store R docs
  for T :: "'t track_ops" and stamps :: "'t \<Rightarrow> (string, stamp) btmap"
    and R :: "'r retrieve_ops" and docs :: "'r \<Rightarrow> i64 \<Rightarrow> doc_record option"

context index_stores
begin

lemma on_retrieve_run: "on_retrieve m s = (r, t) \<Longrightarrow> \<exists>q x. m (sy_retrieve s) = (q, x) \<and> t = s\<lparr>sy_retrieve := x\<rparr> \<and>
    (\<forall>y. r = Inr y \<longleftrightarrow> q = Inr y)"
  by (auto simp: on_retrieve_def split: prod.splits sum.splits)

lemma on_track_run: "on_track m s = (r, t) \<Longrightarrow> \<exists>q x. m (sy_track s) = (q, x) \<and> t = s\<lparr>sy_track := x\<rparr> \<and>
    (\<forall>y. r = Inr y \<longleftrightarrow> q = Inr y)"
  by (auto simp: on_track_def split: prod.splits sum.splits)

lemma on_hook_run: "on_hook m s = (r, t) \<Longrightarrow> \<exists>x. t = s\<lparr>sy_hook := x\<rparr>"
  by (auto simp: on_hook_def split: prod.splits)

lemma sync_file_run:
  fixes H :: "('h, 'e) hook_ops"
  assumes "sync_file D R T H full known n p s = (r, t)" "steady D"
  shows "may_write D p (stamps (sy_track s)) (docs (sy_retrieve s)) (stamps (sy_track t)) (docs (sy_retrieve t)) \<and>
    (\<forall>m. r = Inr m \<longrightarrow> (if m = n
       then sy_track t = sy_track s \<and> sy_retrieve t = sy_retrieve s \<and>
         (now_doc D p = None \<or> (\<not> full \<and> bt_get known p = Some (now_stamp D p)))
       else m = n + 1 \<and> now_doc D p \<noteq> None \<and> (full \<or> bt_get known p \<noteq> Some (now_stamp D p)) \<and>
         settled D (stamps (sy_track t)) (docs (sy_retrieve t)) p))"
proof -
  let ?s = "s\<lparr>sy_step := sy_step s + 1\<rparr>"
  have start: "sync_file D R T H full known n p s =
      (if \<not> full \<and> bt_get known p = Some (now_stamp D p) then ret n
       else thenE (on_hook (on_changed H p (mtime_ns (now_stamp D p))))
         (bindE (attempt (build_document_from_disk D p)) (\<lambda>r. case r of
            Inr (Some d) \<Rightarrow> thenE (on_retrieve (o_upsert R d)) (thenE (on_track (t_upsert T p (now_stamp D p))) (ret (Suc n)))
          | _ \<Rightarrow> ret n))) ?s"
    by (simp add: sync_file_def steady_stamp [OF assms(2)] bindE_def)
  show ?thesis
  proof (cases "\<not> full \<and> bt_get known p = Some (now_stamp D p)")
    case True
    with assms(1) start have "r = Inr n" "t = ?s" by simp_all
    with True show ?thesis by (simp add: may_write_def)
  next
    case False
    obtain q u where h: "on_hook (on_changed H p (mtime_ns (now_stamp D p))) ?s = (q, u)" by force
    then obtain x where u: "u = ?s\<lparr>sy_hook := x\<rparr>" using on_hook_run by blast
    show ?thesis
    proof (cases q)
      case (Inl e)
      with assms(1) start False h u show ?thesis by (auto simp: runs may_write_def)
    next
      case (Inr y)
      obtain b v where b: "build_document_from_disk D p u = (b, v)" "sy_retrieve v = sy_retrieve u" "sy_track v = sy_track u"
        "sy_hook v = sy_hook u" "case b of Inr (Some d) \<Rightarrow> now_doc D p = Some d | _ \<Rightarrow> now_doc D p = None"
        using steady_build [OF assms(2)] by blast
      have same: "sy_retrieve v = sy_retrieve s" "sy_track v = sy_track s" using b u by simp_all
      from assms(1) start False h Inr b(1) have run: "(case b of
            Inr (Some d) \<Rightarrow> thenE (on_retrieve (o_upsert R d)) (thenE (on_track (t_upsert T p (now_stamp D p))) (ret (Suc n)))
          | _ \<Rightarrow> ret n) v = (r, t)" by (simp add: runs)
      show ?thesis
      proof (cases "now_doc D p")
        case None
        with b(5) run have "r = Inr n" "t = v" by (auto split: sum.splits option.splits)
        with None same show ?thesis by (simp add: may_write_def)
      next
        case (Some d)
        with b(5) have "b = Inr (Some d)" by (auto split: sum.splits option.splits)
        with run have run: "thenE (on_retrieve (o_upsert R d)) (thenE (on_track (t_upsert T p (now_stamp D p))) (ret (Suc n))) v = (r, t)"
          by simp
        obtain q1 w where up: "on_retrieve (o_upsert R d) v = (q1 :: 'e sync_error + unit, w)" by force
        obtain q1' y1 where up': "o_upsert R d (sy_retrieve v) = (q1', y1)" "w = v\<lparr>sy_retrieve := y1\<rparr>" "\<forall>y. q1 = Inr y \<longleftrightarrow> q1' = Inr y"
          using on_retrieve_run [OF up] by blast
        note law = upsert_doc_law [OF up'(1)]
        note id = now_doc_id [OF Some]
        show ?thesis
        proof (cases q1)
          case Inl1: (Inl e)
          with run up have "r = Inl e" "t = w" by (simp_all add: runs)
          with up' law Some same id show ?thesis by (auto simp: may_write_def)
        next
          case Inr1: (Inr z)
          then have "q1' = Inr ()" using up'(3) by simp
          then have dw: "docs (sy_retrieve w) = (docs (sy_retrieve s))(path_to_doc_id p \<mapsto> record_of d)"
            using law unfolding up'(2) id same by simp
          have tw: "sy_track w = sy_track s" using up' same by simp
          obtain q2 w2 where st: "on_track (t_upsert T p (now_stamp D p)) w = (q2 :: 'e sync_error + unit, w2)" by force
          obtain q2' y2 where st': "t_upsert T p (now_stamp D p) (sy_track w) = (q2', y2)" "w2 = w\<lparr>sy_track := y2\<rparr>"
            "\<forall>y. q2 = Inr y \<longleftrightarrow> q2' = Inr y" using on_track_run [OF st] by blast
          note law2 = upsert_law [OF st'(1)]
          from run up Inr1 st have run: "(case q2 of Inl e \<Rightarrow> Inl e | Inr _ \<Rightarrow> Inr (Suc n), w2) = (r, t)"
            by (cases q2) (simp_all add: runs)
          then have t: "t = w2" "(\<forall>m. r = Inr m \<longrightarrow> m = n + 1 \<and> q2 = Inr ())"
            by (auto split: sum.splits)
          have dt: "docs (sy_retrieve t) = (docs (sy_retrieve s))(path_to_doc_id p \<mapsto> record_of d)"
            using t(1) st'(2) dw by simp
          have tt: "stamps (sy_track t) = (if q2' = Inr () then bt_insert p (now_stamp D p) (stamps (sy_track s)) else stamps (sy_track s))"
            using t(1) st'(2) law2 tw by simp
          have "may_write D p (stamps (sy_track s)) (docs (sy_retrieve s)) (stamps (sy_track t)) (docs (sy_retrieve t))"
            unfolding may_write_def dt tt using Some by simp
          moreover have set: "settled D (stamps (sy_track t)) (docs (sy_retrieve t)) p" if "r = Inr m" for m
          proof -
            from t(2) that st'(3) have "q2' = Inr ()" by blast
            then show ?thesis unfolding settled_def dt tt using Some by simp
          qed
          moreover have "if m = n
              then sy_track t = sy_track s \<and> sy_retrieve t = sy_retrieve s \<and>
                (now_doc D p = None \<or> (\<not> full \<and> bt_get known p = Some (now_stamp D p)))
              else m = n + 1 \<and> now_doc D p \<noteq> None \<and> (full \<or> bt_get known p \<noteq> Some (now_stamp D p)) \<and>
                settled D (stamps (sy_track t)) (docs (sy_retrieve t)) p" if m: "r = Inr m" for m
          proof -
            have "m = n + 1" using t(2) m by blast
            then have "m = n + 1" "m \<noteq> n" by simp_all
            moreover have "full \<or> bt_get known p \<noteq> Some (now_stamp D p)" using False by blast
            moreover have "now_doc D p \<noteq> None" unfolding Some by (rule option.distinct(2))
            ultimately show ?thesis using set [OF m] by (simp only: if_False) (intro conjI refl; simp)
          qed
          ultimately show ?thesis by blast
        qed
      qed
    qed
  qed
qed

end

end
