(* ===== verification/IndexSync.thy ===== *)
theory IndexSync
  imports Indexer
begin

text \<open>
  What a sync of the index achieves (\<open>sync_inner\<close> of \<open>sapphire-framework-workspace/src/indexer.rs\<close>), for any
  stores that keep the contracts \<open>track_store\<close> and \<open>doc_store\<close>: whatever fails, the stamps vouch only for
  documents that are stored; the rows of a candidate that cannot be read or is no text stay as they are; a sync
  that returns has taken in every readable candidate and dropped what is no candidate, and the next one finds
  nothing to do. Files are steady during a sync and their document ids do not collide.
\<close>

section \<open>Taking files in and out\<close>

text \<open>A candidate that cannot be read, or is no text, keeps the rows it had.\<close>

definition rows_kept :: "disk_env \<Rightarrow> string set \<Rightarrow> (string, stamp) btmap \<Rightarrow> (i64 \<Rightarrow> doc_record option) \<Rightarrow>
    (string, stamp) btmap \<Rightarrow> (i64 \<Rightarrow> doc_record option) \<Rightarrow> bool" where
  "rows_kept D C st dc st' dc' \<longleftrightarrow>
     (\<forall>p \<in> C. now_doc D p = None \<longrightarrow> bt_get st' p = bt_get st p \<and> dc' (path_to_doc_id p) = dc (path_to_doc_id p))"

lemma rows_kept_refl [simp]: "rows_kept D C st dc st dc"
  by (simp add: rows_kept_def)

lemma rows_kept_trans [trans]: "\<lbrakk>rows_kept D C st dc st1 dc1; rows_kept D C st1 dc1 st2 dc2\<rbrakk> \<Longrightarrow> rows_kept D C st dc st2 dc2"
  by (simp add: rows_kept_def)

lemma rows_kept_write:
  assumes "may_write D p st dc st' dc'" "inj_on path_to_doc_id C" "p \<in> C"
  shows "rows_kept D C st dc st' dc'"
proof -
  have other: "q \<noteq> p \<and> path_to_doc_id q \<noteq> path_to_doc_id p" if "q \<in> C" "now_doc D q = None" "now_doc D p = Some d" for q d
    using that inj_onD [OF assms(2) _ that(1) assms(3)] by auto
  from assms(1) show ?thesis by (cases rule: may_write_cases) (auto simp: rows_kept_def dest: other)
qed

definition taken_in :: "disk_env \<Rightarrow> string set \<Rightarrow> string set \<Rightarrow> (string, stamp) btmap \<Rightarrow> (i64 \<Rightarrow> doc_record option) \<Rightarrow>
    (string, stamp) btmap \<Rightarrow> (i64 \<Rightarrow> doc_record option) \<Rightarrow> bool" where
  "taken_in D C P st dc st' dc' \<longleftrightarrow>
     (honest D C st dc \<longrightarrow> honest D C st' dc') \<and>
     (\<forall>q. bt_get st q = Some (now_stamp D q) \<longrightarrow> bt_get st' q = Some (now_stamp D q)) \<and>
     (\<forall>q \<in> C. settled D st dc q \<longrightarrow> settled D st' dc' q) \<and>
     (\<forall>q. bt_has st' q \<longrightarrow> bt_has st q \<or> q \<in> P) \<and>
     (\<forall>i. dc' i \<noteq> None \<longrightarrow> dc i \<noteq> None \<or> i \<in> path_to_doc_id ` P) \<and>
     rows_kept D C st dc st' dc'"

lemma taken_in_refl: "taken_in D C P st dc st dc"
  by (simp add: taken_in_def)

lemma taken_in_trans:
  assumes "taken_in D C P st dc st1 dc1" "taken_in D C Q st1 dc1 st2 dc2"
  shows "taken_in D C (P \<union> Q) st dc st2 dc2"
proof -
  note a = assms(1) [unfolded taken_in_def] and b = assms(2) [unfolded taken_in_def]
  have 1: "honest D C st dc \<longrightarrow> honest D C st2 dc2" using a b by blast
  have 2: "\<forall>q. bt_get st q = Some (now_stamp D q) \<longrightarrow> bt_get st2 q = Some (now_stamp D q)" using a b by blast
  have 3: "\<forall>q \<in> C. settled D st dc q \<longrightarrow> settled D st2 dc2 q" using a b by blast
  have 4: "\<forall>q. bt_has st2 q \<longrightarrow> bt_has st q \<or> q \<in> P \<union> Q" using a b by blast
  have 5: "\<forall>i. dc2 i \<noteq> None \<longrightarrow> dc i \<noteq> None \<or> i \<in> path_to_doc_id ` (P \<union> Q)" using a b by blast
  have 6: "rows_kept D C st dc st2 dc2" using a b by (blast intro: rows_kept_trans)
  from 1 2 3 4 5 6 show ?thesis unfolding taken_in_def by (intro conjI)
qed

lemma taken_in_write:
  assumes "may_write D p st dc st' dc'" "inj_on path_to_doc_id C" "p \<in> C"
  shows "taken_in D C {p} st dc st' dc'"
  unfolding taken_in_def
proof (intro conjI allI ballI impI)
  show "honest D C st' dc'" if "honest D C st dc" by (rule may_write_honest [OF assms that])
  show "bt_get st' q = Some (now_stamp D q)" if "bt_get st q = Some (now_stamp D q)" for q
    by (rule may_write_stamp [OF assms(1) that])
  show "settled D st' dc' q" if "q \<in> C" "settled D st dc q" for q
    by (rule may_write_settled [OF assms that])
  show "bt_has st q \<or> q \<in> {p}" if "bt_has st' q" for q using may_write_stamps [OF assms(1) that] by simp
  show "dc i \<noteq> None \<or> i \<in> path_to_doc_id ` {p}" if "dc' i \<noteq> None" for i using may_write_docs [OF assms(1) that] by simp
  show "rows_kept D C st dc st' dc'" by (rule rows_kept_write [OF assms])
qed

definition taken_out :: "string set \<Rightarrow> i64 set \<Rightarrow> (string, stamp) btmap \<Rightarrow> (i64 \<Rightarrow> doc_record option) \<Rightarrow>
    (string, stamp) btmap \<Rightarrow> (i64 \<Rightarrow> doc_record option) \<Rightarrow> bool" where
  "taken_out P I st dc st' dc' \<longleftrightarrow>
     (\<forall>q. bt_get st' q = bt_get st q \<or> (q \<in> P \<and> bt_get st' q = None)) \<and>
     (\<forall>i. dc' i = dc i \<or> (i \<in> I \<and> dc' i = None))"

lemma taken_out_refl: "taken_out P I st dc st dc"
  by (simp add: taken_out_def)

lemma taken_out_trans:
  assumes "taken_out P I st dc st1 dc1" "taken_out Q J st1 dc1 st2 dc2"
  shows "taken_out (P \<union> Q) (I \<union> J) st dc st2 dc2"
  unfolding taken_out_def
proof (intro conjI allI)
  show "bt_get st2 q = bt_get st q \<or> (q \<in> P \<union> Q \<and> bt_get st2 q = None)" for q
    using assms unfolding taken_out_def by (metis UnCI)
  show "dc2 i = dc i \<or> (i \<in> I \<union> J \<and> dc2 i = None)" for i
    using assms unfolding taken_out_def by (metis UnCI)
qed

lemma taken_out_stamp: "taken_out P I st dc st' dc' \<Longrightarrow> bt_get st q = None \<Longrightarrow> bt_get st' q = None"
  by (auto simp: taken_out_def dest: spec [where x = q])

lemma taken_out_doc: "taken_out P I st dc st' dc' \<Longrightarrow> dc i = None \<Longrightarrow> dc' i = None"
  by (auto simp: taken_out_def dest: spec [where x = i])

lemma taken_out_had:
  assumes "taken_out P I st dc st' dc'"
  shows "bt_get st' q \<noteq> None \<Longrightarrow> bt_get st q \<noteq> None" "dc' i \<noteq> None \<Longrightarrow> dc i \<noteq> None"
  by (erule contrapos_nn, erule taken_out_stamp [OF assms]) (erule contrapos_nn, erule taken_out_doc [OF assms])

lemma taken_in_had:
  assumes "taken_in D C P st dc st' dc'"
  shows "bt_has st' q \<Longrightarrow> q \<notin> P \<Longrightarrow> bt_has st q" "dc' i \<noteq> None \<Longrightarrow> i \<notin> path_to_doc_id ` P \<Longrightarrow> dc i \<noteq> None"
proof -
  from assms have has: "\<forall>q. bt_has st' q \<longrightarrow> bt_has st q \<or> q \<in> P" unfolding taken_in_def by (elim conjE)
  from assms have docs: "\<forall>i. dc' i \<noteq> None \<longrightarrow> dc i \<noteq> None \<or> i \<in> path_to_doc_id ` P" unfolding taken_in_def by (elim conjE)
  show "bt_has st q" if "bt_has st' q" "q \<notin> P" using spec [OF has, of q] that by simp
  show "dc i \<noteq> None" if "dc' i \<noteq> None" "i \<notin> path_to_doc_id ` P" using mp [OF spec [OF docs] that(1)] that(2) by (elim disjE) (assumption, erule (1) notE)
qed

lemma taken_out_keep:
  assumes "taken_out P I st dc st' dc'" "q \<notin> P" "path_to_doc_id q \<notin> I"
  shows "bt_get st' q = bt_get st q" "dc' (path_to_doc_id q) = dc (path_to_doc_id q)"
  using assms by (auto simp: taken_out_def)

lemma taken_out_honest:
  assumes "taken_out P I st dc st' dc'" "P \<inter> C = {}" "I \<inter> path_to_doc_id ` C = {}" "honest D C st dc"
  shows "honest D C st' dc'"
  unfolding honest_def
proof (intro ballI impI)
  fix q assume q: "q \<in> C" "bt_get st' q = Some (now_stamp D q)"
  have "q \<notin> P" "path_to_doc_id q \<notin> I" using q(1) assms(2,3) by blast+
  note keep = taken_out_keep [OF assms(1) this]
  show "\<exists>d. now_doc D q = Some d \<and> dc' (path_to_doc_id q) = Some (record_of d)"
    using assms(4) q unfolding honest_def keep by blast
qed

lemma taken_out_rows:
  assumes "taken_out P I st dc st' dc'" "P \<inter> C = {}" "I \<inter> path_to_doc_id ` C = {}"
  shows "rows_kept D C st dc st' dc'"
  unfolding rows_kept_def
proof (intro ballI impI)
  fix q assume "q \<in> C"
  then have "q \<notin> P" "path_to_doc_id q \<notin> I" using assms(2,3) by blast+
  from taken_out_keep [OF assms(1) this] show "bt_get st' q = bt_get st q \<and> dc' (path_to_doc_id q) = dc (path_to_doc_id q)" ..
qed

lemma taken_out_settled:
  assumes "taken_out P I st dc st' dc'" "q \<notin> P" "path_to_doc_id q \<notin> I"
  shows "settled D st' dc' q = settled D st dc q"
  unfolding settled_def taken_out_keep [OF assms] ..

section \<open>The three loops\<close>

lemma then_run: "(case q of Inl e \<Rightarrow> Inl e | Inr x \<Rightarrow> Inr c, w) = (r, t) \<Longrightarrow> t = w \<and> (\<forall>a. r = Inr a \<longrightarrow> q = Inr () \<and> a = c)" for q :: "'a + unit"
  by (cases q) auto

context index_stores
begin

text \<open>The two tables of a state.\<close>

abbreviation st :: "('r, 't, 'h) sync_state \<Rightarrow> (string, stamp) btmap" where
  "st s \<equiv> stamps (sy_track s)"

abbreviation dc :: "('r, 't, 'h) sync_state \<Rightarrow> i64 \<Rightarrow> doc_record option" where
  "dc s \<equiv> docs (sy_retrieve s)"

lemma sync_files_run:
  fixes H :: "('h, 'e) hook_ops"
  assumes "folding (sync_file D R T H full known) n ps s = (r, t)" "steady D" "inj_on path_to_doc_id C" "set ps \<subseteq> C"
  shows "taken_in D C (set ps) (st s) (dc s) (st t) (dc t)"
  using assms(1,4)
proof (induction ps arbitrary: n s)
  case (Cons p ps)
  obtain q u where q: "sync_file D R T H full known n p s = (q, u)" by force
  have p: "taken_in D C {p} (st s) (dc s) (st u) (dc u)"
    by (rule taken_in_write [OF _ assms(3)]) (use sync_file_run [OF q assms(2)] Cons.prems(2) in simp_all)
  show ?case
  proof (cases q)
    case (Inl e)
    with Cons.prems(1) q have "t = u" by (simp add: runs)
    with taken_in_trans [OF p taken_in_refl [where P = "set ps"]] show ?thesis by simp
  next
    case (Inr m)
    with Cons.prems(1) q have "folding (sync_file D R T H full known) m ps u = (r, t)" by (simp add: runs)
    then have "taken_in D C (set ps) (st u) (dc u) (st t) (dc t)" using Cons.prems(2) by (intro Cons.IH) simp_all
    from taken_in_trans [OF p this] show ?thesis by simp
  qed
qed (simp add: taken_in_refl)

text \<open>A loop that comes to its end has settled every file, if what was known of the stamps is stored.\<close>

lemma sync_files_settle:
  fixes H :: "('h, 'e) hook_ops"
  assumes "folding (sync_file D R T H full known) n ps s = (Inr m, t)" "steady D" "inj_on path_to_doc_id C" "set ps \<subseteq> C"
    and "honest D C (st s) (dc s)" "\<And>p. bt_get known p = Some (now_stamp D p) \<Longrightarrow> bt_get (st s) p = Some (now_stamp D p)"
  shows "\<forall>p \<in> set ps. settled D (st t) (dc t) p"
  using assms(1,4-6)
proof (induction ps arbitrary: n s)
  case (Cons p ps)
  from Cons.prems(1) obtain k u where k: "sync_file D R T H full known n p s = (Inr k, u)"
    and rest: "folding (sync_file D R T H full known) k ps u = (Inr m, t)" by (auto simp: run_simps)
  note one = sync_file_run [OF k assms(2)]
  have pC: "p \<in> C" and psC: "set ps \<subseteq> C" using Cons.prems(2) by simp_all
  have u: "taken_in D C {p} (st s) (dc s) (st u) (dc u)"
    by (rule taken_in_write [OF _ assms(3) pC]) (use one in simp)
  then have hon: "honest D C (st u) (dc u)" using Cons.prems(3) unfolding taken_in_def by blast
  have kn: "bt_get known q = Some (now_stamp D q) \<Longrightarrow> bt_get (st u) q = Some (now_stamp D q)" for q
    using u Cons.prems(4) unfolding taken_in_def by blast
  have "settled D (st u) (dc u) p"
  proof (cases "k = n")
    case True
    then have same: "st u = st s" "dc u = dc s" and or: "now_doc D p = None \<or> bt_get known p = Some (now_stamp D p)"
      using one by (simp_all, blast)
    from or show ?thesis
    proof
      assume "now_doc D p = None"
      then show ?thesis by (simp add: settled_def)
    next
      assume "bt_get known p = Some (now_stamp D p)"
      note stp = kn [OF this]
      obtain d where "now_doc D p = Some d" "dc u (path_to_doc_id p) = Some (record_of d)"
        using hon stp pC unfolding honest_def by blast
      with stp show ?thesis by (simp add: settled_def)
    qed
  next
    case False
    with one show ?thesis by simp
  qed
  moreover have "taken_in D C (set ps) (st u) (dc u) (st t) (dc t)"
    by (rule sync_files_run [OF rest assms(2,3) psC])
  ultimately have "settled D (st t) (dc t) p" using pC unfolding taken_in_def by blast
  with Cons.IH [OF rest psC hon kn] show ?case by simp
qed simp

text \<open>A loop over files that are known or not documents does nothing.\<close>

lemma sync_files_idle:
  fixes H :: "('h, 'e) hook_ops"
  assumes "folding (sync_file D R T H False known) n ps s = (Inr m, t)" "steady D"
    and "\<And>p. p \<in> set ps \<Longrightarrow> now_doc D p = None \<or> bt_get known p = Some (now_stamp D p)"
  shows "m = n \<and> sy_track t = sy_track s \<and> sy_retrieve t = sy_retrieve s"
  using assms(1,3)
proof (induction ps arbitrary: n s)
  case (Cons p ps)
  from Cons.prems(1) obtain k u where k: "sync_file D R T H False known n p s = (Inr k, u)"
    and rest: "folding (sync_file D R T H False known) k ps u = (Inr m, t)" by (auto simp: run_simps)
  have "k = n" using sync_file_run [OF k assms(2)] Cons.prems(2) [of p] by (auto split: if_splits)
  moreover have "sy_track u = sy_track s" "sy_retrieve u = sy_retrieve s" using sync_file_run [OF k assms(2)] \<open>k = n\<close> by simp_all
  ultimately show ?case using Cons.IH [OF rest] Cons.prems(2) by simp
qed simp

lemma sync_gone_run:
  fixes H :: "('h, 'e) hook_ops"
  assumes "sync_gone R T H ex acc p s = (r, t)"
  shows "taken_out {p} {path_to_doc_id p} (st s) (dc s) (st t) (dc t) \<and>
    (\<forall>acc'. r = Inr acc' \<longrightarrow> bt_get (st t) p = None \<and>
      (\<forall>i \<in> fst acc'. i \<in> fst acc \<or> dc t i = None))"
proof -
  let ?i = "path_to_doc_id p"
  obtain q u where q: "on_hook (on_removed H p) s = (q, u)" by force
  obtain x where u: "u = s\<lparr>sy_hook := x\<rparr>" using on_hook_run [OF q] by blast
  show ?thesis
  proof (cases q)
    case (Inl e)
    with assms q have "r = Inl e" "t = u" by (simp_all add: sync_gone_def runs)
    with u show ?thesis by (simp add: taken_out_refl)
  next
    case (Inr y)
    let ?rm = "if ?i \<in> ex \<and> ?i \<notin> fst acc
       then thenE (on_retrieve (o_remove R ?i)) (ret (insert ?i (fst acc), snd acc + 1)) else ret acc"
    have run: "bindE ?rm (\<lambda>acc. thenE (on_track (t_remove T p)) (ret acc)) u = (r, t)"
      using assms q Inr unfolding sync_gone_def Let_def by (simp only: runs)
    obtain q1 v where v: "?rm u = (q1 :: 'e sync_error + i64 set \<times> nat, v)" by force
    have mid: "taken_out {p} {?i} (st s) (dc s) (st v) (dc v) \<and>
        (\<forall>a. q1 = Inr a \<longrightarrow> (\<forall>i \<in> fst a. i \<in> fst acc \<or> dc v i = None))"
    proof (cases "?i \<in> ex \<and> ?i \<notin> fst acc")
      case True
      obtain q2 w where w: "on_retrieve (o_remove R ?i) u = (q2 :: 'e sync_error + unit, w)" by force
      obtain q2' y where w': "o_remove R ?i (sy_retrieve u) = (q2', y)" "w = u\<lparr>sy_retrieve := y\<rparr>" "\<forall>z. q2 = Inr z \<longleftrightarrow> q2' = Inr z"
        using on_retrieve_run [OF w] by blast
      have dw: "dc w = (if q2' = Inr () then (dc s)(?i := None) else dc s)" "st w = st s"
        using remove_doc_law [OF w'(1)] w'(2) u by simp_all
      have to: "taken_out {p} {?i} (st s) (dc s) (st w) (dc w)" unfolding dw taken_out_def by simp
      have "(case q2 of Inl e \<Rightarrow> Inl e | Inr _ \<Rightarrow> Inr (insert ?i (fst acc), snd acc + 1), w) = (q1, v)"
        using v True w by (cases q2) (simp_all add: runs)
      note fin = then_run [OF this]
      have vw: "v = w" using fin by blast
      have vw2: "\<forall>a. q1 = Inr a \<longrightarrow> q2' = Inr () \<and> a = (insert ?i (fst acc), snd acc + 1)" using fin w'(3) by blast
      have d: "i \<in> fst acc \<or> dc v i = None" if "q1 = Inr a" "i \<in> fst a" for a i
      proof -
        from vw2 that(1) have a: "q2' = Inr ()" "a = (insert ?i (fst acc), snd acc + 1)" by blast+
        have i: "i = ?i \<or> i \<in> fst acc" using that(2) unfolding a(2) by simp
        have "dc v = (dc s)(?i := None)" unfolding vw dw(1) a(1) by simp
        then have none: "dc v ?i = None" by simp
        from i show ?thesis by (rule disjE) (simp_all only: none simp_thms)
      qed
      show ?thesis
      proof (intro conjI allI impI ballI)
        show "taken_out {p} {?i} (st s) (dc s) (st v) (dc v)" unfolding vw by (rule to)
      qed (rule d)
    next
      case False
      with v have "q1 = Inr acc" "v = u" by auto
      with u show ?thesis by (simp add: taken_out_refl)
    qed
    show ?thesis
    proof (cases q1)
      case Inl1: (Inl e)
      with run v have "r = Inl e" "t = v" by (simp_all add: runs)
      with mid show ?thesis by simp
    next
      case Inr1: (Inr a)
      obtain q3 w where w: "on_track (t_remove T p) v = (q3 :: 'e sync_error + unit, w)" by force
      obtain q3' y where w': "t_remove T p (sy_track v) = (q3', y)" "w = v\<lparr>sy_track := y\<rparr>" "\<forall>z. q3 = Inr z \<longleftrightarrow> q3' = Inr z"
        using on_track_run [OF w] by blast
      have sw: "st w = (if q3' = Inr () then bt_remove p (st v) else st v)" "dc w = dc v"
        using remove_law [OF w'(1)] w'(2) by simp_all
      have "taken_out {p} {?i} (st v) (dc v) (st w) (dc w)" unfolding sw taken_out_def by simp
      from taken_out_trans [OF conjunct1 [OF mid] this] have to: "taken_out {p} {?i} (st s) (dc s) (st w) (dc w)" by simp
      have "(case q3 of Inl e \<Rightarrow> Inl e | Inr _ \<Rightarrow> Inr a, w) = (r, t)"
        using run v Inr1 w by (cases q3) (simp_all add: runs)
      note fin = then_run [OF this]
      have tw: "t = w" using fin by blast
      have tw2: "\<forall>b. r = Inr b \<longrightarrow> q3' = Inr () \<and> b = a" using fin w'(3) by blast
      with to sw mid Inr1 tw tw2 show ?thesis by simp
    qed
  qed
qed

lemma sync_gones_run:
  fixes H :: "('h, 'e) hook_ops"
  assumes "folding (sync_gone R T H ex) acc ps s = (r, t)" "\<forall>i \<in> fst acc. dc s i = None"
  shows "taken_out (set ps) (path_to_doc_id ` set ps) (st s) (dc s) (st t) (dc t) \<and>
    (\<forall>acc'. r = Inr acc' \<longrightarrow> (\<forall>p \<in> set ps. bt_get (st t) p = None) \<and> (\<forall>i \<in> fst acc'. dc t i = None))"
  using assms
proof (induction ps arbitrary: acc s)
  case (Cons p ps)
  obtain q u where q: "sync_gone R T H ex acc p s = (q, u)" by force
  note one = sync_gone_run [OF q]
  note to = conjunct1 [OF one]
  show ?case
  proof (cases q)
    case (Inl e)
    with Cons.prems(1) q have tr: "t = u" "r = Inl e" by (simp_all add: runs)
    from taken_out_trans [OF to taken_out_refl [where P = "set ps" and I = "path_to_doc_id ` set ps"]] tr show ?thesis by simp
  next
    case (Inr a)
    with Cons.prems(1) q have more: "folding (sync_gone R T H ex) a ps u = (r, t)" by (simp add: runs)
    have "dc u i = None" if "i \<in> fst a" for i
    proof -
      have "bt_get (st u) p = None \<and> (\<forall>i \<in> fst a. i \<in> fst acc \<or> dc u i = None)"
        by (rule mp [OF spec [OF conjunct2 [OF one]] Inr])
      then have "i \<in> fst acc \<or> dc u i = None" using that by (intro bspec [where x = i]) (rule conjunct2)
      then show ?thesis
      proof
        assume "i \<in> fst acc"
        with Cons.prems(2) have "dc s i = None" by blast
        then show ?thesis by (rule taken_out_doc [OF to])
      qed
    qed
    then have IH: "taken_out (set ps) (path_to_doc_id ` set ps) (st u) (dc u) (st t) (dc t) \<and>
        (\<forall>acc'. r = Inr acc' \<longrightarrow> (\<forall>p \<in> set ps. bt_get (st t) p = None) \<and> (\<forall>i \<in> fst acc'. dc t i = None))"
      by (intro Cons.IH [OF more] ballI)
    have "bt_get (st u) p = None" using one Inr by blast
    then have "bt_get (st t) p = None" by (rule taken_out_stamp [OF conjunct1 [OF IH]])
    note p = this
    have ins: "set (p # ps) = {p} \<union> set ps" by simp

    show ?thesis
    proof (intro conjI allI impI ballI)
      show "taken_out (set (p # ps)) (path_to_doc_id ` set (p # ps)) (st s) (dc s) (st t) (dc t)"
        unfolding ins image_Un image_insert image_empty by (rule taken_out_trans [OF to conjunct1 [OF IH]])
      fix acc' assume r: "r = Inr acc'"
      show "bt_get (st t) q = None" if "q \<in> set (p # ps)" for q using that p IH r by (metis set_ConsD)
      show "dc t i = None" if "i \<in> fst acc'" for i using that IH r by blast
    qed
  qed
qed (auto simp: taken_out_refl)

lemma sync_orphan_run:
  assumes "sync_orphan R n i s = ((r :: 'e sync_error + nat), t)"
  shows "taken_out {} {i} (st s) (dc s) (st t) (dc t) \<and> (\<forall>m. r = Inr m \<longrightarrow> dc t i = None)"
proof -
  obtain q w where w: "on_retrieve (o_remove R i) s = (q :: 'e sync_error + unit, w)" by force
  obtain q' y where w': "o_remove R i (sy_retrieve s) = (q', y)" "w = s\<lparr>sy_retrieve := y\<rparr>" "\<forall>z. q = Inr z \<longleftrightarrow> q' = Inr z"
    using on_retrieve_run [OF w] by blast
  have sw: "dc w = (if q' = Inr () then (dc s)(i := None) else dc s)" "st w = st s"
    using remove_doc_law [OF w'(1)] w'(2) by simp_all
  have "(case q of Inl e \<Rightarrow> Inl e | Inr _ \<Rightarrow> Inr (n + 1), w) = (r, t)"
    using assms w by (cases q) (simp_all add: sync_orphan_def runs)
  note fin = then_run [OF this]
  have tw: "t = w" using fin by blast
  show ?thesis
  proof (intro conjI allI impI)
    show "taken_out {} {i} (st s) (dc s) (st t) (dc t)" unfolding tw sw taken_out_def by simp
    fix m assume "r = Inr m"
    with fin w'(3) have "q' = Inr ()" by blast
    then show "dc t i = None" unfolding tw sw by simp
  qed
qed

lemma sync_orphans_run:
  assumes "folding (sync_orphan R) n is s = ((r :: 'e sync_error + nat), t)"
  shows "taken_out {} (set is) (st s) (dc s) (st t) (dc t) \<and> (\<forall>m. r = Inr m \<longrightarrow> (\<forall>i \<in> set is. dc t i = None))"
  using assms
proof (induction "is" arbitrary: n s)
  case (Cons i js)
  obtain q u where q: "sync_orphan R n i s = (q :: 'e sync_error + nat, u)" by force
  note one = sync_orphan_run [OF q]
  show ?case
  proof (cases q)
    case (Inl e)
    with Cons.prems q have tr: "t = u" "r = Inl e" by (simp_all add: runs)
    from taken_out_trans [OF conjunct1 [OF one] taken_out_refl [where P = "{}" and I = "set js"]] tr show ?thesis by simp
  next
    case (Inr a)
    with Cons.prems q have more: "folding (sync_orphan R) a js u = (r, t)" by (simp add: runs)
    note IH = Cons.IH [OF more]
    have "dc u i = None" using one Inr by blast
    then have "dc t i = None" by (rule taken_out_doc [OF conjunct1 [OF IH]])
    with taken_out_trans [OF conjunct1 [OF one] conjunct1 [OF IH]] IH show ?thesis by simp
  qed
qed (simp add: taken_out_refl)

end

section \<open>The whole sync\<close>

definition orders_ok :: "disk_env \<Rightarrow> bool" where
  "orders_ok D \<longleftrightarrow> (\<forall>xs. set (path_order D xs) = set xs) \<and> (\<forall>xs. set (id_order D xs) = set xs)"

text \<open>
  What a finished sync leaves: every candidate that has a document is settled, and nothing but candidates is
  tracked or stored. Of a candidate that has no document now, it says nothing: the rows of an earlier content stay.
\<close>

definition synced :: "disk_env \<Rightarrow> string list \<Rightarrow> (string, stamp) btmap \<Rightarrow> (i64 \<Rightarrow> doc_record option) \<Rightarrow> bool" where
  "synced D cs st dc \<longleftrightarrow> (\<forall>p \<in> set cs. settled D st dc p) \<and> (\<forall>p. bt_has st p \<longrightarrow> p \<in> set cs) \<and>
     (\<forall>i. dc i \<noteq> None \<longrightarrow> i \<in> path_to_doc_id ` set cs)"

lemma bindE_run:
  assumes "bindE m f s = (r, t)"
  obtains e where "m s = (Inl e, t)" "r = Inl e" | x u where "m s = (Inr x, u)" "f x u = (r, t)"
proof (cases r)
  case (Inl e)
  with assms show ?thesis using that by (auto simp: bindE_Inl)
next
  case (Inr y)
  with assms show ?thesis using that by (auto simp: bindE_Inr)
qed

lemma thenE_run:
  assumes "thenE m n s = (r, t)"
  obtains e where "m s = (Inl e, t)" "r = Inl e" | x u where "m s = (Inr x, u)" "n u = (r, t)"
  using assms unfolding thenE_def by (rule bindE_run)

text \<open>The end of a sync, which changes neither table.\<close>

definition sync_end :: "'r retrieve_ops \<Rightarrow> ('h, 'e) hook_ops \<Rightarrow> nat \<Rightarrow> nat \<Rightarrow> (('r, 't, 'h) sync_state, 'e sync_error, sync_report) op" where
  "sync_end R H up rm s = thenE (on_hook (after_sweep H))
    (thenE (if up > 0 \<or> rm > 0 then on_retrieve (o_rebuild R) else ret ()) (ret \<lparr>rp_upserted = up, rp_removed = rm\<rparr>)) s"

context index_stores
begin

lemma sync_end_run:
  fixes H :: "('h, 'e) hook_ops"
  assumes "sync_end R H up rm s = (r, t)"
  shows "st t = st s \<and> dc t = dc s \<and> (\<forall>x. r = Inr x \<longrightarrow> x = \<lparr>rp_upserted = up, rp_removed = rm\<rparr>)"
  using assms unfolding sync_end_def
proof (cases rule: thenE_run)
  case (1 e)
  with on_hook_run [OF 1(1)] show ?thesis by auto
next
  case (2 x u)
  from on_hook_run [OF 2(1)] have u: "st u = st s" "dc u = dc s" by auto
  have same: "st v = st u \<and> dc v = dc u" if "on_retrieve (o_rebuild R) u = (q :: 'e sync_error + unit, v)" for q v
    using on_retrieve_run [OF that] rebuild_doc_law by auto
  from 2(2) show ?thesis
  proof (cases rule: thenE_run)
    case (1 e)
    then have "on_retrieve (o_rebuild R) u = (Inl e, t)" by (cases "up > 0 \<or> rm > 0") simp_all
    from same [OF this] u 1(2) show ?thesis by simp
  next
    case (2 y v)
    then have "on_retrieve (o_rebuild R) u = (Inr y :: 'e sync_error + unit, v) \<or> v = u" by (cases "up > 0 \<or> rm > 0") auto
    then have "st v = st u \<and> dc v = dc u" using same by blast
    with 2(2) u show ?thesis by auto
  qed
qed

lemma sync_end_idle: "sync_end R H 0 0 s = (Inr x, t) \<Longrightarrow> sy_retrieve t = sy_retrieve s"
  by (auto simp: sync_end_def run_simps dest!: on_hook_run)

lemma first_reads:
  assumes "on_track (t_mtimes T) s = ((q :: 'e sync_error + (string, stamp) btmap), t)"
  shows "st t = st s \<and> sy_retrieve t = sy_retrieve s \<and> (\<forall>m. q = Inr m \<longrightarrow> m = st s)"
proof -
  obtain q' x where run: "t_mtimes T (sy_track s) = (q', x)" "t = s\<lparr>sy_track := x\<rparr>" "\<forall>y. q = Inr y \<longleftrightarrow> q' = Inr y"
    using on_track_run [OF assms] by blast
  with mtimes_law [OF run(1)] show ?thesis by simp
qed

lemma second_reads:
  assumes "on_retrieve (o_ids R) s = ((q :: 'e sync_error + i64 list), t)"
  shows "st t = st s \<and> dc t = dc s \<and> (\<forall>l. q = Inr l \<longrightarrow> set l = dom (dc s) \<and> o_ids R (sy_retrieve s) = (Inr l, sy_retrieve t))"
proof -
  obtain q' x where run: "o_ids R (sy_retrieve s) = (q', x)" "t = s\<lparr>sy_retrieve := x\<rparr>" "\<forall>y. q = Inr y \<longleftrightarrow> q' = Inr y"
    using on_retrieve_run [OF assms] by blast
  with ids_doc_law [OF run(1)] show ?thesis by simp
qed

lemma sync_inner_eq:
  fixes H :: "('h, 'e) hook_ops"
  assumes "collect_candidates D = Inr cs"
  shows "sync_inner D R T H full s =
     bindE (on_track (t_mtimes T)) (\<lambda>known. bindE (on_retrieve (o_ids R)) (\<lambda>existing.
     bindE (folding (sync_file D R T H full known) 0 cs) (\<lambda>up.
     bindE (folding (sync_gone R T H (set existing)) ({}, 0) (filter (\<lambda>p. p \<notin> set cs) (path_order D (bt_keys known)))) (\<lambda>g.
     bindE (folding (sync_orphan R) (snd g) (filter (\<lambda>i. i \<notin> path_to_doc_id ` set cs \<and> i \<notin> fst g) (id_order D existing)))
       (sync_end R H up))))) s"
  unfolding sync_inner_def assms sync_end_def [abs_def] case_prod_beta
  by (simp add: bindE_def cong: sum.case_cong)

end


section \<open>Whatever fails\<close>

context index_stores
begin

text \<open>The part after the files: what is gone goes, and nothing else.\<close>

lemma sync_rest:
  fixes H :: "('h, 'e) hook_ops"
  assumes run: "bindE (folding (sync_gone R T H (set existing)) ({}, 0) (filter (\<lambda>p. p \<notin> set cs) (path_order D (bt_keys known)))) (\<lambda>g.
     bindE (folding (sync_orphan R) (snd g) (filter (\<lambda>i. i \<notin> path_to_doc_id ` set cs \<and> i \<notin> fst g) (id_order D existing)))
       (sync_end R H up)) s3 = (r, t)"
    and D: "orders_ok D" and hon: "honest D (set cs) (st s3) (dc s3)" and settled: "\<forall>p \<in> set cs. settled D (st s3) (dc s3) p"
    and in3: "taken_in D (set cs) (set cs) st0 dc0 (st s3) (dc s3)"
    and inj: "inj_on path_to_doc_id (set cs \<union> {p. bt_has known p})" and ex: "set existing = dom dc0" and known: "known = st0"
  shows "honest D (set cs) (st t) (dc t) \<and> rows_kept D (set cs) (st s3) (dc s3) (st t) (dc t) \<and>
    (\<forall>x. r = Inr x \<longrightarrow> synced D cs (st t) (dc t))"
proof -
  let ?gone = "filter (\<lambda>p. p \<notin> set cs) (path_order D (bt_keys known))"
  have gone: "set ?gone = {p. bt_has known p} - set cs" using D by (auto simp: orders_ok_def bt_keys_iff)
  have apart: "set ?gone \<inter> set cs = {}" "path_to_doc_id ` set ?gone \<inter> path_to_doc_id ` set cs = {}"
  proof -
    show "set ?gone \<inter> set cs = {}" unfolding gone by blast
    show "path_to_doc_id ` set ?gone \<inter> path_to_doc_id ` set cs = {}"
      unfolding gone inj_on_image_Int [OF inj, symmetric, of "{p. bt_has known p} - set cs" "set cs", OF le_supI2 [OF Diff_subset] sup_ge1]
      by (simp add: Diff_Int_distrib2)
  qed
  from run show ?thesis
  proof (cases rule: bindE_run)
    case (1 e)
    have "taken_out (set ?gone) (path_to_doc_id ` set ?gone) (st s3) (dc s3) (st t) (dc t)"
      using sync_gones_run [OF 1(1)] by simp
    from taken_out_honest [OF this apart hon] taken_out_rows [OF this apart] 1(2) show ?thesis by simp
  next
    case (2 g s4)
    have g: "taken_out (set ?gone) (path_to_doc_id ` set ?gone) (st s3) (dc s3) (st s4) (dc s4)"
      "\<And>p. p \<in> set ?gone \<Longrightarrow> bt_get (st s4) p = None" "\<And>i. i \<in> fst g \<Longrightarrow> dc s4 i = None"
      using sync_gones_run [OF 2(1)] by simp_all
    note hon4 = taken_out_honest [OF g(1) apart hon] and rows4 = taken_out_rows [OF g(1) apart, of D]
    have set4: "settled D (st s4) (dc s4) p" if "p \<in> set cs" for p
    proof -
      have "p \<notin> set ?gone" "path_to_doc_id p \<notin> path_to_doc_id ` set ?gone" using that apart by blast+
      from taken_out_settled [OF g(1) this] settled that show ?thesis by blast
    qed
    let ?orphans = "filter (\<lambda>i. i \<notin> path_to_doc_id ` set cs \<and> i \<notin> fst g) (id_order D existing)"
    have orphans: "set ?orphans = {i. dc0 i \<noteq> None \<and> i \<notin> path_to_doc_id ` set cs \<and> i \<notin> fst g}"
      using D ex by (auto simp: orders_ok_def)
    have apart2: "{} \<inter> set cs = {}" "set ?orphans \<inter> path_to_doc_id ` set cs = {}" unfolding orphans by blast+
    from 2(2) show ?thesis
    proof (cases rule: bindE_run)
      case (1 e)
      note to5 = conjunct1 [OF sync_orphans_run [OF 1(1)]]
      from taken_out_honest [OF to5 apart2 hon4] rows_kept_trans [OF rows4 taken_out_rows [OF to5 apart2]] 1(2)
      show ?thesis by simp
    next
      case (2 rm s5)
      note run5 = sync_orphans_run [OF 2(1)]
      note to5 = conjunct1 [OF run5]
      have end_run: "st t = st s5 \<and> dc t = dc s5" using sync_end_run [OF 2(2)] by blast
      have hon5: "honest D (set cs) (st s5) (dc s5)" by (rule taken_out_honest [OF to5 apart2 hon4])
      have set5: "settled D (st s5) (dc s5) p" if "p \<in> set cs" for p
      proof -
        have "path_to_doc_id p \<notin> set ?orphans" using that apart2(2) by blast
        from taken_out_settled [OF to5 _ this] set4 [OF that] show ?thesis by simp
      qed
      have stamps5: "p \<in> set cs" if "bt_has (st s5) p" for p
      proof (rule ccontr)
        assume no: "p \<notin> set cs"
        have "bt_get (st s5) p \<noteq> None" using that by (simp add: bt_has_def)
        note 4 = taken_out_had(1) [OF to5 this]
        have "bt_has (st s3) p" unfolding bt_has_def by (rule taken_out_had(1) [OF g(1) 4])
        from taken_in_had(1) [OF in3 this no] have "bt_has known p" unfolding known .
        with no have "p \<in> set ?gone" unfolding gone by blast
        from g(2) [OF this] 4 show False by simp
      qed
      have docs5: "i \<in> path_to_doc_id ` set cs" if "dc s5 i \<noteq> None" for i
      proof (rule ccontr)
        assume no: "i \<notin> path_to_doc_id ` set cs"
        note 4 = taken_out_had(2) [OF to5 that]
        have dc0: "dc0 i \<noteq> None" by (rule taken_in_had(2) [OF in3 taken_out_had(2) [OF g(1) 4] no])
        have "i \<notin> fst g" using g(3) 4 by (rule contrapos_nn [rotated])
        then have "i \<in> set ?orphans" using no dc0 unfolding orphans by (intro CollectI conjI)
        moreover have "\<forall>i \<in> set ?orphans. dc s5 i = None" by (rule mp [OF spec [OF conjunct2 [OF run5]] refl])
        ultimately have "dc s5 i = None" by (rule bspec [rotated])
        with that show False by (rule notE)
      qed
      have "synced D cs (st s5) (dc s5)" using set5 stamps5 docs5 unfolding synced_def by blast
      with hon5 rows_kept_trans [OF rows4 taken_out_rows [OF to5 apart2]] end_run show ?thesis by simp
    qed
  qed
qed

lemma sync_inner_keeps:
  fixes H :: "('h, 'e) hook_ops"
  assumes run: "sync_inner D R T H full s = (r, t)" and D: "steady D" "orders_ok D" "collect_candidates D = Inr cs"
    and inj: "inj_on path_to_doc_id (set cs \<union> {p. bt_has (st s) p})" and hon: "honest D (set cs) (st s) (dc s)"
  shows "honest D (set cs) (st t) (dc t) \<and> rows_kept D (set cs) (st s) (dc s) (st t) (dc t) \<and>
    (\<forall>x. r = Inr x \<longrightarrow> synced D cs (st t) (dc t))"
  using run unfolding sync_inner_eq [OF D(3)]
proof (cases rule: bindE_run)
  case (1 e)
  with first_reads [OF 1(1)] hon show ?thesis by simp
next
  case (2 known s1)
  note f1 = first_reads [OF 2(1)]
  have known: "known = st s" "st s1 = st s" "dc s1 = dc s" using f1 by simp_all
  from 2(2) show ?thesis
  proof (cases rule: bindE_run)
    case (1 e)
    with second_reads [OF 1(1)] known hon show ?thesis by simp
  next
    case (2 existing s2)
    note f2 = second_reads [OF 2(1)]
    have s2: "st s2 = st s" "dc s2 = dc s" and ex: "set existing = dom (dc s)" using f2 known by simp_all
    have injc: "inj_on path_to_doc_id (set cs)" by (rule inj_on_subset [OF inj]) simp
    have kn2: "bt_get known p = Some (now_stamp D p) \<Longrightarrow> bt_get (st s2) p = Some (now_stamp D p)" for p
      unfolding known s2 .
    have hon2: "honest D (set cs) (st s2) (dc s2)" unfolding s2 by (rule hon)
    from 2(2) show ?thesis
    proof (cases rule: bindE_run)
      case (1 e)
      from sync_files_run [OF 1(1) D(1) injc subset_refl] hon2
      have "honest D (set cs) (st t) (dc t) \<and> rows_kept D (set cs) (st s) (dc s) (st t) (dc t)"
        unfolding taken_in_def s2 by blast
      with 1(2) show ?thesis by simp
    next
      case (2 up s3)
      have in3: "taken_in D (set cs) (set cs) (st s) (dc s) (st s3) (dc s3)"
        using sync_files_run [OF 2(1) D(1) injc subset_refl] unfolding s2 .
      have set3: "\<forall>p \<in> set cs. settled D (st s3) (dc s3) p"
        by (rule sync_files_settle [OF 2(1) D(1) injc subset_refl hon2 kn2])
      have hon3: "honest D (set cs) (st s3) (dc s3)" using in3 hon unfolding taken_in_def by blast
      have "rows_kept D (set cs) (st s) (dc s) (st s3) (dc s3)" using in3 unfolding taken_in_def by blast
      with sync_rest [OF 2(2) D(2) hon3 set3 in3 _ ex] inj known(1) show ?thesis by (auto intro: rows_kept_trans)
    qed
  qed
qed

end


section \<open>Nothing to do\<close>

context index_stores
begin

lemma sync_inner_idle:
  fixes H :: "('h, 'e) hook_ops"
  assumes run: "sync_inner D R T H False s = (Inr rep, t)" and D: "steady D" "orders_ok D" "collect_candidates D = Inr cs"
    and synced: "synced D cs (st s) (dc s)"
  shows "rep = \<lparr>rp_upserted = 0, rp_removed = 0\<rparr> \<and> st t = st s \<and> dc t = dc s \<and>
    (\<exists>l. o_ids R (sy_retrieve s) = (Inr l, sy_retrieve t))"
  using run unfolding sync_inner_eq [OF D(3)]
proof (cases rule: bindE_run)
  case (2 known s1)
  note f1 = first_reads [OF 2(1)]
  have known: "known = st s" "st s1 = st s" "dc s1 = dc s" using f1 by simp_all
  have none: "filter (\<lambda>p. p \<notin> set cs) (path_order D (bt_keys known)) = []"
    using D(2) synced by (auto simp: orders_ok_def known(1) filter_empty_conv bt_keys_iff synced_def)
  from 2(2) show ?thesis unfolding none
  proof (cases rule: bindE_run)
    case (2 existing s2)
    note f2 = second_reads [OF 2(1)]
    have s2: "st s2 = st s" "dc s2 = dc s" and ex: "set existing = dom (dc s)" using f2 known by simp_all
    have no: "filter (\<lambda>i. i \<notin> path_to_doc_id ` set cs \<and> i \<notin> {}) (id_order D existing) = []"
    proof -
      have "\<forall>i. dc s i \<noteq> None \<longrightarrow> i \<in> path_to_doc_id ` set cs" using synced unfolding synced_def by (elim conjE)
      then have "set (id_order D existing) \<subseteq> path_to_doc_id ` set cs" using D(2) ex unfolding orders_ok_def by auto
      then show ?thesis by (auto simp: filter_empty_conv)
    qed
    from 2(2) show ?thesis
    proof (cases rule: bindE_run)
      case (2 up s3)
      have "now_doc D p = None \<or> bt_get known p = Some (now_stamp D p)" if "p \<in> set cs" for p
      proof (cases "now_doc D p")
        case (Some d)
        have "settled D (st s) (dc s) p" using synced that unfolding synced_def by (elim conjE) (rule bspec)
        with Some show ?thesis by (simp add: settled_def known(1))
      qed simp
      note idle = sync_files_idle [OF 2(1) D(1) this]
      have s3: "up = 0" "st s3 = st s" "dc s3 = dc s" "sy_retrieve s3 = sy_retrieve s2" using idle s2 by simp_all
      from 2(2) have "sync_end R H 0 0 s3 = (Inr rep, t)" using no s3(1) by (simp add: bindE_def)
      note fin = sync_end_run [OF this] sync_end_idle [OF this]
      have ids: "o_ids R (sy_retrieve s) = (Inr existing, sy_retrieve t)"
        using f1 f2 fin s3(4) by simp
      then have "\<exists>l. o_ids R (sy_retrieve s) = (Inr l, sy_retrieve t)" by (rule exI)
      then show ?thesis using fin s3 by simp
    qed simp
  qed simp
qed simp

end

text \<open>Both pairs of stores keep the contracts.\<close>

interpretation redb_index: index_stores "redb_track_ops f" rt_table "redb_retrieve_ops g" "\<lambda>s. bt_get (documents s)" for f g ..

interpretation memory_index: index_stores memory_track_ops "\<lambda>m. m" memory_retrieve_ops "\<lambda>m i. map_option record_of (bt_get m i)" ..

section \<open>Example\<close>

definition ex_disk :: disk_env where
  "ex_disk = \<lparr>root_path = ''r'', root_name = ''r'', disk_tree = DirNode [(''a.md'', FileNode)],
     disk_meta = (\<lambda>_ p. if p = ''r/a.md'' then Inr \<lparr>md_modified = Some 7, md_len = 2\<rparr> else Inl NotFound),
     disk_read = (\<lambda>_ p. if p = ''r/a.md'' then Inr ''hi'' else Inl NotFound),
     disk_sha = (\<lambda>_. []), path_order = id, id_order = id\<rparr>"
definition ex_index :: "(retrieve_db, redb_track, unit) sync_state" where
  "ex_index = \<lparr>sy_retrieve = \<lparr>documents = bt_empty, vecs = bt_empty, embedding_model = None, embedding_dim = None, fts_log = [],
       fts_buffer = [], dim = None, bad_images = {}, rs_ann = ann_new, handed = [], rs_step = 0\<rparr>,
     sy_track = \<lparr>rt_table = bt_empty, rt_step = 0\<rparr>, sy_hook = (), sy_step = 0\<rparr>"
lemma ex_collect: "collect ''r'' ''r'' (DirNode [(''a.md'', FileNode)]) = Inr [''r/a.md'']"
  by code_simp

lemma ex_ext: "is_image_path ''r/a.md'' = False" by code_simp
lemma ex_utf: "valid_utf8 ''hi''" by code_simp

lemma ex_steady: "steady ex_disk" "orders_ok ex_disk" "collect_candidates ex_disk = Inr [''r/a.md'']"
  using ex_collect by (simp_all add: steady_def orders_ok_def ex_disk_def collect_candidates_def)

abbreviation ex_path :: string where "ex_path \<equiv> ''r/a.md''"

lemma ex_build: "build_document_from_disk ex_disk ex_path s = (Inr (Some (text_document ex_path ''hi'')), s\<lparr>sy_step := sy_step s + 1\<rparr>)"
  unfolding build_document_from_disk_def ex_ext by (simp add: bindE_def on_disk_def ex_disk_def ex_utf)


abbreviation ex_id :: i64 where "ex_id \<equiv> path_to_doc_id ex_path"

text \<open>A first sync; when \<open>b\<close>, call number 4 of the retrieval store fails, which is the commit.\<close>

definition ex_fails :: "bool \<Rightarrow> nat \<Rightarrow> bool" where
  "ex_fails b j \<longleftrightarrow> b \<and> j = 4"

lemma ex_fails_simps [simp]: "ex_fails b 0 = False" "ex_fails b (Suc 0) = False" "ex_fails b 2 = False" "ex_fails b 3 = False"
  "ex_fails b 4 = b" "ex_fails b 5 = False" "ex_fails False j = False"
  by (simp_all add: ex_fails_def)

text \<open>What a sync of the example leaves in the tables.\<close>

definition ex_done :: "(retrieve_db, redb_track, unit) sync_state \<Rightarrow> bool" where
  "ex_done t \<longleftrightarrow> rt_table (sy_track t) = bt_insert ex_path (now_stamp ex_disk ex_path) bt_empty \<and>
     documents (sy_retrieve t) = bt_insert ex_id (record_of (text_document ex_path ''hi'')) bt_empty \<and>
     embedding_dim (sy_retrieve t) = None"

definition ex_buffer :: "fts_op list" where
  "ex_buffer = [DeleteTerm ex_id, AddDoc ex_id ''hi'']"

text \<open>The state after the two reads at the beginning.\<close>

definition ex_read :: "(retrieve_db, redb_track, unit) sync_state" where
  "ex_read = ex_index\<lparr>sy_track := \<lparr>rt_table = bt_empty, rt_step = 1\<rparr>, sy_retrieve := (sy_retrieve ex_index)\<lparr>rs_step := 1\<rparr>\<rparr>"

lemma ex_file: "\<exists>t. sync_file ex_disk (redb_retrieve_ops (ex_fails b)) (redb_track_ops (\<lambda>_. False)) (NoopHook :: (unit, unit) hook_ops)
    True bt_empty 0 ex_path ex_read = (Inr (Suc 0), t) \<and> ex_done t \<and> rs_step (sy_retrieve t) = 4 \<and>
    fts_log (sy_retrieve t) = [] \<and> fts_buffer (sy_retrieve t) = ex_buffer"
  by (simp add: sync_file_def steady_stamp [OF ex_steady(1)] bindE_def NoopHook_def on_hook_def thenE_def attempt_def ex_build)
     (simp add: on_retrieve_def on_track_def redb_retrieve_ops_def redb_track_ops_def transaction_def upsert_document_def get_doc_def
        bindE_def thenE_def db_runs reindex_fts_def Let_def ex_read_def ex_index_def put_document_def mark_def buffer_def
        text_document_def ex_fails_def ex_done_def ex_buffer_def)

lemma ex_end:
  assumes "ex_done s" "rs_step (sy_retrieve s) = 4" "fts_log (sy_retrieve s) = []" "fts_buffer (sy_retrieve s) = ex_buffer"
  shows "\<exists>t. sync_end (redb_retrieve_ops (ex_fails b)) (NoopHook :: (unit, unit) hook_ops) (Suc 0) 0 s =
      (if b then Inl (SyRetrieve RetTantivy) else Inr \<lparr>rp_upserted = 1, rp_removed = 0\<rparr>, t) \<and>
    ex_done t \<and> fts_log (sy_retrieve t) = (if b then [] else ex_buffer) \<and> fts_buffer (sy_retrieve t) = (if b then ex_buffer else [])"
  using assms
  by (cases b) (simp_all add: sync_end_def bindE_def thenE_def on_hook_def NoopHook_def on_retrieve_def redb_retrieve_ops_def rebuild_fts_def
      db_runs ex_done_def)

lemma ex_run: "\<exists>t. sync_inner ex_disk (redb_retrieve_ops (ex_fails b)) (redb_track_ops (\<lambda>_. False)) (NoopHook :: (unit, unit) hook_ops) True ex_index
   = (if b then Inl (SyRetrieve RetTantivy) else Inr \<lparr>rp_upserted = 1, rp_removed = 0\<rparr>, t) \<and> ex_done t \<and>
   fts_log (sy_retrieve t) = (if b then [] else ex_buffer) \<and> fts_buffer (sy_retrieve t) = (if b then ex_buffer else [])"
proof -
  let ?R = "redb_retrieve_ops (ex_fails b)" and ?T = "redb_track_ops (\<lambda>_. False)"
  define s1 where "s1 = ex_index\<lparr>sy_track := \<lparr>rt_table = bt_empty, rt_step = 1\<rparr>\<rparr>"
  have tr: "on_track (t_mtimes ?T) ex_index = (Inr bt_empty, s1)"
    by (simp add: on_track_def redb_track_ops_def transaction_def ex_index_def s1_def)
  have re: "on_retrieve (o_ids ?R) s1 = (Inr [], ex_read)"
    by (simp add: on_retrieve_def redb_retrieve_ops_def document_ids_def db_runs ex_index_def bt_keys_def s1_def ex_read_def)
  obtain s3 where f: "sync_file ex_disk ?R ?T (NoopHook :: (unit, unit) hook_ops) True bt_empty 0 ex_path ex_read = (Inr (Suc 0), s3)"
    and s3: "ex_done s3" "rs_step (sy_retrieve s3) = 4" "fts_log (sy_retrieve s3) = []" "fts_buffer (sy_retrieve s3) = ex_buffer"
    using ex_file by blast
  have order: "path_order ex_disk xs = xs" "id_order ex_disk ys = ys" "bt_keys (bt_empty :: (string, stamp) btmap) = []" for xs ys
    by (simp_all add: ex_disk_def bt_keys_def)
  obtain t where fin: "sync_end ?R (NoopHook :: (unit, unit) hook_ops) (Suc 0) 0 s3 =
      (if b then Inl (SyRetrieve RetTantivy) else Inr \<lparr>rp_upserted = 1, rp_removed = 0\<rparr>, t)"
    "ex_done t" "fts_log (sy_retrieve t) = (if b then [] else ex_buffer)" "fts_buffer (sy_retrieve t) = (if b then ex_buffer else [])"
    using ex_end [OF s3] by blast
  show ?thesis unfolding redb_index.sync_inner_eq [OF ex_steady(3)]
    using fin by (simp add: runs tr re folding_eqs f order)
qed

lemma ex_synced: "ex_done t \<Longrightarrow> synced ex_disk [ex_path] (rt_table (sy_track t)) (bt_get (documents (sy_retrieve t)))"
  using ex_ext by (auto simp: ex_done_def synced_def settled_def now_doc_def ex_disk_def ex_utf bt_has_def split: if_splits)

text \<open>Another sync of the example, after the process has started again or not.\<close>

lemma ex_again:
  assumes "ex_done s"
  shows "\<exists>t. sync_inner ex_disk (redb_retrieve_ops (\<lambda>_. False)) (redb_track_ops (\<lambda>_. False)) (NoopHook :: (unit, 'e) hook_ops) False s =
    (Inr \<lparr>rp_upserted = 0, rp_removed = 0\<rparr>, t)"
proof -
  let ?R = "redb_retrieve_ops (\<lambda>_. False)" and ?T = "redb_track_ops (\<lambda>_. False)"
  let ?m = "bt_insert ex_path (now_stamp ex_disk ex_path) bt_empty"
  obtain s1 where tr: "on_track (t_mtimes ?T) s = ((Inr ?m :: 'e sync_error + _), s1)" "ex_done s1"
    using assms by (simp add: on_track_def redb_track_ops_def transaction_def ex_done_def)
  obtain s2 where re: "on_retrieve (o_ids ?R) s1 = ((Inr [ex_id] :: 'e sync_error + _), s2)" "ex_done s2"
    using tr(2) by (simp add: on_retrieve_def redb_retrieve_ops_def document_ids_def db_runs ex_done_def bt_keys_def bt_insert.rep_eq)
  have f: "sync_file ex_disk ?R ?T (NoopHook :: (unit, 'e) hook_ops) False ?m 0 ex_path s2 = (Inr 0, s2\<lparr>sy_step := sy_step s2 + 1\<rparr>)"
    by (simp add: sync_file_def steady_stamp [OF ex_steady(1)] bindE_def)
  have order: "path_order ex_disk xs = xs" "id_order ex_disk ys = ys" "bt_keys ?m = [ex_path]" for xs ys
    by (simp_all add: ex_disk_def bt_keys_def bt_insert.rep_eq)
  have fin: "\<exists>t. sync_end ?R (NoopHook :: (unit, 'e) hook_ops) 0 0 u = (Inr \<lparr>rp_upserted = 0, rp_removed = 0\<rparr>, t)"
    for u :: "(retrieve_db, redb_track, unit) sync_state"
    by (simp add: sync_end_def bindE_def thenE_def on_hook_def NoopHook_def)
  show ?thesis unfolding redb_index.sync_inner_eq [OF ex_steady(3)]
    using fin by (simp add: runs tr re folding_eqs f order)
qed

section \<open>Properties\<close>

text \<open>
  C28: The index never vouches for a candidate it does not hold, and a sync that returns has taken in all it can
  read. With the databases, for either kind of sync, while the files are steady and their ids do not collide: if
  before every candidate whose recorded stamp is its present one has its present document stored, the same is
  true after, whatever failed, the hook included. A candidate that has no document now, because it cannot be
  read, is no text or is too large an image, keeps the stamp and the document it had or had not, which may be of an
  earlier content. And if the sync returned, every candidate that has a document is stored with its stamp, and no
  path but a candidate is tracked and no document but a candidate's is stored.
\<close>

theorem sync_keeps_index_honest:
  assumes "sync_inner D (redb_retrieve_ops g) (redb_track_ops f) H full s = (r, t)"
    and "steady D" "orders_ok D" "collect_candidates D = Inr cs"
    and "inj_on path_to_doc_id (set cs \<union> {p. bt_has (rt_table (sy_track s)) p})"
    and "honest D (set cs) (rt_table (sy_track s)) (bt_get (documents (sy_retrieve s)))"
  shows "honest D (set cs) (rt_table (sy_track t)) (bt_get (documents (sy_retrieve t))) \<and>
    rows_kept D (set cs) (rt_table (sy_track s)) (bt_get (documents (sy_retrieve s)))
      (rt_table (sy_track t)) (bt_get (documents (sy_retrieve t))) \<and>
    (\<forall>x. r = Inr x \<longrightarrow> synced D cs (rt_table (sy_track t)) (bt_get (documents (sy_retrieve t))))"
  by (rule redb_index.sync_inner_keeps [OF assms])

theorem sync_keeps_index_honest_witness:
  "\<exists>t. sync_inner ex_disk (redb_retrieve_ops (ex_fails True)) (redb_track_ops (\<lambda>_. False)) (NoopHook :: (unit, unit) hook_ops) True ex_index =
       (Inl (SyRetrieve RetTantivy), t) \<and>
     honest ex_disk {ex_path} (rt_table (sy_track t)) (bt_get (documents (sy_retrieve t)))"
proof -
  obtain t where run: "sync_inner ex_disk (redb_retrieve_ops (ex_fails True)) (redb_track_ops (\<lambda>_. False)) (NoopHook :: (unit, unit) hook_ops)
      True ex_index = (Inl (SyRetrieve RetTantivy), t)" using ex_run [of True] by auto
  have "inj_on path_to_doc_id (set [ex_path] \<union> {p. bt_has (rt_table (sy_track ex_index)) p})"
    "honest ex_disk (set [ex_path]) (rt_table (sy_track ex_index)) (bt_get (documents (sy_retrieve ex_index)))"
    by (simp_all add: ex_index_def bt_has_def honest_def)
  from sync_keeps_index_honest [OF run ex_steady this] run show ?thesis by auto
qed

text \<open>
  C29: A sync over an index that is up to date finds nothing to do: after a sync that returned, started over an honest
  index, an incremental sync that returns reports no document written and none removed, and both tables are as
  the first sync left them.
\<close>

theorem second_sync_finds_nothing:
  assumes "sync_inner D (redb_retrieve_ops g) (redb_track_ops f) H full s = (Inr x, t)"
    and "steady D" "orders_ok D" "collect_candidates D = Inr cs"
    and "inj_on path_to_doc_id (set cs \<union> {p. bt_has (rt_table (sy_track s)) p})"
    and "honest D (set cs) (rt_table (sy_track s)) (bt_get (documents (sy_retrieve s)))"
    and "sync_workspace_with_hook D (redb_retrieve_ops g') (redb_track_ops f') H' t = (Inr y, u)"
  shows "y = \<lparr>rp_upserted = 0, rp_removed = 0\<rparr> \<and> rt_table (sy_track u) = rt_table (sy_track t) \<and>
    bt_get (documents (sy_retrieve u)) = bt_get (documents (sy_retrieve t))"
proof -
  have "synced D cs (rt_table (sy_track t)) (bt_get (documents (sy_retrieve t)))"
    using redb_index.sync_inner_keeps [OF assms(1-6)] by blast
  from redb_index.sync_inner_idle [OF assms(7) [unfolded sync_workspace_with_hook_def] assms(2-4) this] show ?thesis by blast
qed

theorem second_sync_finds_nothing_witness:
  "\<exists>t u. sync_inner ex_disk (redb_retrieve_ops (ex_fails False)) (redb_track_ops (\<lambda>_. False)) (NoopHook :: (unit, unit) hook_ops) True ex_index =
       (Inr \<lparr>rp_upserted = 1, rp_removed = 0\<rparr>, t) \<and>
     sync_workspace_with_hook ex_disk (redb_retrieve_ops (\<lambda>_. False)) (redb_track_ops (\<lambda>_. False)) (NoopHook :: (unit, unit) hook_ops) t =
       (Inr \<lparr>rp_upserted = 0, rp_removed = 0\<rparr>, u) \<and> rt_table (sy_track u) = rt_table (sy_track t)"
proof -
  obtain t where run: "sync_inner ex_disk (redb_retrieve_ops (ex_fails False)) (redb_track_ops (\<lambda>_. False)) (NoopHook :: (unit, unit) hook_ops)
      True ex_index = (Inr \<lparr>rp_upserted = 1, rp_removed = 0\<rparr>, t)" and dn: "ex_done t" using ex_run [of False] by auto
  obtain u where again: "sync_workspace_with_hook ex_disk (redb_retrieve_ops (\<lambda>_. False)) (redb_track_ops (\<lambda>_. False))
      (NoopHook :: (unit, unit) hook_ops) t = (Inr \<lparr>rp_upserted = 0, rp_removed = 0\<rparr>, u)"
    using ex_again [OF dn] unfolding sync_workspace_with_hook_def by blast
  have "inj_on path_to_doc_id (set [ex_path] \<union> {p. bt_has (rt_table (sy_track ex_index)) p})"
    "honest ex_disk (set [ex_path]) (rt_table (sy_track ex_index)) (bt_get (documents (sy_retrieve ex_index)))"
    by (simp_all add: ex_index_def bt_has_def honest_def)
  from second_sync_finds_nothing [OF run ex_steady this again] run again show ?thesis by blast
qed

text \<open>
  C30: A commit of the full-text index that was lost is not made up for: over tables that are up to date, after the
  process has started again, which drops what the full-text writer was told, an incremental sync that
  returns reports nothing to do and leaves the committed full-text index as it was. The witness runs a
  first sync whose commit fails: its document stays out of the full-text index.
\<close>

theorem lost_commit_is_not_retried:
  assumes "synced D cs (rt_table (sy_track s)) (bt_get (documents (sy_retrieve s)))"
    and "steady D" "orders_ok D" "collect_candidates D = Inr cs"
    and "reopen f dimension (sy_retrieve s) = (Inr (), v)"
    and "sync_workspace_incremental D (redb_retrieve_ops f) (redb_track_ops g) (s\<lparr>sy_retrieve := v\<rparr>) = (Inr x, t)"
  shows "x = (0, 0) \<and> fts_log (sy_retrieve t) = fts_log (sy_retrieve s) \<and> fts_buffer (sy_retrieve t) = []"
proof -
  have v: "documents v = documents (sy_retrieve s)" "fts_log v = fts_log (sy_retrieve s)" "fts_buffer v = []"
    using assms(5) by (auto simp: reopen_def thenE_def bindE_def db_runs split: if_splits option.splits)
  obtain rep where run: "sync_inner D (redb_retrieve_ops f) (redb_track_ops g) (NoopHook :: (unit, unit) hook_ops) False (s\<lparr>sy_retrieve := v\<rparr>) = (Inr rep, t)"
    and x: "x = (rp_upserted rep, rp_removed rep)"
    using assms(6) by (auto simp: sync_workspace_incremental_def sync_workspace_with_hook_def run_simps)
  have "synced D cs (rt_table (sy_track (s\<lparr>sy_retrieve := v\<rparr>))) (bt_get (documents (sy_retrieve (s\<lparr>sy_retrieve := v\<rparr>))))"
    using assms(1) v(1) by simp
  from redb_index.sync_inner_idle [OF run assms(2-4) this]
  obtain l where "rep = \<lparr>rp_upserted = 0, rp_removed = 0\<rparr>" "o_ids (redb_retrieve_ops f) v = (Inr l, sy_retrieve t)" by auto
  moreover from document_ids_run [of f v "Inr l" "sy_retrieve t"] this(2)
  have "fts_log (sy_retrieve t) = fts_log v" "fts_buffer (sy_retrieve t) = fts_buffer v"
    by (auto simp: redb_retrieve_ops_def)
  ultimately show ?thesis using x v by simp
qed

theorem lost_commit_is_not_retried_witness:
  "\<exists>s v t. sync_inner ex_disk (redb_retrieve_ops (ex_fails True)) (redb_track_ops (\<lambda>_. False)) (NoopHook :: (unit, unit) hook_ops) True ex_index =
       (Inl (SyRetrieve RetTantivy), s) \<and> reopen (\<lambda>_. False) None (sy_retrieve s) = (Inr (), v) \<and>
     sync_workspace_incremental ex_disk (redb_retrieve_ops (\<lambda>_. False)) (redb_track_ops (\<lambda>_. False)) (s\<lparr>sy_retrieve := v\<rparr>) = (Inr (0, 0), t) \<and>
     bt_get (documents (sy_retrieve s)) ex_id \<noteq> None \<and> fts_log (sy_retrieve t) = [] \<and> fts_buffer (sy_retrieve t) = []"
proof -
  obtain s where run: "sync_inner ex_disk (redb_retrieve_ops (ex_fails True)) (redb_track_ops (\<lambda>_. False)) (NoopHook :: (unit, unit) hook_ops)
      True ex_index = (Inl (SyRetrieve RetTantivy), s)" and s: "ex_done s" "fts_log (sy_retrieve s) = []" using ex_run [of True] by auto
  obtain v where v: "reopen (\<lambda>_. False) None (sy_retrieve s) = (Inr (), v)" "documents v = documents (sy_retrieve s)" "embedding_dim v = None"
    using s(1) by (auto simp: reopen_def thenE_def bindE_def db_runs ex_done_def split: option.splits)
  have "ex_done (s\<lparr>sy_retrieve := v\<rparr>)" using s(1) v by (simp add: ex_done_def)
  from ex_again [OF this] obtain t where "sync_inner ex_disk (redb_retrieve_ops (\<lambda>_. False)) (redb_track_ops (\<lambda>_. False))
      (NoopHook :: (unit, unit) hook_ops) False (s\<lparr>sy_retrieve := v\<rparr>) = (Inr \<lparr>rp_upserted = 0, rp_removed = 0\<rparr>, t)" by blast
  then have again: "sync_workspace_incremental ex_disk (redb_retrieve_ops (\<lambda>_. False)) (redb_track_ops (\<lambda>_. False))
      (s\<lparr>sy_retrieve := v\<rparr>) = (Inr (0, 0), t)"
    unfolding sync_workspace_incremental_def sync_workspace_with_hook_def by (simp add: bindE_def)
  from lost_commit_is_not_retried [OF ex_synced [OF s(1)] ex_steady v(1) again] s run v(1) again
  have "fts_log (sy_retrieve t) = [] \<and> fts_buffer (sy_retrieve t) = []" by simp
  moreover have "bt_get (documents (sy_retrieve s)) ex_id \<noteq> None" using s(1) by (simp add: ex_done_def)
  ultimately show ?thesis using run v(1) again by blast
qed

end
