(* ===== verification/Resolve.thy ===== *)
theory Resolve
  imports Prelude
begin

text \<open>
  How a path a caller gives is resolved against the workspace root
  (\<open>sapphire-framework-workspace/src/workspace_state.rs\<close>, \<open>canonicalize_or_parent\<close>, \<open>resolve_path\<close>,
  \<open>refuse_protected\<close>). A \<open>Path\<close> is modelled by its \<open>components\<close>, on a target where paths start with \<open>/\<close>;
  \<open>Path::canonicalize\<close> asks the file system and is the argument \<open>canon\<close>.
\<close>

section \<open>\<open>std::path\<close>\<close>

datatype component = RootDir | CurDir | ParentDir | Normal string

type_synonym path = "component list"

definition is_absolute :: "path \<Rightarrow> bool" where
  "is_absolute p \<longleftrightarrow> p \<noteq> [] \<and> hd p = RootDir"

definition parent :: "path \<Rightarrow> path option" where
  "parent p = (if p = [] \<or> last p = RootDir then None else Some (butlast p))"

definition file_name :: "path \<Rightarrow> string option" where
  "file_name p = (if p = [] then None else case last p of Normal n \<Rightarrow> Some n | _ \<Rightarrow> None)"

text \<open>An absolute argument replaces the path; a \<open>.\<close> of the argument is normalised away.\<close>

definition join :: "path \<Rightarrow> path \<Rightarrow> path" where
  "join a b = (if is_absolute b then b else if a = [] then b else a @ filter (\<lambda>c. c \<noteq> CurDir) b)"

definition starts_with :: "path \<Rightarrow> path \<Rightarrow> bool" where
  "starts_with p base \<longleftrightarrow> prefix base p"

definition ascii_lower :: "string \<Rightarrow> string" where
  "ascii_lower s = map (\<lambda>c. if is_ascii_upper c then char_of (of_char c + (32 :: nat)) else c) s"

section \<open>Resolving\<close>

text \<open>
  The loop of \<open>canonicalize_or_parent\<close>: \<open>tail\<close> (the code's \<open>suffix\<close>) is what was cut off \<open>current\<close> so far. \<open>file_name\<close> has
  no answer for a path that ends in \<open>..\<close>, and the whole path is taken instead.
\<close>

function walk_up :: "(path \<Rightarrow> path option) \<Rightarrow> path \<Rightarrow> path \<Rightarrow> path \<Rightarrow> path" where
  "walk_up canon p tail current = (case parent current of
     None \<Rightarrow> p
   | Some up \<Rightarrow>
       let name = (case file_name current of Some n \<Rightarrow> [Normal n] | None \<Rightarrow> current);
           tail = (if tail = [] then name else join name tail) in
       case canon up of Some c \<Rightarrow> join c tail | None \<Rightarrow> walk_up canon p tail up)"
  by pat_completeness auto

termination
  by (relation "measure (\<lambda>(_, _, _, current). length current)") (auto simp: parent_def split: if_splits)

declare walk_up.simps [simp del]

definition canonicalize_or_parent :: "(path \<Rightarrow> path option) \<Rightarrow> path \<Rightarrow> path" where
  "canonicalize_or_parent canon p = (case canon p of Some c \<Rightarrow> c | None \<Rightarrow> walk_up canon p [] p)"

datatype resolved_path = Internal path | External path

datatype path_error = PathEscapesWorkspace path path | ProtectedPath path

primrec as_path :: "resolved_path \<Rightarrow> path" where
  "as_path (Internal p) = p"
| "as_path (External p) = p"

primrec is_internal :: "resolved_path \<Rightarrow> bool" where
  "is_internal (Internal _) = True"
| "is_internal (External _) = False"

text \<open>\<open>allows\<close> is \<open>AppContext::allows_external_paths\<close>.\<close>

definition resolve_path :: "(path \<Rightarrow> path option) \<Rightarrow> path \<Rightarrow> bool \<Rightarrow> path \<Rightarrow> path_error + resolved_path" where
  "resolve_path canon root allows p =
     (let joined = (if is_absolute p then p else join root p);
          found = canonicalize_or_parent canon joined in
      if starts_with found root then Inr (Internal found)
      else if allows then Inr (External found)
      else Inl (PathEscapesWorkspace p root))"

definition push_part :: "string list \<Rightarrow> component \<Rightarrow> string list" where
  "push_part parts c = (case c of
     Normal n \<Rightarrow> parts @ [ascii_lower n]
   | ParentDir \<Rightarrow> butlast parts
   | _ \<Rightarrow> parts)"

definition refuse_protected :: "string \<Rightarrow> path \<Rightarrow> resolved_path \<Rightarrow> path \<Rightarrow> path_error + unit" where
  "refuse_protected app_name root resolved p = (case resolved of
     External _ \<Rightarrow> Inr ()
   | Internal found \<Rightarrow> (case strip_prefix root found of
       None \<Rightarrow> Inr ()
     | Some rel \<Rightarrow>
         let parts = foldl push_part [] rel in
         if 2 \<le> length parts \<and> parts ! 0 = ascii_lower (CHR ''.'' # app_name) \<and> parts ! 1 = ''api_keys''
         then Inl (ProtectedPath p) else Inr ()))"

section \<open>What a path means\<close>

text \<open>
  A plain path has the root and names only. \<open>lexical\<close> takes every \<open>..\<close> with the name before it, which
  is where the path leads once the directories it names are real ones.
\<close>

definition plain :: "path \<Rightarrow> bool" where
  "plain p \<longleftrightarrow> (\<exists>ns. p = RootDir # map Normal ns)"

definition lex_step :: "path \<Rightarrow> component \<Rightarrow> path" where
  "lex_step a c = (case c of
     ParentDir \<Rightarrow> (case parent a of None \<Rightarrow> a | Some up \<Rightarrow> up)
   | CurDir \<Rightarrow> a
   | _ \<Rightarrow> a @ [c])"

definition lexical :: "path \<Rightarrow> path" where
  "lexical p = foldl lex_step [] p"

text \<open>What may follow the first component: names and \<open>..\<close>.\<close>

definition inner :: "path \<Rightarrow> bool" where
  "inner t \<longleftrightarrow> RootDir \<notin> set t \<and> CurDir \<notin> set t"

lemma inner_simps [simp]: "inner []" "inner (c # t) \<longleftrightarrow> c \<noteq> RootDir \<and> c \<noteq> CurDir \<and> inner t"
  "inner (s @ t) \<longleftrightarrow> inner s \<and> inner t" "inner (map Normal ns)"
  by (auto simp: inner_def)

lemma not_absolute_inner [simp]: "inner t \<Longrightarrow> \<not> is_absolute t"
  by (cases t) (auto simp: is_absolute_def inner_def)

lemma filter_inner: "inner t \<Longrightarrow> filter (\<lambda>c. c \<noteq> CurDir) t = t"
  by (induction t) auto

lemma join_inner [simp]: "a \<noteq> [] \<Longrightarrow> inner t \<Longrightarrow> join a t = a @ t"
  by (simp add: join_def filter_inner)

lemma join_absolute [simp]: "is_absolute b \<Longrightarrow> join a b = b"
  by (simp add: join_def)

lemma parent_snoc [simp]: "parent (a @ [c]) = (if c = RootDir then None else Some a)"
  by (simp add: parent_def)

lemma file_name_snoc [simp]: "file_name (a @ [c]) = (case c of Normal n \<Rightarrow> Some n | _ \<Rightarrow> None)"
  by (simp add: file_name_def)

lemma inner_normals: "inner t \<Longrightarrow> ParentDir \<notin> set t \<Longrightarrow> \<exists>ns. t = map Normal ns"
proof (induction t)
  case (Cons c t)
  then show ?case by (cases c) (auto intro: exI [of _ "_ # _"])
qed simp

text \<open>
  The loop from a path whose last part does not exist. \<open>taken\<close> is what was cut off: as long as no \<open>..\<close>
  was, it is the tail; after one, the tail is the whole path.
\<close>

lemma walk_up_cut:
  assumes "is_absolute anc" "canon anc = Some q" "q \<noteq> []" "inner (t @ taken)" "t \<noteq> []"
    and "\<And>s u. t = s @ u \<Longrightarrow> s \<noteq> [] \<Longrightarrow> u \<noteq> [] \<Longrightarrow> canon (anc @ s) = None"
    and "tail = (if ParentDir \<in> set taken then anc @ t @ taken else taken)"
  shows "walk_up canon p tail (anc @ t) = (if ParentDir \<in> set (t @ taken) then anc @ t @ taken else q @ t @ taken)"
  using assms(4-7)
proof (induction t arbitrary: taken tail rule: rev_induct)
  case (snoc c t)
  have c: "c \<noteq> RootDir" "c \<noteq> CurDir" and t: "inner (t @ c # taken)" using snoc.prems(1) by auto
  have anc: "anc \<noteq> []" using assms(1) by (auto simp: is_absolute_def)
  have ab: "is_absolute (anc @ x)" for x using assms(1) anc by (simp add: is_absolute_def)
  define suf where "suf = (if ParentDir \<in> set (c # taken) then anc @ t @ c # taken else c # taken)"
  have suf: "(let name = (case file_name (anc @ t @ [c]) of Some n \<Rightarrow> [Normal n] | None \<Rightarrow> anc @ t @ [c])
      in if tail = [] then name else join name tail) = suf"
  proof (cases c)
    case (Normal n)
    then have "file_name (anc @ t @ [c]) = Some n" using file_name_snoc [of "anc @ t" c] by simp
    with Normal snoc.prems(1,4) ab anc show ?thesis
      by (auto simp: suf_def Let_def join_def filter_inner)
  next
    case ParentDir
    then have "file_name (anc @ t @ [c]) = None" using file_name_snoc [of "anc @ t" c] by simp
    with ParentDir snoc.prems(1,4) ab anc show ?thesis
      by (auto simp: suf_def Let_def join_def filter_inner)
  qed (use c in auto)
  have up: "parent (anc @ t @ [c]) = Some (anc @ t)" using c parent_snoc [of "anc @ t" c] by simp
  have step: "walk_up canon p tail (anc @ t @ [c]) = (case canon (anc @ t) of Some r \<Rightarrow> join r suf | None \<Rightarrow> walk_up canon p suf (anc @ t))"
    unfolding walk_up.simps [of canon p tail "anc @ t @ [c]"] up option.case Let_def suf [unfolded Let_def] ..
  show ?case
  proof (cases "t = []")
    case True
    with step assms(2,3) t ab show ?thesis by (auto simp: suf_def)
  next
    case False
    then have "canon (anc @ t) = None" using snoc.prems(3) [of t "[c]"] by simp
    moreover have "walk_up canon p suf (anc @ t) =
        (if ParentDir \<in> set (t @ c # taken) then anc @ t @ c # taken else q @ t @ c # taken)"
      by (rule snoc.IH [OF t False _ suf_def]) (use snoc.prems(3) in force)
    ultimately show ?thesis using step by simp
  qed
qed simp

text \<open>
  The whole function, for a path whose longest existing ancestor is \<open>anc\<close>: the ancestor's canonical path
  and the rest, unless the rest has a \<open>..\<close>; then it is the path as given.
\<close>

lemma canonicalize_or_parent_cut:
  assumes "is_absolute anc" "canon anc = Some q" "q \<noteq> []" "inner t" "t \<noteq> []"
    and "\<And>s u. t = s @ u \<Longrightarrow> s \<noteq> [] \<Longrightarrow> canon (anc @ s) = None"
  shows "canonicalize_or_parent canon (anc @ t) = (if ParentDir \<in> set t then anc @ t else q @ t)"
proof -
  have "canon (anc @ t) = None" using assms(6) [of t "[]"] assms(5) by simp
  moreover have "walk_up canon (anc @ t) [] (anc @ t) = (if ParentDir \<in> set (t @ []) then anc @ t @ [] else q @ t @ [])"
    by (rule walk_up_cut) (use assms in \<open>auto\<close>)
  ultimately show ?thesis by (simp add: canonicalize_or_parent_def)
qed


lemma lexical_append: "lexical (p @ t) = foldl lex_step (lexical p) t"
  by (simp add: lexical_def)

lemma foldl_names [simp]: "foldl lex_step a (map Normal ns) = a @ map Normal ns"
  by (induction ns arbitrary: a) (auto simp: lex_step_def)

lemma parts_names [simp]: "foldl push_part ps (map Normal ns) = ps @ map ascii_lower ns"
  by (induction ns arbitrary: ps) (auto simp: push_part_def)

lemma lexical_plain: "plain p \<Longrightarrow> lexical p = p"
proof -
  assume "plain p"
  then obtain ns where "p = [RootDir] @ map Normal ns" by (auto simp: plain_def)
  then show ?thesis by (simp add: lexical_def lex_step_def)
qed

lemma starts_with_join: "starts_with p base \<longleftrightarrow> (\<exists>t. p = base @ t)"
  by (auto simp: starts_with_def prefix_def)

lemma plain_snocs: "plain root \<Longrightarrow> plain (root @ map Normal ns)"
  by (auto simp: plain_def) (metis map_append)

lemma plain_absolute: "plain p \<Longrightarrow> is_absolute p" "plain p \<Longrightarrow> p \<noteq> []"
  by (auto simp: plain_def is_absolute_def)

lemma map_Normal_eq: "a @ b = map Normal ns \<Longrightarrow> \<exists>as bs. a = map Normal as \<and> b = map Normal bs \<and> ns = as @ bs"
  by (metis append_eq_map_conv)


section \<open>Properties\<close>

text \<open>
  What \<open>canonicalize\<close> promises: \<open>/\<close> exists, and a canonical path is an absolute path of names only.
\<close>

definition canonical :: "(path \<Rightarrow> path option) \<Rightarrow> bool" where
  "canonical canon \<longleftrightarrow> canon [RootDir] = Some [RootDir] \<and> (\<forall>p q. canon p = Some q \<longrightarrow> plain q)"

lemma resolved_absolute:
  assumes "canonical canon"
  shows "\<exists>anc t q. RootDir # map Normal ns = anc @ map Normal t \<and> canon anc = Some q \<and>
    canonicalize_or_parent canon (RootDir # map Normal ns) = q @ map Normal t"
proof -
  let ?p = "RootDir # map Normal ns"
  let ?found = "\<lambda>k. k \<le> length ns \<and> canon (RootDir # map Normal (take k ns)) \<noteq> None"
  have "?found 0" using assms by (simp add: canonical_def)
  define k where "k = Greatest ?found"
  have k: "?found k" unfolding k_def by (rule GreatestI_nat [of _ 0 "length ns"]) (use \<open>?found 0\<close> in auto)
  have above: "\<not> ?found j" if "k < j" for j
  proof
    assume "?found j"
    then have "j \<le> k" unfolding k_def by (rule Greatest_le_nat [of ?found j "length ns"]) blast
    with that show False by simp
  qed
  let ?anc = "RootDir # map Normal (take k ns)" and ?t = "drop k ns"
  from k obtain q where q: "canon ?anc = Some q" by auto
  have p: "?p = ?anc @ map Normal ?t" by (metis append_Cons append_take_drop_id map_append)
  have q': "q \<noteq> []" using q assms plain_absolute(2) by (auto simp: canonical_def)
  show ?thesis
  proof (cases "?t = []")
    case True
    with p q have "canonicalize_or_parent canon ?p = q @ map Normal ?t" by (simp add: canonicalize_or_parent_def)
    with p q show ?thesis by blast
  next
    case False
    have "canon (?anc @ s) = None" if s: "map Normal ?t = s @ u" "s \<noteq> []" for s u
    proof -
      from map_Normal_eq [OF s(1) [symmetric]] obtain as bs where ab: "s = map Normal as" "?t = as @ bs" by blast
      then have "take (k + length as) ns = take k ns @ as" by (metis append_eq_conv_conj take_add)
      moreover have "k + length as \<le> length ns" using ab(2) k by (metis add_le_cancel_left append_take_drop_id le_add1 length_append length_take min_absorb2)
      moreover have "as \<noteq> []" using s(2) ab(1) by simp
      ultimately show ?thesis using above [of "k + length as"] ab(1) by simp
    qed
    from canonicalize_or_parent_cut [OF _ q q' _ _ this] False
    have "canonicalize_or_parent canon (?anc @ map Normal ?t) = q @ map Normal ?t" by (auto simp: is_absolute_def)
    with p q show ?thesis by metis
  qed
qed

text \<open>
  C32: Without a \<open>..\<close>, an internal path is inside. If the root and what the file system calls canonical are
  plain, and the request is a relative path of names or an absolute one, then a path that resolves as
  internal is the root followed by names only, it is the canonical path of an existing ancestor of the request
  followed by the names that do not exist yet, and it is refused as protected exactly when its first two
  names are the app's directory and the keys' in any case.
\<close>

theorem internal_path_inside:
  assumes "canonical canon" "plain root" "request = map Normal ns \<or> request = RootDir # map Normal ns"
    and "resolve_path canon root allows request = Inr (Internal q)"
  shows "\<exists>ms anc t c. q = root @ map Normal ms \<and> lexical q = q \<and>
    (if is_absolute request then request else root @ request) = anc @ map Normal t \<and> canon anc = Some c \<and> q = c @ map Normal t \<and>
    (refuse_protected app root (Internal q) request = Inl (ProtectedPath request) \<longleftrightarrow>
       2 \<le> length ms \<and> ascii_lower (ms ! 0) = ascii_lower (CHR ''.'' # app) \<and> ascii_lower (ms ! 1) = ''api_keys'')"
proof -
  obtain rs where root: "root = RootDir # map Normal rs" using assms(2) by (auto simp: plain_def)
  let ?j = "if is_absolute request then request else root @ request"
  obtain js where j: "?j = RootDir # map Normal js"
    using assms(3)
  proof
    assume "request = map Normal ns"
    with root that [of "rs @ ns"] show thesis by (cases ns) (simp_all add: is_absolute_def)
  qed (use that in \<open>simp add: is_absolute_def\<close>)
  have "join root request = root @ request" if "\<not> is_absolute request"
    using that assms(3) root by (auto simp: is_absolute_def)
  then have q: "q = canonicalize_or_parent canon ?j" "starts_with q root"
    using assms(4) by (auto simp: resolve_path_def Let_def split: if_splits)
  obtain anc t c where a: "?j = anc @ map Normal t" "canon anc = Some c" "q = c @ map Normal t"
    using resolved_absolute [OF assms(1), of js] j q(1) by metis
  have "plain q" using a assms(1) plain_snocs by (auto simp: canonical_def)
  then obtain ms where ms: "q = root @ map Normal ms"
    using q(2) root by (auto simp: plain_def starts_with_join dest!: map_Normal_eq [OF sym])
  have "lexical q = q" by (rule lexical_plain) fact
  moreover have "refuse_protected app root (Internal q) request = Inl (ProtectedPath request) \<longleftrightarrow>
       2 \<le> length ms \<and> ascii_lower (ms ! 0) = ascii_lower (CHR ''.'' # app) \<and> ascii_lower (ms ! 1) = ''api_keys''"
    unfolding ms refuse_protected_def Let_def strip_prefix_def by (cases ms; cases "tl ms") (auto simp: push_part_def)
  ultimately show ?thesis using ms a by blast
qed

text \<open>
  C33: A \<open>..\<close> behind a missing directory leaves the workspace. Where the directory \<open>x\<close> does not exist in the
  workspace, the request \<open>x/../../names\<close> resolves as internal although external paths are not allowed, and
  it leads outside the root as soon as \<open>x\<close> is made, which the writing operations do first; and the request
  that goes through the parent and back into the workspace reaches the protected API keys without being
  refused.
\<close>

theorem missing_directory_escapes:
  assumes "root = dir @ [Normal w]" "plain root" "canon root = Some root" "\<forall>t. canon (root @ Normal x # t) = None"
  shows "(let p = Normal x # ParentDir # ParentDir # map Normal us in
      resolve_path canon root False p = Inr (Internal (root @ p)) \<and> lexical (root @ p) = dir @ map Normal us \<and>
      (us = [] \<or> hd us \<noteq> w \<longrightarrow> \<not> starts_with (lexical (root @ p)) root)) \<and>
    (let p = [Normal x, ParentDir, ParentDir, Normal w, Normal (CHR ''.'' # app), Normal ''api_keys'', Normal k] in
      resolve_path canon root False p = Inr (Internal (root @ p)) \<and>
      lexical (root @ p) = root @ [Normal (CHR ''.'' # app), Normal ''api_keys'', Normal k] \<and>
      refuse_protected app root (Internal (root @ p)) p = Inr ())"
proof -
  have dir: "lexical root = root" using assms(2) by (rule lexical_plain)
  have res: "resolve_path canon root False (Normal x # ParentDir # t) = Inr (Internal (root @ Normal x # ParentDir # t))"
    if "inner t" for t
  proof -
    let ?t = "Normal x # ParentDir # t"
    have "canon (root @ s) = None" if "?t = s @ u" "s \<noteq> []" for s u
      using that assms(4) by (cases s) auto
    from canonicalize_or_parent_cut [OF plain_absolute(1) [OF assms(2)] assms(3) plain_absolute(2) [OF assms(2)] _ _ this] that
    have "canonicalize_or_parent canon (root @ ?t) = root @ ?t" by auto
    then show ?thesis using that plain_absolute [OF assms(2)]
      by (simp add: resolve_path_def Let_def is_absolute_def starts_with_def)
  qed
  have lex: "lexical (root @ Normal x # ParentDir # ParentDir # map Normal us) = dir @ map Normal us" for us
  proof -
    have "lex_step (lex_step (lex_step root (Normal x)) ParentDir) ParentDir = dir"
      by (simp add: lex_step_def) (simp add: assms(1))
    then show ?thesis unfolding lexical_append dir by simp
  qed
  have refuse: "refuse_protected app root (Internal (root @ p)) p = Inr ()"
    if "p = [Normal x, ParentDir, ParentDir, Normal w, Normal (CHR ''.'' # app), Normal ''api_keys'', Normal k]" for p
  proof -
    have "ascii_lower (CHR ''.'' # app) \<noteq> ''api_keys''"
      by (auto simp: ascii_lower_def is_ascii_upper_def)
    then show ?thesis unfolding that by (simp add: refuse_protected_def Let_def strip_prefix_def push_part_def)
  qed
  show ?thesis
    using res [of "ParentDir # map Normal us"] lex [of us] refuse
      res [of "[ParentDir, Normal w, Normal (CHR ''.'' # app), Normal ''api_keys'', Normal k]"]
      lex [of "[w, CHR ''.'' # app, ''api_keys'', k]"]
    by (cases us) (auto simp: Let_def assms(1) starts_with_def)
qed

section \<open>Examples\<close>

text \<open>A file system of the directory \<open>/a/ws\<close> only.\<close>

definition ex_canon :: "path \<Rightarrow> path option" where
  "ex_canon p = (if p \<in> {[RootDir], [RootDir, Normal ''a''], [RootDir, Normal ''a'', Normal ''ws'']} then Some p else None)"

definition ex_root :: path where
  "ex_root = [RootDir, Normal ''a'', Normal ''ws'']"

lemma ex_canonical: "canonical ex_canon" "plain ex_root" "ex_canon ex_root = Some ex_root"
  by (auto simp: canonical_def ex_canon_def ex_root_def plain_def split: if_splits intro: exI [of _ "[]"] exI [of _ "[''a'']"]
      exI [of _ "[''a'', ''ws'']"])

lemma ex_new_file: "resolve_path ex_canon ex_root False [Normal ''n'', Normal ''f''] = Inr (Internal (ex_root @ [Normal ''n'', Normal ''f'']))"
  by (simp add: resolve_path_def canonicalize_or_parent_def walk_up.simps ex_canon_def ex_root_def Let_def is_absolute_def join_def
      parent_def file_name_def starts_with_def)

theorem internal_path_inside_witness:
  "\<exists>ms. ex_root @ [Normal ''n'', Normal ''f''] = ex_root @ map Normal ms \<and>
     lexical (ex_root @ [Normal ''n'', Normal ''f'']) = ex_root @ [Normal ''n'', Normal ''f'']"
proof -
  have "[Normal ''n'', Normal ''f''] = map Normal [''n'', ''f'']" by simp
  from internal_path_inside [OF ex_canonical(1,2) disjI1 ex_new_file, OF this, of "''app''"] show ?thesis by (elim exE conjE) (intro exI conjI)
qed

theorem missing_directory_escapes_witness:
  "resolve_path ex_canon ex_root False [Normal ''x'', ParentDir, ParentDir, Normal ''f''] =
     Inr (Internal (ex_root @ [Normal ''x'', ParentDir, ParentDir, Normal ''f''])) \<and>
   lexical (ex_root @ [Normal ''x'', ParentDir, ParentDir, Normal ''f'']) = [RootDir, Normal ''a'', Normal ''f'']"
  using missing_directory_escapes [of ex_root "[RootDir, Normal ''a'']" "''ws''" ex_canon "''x''" "[''f'']"] ex_canonical
  by (simp add: Let_def) (simp add: ex_root_def ex_canon_def)

end
