(* ===== verification/WorkspaceFiles.thy ===== *)
theory WorkspaceFiles
  imports IndexSync Resolve
begin

text \<open>
  The file operations of a workspace (\<open>sapphire-framework-workspace/src/workspace_state.rs\<close>) and the updates of
  the index that go with them. The disk is a set of directories and the regular files in them, without links;
  a call of \<open>std::fs\<close> may fail for a reason of its own, and a write that fails may leave a part behind.
\<close>

section \<open>The disk\<close>

record ws_env =
  we_root :: path
  we_app :: string
  we_allows :: bool
  we_fails :: "nat \<Rightarrow> bool"
  we_torn :: "nat \<Rightarrow> nat option"
  we_clock :: "nat \<Rightarrow> int"
  we_sha :: "bytes \<Rightarrow> content_hash"

record ws_disk =
  dk_dirs :: "path list"
  dk_files :: "path \<Rightarrow> (string \<times> int) option"
  dk_step :: nat

record ('r, 't, 'h) workspace_state =
  ws_disk :: ws_disk
  ws_index :: "('r, 't, 'h) sync_state"

datatype 'e ws_error = WsPath path_error | WsIo io_kind | WsIndex "'e sync_error" | WsPanic

text \<open>A path on disk: every directory it goes through exists, and \<open>..\<close> leads to the one above.\<close>

definition through :: "ws_disk \<Rightarrow> path \<Rightarrow> bool" where
  "through d p \<longleftrightarrow> list_all (\<lambda>n. lexical (take n p) \<in> set (dk_dirs d)) [1 ..< length p]"

definition canonicalize :: "ws_disk \<Rightarrow> path \<Rightarrow> path option" where
  "canonicalize d p = (let l = lexical p in
     if through d p \<and> (l \<in> set (dk_dirs d) \<or> dk_files d l \<noteq> None) then Some l else None)"

text \<open>\<open>Path::to_string_lossy\<close> of a path of UTF-8 names.\<close>

definition show_component :: "component \<Rightarrow> string" where
  "show_component c = (case c of RootDir \<Rightarrow> '''' | CurDir \<Rightarrow> ''.'' | ParentDir \<Rightarrow> ''..'' | Normal n \<Rightarrow> n)"

definition show_path :: "path \<Rightarrow> string" where
  "show_path p = (if p = [RootDir] then ''/'' else join_with ''/'' (map show_component p))"

text \<open>One call of \<open>std::fs\<close>.\<close>

definition fs_call :: "ws_env \<Rightarrow> (ws_disk, io_kind, unit) op" where
  "fs_call E d = (if we_fails E (dk_step d) then Inl OtherIo else Inr (), d\<lparr>dk_step := dk_step d + 1\<rparr>)"

definition make_dir :: "ws_env \<Rightarrow> path \<Rightarrow> (ws_disk, io_kind, unit) op" where
  "make_dir E p d =
     (if lexical p \<in> set (dk_dirs d) then ret ()
      else if dk_files d (lexical p) \<noteq> None then throw AlreadyExists
      else thenE (fs_call E) (update (\<lambda>d. d\<lparr>dk_dirs := lexical p # dk_dirs d\<rparr>))) d"

definition create_dir_all :: "ws_env \<Rightarrow> path \<Rightarrow> (ws_disk, io_kind, unit) op" where
  "create_dir_all E p d = each (make_dir E) (map (\<lambda>n. take n p) [1 ..< Suc (length p)]) d"

definition set_file :: "ws_env \<Rightarrow> path \<Rightarrow> string \<Rightarrow> ws_disk \<Rightarrow> ws_disk" where
  "set_file E p c d = d\<lparr>dk_files := (dk_files d)(lexical p \<mapsto> (c, we_clock E (dk_step d)))\<rparr>"

text \<open>
  \<open>fs::write\<close>, and opening for appending and writing at the end: \<open>old\<close> is what stays of the file. A write that
  fails leaves the file alone or ends in the middle.
\<close>

definition write_at :: "ws_env \<Rightarrow> path \<Rightarrow> string \<Rightarrow> string \<Rightarrow> (ws_disk, io_kind, unit) op" where
  "write_at E p old c d =
     (if \<not> through d p then throw NotFound
      else if lexical p \<in> set (dk_dirs d) then throw IsADirectory
      else if we_fails E (dk_step d) then (case we_torn E (dk_step d) of
          None \<Rightarrow> thenE (fs_call E) (throw OtherIo)
        | Some n \<Rightarrow> thenE (update (set_file E p (old @ take n c))) (thenE (fs_call E) (throw OtherIo)))
      else thenE (update (set_file E p (old @ c))) (fs_call E)) d"

definition fs_write :: "ws_env \<Rightarrow> path \<Rightarrow> string \<Rightarrow> (ws_disk, io_kind, unit) op" where
  "fs_write E p c d = write_at E p '''' c d"

definition fs_append :: "ws_env \<Rightarrow> path \<Rightarrow> string \<Rightarrow> (ws_disk, io_kind, unit) op" where
  "fs_append E p c d = write_at E p (case dk_files d (lexical p) of None \<Rightarrow> '''' | Some (old, _) \<Rightarrow> old) c d"

definition fs_remove :: "ws_env \<Rightarrow> path \<Rightarrow> (ws_disk, io_kind, unit) op" where
  "fs_remove E p d = thenE (fs_call E) (\<lambda>d.
     (if \<not> through d p \<or> (lexical p \<notin> set (dk_dirs d) \<and> dk_files d (lexical p) = None) then throw NotFound
      else if lexical p \<in> set (dk_dirs d) then throw IsADirectory
      else update (\<lambda>d. d\<lparr>dk_files := (dk_files d)(lexical p := None)\<rparr>)) d) d"

definition fs_read :: "ws_env \<Rightarrow> path \<Rightarrow> (ws_disk, io_kind, string) op" where
  "fs_read E p d = thenE (fs_call E) (\<lambda>d.
     (if \<not> through d p then throw NotFound
      else if lexical p \<in> set (dk_dirs d) then throw IsADirectory
      else case dk_files d (lexical p) of None \<Rightarrow> throw NotFound | Some (c, _) \<Rightarrow> ret c) d) d"

text \<open>\<open>fs::read_to_string\<close>.\<close>

definition fs_read_to_string :: "ws_env \<Rightarrow> path \<Rightarrow> (ws_disk, io_kind, string) op" where
  "fs_read_to_string E p d = bindE (fs_read E p) (\<lambda>c. if valid_utf8 c then ret c else throw OtherIo) d"

section \<open>The parts of a workspace\<close>

definition on_fs :: "(ws_disk, io_kind, 'a) op \<Rightarrow> (('r, 't, 'h) workspace_state, 'e ws_error, 'a) op" where
  "on_fs m s = (case m (ws_disk s) of (r, d) \<Rightarrow> (case r of Inl e \<Rightarrow> Inl (WsIo e) | Inr x \<Rightarrow> Inr x, s\<lparr>ws_disk := d\<rparr>))"

definition on_index :: "(('r, 't, 'h) sync_state, 'e sync_error, 'a) op \<Rightarrow> (('r, 't, 'h) workspace_state, 'e ws_error, 'a) op" where
  "on_index m s = (case m (ws_index s) of (r, i) \<Rightarrow> (case r of Inl e \<Rightarrow> Inl (WsIndex e) | Inr x \<Rightarrow> Inr x, s\<lparr>ws_index := i\<rparr>))"

definition resolving :: "path_error + 'a \<Rightarrow> (('r, 't, 'h) workspace_state, 'e ws_error, 'a) op" where
  "resolving r s = outcome (case r of Inl e \<Rightarrow> Inl (WsPath e) | Inr x \<Rightarrow> Inr x) s"

text \<open>
  What the index sees of the path \<open>p\<close>, which the caller resolved: its metadata and its bytes, of the disk as
  it is then. Each may fail.
\<close>

definition seen_at :: "ws_env \<Rightarrow> ws_disk \<Rightarrow> path \<Rightarrow> disk_env" where
  "seen_at E d p =
     \<lparr>root_path = show_path (we_root E), root_name = '''', disk_tree = OtherNode,
      disk_meta = (\<lambda>k _. if we_fails E (dk_step d + k) then Inl OtherIo
        else case dk_files d (lexical p) of
          Some (c, t) \<Rightarrow> if through d p then Inr \<lparr>md_modified = Some t, md_len = of_nat (length c)\<rparr> else Inl NotFound
        | None \<Rightarrow> if canonicalize d p \<noteq> None then Inr \<lparr>md_modified = None, md_len = 0\<rparr> else Inl NotFound),
      disk_read = (\<lambda>k _. fst (fs_read E p (d\<lparr>dk_step := dk_step d + k\<rparr>))),
      disk_sha = we_sha E, path_order = id, id_order = id\<rparr>"

definition ws_resolve :: "ws_env \<Rightarrow> path \<Rightarrow> (('r, 't, 'h) workspace_state, 'e ws_error, resolved_path) op" where
  "ws_resolve E p s = resolving (resolve_path (canonicalize (ws_disk s)) (we_root E) (we_allows E) p) s"

section \<open>The index of one file\<close>

definition build_at :: "disk_env \<Rightarrow> string \<Rightarrow> (('r, 't, 'h) sync_state, 'e sync_error, document option) op" where
  "build_at D key s = bindE (attempt (build_document_from_disk D key))
     (\<lambda>r. outcome (case r of Inl e \<Rightarrow> Inl (SyIo e) | Inr x \<Rightarrow> Inr x)) s"

definition remove_from_index :: "'r retrieve_ops \<Rightarrow> 't track_ops \<Rightarrow> string \<Rightarrow> (('r, 't, 'h) sync_state, 'e sync_error, unit) op" where
  "remove_from_index R T key s =
     thenE (on_retrieve (o_remove R (path_to_doc_id key)))
    (thenE (on_retrieve (o_rebuild R)) (on_track (t_remove T key))) s"

text \<open>The document of a file that was read, and the stamp taken before it was read.\<close>

definition put_in_index :: "'r retrieve_ops \<Rightarrow> 't track_ops \<Rightarrow> string \<Rightarrow> stamp \<Rightarrow> document \<Rightarrow> (('r, 't, 'h) sync_state, 'e sync_error, unit) op" where
  "put_in_index R T key st d s =
     thenE (on_retrieve (o_upsert R d)) (thenE (on_retrieve (o_rebuild R)) (on_track (t_upsert T key st))) s"

definition update_index :: "disk_env \<Rightarrow> 'r retrieve_ops \<Rightarrow> 't track_ops \<Rightarrow> string \<Rightarrow> (('r, 't, 'h) sync_state, 'e sync_error, unit) op" where
  "update_index D R T key s =
     bindE (stamp_on_disk D key) (\<lambda>st.
     bindE (build_at D key) (\<lambda>doc. case doc of
       None \<Rightarrow> remove_from_index R T key
     | Some d \<Rightarrow> put_in_index R T key st d)) s"

definition on_file_updated :: "ws_env \<Rightarrow> 'r retrieve_ops \<Rightarrow> 't track_ops \<Rightarrow> path \<Rightarrow>
    (('r, 't, 'h) workspace_state, 'e ws_error, unit) op" where
  "on_file_updated E R T p s =
     bindE (ws_resolve E p) (\<lambda>res.
       if \<not> is_internal res then ret ()
       else bindE (reading ws_disk) (\<lambda>d.
         on_index (update_index (seen_at E d (as_path res)) R T (show_path (as_path res))))) s"

definition on_file_deleted :: "ws_env \<Rightarrow> 'r retrieve_ops \<Rightarrow> 't track_ops \<Rightarrow> path \<Rightarrow>
    (('r, 't, 'h) workspace_state, 'e ws_error, unit) op" where
  "on_file_deleted E R T p s =
     bindE (ws_resolve E p) (\<lambda>res.
       if \<not> is_internal res then ret ()
       else on_index (remove_from_index R T (show_path (as_path res)))) s"

text \<open>The same with a hook, which is told first; only files that a sync would take are updated.\<close>

definition update_index_with_hook :: "disk_env \<Rightarrow> 'r retrieve_ops \<Rightarrow> 't track_ops \<Rightarrow> ('h, 'e) hook_ops \<Rightarrow> string \<Rightarrow>
    (('r, 't, 'h) sync_state, 'e sync_error, unit) op" where
  "update_index_with_hook D R T H key s =
     bindE (stamp_on_disk D key) (\<lambda>st.
     bindE (build_at D key) (\<lambda>doc. case doc of
       None \<Rightarrow> remove_from_index R T key
     | Some d \<Rightarrow> thenE (on_hook (on_changed H key (mtime_ns st))) (put_in_index R T key st d))) s"

definition on_file_updated_with_hook :: "ws_env \<Rightarrow> 'r retrieve_ops \<Rightarrow> 't track_ops \<Rightarrow> ('h, 'e) hook_ops \<Rightarrow> path \<Rightarrow>
    (('r, 't, 'h) workspace_state, 'e ws_error, unit) op" where
  "on_file_updated_with_hook E R T H p s =
     bindE (ws_resolve E p) (\<lambda>res.
       if \<not> is_internal res then ret ()
       else if \<not> is_indexable_path (show_path (as_path res)) then ret ()
       else bindE (reading ws_disk) (\<lambda>d.
         on_index (update_index_with_hook (seen_at E d (as_path res)) R T H (show_path (as_path res))))) s"

definition on_file_deleted_with_hook :: "ws_env \<Rightarrow> 'r retrieve_ops \<Rightarrow> 't track_ops \<Rightarrow> ('h, 'e) hook_ops \<Rightarrow> path \<Rightarrow>
    (('r, 't, 'h) workspace_state, 'e ws_error, unit) op" where
  "on_file_deleted_with_hook E R T H p s =
     bindE (ws_resolve E p) (\<lambda>res.
       if \<not> is_internal res then ret ()
       else on_index (thenE (on_hook (on_removed H (show_path (as_path res))))
         (remove_from_index R T (show_path (as_path res))))) s"

text \<open>Opening: stamps without any document mean that the retrieval store was lost; they are forgotten.\<close>

definition index_lost_its_documents :: "'r retrieve_ops \<Rightarrow> 't track_ops \<Rightarrow> (('r, 't, 'h) sync_state, 'e sync_error, bool) op" where
  "index_lost_its_documents R T s =
     bindE (on_retrieve (o_count R)) (\<lambda>n. if n = 0 then bindE (on_track (t_count T)) (\<lambda>k. ret (k > 0)) else ret False) s"

definition open_index :: "'r retrieve_ops \<Rightarrow> 't track_ops \<Rightarrow> (('r, 't, 'h) sync_state, 'e sync_error, unit) op" where
  "open_index R T s = bindE (index_lost_its_documents R T) (\<lambda>lost. if lost then on_track (t_clear T) else ret ()) s"

section \<open>The operations on files\<close>

definition ws_read_file :: "ws_env \<Rightarrow> path \<Rightarrow> (('r, 't, 'h) workspace_state, 'e ws_error, string) op" where
  "ws_read_file E p s = bindE (ws_resolve E p) (\<lambda>res. on_fs (fs_read_to_string E (as_path res))) s"

definition read_bytes :: "ws_env \<Rightarrow> path \<Rightarrow> (('r, 't, 'h) workspace_state, 'e ws_error, string) op" where
  "read_bytes E p s = bindE (ws_resolve E p) (\<lambda>res. on_fs (fs_read E (as_path res))) s"

text \<open>\<open>str::lines\<close>: a line loses its line feed and a carriage return before it.\<close>

definition cut_line :: "string \<Rightarrow> string" where
  "cut_line l = (if l \<noteq> '''' \<and> last l = byte 10
     then (let b = butlast l in if b \<noteq> '''' \<and> last b = byte 13 then butlast b else b) else l)"

definition lines_of :: "string \<Rightarrow> string list" where
  "lines_of s = map cut_line (split_inclusive (byte 10) s)"

text \<open>Lines \<open>start_line\<close> to \<open>end_line\<close>; taking a slice whose end is before its start is a panic.\<close>

definition line_range :: "nat \<Rightarrow> nat option \<Rightarrow> string \<Rightarrow> string option" where
  "line_range start_line end_line s = (let start = start_line - 1; ls = lines_of s;
     stop = (case end_line of Some e \<Rightarrow> min e (length ls) | None \<Rightarrow> length ls) in
     if start \<ge> length ls then Some ''''
     else if stop < start then None
     else Some (join_with (byte 10 # []) (take (stop - start) (drop start ls))))"

definition read_file_range :: "ws_env \<Rightarrow> path \<Rightarrow> nat \<Rightarrow> nat option \<Rightarrow> (('r, 't, 'h) workspace_state, 'e ws_error, string) op" where
  "read_file_range E p start_line end_line s =
     bindE (ws_resolve E p) (\<lambda>res.
     bindE (on_fs (fs_read_to_string E (as_path res))) (\<lambda>c.
       case line_range start_line end_line c of None \<Rightarrow> throw WsPanic | Some r \<Rightarrow> ret r)) s"

text \<open>The four changes: resolve, refuse the API keys, change the disk, then the index.\<close>

definition changing :: "ws_env \<Rightarrow> path \<Rightarrow> (resolved_path \<Rightarrow> (('r, 't, 'h) workspace_state, 'e ws_error, unit) op) \<Rightarrow>
    (('r, 't, 'h) workspace_state, 'e ws_error, unit) op" where
  "changing E p m s =
     bindE (ws_resolve E p) (\<lambda>res.
     thenE (resolving (refuse_protected (we_app E) (we_root E) res p)) (m res)) s"

definition make_parent :: "ws_env \<Rightarrow> path \<Rightarrow> (ws_disk, io_kind, unit) op" where
  "make_parent E p d = (case parent p of None \<Rightarrow> ret () | Some up \<Rightarrow> create_dir_all E up) d"

definition write_file :: "ws_env \<Rightarrow> 'r retrieve_ops \<Rightarrow> 't track_ops \<Rightarrow> path \<Rightarrow> string \<Rightarrow>
    (('r, 't, 'h) workspace_state, 'e ws_error, unit) op" where
  "write_file E R T p c s = changing E p (\<lambda>res.
     thenE (on_fs (make_parent E (as_path res)))
    (thenE (on_fs (fs_write E (as_path res) c))
     (if is_internal res then on_file_updated E R T (as_path res) else ret ()))) s"

definition write_bytes :: "ws_env \<Rightarrow> 'r retrieve_ops \<Rightarrow> 't track_ops \<Rightarrow> path \<Rightarrow> string \<Rightarrow>
    (('r, 't, 'h) workspace_state, 'e ws_error, unit) op" where
  "write_bytes E R T p c s = changing E p (\<lambda>res.
     thenE (on_fs (make_parent E (as_path res)))
    (thenE (on_fs (fs_write E (as_path res) c))
     (if is_internal res then on_file_updated E R T (as_path res) else ret ()))) s"

definition append_file :: "ws_env \<Rightarrow> 'r retrieve_ops \<Rightarrow> 't track_ops \<Rightarrow> path \<Rightarrow> string \<Rightarrow>
    (('r, 't, 'h) workspace_state, 'e ws_error, unit) op" where
  "append_file E R T p c s = changing E p (\<lambda>res.
     thenE (on_fs (make_parent E (as_path res)))
    (thenE (on_fs (fs_append E (as_path res) c))
     (if is_internal res then on_file_updated E R T (as_path res) else ret ()))) s"

definition delete_file :: "ws_env \<Rightarrow> 'r retrieve_ops \<Rightarrow> 't track_ops \<Rightarrow> path \<Rightarrow>
    (('r, 't, 'h) workspace_state, 'e ws_error, unit) op" where
  "delete_file E R T p s = changing E p (\<lambda>res.
     thenE (on_fs (fs_remove E (as_path res)))
     (if is_internal res then on_file_deleted E R T (as_path res) else ret ())) s"

section \<open>What a change does to the disk\<close>



lemma fs_write_run:
  assumes "fs_write E p c d = (Inr (), d')"
  shows "through d p \<and> lexical p \<notin> set (dk_dirs d) \<and> dk_dirs d' = dk_dirs d \<and>
    dk_files d' = (dk_files d)(lexical p \<mapsto> (c, we_clock E (dk_step d)))"
  using assms by (auto simp: fs_write_def write_at_def fs_call_def set_file_def run_simps split: if_splits option.splits)

lemma written_canonicalize:
  assumes "fs_write E p c d = (Inr (), d')"
  shows "canonicalize d' p = Some (lexical p)"
  using fs_write_run [OF assms] by (simp add: canonicalize_def through_def Let_def)

lemma resolve_plain:
  assumes "canonicalize d q = Some q" "prefix root q" "is_absolute q"
  shows "resolve_path (canonicalize d) root a q = Inr (Internal q)"
  using assms by (simp add: resolve_path_def canonicalize_or_parent_def starts_with_def Let_def)

lemma internal_prefix: "resolve_path canon root a p = Inr (Internal q) \<Longrightarrow> prefix root q"
  by (auto simp: resolve_path_def Let_def starts_with_def split: if_splits)

lemma seen_read:
  "disk_read (seen_at E d q) k key = Inr b \<Longrightarrow> \<exists>m. dk_files d (lexical q) = Some (b, m)"
  by (auto simp: seen_at_def fs_read_def thenE_def bindE_def fs_call_def split: if_splits option.splits)

lemma build_text:
  assumes "\<not> is_image_path key" "build_at D key s = (Inr x, t)"
  shows "\<exists>b. disk_read D (sy_step s) key = Inr b \<and> x = (if valid_utf8 b then Some (text_document key b) else None) \<and>
    t = s\<lparr>sy_step := sy_step s + 1\<rparr>"
  using assms
  by (cases "disk_read D (sy_step s) key")
     (auto simp: build_at_def build_document_from_disk_def on_disk_def bindE_def attempt_def)

context index_stores
begin

lemma put_in_index_run:
  assumes "put_in_index R T key stmp d s = ((Inr () :: 'e sync_error + unit), t)"
  shows "docs (sy_retrieve t) = (docs (sy_retrieve s))(doc_id d \<mapsto> record_of d) \<and>
    stamps (sy_track t) = bt_insert key stmp (stamps (sy_track s))"
proof -
  from assms obtain u v where u: "on_retrieve (o_upsert R d) s = ((Inr () :: 'e sync_error + unit), u)"
    and v: "on_retrieve (o_rebuild R) u = ((Inr () :: 'e sync_error + unit), v)"
    and t: "on_track (t_upsert T key stmp) v = ((Inr () :: 'e sync_error + unit), t)"
    by (auto simp: put_in_index_def thenE_Inr)
  obtain x where x: "o_upsert R d (sy_retrieve s) = (Inr (), x)" "u = s\<lparr>sy_retrieve := x\<rparr>"
    using on_retrieve_run [OF u] by auto
  obtain y where y: "o_rebuild R (sy_retrieve u) = (Inr (), y)" "v = u\<lparr>sy_retrieve := y\<rparr>"
    using on_retrieve_run [OF v] by auto
  obtain z where z: "t_upsert T key stmp (sy_track v) = (Inr (), z)" "t = v\<lparr>sy_track := z\<rparr>"
    using on_track_run [OF t] by auto
  from upsert_doc_law [OF x(1)] rebuild_doc_law [OF y(1)] upsert_law [OF z(1)] x(2) y(2) z(2) show ?thesis by simp
qed

end

lemma on_fs_Inr: "on_fs m s = (Inr x, t) \<Longrightarrow> \<exists>d. m (ws_disk s) = (Inr x, d) \<and> t = s\<lparr>ws_disk := d\<rparr>"
  by (auto simp: on_fs_def split: prod.splits sum.splits)

lemma on_index_Inr: "on_index m s = (Inr x, t) \<Longrightarrow> \<exists>i. m (ws_index s) = (Inr x, i) \<and> t = s\<lparr>ws_index := i\<rparr>"
  by (auto simp: on_index_def split: prod.splits sum.splits)

lemma resolving_Inr: "resolving r s = (Inr x, t) \<Longrightarrow> r = Inr x \<and> t = s"
  by (auto simp: resolving_def split: sum.splits)

text \<open>A change that returns went through its three steps.\<close>

lemma write_file_steps:
  assumes "write_file E R T p c s = ((Inr () :: 'e ws_error + unit), t)"
    and "resolve_path (canonicalize (ws_disk s)) (we_root E) (we_allows E) p = Inr (Internal q)"
  obtains d d' where "fs_write E q c d = (Inr (), d')" "on_file_updated E R T q (s\<lparr>ws_disk := d'\<rparr>) = ((Inr () :: 'e ws_error + unit), t)"
proof -
  from assms(1) obtain res u v x y where res: "ws_resolve E p s = ((Inr res :: 'e ws_error + resolved_path), u)"
    and v: "on_fs (make_parent E (as_path res)) u = ((Inr x :: 'e ws_error + unit), v)"
    and y: "on_fs (fs_write E (as_path res) c) v = ((Inr () :: 'e ws_error + unit), y)"
    and t: "(if is_internal res then on_file_updated E R T (as_path res) else ret ()) y = ((Inr () :: 'e ws_error + unit), t)"
    by (auto simp: write_file_def changing_def bindE_Inr thenE_Inr dest!: resolving_Inr)
  have u: "res = Internal q" "u = s" using resolving_Inr [OF res [unfolded ws_resolve_def]] assms(2) by simp_all
  obtain d where d: "v = s\<lparr>ws_disk := d\<rparr>" using on_fs_Inr [OF v] u by auto
  obtain d' where d': "fs_write E q c (ws_disk v) = (Inr (), d')" "y = v\<lparr>ws_disk := d'\<rparr>" using on_fs_Inr [OF y] u by auto
  have y: "y = s\<lparr>ws_disk := d'\<rparr>" unfolding d'(2) d by simp
  show thesis by (rule that [OF d'(1)]) (use t u(1) y in simp)
qed

lemma seen_stamp: "dk_files d q = Some (c, m) \<Longrightarrow> lexical q = q \<Longrightarrow> through d q \<Longrightarrow>
    stamp_on_disk (seen_at E d q) key i = (Inr st, j) \<Longrightarrow>
    st = file_stamp (Some \<lparr>md_modified = Some m, md_len = of_nat (length c)\<rparr>) \<or> st = file_stamp None"
  by (auto simp: stamp_on_disk_def bindE_def attempt_def on_disk_def seen_at_def split: if_splits)

context index_stores
begin

lemma update_index_text:
  assumes "update_index D R T key i = ((Inr () :: 'e sync_error + unit), j)" "\<not> is_image_path key"
    and "\<And>k b. disk_read D k key = Inr b \<Longrightarrow> b = c" "valid_utf8 c"
  obtains st i' where "stamp_on_disk D key i = ((Inr st :: 'e sync_error + stamp), i')"
    "docs (sy_retrieve j) (path_to_doc_id key) = Some (record_of (text_document key c))" "bt_get (stamps (sy_track j)) key = Some st"
proof -
  from assms(1) obtain st i1 doc i2 where st: "stamp_on_disk D key i = ((Inr st :: 'e sync_error + stamp), i1)"
    and doc: "build_at D key i1 = ((Inr doc :: 'e sync_error + document option), i2)"
    and put: "(case doc of None \<Rightarrow> remove_from_index R T key | Some d \<Rightarrow> put_in_index R T key st d) i2 = ((Inr () :: 'e sync_error + unit), j)"
    by (auto simp: update_index_def bindE_Inr)
  obtain b where "disk_read D (sy_step i1) key = Inr b" "doc = (if valid_utf8 b then Some (text_document key b) else None)"
    using build_text [OF assms(2) doc] by blast
  with assms(3,4) have "doc = Some (text_document key c)" by simp
  with put have "put_in_index R T key st (text_document key c) i2 = ((Inr () :: 'e sync_error + unit), j)" by simp
  from put_in_index_run [OF this] show thesis by (intro that [OF st]) (simp_all add: text_document_def)
qed

lemma written_indexed:
  assumes run: "write_file E R T p c s = ((Inr () :: 'e ws_error + unit), t)"
    and q: "resolve_path (canonicalize (ws_disk s)) (we_root E) (we_allows E) p = Inr (Internal q)" "plain q"
    and c: "\<not> is_image_path (show_path q)" "valid_utf8 c"
  shows "\<exists>m st. dk_files (ws_disk t) q = Some (c, m) \<and>
    docs (sy_retrieve (ws_index t)) (path_to_doc_id (show_path q)) = Some (record_of (text_document (show_path q) c)) \<and>
    bt_get (stamps (sy_track (ws_index t))) (show_path q) = Some st \<and>
    (st = file_stamp (Some \<lparr>md_modified = Some m, md_len = of_nat (length c)\<rparr>) \<or> st = file_stamp None)"
proof -
  obtain d d' where w: "fs_write E q c d = (Inr (), d')"
    and up: "on_file_updated E R T q (s\<lparr>ws_disk := d'\<rparr>) = ((Inr () :: 'e ws_error + unit), t)"
    by (rule write_file_steps [OF run q(1)])
  note lex = lexical_plain [OF q(2)]
  obtain m where on_disk: "dk_files d' q = Some (c, m)" and thr: "through d' q"
    using fs_write_run [OF w] by (auto simp: lex through_def)
  have "resolve_path (canonicalize d') (we_root E) (we_allows E) q = Inr (Internal q)"
    by (rule resolve_plain) (use written_canonicalize [OF w] lex internal_prefix [OF q(1)] plain_absolute(1) [OF q(2)] in simp_all)
  with up have "on_index (update_index (seen_at E d' q) R T (show_path q)) (s\<lparr>ws_disk := d'\<rparr>) = ((Inr () :: 'e ws_error + unit), t)"
    by (simp add: on_file_updated_def ws_resolve_def resolving_def bindE_def)
  then obtain j where j: "update_index (seen_at E d' q) R T (show_path q) (ws_index s) = ((Inr () :: 'e sync_error + unit), j)"
    "t = s\<lparr>ws_disk := d', ws_index := j\<rparr>" using on_index_Inr by fastforce
  have read: "b = c" if "disk_read (seen_at E d' q) k (show_path q) = Inr b" for k b
    using seen_read [OF that] on_disk lex by simp
  obtain st i' where st: "stamp_on_disk (seen_at E d' q) (show_path q) (ws_index s) = ((Inr st :: 'e sync_error + stamp), i')"
    "docs (sy_retrieve j) (path_to_doc_id (show_path q)) = Some (record_of (text_document (show_path q) c))"
    "bt_get (stamps (sy_track j)) (show_path q) = Some st"
    by (rule update_index_text [OF j(1) c(1) read c(2)])
  from seen_stamp [OF on_disk lex thr st(1)] st(2,3) on_disk j(2) show ?thesis by auto
qed

end

section \<open>Properties\<close>

text \<open>
  C31: A text file written through the workspace is found on disk and in the index. With the databases: when
  \<open>write_file\<close> returns for a path that resolves inside the workspace, the file holds the content, the
  document stored under its id is the content at that path, and the stamp recorded is the one the file has
  (or the empty stamp, when asking for the metadata failed, so that the next sync reads the file again).
\<close>

theorem written_file_is_indexed:
  assumes "write_file E (redb_retrieve_ops g) (redb_track_ops f) p c s = ((Inr () :: 'e ws_error + unit), t)"
    and "resolve_path (canonicalize (ws_disk s)) (we_root E) (we_allows E) p = Inr (Internal q)" "plain q"
    and "\<not> is_image_path (show_path q)" "valid_utf8 c"
  shows "\<exists>m st. dk_files (ws_disk t) q = Some (c, m) \<and>
    bt_get (documents (sy_retrieve (ws_index t))) (path_to_doc_id (show_path q)) = Some (record_of (text_document (show_path q) c)) \<and>
    bt_get (rt_table (sy_track (ws_index t))) (show_path q) = Some st \<and>
    (st = file_stamp (Some \<lparr>md_modified = Some m, md_len = of_nat (length c)\<rparr>) \<or> st = file_stamp None)"
  by (rule redb_index.written_indexed [OF assms])

text \<open>
  C34: A range of lines whose end is before its start is not an empty range. When the file can be read,
  \<open>read_file_range\<close> gives the lines from \<open>a\<close> to \<open>e\<close>, counted from 1, but panics when \<open>a\<close> is a line of the file
  and \<open>e\<close> is less than the line before it.
\<close>

theorem range_end_before_start_panics:
  assumes "ws_read_file E p s = ((Inr c :: 'e ws_error + string), t)"
  shows "(read_file_range E p a (Some e) s :: ('e ws_error + string) \<times> _) =
    (if a \<le> length (lines_of c) \<and> e + 1 < a then Inl WsPanic
     else Inr (join_with [byte 10] (take (e - (a - 1)) (drop (a - 1) (lines_of c)))), t)"
proof -
  from assms obtain res u where res: "ws_resolve E p s = ((Inr res :: 'e ws_error + resolved_path), u)"
    and fs: "on_fs (fs_read_to_string E (as_path res)) u = ((Inr c :: 'e ws_error + string), t)"
    by (auto simp: ws_read_file_def bindE_Inr)
  have range: "line_range a (Some e) c = (if a \<le> length (lines_of c) \<and> e + 1 < a then None
      else Some (join_with [byte 10] (take (e - (a - 1)) (drop (a - 1) (lines_of c)))))"
    by (auto simp: line_range_def Let_def min_def)
  show ?thesis by (simp add: read_file_range_def runs res fs range)
qed

section \<open>Examples\<close>

text \<open>A workspace \<open>/a/ws\<close> without files, where no call fails.\<close>

definition ex_ws_env :: ws_env where
  "ex_ws_env = \<lparr>we_root = [RootDir, Normal ''a'', Normal ''ws''], we_app = ''app'', we_allows = False, we_fails = (\<lambda>_. False),
     we_torn = (\<lambda>_. None), we_clock = (\<lambda>_. 7), we_sha = (\<lambda>_. [])\<rparr>"

definition ex_ws_disk :: ws_disk where
  "ex_ws_disk = \<lparr>dk_dirs = [[RootDir], [RootDir, Normal ''a''], [RootDir, Normal ''a'', Normal ''ws'']], dk_files = (\<lambda>_. None), dk_step = 0\<rparr>"

definition ex_ws :: "(retrieve_db, redb_track, unit) workspace_state" where
  "ex_ws = \<lparr>ws_disk = ex_ws_disk, ws_index = ex_index\<rparr>"

abbreviation ex_new :: path where "ex_new \<equiv> [RootDir, Normal ''a'', Normal ''ws'', Normal ''n'']"

lemma ex_show: "show_path ex_new = ''/a/ws/n''" "is_image_path ''/a/ws/n'' = False" "valid_utf8 ''hi'' = True"
  by (code_simp, code_simp, code_simp)

lemmas ex_disk_simps = lexical_def lex_step_def through_def canonicalize_def fs_call_def ex_ws_env_def ex_ws_disk_def Let_def upt_rec parent_def

lemma ex_resolve: "resolve_path (canonicalize ex_ws_disk) (we_root ex_ws_env) (we_allows ex_ws_env) [Normal ''n''] = Inr (Internal ex_new)"
  by (simp add: resolve_path_def is_absolute_def join_def canonicalize_or_parent_def walk_up.simps file_name_def starts_with_def ex_disk_simps)

lemma ex_write:
  "\<exists>t. write_file ex_ws_env (redb_retrieve_ops (\<lambda>_. False)) (redb_track_ops (\<lambda>_. False)) [Normal ''n''] ''hi'' ex_ws =
    ((Inr () :: unit ws_error + unit), t) \<and> dk_files (ws_disk t) ex_new = Some (''hi'', 7)"
proof -
  define d where "d = ex_ws_disk\<lparr>dk_files := [ex_new \<mapsto> (''hi'', 7)], dk_step := 1\<rparr>"
  define s1 where "s1 = ex_ws\<lparr>ws_disk := d\<rparr>"
  have s1: "ws_disk s1 = d" "ws_index s1 = ex_index" by (simp_all add: s1_def ex_ws_def)
  have res: "ws_resolve ex_ws_env [Normal ''n''] ex_ws = ((Inr (Internal ex_new) :: unit ws_error + resolved_path), ex_ws)"
    using ex_resolve by (simp add: ws_resolve_def resolving_def ex_ws_def)
  have prot: "refuse_protected (we_app ex_ws_env) (we_root ex_ws_env) (Internal ex_new) [Normal ''n''] = Inr ()"
    by (simp add: refuse_protected_def strip_prefix_def push_part_def ex_ws_env_def)
  have mk: "on_fs (make_parent ex_ws_env ex_new) ex_ws = ((Inr () :: unit ws_error + unit), ex_ws)"
    by (simp add: on_fs_def make_parent_def create_dir_all_def make_dir_def thenE_def bindE_def ex_disk_simps ex_ws_def)
  have wr: "on_fs (fs_write ex_ws_env ex_new ''hi'') ex_ws = ((Inr () :: unit ws_error + unit), s1)"
    by (simp add: on_fs_def fs_write_def write_at_def set_file_def thenE_def bindE_def ex_disk_simps ex_ws_def s1_def d_def)
  have res2: "ws_resolve ex_ws_env ex_new (s1) = ((Inr (Internal ex_new) :: unit ws_error + resolved_path), s1)"
    by (simp add: ws_resolve_def resolving_def resolve_path_def is_absolute_def canonicalize_or_parent_def starts_with_def ex_disk_simps s1 d_def)
  have up: "\<exists>j. update_index (seen_at ex_ws_env d ex_new) (redb_retrieve_ops (\<lambda>_. False)) (redb_track_ops (\<lambda>_. False)) ''/a/ws/n'' ex_index =
      ((Inr () :: unit sync_error + unit), j)"
    by (simp add: update_index_def stamp_on_disk_def build_at_def build_document_from_disk_def ex_show on_disk_def seen_at_def fs_read_def
        bindE_def thenE_def attempt_def ex_disk_simps d_def)
       (simp add: put_in_index_def on_retrieve_def on_track_def redb_retrieve_ops_def redb_track_ops_def transaction_def upsert_document_def
        get_doc_def bindE_def thenE_def db_runs reindex_fts_def rebuild_fts_def Let_def ex_index_def)
  then obtain j where "update_index (seen_at ex_ws_env d ex_new) (redb_retrieve_ops (\<lambda>_. False)) (redb_track_ops (\<lambda>_. False)) ''/a/ws/n'' ex_index =
      ((Inr () :: unit sync_error + unit), j)" by blast
  then have "on_file_updated ex_ws_env (redb_retrieve_ops (\<lambda>_. False)) (redb_track_ops (\<lambda>_. False)) ex_new (s1) =
      ((Inr () :: unit ws_error + unit), s1\<lparr>ws_index := j\<rparr>)"
    by (simp add: on_file_updated_def runs res2 ex_show on_index_def s1)
  then show ?thesis
    using prot by (simp add: write_file_def changing_def runs res mk wr resolving_def s1 d_def)
qed

theorem written_file_is_indexed_witness:
  "\<exists>t st. write_file ex_ws_env (redb_retrieve_ops (\<lambda>_. False)) (redb_track_ops (\<lambda>_. False)) [Normal ''n''] ''hi'' ex_ws =
      ((Inr () :: unit ws_error + unit), t) \<and>
    bt_get (documents (sy_retrieve (ws_index t))) (path_to_doc_id ''/a/ws/n'') = Some (record_of (text_document ''/a/ws/n'' ''hi'')) \<and>
    bt_get (rt_table (sy_track (ws_index t))) ''/a/ws/n'' = Some st"
proof -
  obtain t where run: "write_file ex_ws_env (redb_retrieve_ops (\<lambda>_. False)) (redb_track_ops (\<lambda>_. False)) [Normal ''n''] ''hi'' ex_ws =
      ((Inr () :: unit ws_error + unit), t)" using ex_write by blast
  have "plain ex_new" unfolding plain_def by (intro exI [of _ "[''a'', ''ws'', ''n'']"]) simp
  from written_file_is_indexed [OF run _ this, unfolded ex_show] ex_resolve run ex_show show ?thesis
    by (auto simp: ex_ws_def)
qed

text \<open>A file of three lines.\<close>

definition ex_lines :: "(retrieve_db, redb_track, unit) workspace_state" where
  "ex_lines = ex_ws\<lparr>ws_disk := ex_ws_disk\<lparr>dk_files := [ex_new \<mapsto> ([CHR ''x'', byte 10, CHR ''y'', byte 10, CHR ''z''], 7)]\<rparr>\<rparr>"

lemma ex_three: "lines_of [CHR ''x'', byte 10, CHR ''y'', byte 10, CHR ''z''] = [''x'', ''y'', ''z'']"
  "valid_utf8 [CHR ''x'', byte 10, CHR ''y'', byte 10, CHR ''z'']"
  by (code_simp, code_simp)

theorem range_end_before_start_panics_witness:
  "\<exists>t. (read_file_range ex_ws_env ex_new 3 (Some 1) ex_lines :: (unit ws_error + string) \<times> _) = (Inl WsPanic, t)"
proof -
  let ?c = "[CHR ''x'', byte 10, CHR ''y'', byte 10, CHR ''z'']"
  have "\<exists>t. (ws_read_file ex_ws_env ex_new ex_lines :: (unit ws_error + string) \<times> _) = (Inr ?c, t)"
    by (simp add: ws_read_file_def ws_resolve_def resolving_def resolve_path_def is_absolute_def canonicalize_or_parent_def starts_with_def
        on_fs_def fs_read_to_string_def fs_read_def bindE_def thenE_def ex_lines_def ex_ws_def ex_three ex_disk_simps)
  then obtain t where "(ws_read_file ex_ws_env ex_new ex_lines :: (unit ws_error + string) \<times> _) = (Inr ?c, t)" by blast
  from range_end_before_start_panics [OF this, of 3 1] show ?thesis by (simp add: ex_three)
qed

text \<open>
  A write that leaves the workspace: the path goes up twice through a directory that does not exist yet. It
  resolves inside; the directory is made, the file is written beside the workspace, and only then the
  update of the index sees where the path leads.
\<close>

lemma write_escapes:
  "\<exists>t. write_file ex_ws_env R T [Normal ''x'', ParentDir, ParentDir, Normal ''f''] c (ex_ws\<lparr>ws_index := i\<rparr>) =
      ((Inl (WsPath (PathEscapesWorkspace (we_root ex_ws_env @ [Normal ''x'', ParentDir, ParentDir, Normal ''f'']) (we_root ex_ws_env)))
         :: unit ws_error + unit), t) \<and>
    dk_files (ws_disk t) [RootDir, Normal ''a'', Normal ''f''] = Some (c, 7)"
proof -
  let ?p = "[Normal ''x'', ParentDir, ParentDir, Normal ''f'']"
  let ?q = "[RootDir, Normal ''a'', Normal ''ws'', Normal ''x'', ParentDir, ParentDir, Normal ''f'']"
  define s where "s = ex_ws\<lparr>ws_index := i\<rparr>"
  define d1 where "d1 = ex_ws_disk\<lparr>dk_dirs := [RootDir, Normal ''a'', Normal ''ws'', Normal ''x''] # dk_dirs ex_ws_disk, dk_step := 1\<rparr>"
  define d2 where "d2 = d1\<lparr>dk_files := [[RootDir, Normal ''a'', Normal ''f''] \<mapsto> (c, 7)], dk_step := 2\<rparr>"
  have res: "ws_resolve ex_ws_env ?p s = ((Inr (Internal ?q) :: unit ws_error + resolved_path), s)"
    by (simp add: s_def ex_ws_def ws_resolve_def resolving_def resolve_path_def is_absolute_def join_def canonicalize_or_parent_def
        walk_up.simps file_name_def starts_with_def ex_disk_simps)
  have prot: "refuse_protected (we_app ex_ws_env) (we_root ex_ws_env) (Internal ?q) ?p = Inr ()"
    by (simp add: refuse_protected_def strip_prefix_def push_part_def ex_ws_env_def)
  have mk: "on_fs (make_parent ex_ws_env ?q) s = ((Inr () :: unit ws_error + unit), s\<lparr>ws_disk := d1\<rparr>)"
    by (simp add: s_def on_fs_def make_parent_def create_dir_all_def make_dir_def thenE_def bindE_def ex_disk_simps ex_ws_def d1_def)
  have wr: "on_fs (fs_write ex_ws_env ?q c) (s\<lparr>ws_disk := d1\<rparr>) = ((Inr () :: unit ws_error + unit), s\<lparr>ws_disk := d2\<rparr>)"
    by (simp add: on_fs_def fs_write_def write_at_def set_file_def thenE_def bindE_def ex_disk_simps d1_def d2_def)
  have out: "ws_resolve ex_ws_env ?q (s\<lparr>ws_disk := d2\<rparr>) =
      ((Inl (WsPath (PathEscapesWorkspace ?q (we_root ex_ws_env))) :: unit ws_error + resolved_path), s\<lparr>ws_disk := d2\<rparr>)"
    by (simp add: ws_resolve_def resolving_def resolve_path_def is_absolute_def canonicalize_or_parent_def starts_with_def ex_disk_simps d1_def d2_def)
  have root: "we_root ex_ws_env @ ?p = ?q" by (simp add: ex_ws_env_def)
  show ?thesis unfolding root s_def [symmetric]
    using prot by (simp add: write_file_def changing_def runs res mk wr resolving_def on_file_updated_def out) (simp add: d2_def)
qed

end
