(* ===== verification/Search.thy ===== *)
theory Search
  imports Retrieve
begin

text \<open>
  Searching (\<open>sapphire-framework-retrieve/src/redb_store.rs\<close>, \<open>db.rs\<close>, \<open>snippet.rs\<close>): snippets, the full-text and
  the vector search of the store and the fusion of their results. What tantivy finds in the committed
  operations, the graph of \<open>instant_distance\<close> and the distance of two vectors are parameters, as is the
  arithmetic of scores; scores are linearly ordered, so none is a NaN.
\<close>

section \<open>Snippets\<close>

text \<open>\<open>str::chars\<close>: each character as its encoding. The first byte says how long that is.\<close>

definition char_len :: "char \<Rightarrow> nat" where
  "char_len a = (let n = (of_char a :: nat) in if n < 0xC0 then 1 else if n < 0xE0 then 2 else if n < 0xF0 then 3 else 4)"

lemma char_len_pos: "0 < char_len a"
  by (simp add: char_len_def Let_def)

function utf8_chars :: "string \<Rightarrow> string list" where
  "utf8_chars [] = []"
| "utf8_chars (a # s) = take (char_len a) (a # s) # utf8_chars (drop (char_len a) (a # s))"
  by pat_completeness auto

termination
  by (relation "measure length") (use char_len_pos in \<open>auto\<close>)

definition is_whitespace :: "string \<Rightarrow> bool" where
  "is_whitespace c \<longleftrightarrow> c \<in> set white"

definition space :: string where
  "space = '' ''"

definition SNIPPET_CHARS :: nat where
  "SNIPPET_CHARS = 150"

text \<open>The loop of \<open>collapse_and_cut\<close>; \<open>out\<close> holds \<open>count\<close> characters.\<close>

fun collapse_loop :: "string list \<Rightarrow> string list \<Rightarrow> nat \<Rightarrow> bool \<Rightarrow> string list" where
  "collapse_loop [] out count pending_space = out"
| "collapse_loop (c # cs) out count pending_space =
     (if is_whitespace c then collapse_loop cs out count (out \<noteq> [])
      else if pending_space \<and> SNIPPET_CHARS \<le> count + 1 then out
      else (let (out, count) = (if pending_space then (out @ [space], count + 1) else (out, count)) in
        if SNIPPET_CHARS \<le> count then out else collapse_loop cs (out @ [c]) (count + 1) False))"

definition collapse_and_cut :: "string \<Rightarrow> string" where
  "collapse_and_cut s = concat (collapse_loop (utf8_chars s) [] 0 False)"

definition leading :: "string \<Rightarrow> string" where
  "leading s = collapse_and_cut s"

definition SNIPPET_SOURCE_BYTES :: nat where
  "SNIPPET_SOURCE_BYTES = 256 * 1024"

definition is_char_boundary :: "string \<Rightarrow> nat \<Rightarrow> bool" where
  "is_char_boundary s n \<longleftrightarrow> n = 0 \<or> n = length s \<or> (n < length s \<and> \<not> (0x80 \<le> (of_char (s ! n) :: nat) \<and> of_char (s ! n) < (0xC0 :: nat)))"

fun back_to_boundary :: "string \<Rightarrow> nat \<Rightarrow> nat" where
  "back_to_boundary s 0 = 0"
| "back_to_boundary s (Suc n) = (if is_char_boundary s (Suc n) then Suc n else back_to_boundary s n)"

definition snippet_source :: "string \<Rightarrow> nat \<Rightarrow> string" where
  "snippet_source s most = (if length s \<le> most then s else take (back_to_boundary s most) s)"

definition pick_snippet :: "string \<Rightarrow> string \<Rightarrow> string" where
  "pick_snippet fragment s = (if trim fragment = '''' then leading s else collapse_and_cut fragment)"

definition snippet :: "doc_record \<Rightarrow> string" where
  "snippet r = (case r_kind r of TextDoc \<Rightarrow> leading (r_text r) | Image _ \<Rightarrow> '''')"

section \<open>Results\<close>

record 'd search_result =
  sr_id :: i64
  sr_path :: string
  sr_score :: 'd
  sr_snippet :: string

text \<open>\<open>limit.saturating_mul(5).max(limit)\<close> on 64 bits.\<close>

definition over_fetch :: "nat \<Rightarrow> nat" where
  "over_fetch limit = max (min (limit * 5) (2 ^ 64 - 1)) limit"

definition under :: "string option \<Rightarrow> doc_record \<Rightarrow> bool" where
  "under path_prefix r \<longleftrightarrow> (case path_prefix of None \<Rightarrow> True | Some p \<Rightarrow> prefix p (r_path r))"

section \<open>Full text\<close>

text \<open>
  Tantivy: the best \<open>n\<close> hits for a query in the committed operations, best first, each with the id stored
  in it, if it can be read; no answer for a query it cannot parse. And the fragment of a text around a match.
\<close>

record 'd fts_engine =
  fe_search :: "nat \<Rightarrow> fts_op list \<Rightarrow> string \<Rightarrow> nat \<Rightarrow> (ret_error + ('d \<times> (ret_error + i64 option)) list) option"
  fe_fragment :: "string \<Rightarrow> string \<Rightarrow> string"

definition fts_snippet :: "'d fts_engine \<Rightarrow> string \<Rightarrow> doc_record \<Rightarrow> string" where
  "fts_snippet F q r = (case r_kind r of
     TextDoc \<Rightarrow> pick_snippet (fe_fragment F q (snippet_source (r_text r) SNIPPET_SOURCE_BYTES)) (r_text r)
   | Image _ \<Rightarrow> '''')"

fun fts_collect :: "(nat \<Rightarrow> bool) \<Rightarrow> 'd fts_engine \<Rightarrow> string \<Rightarrow> nat \<Rightarrow> string option \<Rightarrow> ('d \<times> (ret_error + i64 option)) list \<Rightarrow>
    i64 set \<Rightarrow> 'd search_result list \<Rightarrow> (retrieve_db, ret_error, 'd search_result list) op" where
  "fts_collect fails F q limit pfx [] seen acc s = ret acc s"
| "fts_collect fails F q limit pfx ((score, hit) # hits) seen acc s =
     (if length acc = limit then ret acc
      else (case hit of
        Inl e \<Rightarrow> throw e
      | Inr None \<Rightarrow> fts_collect fails F q limit pfx hits seen acc
      | Inr (Some i) \<Rightarrow>
          if i \<in> seen then fts_collect fails F q limit pfx hits seen acc
          else bindE (get_doc fails i) (\<lambda>r. case r of
            None \<Rightarrow> fts_collect fails F q limit pfx hits (insert i seen) acc
          | Some r \<Rightarrow>
              if \<not> under pfx r then fts_collect fails F q limit pfx hits (insert i seen) acc
              else fts_collect fails F q limit pfx hits (insert i seen)
                (acc @ [\<lparr>sr_id = i, sr_path = r_path r, sr_score = score, sr_snippet = fts_snippet F q r\<rparr>])))) s"

definition search_fts :: "(nat \<Rightarrow> bool) \<Rightarrow> 'd fts_engine \<Rightarrow> string \<Rightarrow> nat \<Rightarrow> string option \<Rightarrow>
    (retrieve_db, ret_error, 'd search_result list) op" where
  "search_fts fails F q limit pfx s =
     thenE (db_call fails RetTantivy)
    (bindE (reading (\<lambda>s. fe_search F (rs_step s) (fts_log s) q (over_fetch limit))) (\<lambda>found. case found of
       None \<Rightarrow> ret []
     | Some (Inl e) \<Rightarrow> throw e
     | Some (Inr hits) \<Rightarrow> fts_collect fails F q limit pfx hits {} [])) s"

section \<open>Vectors\<close>

text \<open>
  The embedding of the query, the distance of the scan (\<open>l2_distance\<close>, in double precision), the distance of the
  graph (\<open>Point::distance\<close>, in single precision), the graph's answer for a query over the vectors it was built
  from, and whether the thread of a build cannot be started.
\<close>

record 'd vec_engine =
  ve_embed :: "nat \<Rightarrow> string \<Rightarrow> ret_error + fvec list"
  ve_dist :: "fvec \<Rightarrow> fvec \<Rightarrow> 'd"
  ve_graph_dist :: "fvec \<Rightarrow> fvec \<Rightarrow> 'd"
  ve_hnsw :: "(i64, fvec) btmap \<Rightarrow> fvec \<Rightarrow> ('d \<times> i64) list"
  ve_no_thread :: "nat \<Rightarrow> bool"

definition ann_least :: nat where
  "ann_least = ANN_MIN"

text \<open>A search may start a build; it runs on its own, from a snapshot it takes later.\<close>

definition start_build :: "'d vec_engine \<Rightarrow> retrieve_db \<Rightarrow> retrieve_db" where
  "start_build V s = (case ann_start ann_least (size (vecs s)) (rs_ann s) of
     (None, a) \<Rightarrow> s\<lparr>rs_ann := a\<rparr>
   | (Some t, a) \<Rightarrow> s\<lparr>rs_ann := (if ve_no_thread V (rs_step s) then ann_finish t None a else a)\<rparr>)"

definition exact_one :: "'d vec_engine \<Rightarrow> fvec \<Rightarrow> i64 \<Rightarrow> bytes \<Rightarrow> ('d \<times> i64) list" where
  "exact_one V q i b = (let v = vec_deserialize b in if length v = length q then [(ve_dist V q v, i)] else [])"

definition scan_all :: "'d vec_engine \<Rightarrow> fvec \<Rightarrow> (bytes, bytes) btmap \<Rightarrow> ('d \<times> i64) list" where
  "scan_all V q m = concat (map (\<lambda>(k, b). case vkey_parse k of None \<Rightarrow> [] | Some i \<Rightarrow> exact_one V q i b) (entries m))"

definition scan_changed :: "'d vec_engine \<Rightarrow> fvec \<Rightarrow> (bytes, bytes) btmap \<Rightarrow> i64 list \<Rightarrow> ('d \<times> i64) list" where
  "scan_changed V q m ids = concat (map (\<lambda>i. case bt_get m (vkey i) of None \<Rightarrow> [] | Some b \<Rightarrow> exact_one V q i b) ids)"

definition scored :: "'d vec_engine \<Rightarrow> fvec \<Rightarrow> bool \<Rightarrow> nat \<Rightarrow> retrieve_db \<Rightarrow> ('d \<times> i64) list" where
  "scored V q indexable want s =
     (case (if indexable \<and> ann_least \<le> size (vecs s) then ann_search (ve_hnsw V) q want (rs_ann s) else None) of
        Some (nearest, changed) \<Rightarrow> nearest @ scan_changed V q (vecs s) changed
      | None \<Rightarrow> scan_all V q (vecs s))"

fun similar_collect :: "(nat \<Rightarrow> bool) \<Rightarrow> nat \<Rightarrow> string option \<Rightarrow> ('d \<times> i64) list \<Rightarrow> 'd search_result list \<Rightarrow>
    (retrieve_db, ret_error, 'd search_result list) op" where
  "similar_collect fails limit pfx [] acc s = ret acc s"
| "similar_collect fails limit pfx ((d, i) # xs) acc s =
     (if length acc = limit then ret acc
      else bindE (get_doc fails i) (\<lambda>r. case r of
        None \<Rightarrow> similar_collect fails limit pfx xs acc
      | Some r \<Rightarrow>
          if \<not> under pfx r then similar_collect fails limit pfx xs acc
          else similar_collect fails limit pfx xs
            (acc @ [\<lparr>sr_id = i, sr_path = r_path r, sr_score = d, sr_snippet = snippet r\<rparr>]))) s"

definition search_similar :: "(nat \<Rightarrow> bool) \<Rightarrow> ('d::linorder) vec_engine \<Rightarrow> string \<Rightarrow> nat \<Rightarrow> string option \<Rightarrow>
    (retrieve_db, ret_error, 'd search_result list) op" where
  "search_similar fails V q limit pfx s =
     bindE (reading dim) (\<lambda>d. if d = None then ret [] else
     bindE (\<lambda>s. (ve_embed V (rs_step s) q, s\<lparr>rs_step := rs_step s + 1\<rparr>)) (\<lambda>qs. case qs of
       [] \<Rightarrow> throw (RetEmbed ''embedder returned empty result'')
     | qv # _ \<Rightarrow>
         let want = over_fetch limit; indexable = (pfx = None \<and> want \<le> EF_SEARCH) in
         thenE (db_call fails RetRedb)
        (thenE (update (if indexable then start_build V else id))
        (bindE (reading (scored V qv indexable want)) (\<lambda>found.
           similar_collect fails limit pfx (take want (sort_key fst found)) []))))) s"

section \<open>Both\<close>

text \<open>
  \<open>merge_rrf_files\<close>: \<open>weigh_fts\<close> and \<open>weigh_sem\<close> give the weight of a rank from 1, \<open>visit\<close> is the order in which the
  map happens to be visited. The sort is stable and by descending score.
\<close>

definition rrf_fts :: "(nat \<Rightarrow> 'w) \<Rightarrow> (string, 'd search_result \<times> 'w) btmap \<Rightarrow> nat \<times> 'd search_result \<Rightarrow>
    (string, 'd search_result \<times> 'w) btmap" where
  "rrf_fts weigh acc nf = (case nf of (rank, f) \<Rightarrow> bt_insert (sr_path f) (f, weigh (rank + 1)) acc)"

definition rrf_sem :: "(nat \<Rightarrow> 'w) \<Rightarrow> ('w \<Rightarrow> 'w \<Rightarrow> 'w) \<Rightarrow> (string, 'd search_result \<times> 'w) btmap \<Rightarrow> nat \<times> 'd search_result \<Rightarrow>
    (string, 'd search_result \<times> 'w) btmap" where
  "rrf_sem weigh add acc nf = (case nf of (rank, f) \<Rightarrow> (case bt_get acc (sr_path f) of
     Some (g, w) \<Rightarrow> bt_insert (sr_path f) (g, add w (weigh (rank + 1))) acc
   | None \<Rightarrow> bt_insert (sr_path f) (f, weigh (rank + 1)) acc))"

definition rrf_table :: "(nat \<Rightarrow> 'w) \<Rightarrow> (nat \<Rightarrow> 'w) \<Rightarrow> ('w \<Rightarrow> 'w \<Rightarrow> 'w) \<Rightarrow> 'd search_result list \<Rightarrow> 'd search_result list \<Rightarrow>
    (string, 'd search_result \<times> 'w) btmap" where
  "rrf_table weigh_fts weigh_sem add fts sem =
     foldl (rrf_sem weigh_sem add) (foldl (rrf_fts weigh_fts) bt_empty (enumerate 0 fts)) (enumerate 0 sem)"

text \<open>A descending stable sort: an ascending one of the reversed list, reversed.\<close>

definition sort_desc :: "('a \<Rightarrow> 'w::linorder) \<Rightarrow> 'a list \<Rightarrow> 'a list" where
  "sort_desc f xs = rev (sort_key f (rev xs))"

definition merge_rrf_files :: "(string list \<Rightarrow> string list) \<Rightarrow> (nat \<Rightarrow> 'w::linorder) \<Rightarrow> (nat \<Rightarrow> 'w) \<Rightarrow> ('w \<Rightarrow> 'w \<Rightarrow> 'w) \<Rightarrow>
    'w search_result list \<Rightarrow> 'w search_result list \<Rightarrow> nat \<Rightarrow> 'w search_result list" where
  "merge_rrf_files visit weigh_fts weigh_sem add fts sem limit =
     (let acc = rrf_table weigh_fts weigh_sem add fts sem;
          merged = map (\<lambda>p. the (bt_get acc p)) (visit (bt_keys acc)) in
      map (\<lambda>(f, w). f\<lparr>sr_score := w\<rparr>) (take limit (sort_desc snd merged)))"

text \<open>
  \<open>default_hybrid\<close>: three times as many of each; without an embedder, of the full text only. The multiplication is
  unchecked: on 64 bits it wraps in a release build, which is what is modelled (a debug build panics where it would).
\<close>

definition tripled :: "nat \<Rightarrow> nat" where
  "tripled limit = limit * 3 mod 2 ^ 64"

definition search_hybrid :: "(nat \<Rightarrow> bool) \<Rightarrow> ('w::linorder) fts_engine \<Rightarrow> 'w vec_engine option \<Rightarrow> (string list \<Rightarrow> string list) \<Rightarrow>
    (nat \<Rightarrow> 'w) \<Rightarrow> (nat \<Rightarrow> 'w) \<Rightarrow> ('w \<Rightarrow> 'w \<Rightarrow> 'w) \<Rightarrow> string \<Rightarrow> nat \<Rightarrow> string option \<Rightarrow>
    (retrieve_db, ret_error, 'w search_result list) op" where
  "search_hybrid fails F V visit weigh_fts weigh_sem add q limit pfx s =
     bindE (search_fts fails F q (tripled limit) pfx) (\<lambda>fts. case V of
       None \<Rightarrow> ret (take limit fts)
     | Some V \<Rightarrow> bindE (search_similar fails V q (tripled limit) pfx) (\<lambda>sem.
         ret (merge_rrf_files visit weigh_fts weigh_sem add fts sem limit))) s"

section \<open>What a snippet is\<close>

lemma dropWhile_hd_stays: "dropWhile P xs = y # ys \<Longrightarrow> \<not> P y"
  by (metis hd_dropWhile list.distinct(1) list.sel(1))

lemma length_dropWhile_less: "P y \<Longrightarrow> length (dropWhile P (y # ys)) < Suc (length ys)"
  by (simp add: length_dropWhile_le less_Suc_eq_le)

text \<open>The words of a text, and the text they make with one space between them.\<close>

function words :: "string list \<Rightarrow> string list list" where
  "words cs = (case dropWhile is_whitespace cs of [] \<Rightarrow> []
     | c # ds \<Rightarrow> takeWhile (\<lambda>c. \<not> is_whitespace c) (c # ds) # words (dropWhile (\<lambda>c. \<not> is_whitespace c) (c # ds)))"
  by pat_completeness auto

termination
proof (relation "measure length")
  fix cs c ds assume d: "dropWhile is_whitespace cs = c # ds"
  then have "\<not> is_whitespace c" by (rule dropWhile_hd_stays)
  then have "length (dropWhile (\<lambda>c. \<not> is_whitespace c) (c # ds)) < Suc (length ds)" by (intro length_dropWhile_less)
  moreover have "Suc (length ds) \<le> length cs" using d length_dropWhile_le [of is_whitespace cs] by simp
  ultimately show "(dropWhile (\<lambda>c. \<not> is_whitespace c) (c # ds), cs) \<in> measure length" by simp
qed simp

declare words.simps [simp del]

definition one_spaced :: "string list \<Rightarrow> string list" where
  "one_spaced cs = join_with [space] (words cs)"

definition cut_at :: "nat \<Rightarrow> string list \<Rightarrow> string list" where
  "cut_at n cs = (let t = take n cs in if t \<noteq> [] \<and> last t = space then butlast t else t)"

text \<open>What the loop would append without its limit, once something is there and when a space is due.\<close>

fun squeeze :: "string list \<Rightarrow> bool \<Rightarrow> bool \<Rightarrow> string list" where
  "squeeze [] started due = []"
| "squeeze (c # cs) started due = (if is_whitespace c then squeeze cs started started
     else (if due then [space] else []) @ c # squeeze cs True False)"

lemma space_white: "is_whitespace space"
  by code_simp

lemma collapse_loop_squeeze:
  assumes "length out \<le> SNIPPET_CHARS" "due \<Longrightarrow> out \<noteq> []"
  shows "collapse_loop cs out (length out) due = out @ cut_at (SNIPPET_CHARS - length out) (squeeze cs (out \<noteq> []) due)"
  using assms
proof (induction cs arbitrary: out due)
  case (Cons c cs)
  show ?case
  proof (cases "is_whitespace c")
    case True
    with Cons.IH [of out "out \<noteq> []"] Cons.prems(1) show ?thesis by simp
  next
    case False
    then have c: "c \<noteq> space" using space_white by blast
    have step: "collapse_loop cs (out @ xs @ [c]) (length (out @ xs @ [c])) False =
        (out @ xs @ [c]) @ cut_at (SNIPPET_CHARS - length (out @ xs @ [c])) (squeeze cs True False)"
      if "length (out @ xs @ [c]) \<le> SNIPPET_CHARS" for xs
      using Cons.IH [of "out @ xs @ [c]" False] that by simp
    have last: "cut_at (Suc n) (c # ys) = c # cut_at n ys" for n ys
      using c by (auto simp: cut_at_def Let_def)
    show ?thesis
    proof (cases due)
      case True
      show ?thesis
      proof (cases "SNIPPET_CHARS \<le> length out + 1")
        case True
        then have "SNIPPET_CHARS - length out = 0 \<or> SNIPPET_CHARS - length out = 1" using Cons.prems(1) by linarith
        with True False \<open>due\<close> show ?thesis by (auto simp: cut_at_def Let_def)
      next
        case less: False
        then have "SNIPPET_CHARS - length out = Suc (Suc (SNIPPET_CHARS - length (out @ [space] @ [c])))" by simp
        moreover have "cut_at (Suc (Suc n)) (space # c # ys) = space # c # cut_at n ys" for n ys
          using last [of n ys] c by (auto simp: cut_at_def Let_def)
        ultimately show ?thesis using step [of "[space]"] less False \<open>due\<close> by simp
      qed
    next
      case not_due: False
      show ?thesis
      proof (cases "SNIPPET_CHARS \<le> length out")
        case True
        with False not_due show ?thesis by (simp add: cut_at_def)
      next
        case less: False
        then have "SNIPPET_CHARS - length out = Suc (SNIPPET_CHARS - length (out @ [] @ [c]))" by simp
        with step [of "[]"] last less False not_due show ?thesis by simp
      qed
    qed
  qed
qed (simp add: cut_at_def)

lemma squeeze_word: "squeeze cs True False = takeWhile (\<lambda>c. \<not> is_whitespace c) cs @ squeeze (dropWhile (\<lambda>c. \<not> is_whitespace c) cs) True True"
proof (induction cs)
  case (Cons c cs)
  then show ?case by (cases "is_whitespace c") simp_all
qed simp

lemma squeeze_white: "started = due \<Longrightarrow> squeeze cs started due = squeeze (dropWhile is_whitespace cs) started due"
  by (induction cs) auto

lemma squeeze_words: "squeeze cs due due = (if words cs = [] then [] else (if due then [space] else []) @ one_spaced cs)"
proof (induction cs arbitrary: due rule: words.induct)
  case (1 cs)
  show ?case
  proof (cases "dropWhile is_whitespace cs")
    case Nil
    have "words cs = []" by (subst words.simps) (simp only: Nil list.case)
    with squeeze_white [of due due cs] show ?thesis by (simp only: Nil) simp
  next
    case (Cons c ds)
    let ?rest = "dropWhile (\<lambda>c. \<not> is_whitespace c) (c # ds)"
    have c: "\<not> is_whitespace c" by (rule dropWhile_hd_stays [OF Cons])
    have w: "words cs = takeWhile (\<lambda>c. \<not> is_whitespace c) (c # ds) # words ?rest" by (simp add: words.simps [of cs] Cons)
    have "squeeze cs due due = (if due then [space] else []) @ c # squeeze ds True False"
      using squeeze_white [of due due cs] c by (simp add: Cons)
    also have "c # squeeze ds True False = takeWhile (\<lambda>c. \<not> is_whitespace c) (c # ds) @ squeeze ?rest True True"
      using squeeze_word [of ds] c by simp
    also have "squeeze ?rest True True = (if words ?rest = [] then [] else space # one_spaced ?rest)"
      using "1.IH" [OF Cons, of True] by simp
    finally show ?thesis by (cases "words ?rest") (simp_all add: w one_spaced_def)
  qed
qed

lemma snippet_words: "collapse_and_cut s = concat (cut_at SNIPPET_CHARS (one_spaced (utf8_chars s)))"
proof -
  have "words cs = [] \<Longrightarrow> one_spaced cs = []" for cs by (simp add: one_spaced_def)
  with collapse_loop_squeeze [of "[]" False "utf8_chars s"] squeeze_words [of "utf8_chars s" False]
  show ?thesis by (cases "words (utf8_chars s) = []") (simp_all add: collapse_and_cut_def)
qed

end
