(* ===== verification/SearchResults.thy ===== *)
theory SearchResults
  imports Search
begin

text \<open>
  What the searches of \<open>Search\<close> return: the documents of the full-text hits, the nearest vectors, and the fusion
  of both lists by rank.
\<close>

section \<open>What a full-text search returns\<close>

text \<open>The ids of the hits, each at its best hit; the result a hit gives, if its document is there and wanted.\<close>

fun first_hits :: "i64 set \<Rightarrow> ('d \<times> (ret_error + i64 option)) list \<Rightarrow> ('d \<times> i64) list" where
  "first_hits seen [] = []"
| "first_hits seen ((d, Inr (Some i)) # hits) = (if i \<in> seen then first_hits seen hits else (d, i) # first_hits (insert i seen) hits)"
| "first_hits seen (_ # hits) = first_hits seen hits"

definition wanted :: "string option \<Rightarrow> (i64, doc_record) btmap \<Rightarrow> i64 \<Rightarrow> bool" where
  "wanted pfx docs i \<longleftrightarrow> (case bt_get docs i of None \<Rightarrow> False | Some r \<Rightarrow> under pfx r)"

definition fts_result :: "'d fts_engine \<Rightarrow> string \<Rightarrow> (i64, doc_record) btmap \<Rightarrow> 'd \<times> i64 \<Rightarrow> 'd search_result" where
  "fts_result F q docs = (\<lambda>(d, i). let r = the (bt_get docs i) in
     \<lparr>sr_id = i, sr_path = r_path r, sr_score = d, sr_snippet = fts_snippet F q r\<rparr>)"

definition similar_result :: "(i64, doc_record) btmap \<Rightarrow> 'd \<times> i64 \<Rightarrow> 'd search_result" where
  "similar_result docs = (\<lambda>(d, i). let r = the (bt_get docs i) in
     \<lparr>sr_id = i, sr_path = r_path r, sr_score = d, sr_snippet = snippet r\<rparr>)"

lemma get_doc_run: "get_doc fails i s =
    (if fails (rs_step s) then Inl RetRedb else Inr (bt_get (documents s) i), s\<lparr>rs_step := rs_step s + 1\<rparr>)"
  by (simp add: get_doc_def db_runs)

text \<open>What a search leaves: it may start a build and counts its calls.\<close>

definition read_only :: "retrieve_db \<Rightarrow> retrieve_db \<Rightarrow> bool" where
  "read_only s t \<longleftrightarrow> (\<exists>a n. t = s\<lparr>rs_ann := a, rs_step := n\<rparr>)"

lemma read_only_refl: "read_only s s"
  unfolding read_only_def by (rule exI [of _ "rs_ann s"], rule exI [of _ "rs_step s"]) simp

lemma read_only_step: "read_only (s\<lparr>rs_step := n\<rparr>) t \<Longrightarrow> read_only s t"
  unfolding read_only_def by auto

lemma read_only_trans: assumes "read_only s t" "read_only t u" shows "read_only s u"
proof -
  from assms obtain a n b m where "t = s\<lparr>rs_ann := a, rs_step := n\<rparr>" "u = t\<lparr>rs_ann := b, rs_step := m\<rparr>"
    unfolding read_only_def by blast
  then have "u = s\<lparr>rs_ann := b, rs_step := m\<rparr>" by simp
  then show ?thesis unfolding read_only_def by blast
qed

lemma read_only_same: "read_only s t \<Longrightarrow> same_tables s t"
  by (auto simp: read_only_def same_tables_def)

lemma take_room: "n < m \<Longrightarrow> take (m - n) (x # xs) = x # take (m - Suc n) xs"
  by (simp add: take_Cons')

lemma fts_collect_run:
  assumes "fts_collect fails F q limit pfx hits seen acc s = (r, t)" "length acc \<le> limit"
  shows "read_only s t \<and> (\<forall>rs. r = Inr rs \<longrightarrow>
    rs = take limit (acc @ map (fts_result F q (documents s)) (filter (wanted pfx (documents s) \<circ> snd) (first_hits seen hits))))"
  using assms
proof (induction hits arbitrary: seen acc s)
  case Nil
  then show ?case by (auto simp: ret_def read_only_refl)
next
  case (Cons h hits)
  obtain d x where h: "h = (d, x)" by (cases h)
  show ?case
  proof (cases "length acc = limit")
    case True
    with Cons.prems show ?thesis by (auto simp: h ret_def read_only_refl)
  next
    case False
    with Cons.prems have less: "length acc < limit" by simp
    let ?s = "s\<lparr>rs_step := rs_step s + 1\<rparr>"
    consider e where "x = Inl e" | "x = Inr None" | i where "x = Inr (Some i)" "i \<in> seen" | i where "x = Inr (Some i)" "i \<notin> seen"
      by (cases x; cases "projr x"; cases "the (projr x) \<in> seen") auto
    then show ?thesis
    proof cases
      case 1
      with Cons.prems False show ?thesis by (auto simp: h throw_def read_only_refl)
    next
      case 2
      with Cons.prems False show ?thesis using Cons.IH [of seen acc s] by (simp add: h)
    next
      case 3
      with Cons.prems False show ?thesis using Cons.IH [of seen acc s] by (simp add: h)
    next
      case (4 i)
      show ?thesis
      proof (cases "fails (rs_step s)")
        case True
        with Cons.prems False 4 show ?thesis
          using read_only_step [OF read_only_refl] by (auto simp: h bindE_def get_doc_run)
      next
        case ok: False
        let ?more = "if wanted pfx (documents s) i then [fts_result F q (documents s) (d, i)] else []"
        have "fts_collect fails F q limit pfx hits (insert i seen) (acc @ ?more) ?s = (r, t)"
          using Cons.prems(1) False 4 ok
          by (auto simp: h bindE_def get_doc_run wanted_def fts_result_def split: option.splits if_splits)
        from Cons.IH [OF this] less 4 show ?thesis by (auto simp: h take_room intro: read_only_step)
      qed
    qed
  qed
qed

lemma similar_collect_run:
  assumes "similar_collect fails limit pfx xs acc s = (r, t)" "length acc \<le> limit"
  shows "read_only s t \<and> (\<forall>rs. r = Inr rs \<longrightarrow>
    rs = take limit (acc @ map (similar_result (documents s)) (filter (wanted pfx (documents s) \<circ> snd) xs)))"
  using assms
proof (induction xs arbitrary: acc s)
  case Nil
  then show ?case by (auto simp: ret_def read_only_refl)
next
  case (Cons x xs)
  obtain d i where x: "x = (d, i)" by (cases x)
  show ?case
  proof (cases "length acc = limit")
    case True
    with Cons.prems show ?thesis by (auto simp: x ret_def read_only_refl)
  next
    case False
    with Cons.prems have less: "length acc < limit" by simp
    let ?s = "s\<lparr>rs_step := rs_step s + 1\<rparr>"
    show ?thesis
    proof (cases "fails (rs_step s)")
      case True
      with Cons.prems False show ?thesis
        using read_only_step [OF read_only_refl] by (auto simp: x bindE_def get_doc_run)
    next
      case ok: False
      let ?more = "if wanted pfx (documents s) i then [similar_result (documents s) (d, i)] else []"
      have "similar_collect fails limit pfx xs (acc @ ?more) ?s = (r, t)"
        using Cons.prems(1) False ok
        by (auto simp: x bindE_def get_doc_run wanted_def similar_result_def split: option.splits if_splits)
      from Cons.IH [OF this] less show ?thesis by (auto simp: x take_room intro: read_only_step)
    qed
  qed
qed

lemma search_fts_run:
  assumes "search_fts fails F q limit pfx s = (Inr rs, t)"
  shows "read_only s t \<and> (rs = [] \<or> (\<exists>hits. fe_search F (Suc (rs_step s)) (fts_log s) q (over_fetch limit) = Some (Inr hits) \<and>
    rs = take limit (map (fts_result F q (documents s)) (filter (wanted pfx (documents s) \<circ> snd) (first_hits {} hits)))))"
proof -
  let ?s = "s\<lparr>rs_step := Suc (rs_step s)\<rparr>"
  have go: "read_only ?s u \<Longrightarrow> read_only s u" for u by (rule read_only_step)
  show ?thesis
  proof (cases "fe_search F (Suc (rs_step s)) (fts_log s) q (over_fetch limit)")
    case None
    with assms have "rs = [] \<and> t = ?s"
      by (auto simp: search_fts_def thenE_def bindE_def db_runs reading_def ret_def split: if_splits)
    with go [OF read_only_refl] show ?thesis by simp
  next
    case (Some found)
    with assms obtain hits where hits: "found = Inr hits" "fts_collect fails F q limit pfx hits {} [] ?s = (Inr rs, t)"
      by (cases found) (auto simp: search_fts_def thenE_def bindE_def db_runs reading_def throw_def split: if_splits)
    from fts_collect_run [OF hits(2)] go Some hits(1) show ?thesis by auto
  qed
qed

lemma first_hits_ids: "distinct (map snd (first_hits seen hits)) \<and> (\<forall>x \<in> set (first_hits seen hits). snd x \<notin> seen)"
  by (induction seen hits rule: first_hits.induct) auto

lemma distinct_ids_filtered: "distinct (map snd xs) \<Longrightarrow> distinct (map snd (filter P xs))"
  by (rule distinct_map_filter)

lemma result_ids [simp]: "map sr_id (map (fts_result F q docs) xs) = map snd xs"
  "map sr_id (map (similar_result docs) xs) = map snd xs"
  by (auto simp: fts_result_def similar_result_def Let_def)

lemma search_fts_ids:
  assumes "search_fts fails F q limit pfx s = (Inr rs, t)"
  shows "distinct (map sr_id rs) \<and> (\<forall>x \<in> set rs. \<exists>r. bt_get (documents s) (sr_id x) = Some r \<and> sr_path x = r_path r \<and> under pfx r)"
proof (cases "rs = []")
  case False
  with search_fts_run [OF assms] obtain hits where rs:
    "rs = take limit (map (fts_result F q (documents s)) (filter (wanted pfx (documents s) \<circ> snd) (first_hits {} hits)))" by blast
  have "distinct (map sr_id rs)" unfolding rs take_map [symmetric] result_ids
    using first_hits_ids [of "{}" hits] by (simp add: distinct_ids_filtered flip: take_map)
  moreover have "\<exists>r. bt_get (documents s) (sr_id x) = Some r \<and> sr_path x = r_path r \<and> under pfx r" if "x \<in> set rs" for x
    using that unfolding rs by (auto dest!: in_set_takeD simp: wanted_def fts_result_def Let_def split: option.splits)
  ultimately show ?thesis by blast
qed simp

section \<open>What a vector search returns\<close>

definition vector_of :: "retrieve_db \<Rightarrow> i64 \<Rightarrow> fvec option" where
  "vector_of s i = map_option vec_deserialize (bt_get (vecs s) (vkey i))"

text \<open>What is relied on of the graph: it answers with built vectors, each once, at the graph's distance.\<close>

definition graph_ok :: "'d vec_engine \<Rightarrow> bool" where
  "graph_ok V \<longleftrightarrow> (\<forall>b q. distinct (map snd (ve_hnsw V b q)) \<and>
     (\<forall>(d, i) \<in> set (ve_hnsw V b q). \<exists>v. bt_get b i = Some v \<and> d = ve_graph_dist V q v))"

text \<open>The invariant of \<open>Ann\<close>: a vector whose id is not marked is as it was when the graph was built.\<close>

definition ann_fresh :: "retrieve_db \<Rightarrow> bool" where
  "ann_fresh s \<longleftrightarrow> (\<forall>b i. built (rs_ann s) = Some b \<and> \<not> bt_has (changed_at (rs_ann s)) i \<longrightarrow> bt_get b i = vector_of s i)"

lemma start_build_fields [simp]:
  "documents (start_build V s) = documents s" "vecs (start_build V s) = vecs s" "rs_step (start_build V s) = rs_step s"
  "built (rs_ann (start_build V s)) = built (rs_ann s)" "changed_at (rs_ann (start_build V s)) = changed_at (rs_ann s)"
  "dim (start_build V s) = dim s" "embedding_dim (start_build V s) = embedding_dim s"
  by (auto simp: start_build_def ann_start_def ann_finish_def Let_def split: option.splits if_splits)

lemma start_build_read_only: "read_only s (start_build V s)"
proof -
  have "\<exists>a. start_build V s = s\<lparr>rs_ann := a\<rparr>" by (auto simp: start_build_def split: prod.splits option.splits)
  then show ?thesis unfolding read_only_def by (metis retrieve_db.surjective retrieve_db.update_convs(11))
qed

lemma vectors_ok_keys: "\<lbrakk>vectors_ok s; bt_get (vecs s) k = Some b\<rbrakk> \<Longrightarrow> \<exists>i. k = vkey i"
  unfolding vectors_ok_def by blast

lemma scan_all_iff:
  assumes "vectors_ok s"
  shows "(d, i) \<in> set (scan_all V q (vecs s)) \<longleftrightarrow> (\<exists>v. vector_of s i = Some v \<and> length v = length q \<and> d = ve_dist V q v)"
proof
  assume "(d, i) \<in> set (scan_all V q (vecs s))"
  then obtain k b where kb: "bt_get (vecs s) k = Some b" "vkey_parse k = Some i" "length (vec_deserialize b) = length q"
    "d = ve_dist V q (vec_deserialize b)"
    by (auto simp: scan_all_def exact_one_def Let_def bt_entries_iff split: option.splits if_splits)
  moreover from vectors_ok_keys [OF assms kb(1)] obtain j where "k = vkey j" by blast
  ultimately show "\<exists>v. vector_of s i = Some v \<and> length v = length q \<and> d = ve_dist V q v" by (simp add: vector_of_def)
next
  assume "\<exists>v. vector_of s i = Some v \<and> length v = length q \<and> d = ve_dist V q v"
  then obtain b where "bt_get (vecs s) (vkey i) = Some b" "length (vec_deserialize b) = length q" "d = ve_dist V q (vec_deserialize b)"
    by (auto simp: vector_of_def)
  then show "(d, i) \<in> set (scan_all V q (vecs s))" unfolding scan_all_def
    by (auto simp: exact_one_def bt_entries_iff intro!: bexI [of _ "(vkey i, b)"])
qed

lemma concat_distinct_keys:
  assumes "distinct (map fst xs)" "\<And>k b. (k, b) \<in> set xs \<Longrightarrow> \<exists>i. k = vkey i"
  shows "distinct (map snd (concat (map (\<lambda>(k, b). case vkey_parse k of None \<Rightarrow> [] | Some i \<Rightarrow> exact_one V q i b) xs)))"
  using assms
proof (induction xs)
  case (Cons x xs)
  obtain k b where x: "x = (k, b)" by (cases x)
  obtain i where i: "k = vkey i" using Cons.prems(2) x by auto
  have others: "j \<noteq> i" if "(k', b') \<in> set xs" "vkey_parse k' = Some j" for k' b' j
  proof -
    have "\<exists>j. k' = vkey j" by (rule Cons.prems(2)) (use that(1) in auto)
    then obtain j' where "k' = vkey j'" by blast
    moreover have "k' \<noteq> k" using Cons.prems(1) that(1) x by (force simp: image_iff)
    ultimately show ?thesis using that(2) i by auto
  qed
  let ?f = "\<lambda>(k, b). case vkey_parse k of None \<Rightarrow> [] | Some i \<Rightarrow> exact_one V q i b"
  have "distinct (map snd (concat (map ?f xs)))"
    using Cons.prems by (intro Cons.IH) auto
  moreover have "i \<notin> snd ` set (concat (map ?f xs))"
  proof
    assume "i \<in> snd ` set (concat (map ?f xs))"
    then obtain k' b' j where "(k', b') \<in> set xs" "vkey_parse k' = Some j" "i \<in> snd ` set (exact_one V q j b')"
      by (force split: option.splits)
    with others show False by (auto simp: exact_one_def Let_def split: if_splits)
  qed
  ultimately show ?case by (simp add: x i exact_one_def Let_def)
qed simp

lemma scan_all_ids: "vectors_ok s \<Longrightarrow> distinct (map snd (scan_all V q (vecs s)))"
  unfolding scan_all_def using vectors_ok_keys [of s]
  by (intro concat_distinct_keys) (auto simp: bt_entries_distinct bt_entries_iff)

lemma scan_changed_iff: "(d, i) \<in> set (scan_changed V q (vecs s) ids) \<longleftrightarrow>
    i \<in> set ids \<and> (\<exists>v. vector_of s i = Some v \<and> length v = length q \<and> d = ve_dist V q v)"
proof -
  have "(d, i) \<in> set (case bt_get (vecs s) (vkey j) of None \<Rightarrow> [] | Some b \<Rightarrow> exact_one V q j b) \<longleftrightarrow>
      i = j \<and> (\<exists>v. vector_of s i = Some v \<and> length v = length q \<and> d = ve_dist V q v)" for j
    by (cases "bt_get (vecs s) (vkey j)") (auto simp: exact_one_def vector_of_def Let_def)
  then show ?thesis by (auto simp: scan_changed_def)
qed

lemma scan_changed_ids: "distinct ids \<Longrightarrow> distinct (map snd (scan_changed V q m ids))"
proof (induction ids)
  case (Cons i ids)
  have "i \<notin> snd ` set (scan_changed V q m ids)"
    using Cons.prems by (auto simp: scan_changed_def exact_one_def Let_def split: option.splits if_splits)
  with Cons show ?case by (auto simp: scan_changed_def exact_one_def Let_def split: option.splits)
qed (simp add: scan_changed_def)

lemma scored_ids:
  assumes "vectors_ok s" "graph_ok V"
  shows "distinct (map snd (scored V q indexable want s))"
proof (cases "if indexable \<and> ann_least \<le> size (vecs s) then ann_search (ve_hnsw V) q want (rs_ann s) else None")
  case None
  with scan_all_ids [OF assms(1)] show ?thesis by (simp add: scored_def)
next
  case (Some c)
  let ?keep = "filter (\<lambda>(_, i). \<not> bt_has (changed_at (rs_ann s)) i)"
  from Some obtain b where b: "built (rs_ann s) = Some b" "c = (take want (?keep (ve_hnsw V b q)), bt_keys (changed_at (rs_ann s)))"
    by (auto simp: ann_search_def split: if_splits option.splits)
  have keys: "distinct (bt_keys (changed_at (rs_ann s)))" by (simp add: bt_keys_def bt_entries_distinct)
  have "distinct (map snd (take want (?keep (ve_hnsw V b q))))"
    using assms(2) by (simp add: graph_ok_def distinct_ids_filtered flip: take_map)
  moreover have "snd ` set (take want (?keep (ve_hnsw V b q))) \<inter> snd ` set (scan_changed V q (vecs s) (bt_keys (changed_at (rs_ann s)))) = {}"
    by (auto simp: scan_changed_iff bt_keys_iff dest!: in_set_takeD)
  ultimately show ?thesis unfolding scored_def Some using scan_changed_ids [OF keys] by (simp add: b)
qed

text \<open>Whether the graph answers a search.\<close>

definition graph_used :: "retrieve_db \<Rightarrow> string option \<Rightarrow> nat \<Rightarrow> bool" where
  "graph_used s pfx limit \<longleftrightarrow> pfx = None \<and> over_fetch limit \<le> EF_SEARCH \<and> ANN_MIN \<le> size (vecs s) \<and> built (rs_ann s) \<noteq> None"

text \<open>The distance a search gives a vector: the graph's if the graph found it, the scan's otherwise.\<close>

definition given_dist :: "'d vec_engine \<Rightarrow> fvec \<Rightarrow> string option \<Rightarrow> nat \<Rightarrow> retrieve_db \<Rightarrow> i64 \<Rightarrow> fvec \<Rightarrow> 'd" where
  "given_dist V q pfx limit s i v =
     (if graph_used s pfx limit \<and> \<not> bt_has (changed_at (rs_ann s)) i then ve_graph_dist V q v else ve_dist V q v)"

lemma scored_cases:
  "(if (pfx = None \<and> over_fetch limit \<le> EF_SEARCH) \<and> ann_least \<le> size (vecs s)
    then ann_search (ve_hnsw V) q (over_fetch limit) (rs_ann s) else None) = None \<longleftrightarrow> \<not> graph_used s pfx limit"
  by (auto simp: graph_used_def ann_least_def ann_search_def split: option.splits)

lemma scored_sound:
  assumes "vectors_ok s" "graph_ok V" "ann_fresh s"
    and d: "(d, i) \<in> set (scored V q (pfx = None \<and> over_fetch limit \<le> EF_SEARCH) (over_fetch limit) s)"
  shows "\<exists>v. vector_of s i = Some v \<and> d = given_dist V q pfx limit s i v"
proof (cases "if (pfx = None \<and> over_fetch limit \<le> EF_SEARCH) \<and> ann_least \<le> size (vecs s)
    then ann_search (ve_hnsw V) q (over_fetch limit) (rs_ann s) else None")
  case None
  with d have "(d, i) \<in> set (scan_all V q (vecs s))" by (simp add: scored_def)
  moreover have "\<not> graph_used s pfx limit" using None unfolding scored_cases .
  ultimately show ?thesis using scan_all_iff [OF assms(1), of d i V q] by (auto simp: given_dist_def)
next
  case (Some c)
  have used: "graph_used s pfx limit" using Some scored_cases [of pfx limit s V q] by simp
  from Some obtain b where b: "built (rs_ann s) = Some b"
    "c = (take (over_fetch limit) (filter (\<lambda>(_, i). \<not> bt_has (changed_at (rs_ann s)) i) (ve_hnsw V b q)), bt_keys (changed_at (rs_ann s)))"
    by (auto simp: ann_search_def split: if_splits option.splits)
  from d have "(d, i) \<in> set (fst c @ scan_changed V q (vecs s) (snd c))"
    unfolding scored_def Some by (simp add: case_prod_beta)
  with b(2) consider "(d, i) \<in> set (ve_hnsw V b q)" "\<not> bt_has (changed_at (rs_ann s)) i"
    | "(d, i) \<in> set (scan_changed V q (vecs s) (bt_keys (changed_at (rs_ann s))))"
    by (auto dest!: in_set_takeD)
  then show ?thesis
  proof cases
    case 1
    then obtain v where "bt_get b i = Some v" "d = ve_graph_dist V q v" using assms(2) unfolding graph_ok_def by fastforce
    moreover have "bt_get b i = vector_of s i" using assms(3) b(1) 1(2) unfolding ann_fresh_def by blast
    ultimately show ?thesis using used 1(2) by (simp add: given_dist_def)
  next
    case 2
    then show ?thesis by (auto simp: scan_changed_iff given_dist_def bt_keys_iff)
  qed
qed

lemma scored_complete:
  assumes "vectors_ok s" "vector_of s i = Some v" "length v = length q"
    and "\<not> graph_used s pfx limit \<or> bt_has (changed_at (rs_ann s)) i"
  shows "(ve_dist V q v, i) \<in> set (scored V q (pfx = None \<and> over_fetch limit \<le> EF_SEARCH) (over_fetch limit) s)"
  using assms scan_all_iff [OF assms(1), of "ve_dist V q v" i V q]
  by (auto simp: scored_def graph_used_def ann_least_def ann_search_def scan_changed_iff bt_keys_iff split: option.splits)

section \<open>Taking the best\<close>

lemma sorted_wrt_take_drop: "\<lbrakk>sorted_wrt R xs; x \<in> set (take n xs); y \<in> set (drop n xs)\<rbrakk> \<Longrightarrow> R x y"
  by (metis append_take_drop_id sorted_wrt_append)

lemma best_taken:
  assumes "sorted_wrt R xs" "n \<le> m" "y \<in> set xs" "y \<notin> set (take n (take m xs))"
  shows "length (take n (take m xs)) = n \<and> (\<forall>x \<in> set (take n (take m xs)). R x y)"
proof -
  have "take n (take m xs) = take n xs" using assms(2) by (simp add: min_absorb1)
  moreover from this assms(3,4) have y: "y \<in> set (drop n xs)" by (metis Un_iff append_take_drop_id set_append)
  moreover from y have "n \<le> length xs" by (cases "n \<le> length xs") auto
  ultimately show ?thesis using sorted_wrt_take_drop [OF assms(1)] by auto
qed

lemma over_fetch_le: "limit \<le> over_fetch limit"
  by (simp add: over_fetch_def)

section \<open>The nearest vectors\<close>

lemma scored_cong:
  assumes "vecs u = vecs s" "built (rs_ann u) = built (rs_ann s)" "changed_at (rs_ann u) = changed_at (rs_ann s)"
  shows "scored V q indexable want u = scored V q indexable want s"
  unfolding scored_def ann_search_def assms ..

definition ranking :: "('d::linorder) vec_engine \<Rightarrow> fvec \<Rightarrow> string option \<Rightarrow> nat \<Rightarrow> retrieve_db \<Rightarrow> ('d \<times> i64) list" where
  "ranking V q pfx limit s = sort_key fst (scored V q (pfx = None \<and> over_fetch limit \<le> EF_SEARCH) (over_fetch limit) s)"

definition the_results :: "('d::linorder) vec_engine \<Rightarrow> fvec \<Rightarrow> string option \<Rightarrow> nat \<Rightarrow> retrieve_db \<Rightarrow> 'd search_result list" where
  "the_results V q pfx limit s = take limit (map (similar_result (documents s))
     (filter (wanted pfx (documents s) \<circ> snd) (take (over_fetch limit) (ranking V q pfx limit s))))"

lemma search_similar_run:
  assumes "search_similar fails V text limit pfx s = (Inr rs, t)"
  shows "read_only s t \<and> (case dim s of None \<Rightarrow> rs = []
    | Some _ \<Rightarrow> \<exists>q more. ve_embed V (rs_step s) text = Inr (q # more) \<and> rs = the_results V q pfx limit s)"
proof (cases "dim s")
  case None
  with assms show ?thesis by (auto simp: search_similar_def bindE_def reading_def ret_def read_only_refl)
next
  case (Some d)
  let ?ix = "pfx = None \<and> over_fetch limit \<le> EF_SEARCH" and ?s = "s\<lparr>rs_step := Suc (Suc (rs_step s))\<rparr>"
  let ?u = "(if ?ix then start_build V else id) ?s"
  from Some assms obtain q more where q: "ve_embed V (rs_step s) text = Inr (q # more)"
    by (auto simp: search_similar_def bindE_def reading_def throw_def split: sum.splits list.splits)
  with Some assms have run: "similar_collect fails limit pfx (take (over_fetch limit) (sort_key fst (scored V q ?ix (over_fetch limit) ?u))) [] ?u = (Inr rs, t)"
    by (auto simp: search_similar_def bindE_def thenE_def reading_def update_def db_runs Let_def split: if_splits)
  have u: "documents ?u = documents s" "vecs ?u = vecs s" "built (rs_ann ?u) = built (rs_ann s)"
    "changed_at (rs_ann ?u) = changed_at (rs_ann s)" by simp_all
  have "read_only ?s ?u" by (simp add: start_build_read_only read_only_refl)
  with similar_collect_run [OF run] have "read_only ?s t" by (auto intro: read_only_trans)
  then have "read_only s t" by (rule read_only_step)
  with similar_collect_run [OF run] Some q show ?thesis
    by (auto simp only: scored_cong [OF u(2-4)] u(1) the_results_def ranking_def option.case list.size append.simps)
qed

lemma the_results_ids:
  assumes "vectors_ok s" "graph_ok V"
  shows "distinct (map sr_id (the_results V q pfx limit s))"
proof -
  have "distinct (map snd (ranking V q pfx limit s))"
    using scored_ids [OF assms, of q "pfx = None \<and> over_fetch limit \<le> EF_SEARCH" "over_fetch limit"] by (simp add: ranking_def distinct_map)
  then show ?thesis unfolding the_results_def take_map [symmetric] result_ids
    by (intro distinct_take distinct_ids_filtered) (simp flip: take_map)
qed

lemma the_results_sorted: "sorted (map sr_score (the_results V q pfx limit s))"
proof -
  have "map sr_score (the_results V q pfx limit s) =
      take limit (map fst (filter (wanted pfx (documents s) \<circ> snd) (take (over_fetch limit) (ranking V q pfx limit s))))"
    by (simp add: the_results_def take_map similar_result_def Let_def case_prod_beta comp_def)
  moreover have "sorted (map fst (ranking V q pfx limit s))" by (simp add: ranking_def)
  ultimately show ?thesis
    by (auto intro!: sorted_wrt_take sorted_filter simp flip: take_map)
qed

lemma the_results_docs:
  assumes "x \<in> set (the_results V q pfx limit s)"
  shows "\<exists>r. bt_get (documents s) (sr_id x) = Some r \<and> sr_path x = r_path r \<and> sr_snippet x = snippet r \<and> under pfx r \<and>
    (sr_score x, sr_id x) \<in> set (scored V q (pfx = None \<and> over_fetch limit \<le> EF_SEARCH) (over_fetch limit) s)"
  using assms
  by (auto simp: the_results_def ranking_def wanted_def similar_result_def Let_def dest!: in_set_takeD split: option.splits)

text \<open>Every stored vector has its document, so without a prefix nothing is passed over.\<close>

lemma all_wanted:
  assumes "vectors_ok s" "vector_of s i = Some v"
  shows "wanted None (documents s) i"
proof -
  obtain b where "bt_get (vecs s) (vkey i) = Some b" using assms(2) by (auto simp: vector_of_def)
  with assms(1) obtain j r where "vkey i = vkey j" "bt_get (documents s) j = Some r" unfolding vectors_ok_def by meson
  then show ?thesis by (simp add: wanted_def under_def)
qed

lemma nearest_taken:
  assumes "vectors_ok s" "graph_ok V" "ann_fresh s" "(d, i) \<in> set (scored V q (over_fetch limit \<le> EF_SEARCH) (over_fetch limit) s)"
    and "i \<notin> sr_id ` set (the_results V q None limit s)"
  shows "length (the_results V q None limit s) = limit \<and> (\<forall>x \<in> set (the_results V q None limit s). sr_score x \<le> d)"
proof -
  let ?R = "ranking V q None limit s"
  have "wanted None (documents s) (snd x)" if "x \<in> set (take (over_fetch limit) ?R)" for x
  proof -
    from that have "(fst x, snd x) \<in> set (scored V q (over_fetch limit \<le> EF_SEARCH) (over_fetch limit) s)"
      by (auto simp: ranking_def dest!: in_set_takeD)
    with scored_sound [OF assms(1-3), of "fst x" "snd x" q None limit] all_wanted [OF assms(1)] show ?thesis by auto
  qed
  then have rs: "the_results V q None limit s = map (similar_result (documents s)) (take limit (take (over_fetch limit) ?R))"
    by (simp add: the_results_def take_map)
  have sorted: "sorted_wrt (\<lambda>x y. fst x \<le> fst y) ?R" using sorted_map [of fst ?R] by (simp add: ranking_def)
  have "(d, i) \<notin> set (take limit (take (over_fetch limit) ?R))"
    using assms(5) unfolding rs by (force simp: similar_result_def Let_def)
  moreover have "(d, i) \<in> set ?R" using assms(4) by (simp add: ranking_def)
  ultimately show ?thesis using best_taken [OF sorted over_fetch_le]
    unfolding rs by (fastforce simp: similar_result_def Let_def)
qed

section \<open>Fusion\<close>

text \<open>Where a path first stands in a list of results, and the score it is merged at.\<close>

definition rank_of :: "string \<Rightarrow> 'd search_result list \<Rightarrow> nat option" where
  "rank_of p xs = find (\<lambda>n. sr_path (xs ! n) = p) [0..<length xs]"

definition rrf_entry :: "(nat \<Rightarrow> 'w) \<Rightarrow> (nat \<Rightarrow> 'w) \<Rightarrow> ('w \<Rightarrow> 'w \<Rightarrow> 'w) \<Rightarrow> 'd search_result list \<Rightarrow> 'd search_result list \<Rightarrow>
    string \<Rightarrow> ('d search_result \<times> 'w) option" where
  "rrf_entry wt ws add fts sem p = (case (rank_of p fts, rank_of p sem) of
     (Some m, Some n) \<Rightarrow> Some (fts ! m, add (wt (m + 1)) (ws (n + 1)))
   | (Some m, None) \<Rightarrow> Some (fts ! m, wt (m + 1))
   | (None, Some n) \<Rightarrow> Some (sem ! n, ws (n + 1))
   | (None, None) \<Rightarrow> None)"

lemma find_append: "find P (xs @ ys) = (case find P xs of None \<Rightarrow> find P ys | Some x \<Rightarrow> Some x)"
  by (induction xs) auto

lemma rank_of_snoc: "rank_of p (xs @ [x]) = (case rank_of p xs of None \<Rightarrow> if sr_path x = p then Some (length xs) else None | Some n \<Rightarrow> Some n)"
proof -
  have "find (\<lambda>n. sr_path ((xs @ [x]) ! n) = p) [0..<length xs] = find (\<lambda>n. sr_path (xs ! n) = p) [0..<length xs]"
    by (rule find_cong) (auto simp: nth_append)
  then show ?thesis by (simp add: rank_of_def find_append split: option.split)
qed

lemma rank_of_None: "rank_of p xs = None \<longleftrightarrow> p \<notin> sr_path ` set xs"
  by (force simp: rank_of_def find_None_iff in_set_conv_nth image_iff)

lemma rank_of_Some: "rank_of p xs = Some n \<Longrightarrow> n < length xs \<and> sr_path (xs ! n) = p"
  by (auto simp: rank_of_def find_Some_iff)

lemma enumerate_snoc: "enumerate 0 (xs @ [x]) = enumerate 0 xs @ [(length xs, x)]"
  by (simp add: enumerate_append_eq)

lemma rrf_fts_table:
  assumes "distinct (map sr_path fts)"
  shows "bt_get (foldl (rrf_fts wt) bt_empty (enumerate 0 fts)) p = map_option (\<lambda>m. (fts ! m, wt (m + 1))) (rank_of p fts)"
  using assms
proof (induction fts rule: rev_induct)
  case (snoc x xs)
  then have new: "rank_of (sr_path x) xs = None" by (auto simp: rank_of_None)
  have "m < length xs" if "rank_of p xs = Some m" for m using rank_of_Some [OF that] by simp
  with snoc new show ?case
    by (auto simp: enumerate_snoc rrf_fts_def rank_of_snoc nth_append split: option.splits)
qed (simp add: rank_of_def)

lemma rrf_table_get:
  assumes "distinct (map sr_path fts)" "distinct (map sr_path sem)"
  shows "bt_get (rrf_table wt ws add fts sem) p = rrf_entry wt ws add fts sem p"
  using assms(2)
proof (induction sem arbitrary: p rule: rev_induct)
  case Nil
  show ?case using rrf_fts_table [OF assms(1), of wt p]
    by (auto simp: rrf_table_def rrf_entry_def rank_of_def split: option.split)
next
  case (snoc x xs)
  then have new: "rank_of (sr_path x) xs = None" and IH: "bt_get (rrf_table wt ws add fts xs) q = rrf_entry wt ws add fts xs q" for q
    by (auto simp: rank_of_None)
  have m: "m < length xs" if "rank_of q xs = Some m" for m q using rank_of_Some [OF that] by simp
  have step: "rrf_table wt ws add fts (xs @ [x]) = rrf_sem ws add (rrf_table wt ws add fts xs) (length xs, x)"
    by (simp add: rrf_table_def enumerate_snoc)
  show ?case
  proof (cases "sr_path x = p")
    case True
    with new IH [of p] show ?thesis
      by (cases "rank_of p fts") (simp_all add: step rrf_sem_def rrf_entry_def rank_of_snoc nth_append)
  next
    case False
    then have "bt_get (rrf_table wt ws add fts (xs @ [x])) p = rrf_entry wt ws add fts xs p"
      by (auto simp: step rrf_sem_def IH [symmetric] split: option.split)
    also have "\<dots> = rrf_entry wt ws add fts (xs @ [x]) p"
      using False m [of p] by (auto simp: rrf_entry_def rank_of_snoc nth_append split: option.split)
    finally show ?thesis .
  qed
qed

lemma rrf_entry_path: "rrf_entry wt ws add fts sem p = Some (x, w) \<Longrightarrow> sr_path x = p \<and> x \<in> set fts \<union> set sem"
  by (auto simp: rrf_entry_def dest!: rank_of_Some split: option.splits)

lemma rrf_entry_dom: "rrf_entry wt ws add fts sem p = None \<longleftrightarrow> p \<notin> sr_path ` (set fts \<union> set sem)"
  by (auto simp: rrf_entry_def rank_of_None image_Un split: option.splits)
    (use rank_of_None [of p fts] rank_of_None [of p sem] in auto)

lemma set_sort_desc [simp]: "set (sort_desc f xs) = set xs" "length (sort_desc f xs) = length xs"
  by (simp_all add: sort_desc_def)

lemma sorted_sort_desc: "sorted_wrt (\<lambda>x y. f y \<le> f x) (sort_desc f xs)"
  unfolding sort_desc_def sorted_wrt_rev using sorted_sort_key [of f "rev xs"] by (simp add: sorted_map)

lemma take_best:
  assumes "sorted_wrt R xs" "y \<in> set xs" "y \<notin> set (take n xs)" "x \<in> set (take n xs)"
  shows "R x y"
  using assms sorted_wrt_take_drop [of R xs x n y] by (metis Un_iff append_take_drop_id set_append)

lemma merge_rrf_ranks:
  assumes "distinct (map sr_path fts)" "distinct (map sr_path sem)" "\<And>ps. distinct ps \<Longrightarrow> distinct (visit ps) \<and> set (visit ps) = set ps"
    and rs: "rs = merge_rrf_files visit wt ws add fts sem limit"
  shows "distinct (map sr_path rs) \<and> sorted (rev (map sr_score rs)) \<and>
    length rs = min limit (card (sr_path ` (set fts \<union> set sem))) \<and>
    (\<forall>x \<in> set rs. \<exists>y. rrf_entry wt ws add fts sem (sr_path x) = Some (y, sr_score x) \<and> x = y\<lparr>sr_score := sr_score x\<rparr>) \<and>
    (\<forall>p y w. rrf_entry wt ws add fts sem p = Some (y, w) \<and> p \<notin> sr_path ` set rs \<longrightarrow> (\<forall>x \<in> set rs. w \<le> sr_score x))"
proof -
  define acc where "acc = rrf_table wt ws add fts sem"
  define ps where "ps = visit (bt_keys acc)"
  define all where "all = sort_desc snd (map (\<lambda>p. the (bt_get acc p)) ps)"
  have get: "bt_get acc p = rrf_entry wt ws add fts sem p" for p
    unfolding acc_def by (rule rrf_table_get [OF assms(1,2)])
  have ps: "distinct ps" "p \<in> set ps \<longleftrightarrow> rrf_entry wt ws add fts sem p \<noteq> None" for p
  proof -
    have "distinct (bt_keys acc)" by (simp add: bt_keys_def bt_entries_distinct)
    from assms(3) [OF this] show "distinct ps" and "p \<in> set ps \<longleftrightarrow> rrf_entry wt ws add fts sem p \<noteq> None" for p
      by (simp_all add: ps_def bt_keys_iff bt_has_def get)
  qed
  have set_all: "set all = (\<lambda>p. the (rrf_entry wt ws add fts sem p)) ` set ps" by (simp add: all_def get)
  have entry: "(y, w) \<in> set all \<longleftrightarrow> rrf_entry wt ws add fts sem (sr_path y) = Some (y, w)" for y w
  proof
    assume "(y, w) \<in> set all"
    then obtain p where p: "p \<in> set ps" "the (rrf_entry wt ws add fts sem p) = (y, w)" unfolding set_all by auto
    with ps(2) [of p] have "rrf_entry wt ws add fts sem p = Some (y, w)" by auto
    with rrf_entry_path [OF this] show "rrf_entry wt ws add fts sem (sr_path y) = Some (y, w)" by simp
  next
    assume e: "rrf_entry wt ws add fts sem (sr_path y) = Some (y, w)"
    with ps(2) [of "sr_path y"] have "sr_path y \<in> set ps" by simp
    with e show "(y, w) \<in> set all" unfolding set_all by (intro image_eqI [of _ _ "sr_path y"]) simp_all
  qed
  have paths: "(\<lambda>x. sr_path (fst x)) ` set all = sr_path ` (set fts \<union> set sem)"
  proof (intro set_eqI iffI)
    fix p assume "p \<in> (\<lambda>x. sr_path (fst x)) ` set all"
    then obtain y w where "(y, w) \<in> set all" "p = sr_path y" by auto
    then show "p \<in> sr_path ` (set fts \<union> set sem)" using entry [of y w] rrf_entry_dom [of wt ws add fts sem p] by auto
  next
    fix p assume "p \<in> sr_path ` (set fts \<union> set sem)"
    then obtain y w where e: "rrf_entry wt ws add fts sem p = Some (y, w)" using rrf_entry_dom [of wt ws add fts sem p] by auto
    then have "(y, w) \<in> set all" "sr_path y = p" using entry [of y w] rrf_entry_path [OF e] by simp_all
    then show "p \<in> (\<lambda>x. sr_path (fst x)) ` set all" by (auto intro!: image_eqI [of _ _ "(y, w)"])
  qed
  have size: "length all = card (sr_path ` (set fts \<union> set sem))"
  proof -
    have "p \<in> set ps \<longleftrightarrow> p \<in> sr_path ` (set fts \<union> set sem)" for p
      using ps(2) [of p] rrf_entry_dom [of wt ws add fts sem p] by simp
    then have "set ps = sr_path ` (set fts \<union> set sem)" by blast
    with distinct_card [OF ps(1)] show ?thesis by (simp add: all_def)
  qed
  have once: "distinct (map (sr_path \<circ> fst) all)"
    using size paths by (intro card_distinct) (simp add: comp_def)
  have sorted: "sorted_wrt (\<lambda>x y. snd y \<le> snd x) all" unfolding all_def by (rule sorted_sort_desc)
  have eq: "rs = map (\<lambda>(f, w). f\<lparr>sr_score := w\<rparr>) (take limit all)"
    by (simp add: rs merge_rrf_files_def Let_def acc_def ps_def all_def)
  have "map sr_path rs = take limit (map (sr_path \<circ> fst) all)" "map sr_score rs = take limit (map snd all)"
    by (auto simp: eq take_map case_prod_beta)
  with once sorted have "distinct (map sr_path rs)" "sorted (rev (map sr_score rs))"
    by (simp_all add: sorted_wrt_rev sorted_wrt_map sorted_wrt_take)
  moreover have "length rs = min limit (card (sr_path ` (set fts \<union> set sem)))" by (simp add: eq size min.commute)
  moreover have "\<exists>y. rrf_entry wt ws add fts sem (sr_path x) = Some (y, sr_score x) \<and> x = y\<lparr>sr_score := sr_score x\<rparr>" if x: "x \<in> set rs" for x
  proof -
    from x obtain y w where "(y, w) \<in> set all" "x = y\<lparr>sr_score := w\<rparr>" by (auto simp: eq dest!: in_set_takeD)
    with entry show ?thesis by auto
  qed
  moreover have "w \<le> sr_score x" if e: "rrf_entry wt ws add fts sem p = Some (y, w)" and out: "p \<notin> sr_path ` set rs" and x: "x \<in> set rs" for p y w x
  proof -
    have y: "(y, w) \<in> set all" "sr_path y = p" using e rrf_entry_path [OF e] entry by auto
    have "(y, w) \<notin> set (take limit all)"
    proof
      assume "(y, w) \<in> set (take limit all)"
      then have "y\<lparr>sr_score := w\<rparr> \<in> set rs" unfolding eq set_map by (intro image_eqI [of _ _ "(y, w)"]) simp_all
      then have "sr_path (y\<lparr>sr_score := w\<rparr>) \<in> sr_path ` set rs" by (rule imageI)
      with y(2) out show False by simp
    qed
    moreover obtain z v where "(z, v) \<in> set (take limit all)" "x = z\<lparr>sr_score := v\<rparr>" using x by (auto simp: eq)
    ultimately show ?thesis using take_best [OF sorted y(1)] by auto
  qed
  ultimately show ?thesis by blast
qed

text \<open>No two documents have the same path: an id is the hash of its path.\<close>

definition one_path :: "retrieve_db \<Rightarrow> bool" where
  "one_path s \<longleftrightarrow> (\<forall>i j r r'. bt_get (documents s) i = Some r \<and> bt_get (documents s) j = Some r' \<and> r_path r = r_path r' \<longrightarrow> i = j)"

lemma distinct_paths:
  assumes "one_path s" "distinct (map sr_id xs)" "\<And>x. x \<in> set xs \<Longrightarrow> \<exists>r. bt_get (documents s) (sr_id x) = Some r \<and> sr_path x = r_path r"
  shows "distinct (map sr_path xs)"
proof -
  have "inj_on sr_path (set xs)"
  proof (rule inj_onI)
    fix x y assume "x \<in> set xs" "y \<in> set xs" "sr_path x = sr_path y"
    moreover from this assms(1,3) have "sr_id x = sr_id y" unfolding one_path_def by metis
    ultimately show "x = y" using assms(2) by (auto simp: distinct_map dest: inj_onD)
  qed
  with assms(2) show ?thesis by (simp add: distinct_map)
qed

lemma search_similar_paths:
  assumes "search_similar fails V q limit pfx s = (Inr rs, t)" "vectors_ok s" "graph_ok V" "one_path s"
  shows "distinct (map sr_path rs)"
proof (cases "dim s")
  case None
  with search_similar_run [OF assms(1)] show ?thesis by simp
next
  case (Some d)
  with search_similar_run [OF assms(1)] obtain v where rs: "rs = the_results V v pfx limit s" by auto
  show ?thesis using the_results_ids [OF assms(2,3)] unfolding rs
    by (intro distinct_paths [OF assms(4)]) (auto dest: the_results_docs)
qed

lemma search_fts_paths:
  assumes "search_fts fails F q limit pfx s = (Inr rs, t)" "one_path s"
  shows "distinct (map sr_path rs)"
  using search_fts_ids [OF assms(1)] by (intro distinct_paths [OF assms(2)]) blast+

lemma search_hybrid_run:
  assumes "search_hybrid fails F (Some V) visit wt ws add q limit pfx s = (Inr rs, t)"
  shows "\<exists>fts sem u. search_fts fails F q (tripled limit) pfx s = (Inr fts, u) \<and>
    search_similar fails V q (tripled limit) pfx u = (Inr sem, t) \<and> rs = merge_rrf_files visit wt ws add fts sem limit"
  using assms by (auto simp: search_hybrid_def bindE_def ret_def split: prod.splits sum.splits)

lemma one_path_same: "\<lbrakk>one_path s; same_tables s t\<rbrakk> \<Longrightarrow> one_path t"
  by (simp add: one_path_def same_tables_def)

lemma concat_chars: "concat (utf8_chars s) = s"
  by (induction s rule: utf8_chars.induct) simp_all

lemma length_cut_at: "length (cut_at n cs) \<le> n"
  by (auto simp: cut_at_def Let_def)

section \<open>Properties\<close>

text \<open>
  What a snippet is. The one-pass loop of \<open>collapse_and_cut\<close> gives the words of the text with one space
  between two of them, cut after 150 characters and without a space at the cut; no character is split, as the
  characters put together are the text. A fragment with nothing but white space is replaced by the start of the text.
\<close>

theorem snippet_is_cut_of_words:
  "collapse_and_cut s = concat (cut_at SNIPPET_CHARS (one_spaced (utf8_chars s))) \<and>
   length (cut_at SNIPPET_CHARS (one_spaced (utf8_chars s))) \<le> 150 \<and> concat (utf8_chars s) = s \<and>
   pick_snippet fragment s = collapse_and_cut (if trim fragment = '''' then s else fragment)"
  using length_cut_at [of SNIPPET_CHARS]
  by (simp add: snippet_words concat_chars pick_snippet_def leading_def flip: SNIPPET_CHARS_def)

text \<open>
  C38: A vector search returns the nearest vectors. With a graph that answers with built vectors at its own distances and
  marks that cover what changed since it was built, every result is a document with the distance of the vector it
  has now, by the graph's single-precision arithmetic if the graph found it and by the scan's double-precision
  arithmetic otherwise, in the order of these distances and none twice; and a vector that is left out, if it was looked at
  (always without the graph; with it, if it changed since the build), is left out because the asked number of results
  is there and none of them has a greater distance than it. The search changes no table.
\<close>

theorem similar_finds_nearest:
  assumes "search_similar fails V text limit None s = (Inr rs, t)" "ve_embed V (rs_step s) text = Inr (q # qs)" "dim s = Some n"
    and "vectors_ok s" "graph_ok V" "ann_fresh s"
  shows "same_tables s t \<and> sorted (map sr_score rs) \<and> distinct (map sr_id rs) \<and>
    (\<forall>x \<in> set rs. \<exists>v r. vector_of s (sr_id x) = Some v \<and> sr_score x = given_dist V q None limit s (sr_id x) v \<and>
       bt_get (documents s) (sr_id x) = Some r \<and> sr_path x = r_path r \<and> sr_snippet x = snippet r) \<and>
    (\<forall>i v. vector_of s i = Some v \<and> length v = length q \<and> i \<notin> sr_id ` set rs \<and>
       (\<not> graph_used s None limit \<or> bt_has (changed_at (rs_ann s)) i) \<longrightarrow>
       length rs = limit \<and> (\<forall>x \<in> set rs. sr_score x \<le> ve_dist V q v))"
proof -
  from search_similar_run [OF assms(1)] assms(2,3) have rs: "rs = the_results V q None limit s" and "same_tables s t"
    by (auto dest: read_only_same)
  moreover have "\<exists>v r. vector_of s (sr_id x) = Some v \<and> sr_score x = given_dist V q None limit s (sr_id x) v \<and>
       bt_get (documents s) (sr_id x) = Some r \<and> sr_path x = r_path r \<and> sr_snippet x = snippet r" if x: "x \<in> set rs" for x
    using the_results_docs [OF x [unfolded rs]] scored_sound [OF assms(4-6), of "sr_score x" "sr_id x" q None limit] by blast
  moreover have "length rs = limit \<and> (\<forall>x \<in> set rs. sr_score x \<le> ve_dist V q v)"
    if "vector_of s i = Some v" "length v = length q" "i \<notin> sr_id ` set rs" "\<not> graph_used s None limit \<or> bt_has (changed_at (rs_ann s)) i" for i v
  proof -
    have "(ve_dist V q v, i) \<in> set (scored V q (over_fetch limit \<le> EF_SEARCH) (over_fetch limit) s)"
      using scored_complete [OF assms(4) that(1,2,4)] by simp
    from nearest_taken [OF assms(4-6) this] that(3) show ?thesis unfolding rs by blast
  qed
  ultimately show ?thesis using the_results_sorted the_results_ids [OF assms(4,5)] by blast
qed

text \<open>
  C39: What a hybrid search returns. In a store where no two documents have the same path, the results of both searches,
  each asked for three times as many (a product that wraps at 64 bits in a release build), are merged into results
  with distinct paths in descending order of their scores, as many as were asked for if there are that many. The
  score of a result is the sum of what its rank in each list that has it weighs; it is the full-text result where
  there is one. No path that is left out has a better score. The order in which the map of the merge happens to be visited does not matter for this.
\<close>

theorem hybrid_ranks_by_fusion:
  assumes "search_hybrid fails F (Some V) visit wt ws add q limit pfx s = (Inr rs, t)"
    and "\<And>ps. distinct ps \<Longrightarrow> distinct (visit ps) \<and> set (visit ps) = set ps" "one_path s" "vectors_ok s" "graph_ok V"
  shows "\<exists>fts sem u. search_fts fails F q (tripled limit) pfx s = (Inr fts, u) \<and> search_similar fails V q (tripled limit) pfx u = (Inr sem, t) \<and>
    distinct (map sr_path rs) \<and> sorted (rev (map sr_score rs)) \<and> length rs = min limit (card (sr_path ` (set fts \<union> set sem))) \<and>
    (\<forall>x \<in> set rs. \<exists>y. rrf_entry wt ws add fts sem (sr_path x) = Some (y, sr_score x) \<and> x = y\<lparr>sr_score := sr_score x\<rparr>) \<and>
    (\<forall>p y w. rrf_entry wt ws add fts sem p = Some (y, w) \<and> p \<notin> sr_path ` set rs \<longrightarrow> (\<forall>x \<in> set rs. w \<le> sr_score x))"
proof -
  from search_hybrid_run [OF assms(1)] obtain fts sem u where run: "search_fts fails F q (tripled limit) pfx s = (Inr fts, u)"
    "search_similar fails V q (tripled limit) pfx u = (Inr sem, t)" "rs = merge_rrf_files visit wt ws add fts sem limit" by blast
  from search_fts_run [OF run(1)] have "same_tables s u" by (auto intro: read_only_same)
  then have u: "vectors_ok u" "one_path u" using vectors_ok_same [OF assms(4)] one_path_same [OF assms(3)] by blast+
  show ?thesis using run(1,2) merge_rrf_ranks [OF search_fts_paths [OF run(1) assms(3)]
      search_similar_paths [OF run(2) u(1) assms(5) u(2)] assms(2) run(3)] by blast
qed

text \<open>
  C40: A search of a folder may miss all of it. The candidates of a vector search are the nearest vectors of the whole
  store, five times as many as results are asked for, and only of these are the ones outside the folder taken out: if so
  many vectors outside the folder are nearer than every vector in it, the search returns nothing, although
  the folder has vectors.
\<close>

theorem folder_search_misses:
  assumes "search_similar fails V text limit (Some p) s = (Inr rs, t)" "ve_embed V (rs_step s) text = Inr (q # qs)" "dim s = Some n"
    and "vectors_ok s"
    and "over_fetch limit \<le> card {i. \<exists>v. vector_of s i = Some v \<and> length v = length q \<and> \<not> wanted (Some p) (documents s) i \<and>
      (\<forall>j w. vector_of s j = Some w \<and> wanted (Some p) (documents s) j \<longrightarrow> ve_dist V q v < ve_dist V q w)}"
  shows "rs = []"
proof -
  let ?N = "{i. \<exists>v. vector_of s i = Some v \<and> length v = length q \<and> \<not> wanted (Some p) (documents s) i \<and>
      (\<forall>j w. vector_of s j = Some w \<and> wanted (Some p) (documents s) j \<longrightarrow> ve_dist V q v < ve_dist V q w)}"
  let ?R = "ranking V q (Some p) limit s" and ?T = "take (over_fetch limit) (ranking V q (Some p) limit s)"
  have R: "?R = sort_key fst (scan_all V q (vecs s))" by (simp add: ranking_def scored_def)
  have sorted: "sorted_wrt (\<lambda>x y. fst x \<le> fst y) ?R" using sorted_map [of fst ?R] by (simp add: ranking_def)
  have "\<not> wanted (Some p) (documents s) j" if j: "(d, j) \<in> set ?T" for d j
  proof
    assume wanted: "wanted (Some p) (documents s) j"
    from j have "(d, j) \<in> set ?R" by (rule in_set_takeD)
    then obtain w where w: "vector_of s j = Some w" "d = ve_dist V q w" using scan_all_iff [OF assms(4), of d j V q] by (auto simp: R)
    have "i \<in> snd ` set ?T" if i: "i \<in> ?N" for i
    proof -
      from i obtain v where v: "vector_of s i = Some v" "length v = length q" "ve_dist V q v < d" using w wanted by blast
      then have "(ve_dist V q v, i) \<in> set ?R" using scan_all_iff [OF assms(4), of "ve_dist V q v" i V q] by (simp add: R)
      with take_best [OF sorted this _ j] v(3) have "(ve_dist V q v, i) \<in> set ?T" by fastforce
      then show ?thesis by force
    qed
    then have "insert j ?N \<subseteq> snd ` set ?T" using j by force
    then have "card (insert j ?N) \<le> card (snd ` set ?T)" by (intro card_mono) simp_all
    also have "\<dots> \<le> over_fetch limit" by (rule order_trans [OF card_image_le [OF finite_set] order_trans [OF card_length]]) simp
    finally have "card (insert j ?N) \<le> card ?N" using assms(5) by simp
    moreover have "finite ?N" using finite_subset [OF \<open>insert j ?N \<subseteq> snd ` set ?T\<close>] by simp
    ultimately show False using wanted by simp
  qed
  then have "filter (wanted (Some p) (documents s) \<circ> snd) ?T = []" by (auto simp: filter_empty_conv)
  then have "the_results V q (Some p) limit s = []" by (simp add: the_results_def)
  with search_similar_run [OF assms(1)] assms(2,3) show ?thesis by auto
qed

section \<open>Examples\<close>

lemma similar_collect_total: "(\<And>n. \<not> fails n) \<Longrightarrow> \<exists>rs t. similar_collect fails limit pfx xs acc s = (Inr rs, t)"
proof (induction xs arbitrary: acc s)
  case (Cons x xs)
  obtain d i where x: "x = (d, i)" by (cases x)
  let ?s = "s\<lparr>rs_step := rs_step s + 1\<rparr>"
  have more: "\<exists>rs t. similar_collect fails limit pfx xs acc' ?s = (Inr rs, t)" for acc' by (rule Cons.IH [OF Cons.prems])
  have get: "get_doc fails i s = (Inr (bt_get (documents s) i), ?s)" using Cons.prems by (simp add: get_doc_run)
  show ?case
  proof (cases "length acc = limit \<or> bt_get (documents s) i = None")
    case True
    with more [of acc] show ?thesis by (cases "length acc = limit") (auto simp: x ret_def bindE_def get)
  next
    case False
    then obtain r where r: "bt_get (documents s) i = Some r" by auto
    from False more [of acc] more [of "acc @ [\<lparr>sr_id = i, sr_path = r_path r, sr_score = d, sr_snippet = snippet r\<rparr>]"] show ?thesis
      by (cases "under pfx r") (simp_all add: x bindE_def get r)
  qed
qed (simp add: ret_def)

lemma search_similar_total:
  assumes "\<And>n. \<not> fails n" "ve_embed V (rs_step s) text = Inr (q # qs)"
  shows "\<exists>rs t. search_similar fails V text limit pfx s = (Inr rs, t)"
proof -
  note step = similar_collect_total [of fails, OF assms(1)]
  show ?thesis
  proof (cases "dim s")
    case None
    then show ?thesis by (simp add: search_similar_def bindE_def reading_def ret_def)
  next
    case (Some d)
    then show ?thesis using assms
      by (simp add: search_similar_def bindE_def thenE_def reading_def update_def db_runs Let_def step)
  qed
qed

text \<open>Two documents, of which one has a vector, and engines that answer with what they are given.\<close>

definition two_docs :: retrieve_db where
  "two_docs = \<lparr>documents = bt_insert (I64 1) \<lparr>r_path = ''a'', r_text = ''n'', r_kind = TextDoc\<rparr>
       (bt_insert (I64 2) \<lparr>r_path = ''b'', r_text = ''m'', r_kind = TextDoc\<rparr> bt_empty),
     vecs = bt_insert (vkey (I64 1)) (vec_serialize [7]) bt_empty, embedding_model = None, embedding_dim = Some 1,
     fts_log = [], fts_buffer = [], dim = Some 1, bad_images = {}, rs_ann = ann_new, handed = [], rs_step = 0\<rparr>"

definition line_engine :: "nat vec_engine" where
  "line_engine = \<lparr>ve_embed = (\<lambda>_ _. Inr [[9]]), ve_dist = (\<lambda>q v. unat (hd q - hd v)),
     ve_graph_dist = (\<lambda>q v. unat (hd q - hd v) div 2),
     ve_hnsw = (\<lambda>b q. map (\<lambda>(i, v). (unat (hd q - hd v) div 2, i)) (entries b)), ve_no_thread = (\<lambda>_. False)\<rparr>"

definition both_hit :: "nat fts_engine" where
  "both_hit = \<lparr>fe_search = (\<lambda>_ _ _ _. Some (Inr [(5, Inr (Some (I64 2))), (4, Inr (Some (I64 2))), (3, Inr (Some (I64 1)))])),
     fe_fragment = (\<lambda>_ s. s)\<rparr>"

lemma two_docs_ok: "vectors_ok two_docs"
proof -
  have "trim ''n'' \<noteq> ''''" by code_simp
  then show ?thesis by (auto simp: vectors_ok_def two_docs_def embeddable_def split: if_splits intro!: exI [of _ "[7]"])
qed

lemma line_engine_ok: "graph_ok line_engine"
proof -
  have "map (snd \<circ> (\<lambda>(i, v :: fvec). (f v :: nat, i :: i64))) = map fst" for f by (intro ext map_cong) auto
  then show ?thesis by (auto simp: graph_ok_def line_engine_def bt_entries_distinct bt_entries_iff)
qed

lemma two_docs_one_path: "one_path two_docs"
  by (auto simp: one_path_def two_docs_def split: if_splits)

theorem similar_finds_nearest_witness:
  "\<exists>rs t. search_similar (\<lambda>_. False) line_engine ''x'' 3 None two_docs = (Inr rs, t) \<and> map sr_id rs = [I64 1]"
proof -
  have e: "ve_embed line_engine (rs_step two_docs) ''x'' = Inr ([9] # [])" by (simp add: line_engine_def)
  obtain rs t where run: "search_similar (\<lambda>_. False) line_engine ''x'' 3 None two_docs = (Inr rs, t)"
    using search_similar_total [where fails = "\<lambda>_. False", OF _ e] by blast
  have fresh: "ann_fresh two_docs" by (simp add: ann_fresh_def two_docs_def ann_new_def)
  have d: "dim two_docs = Some 1" by (simp add: two_docs_def)
  have v: "vector_of two_docs i = (if i = I64 1 then Some [7] else None)" for i by (simp add: vector_of_def two_docs_def)
  have g: "\<not> graph_used two_docs None 3" by (simp add: graph_used_def two_docs_def ann_new_def)
  note N = similar_finds_nearest [OF run e d two_docs_ok line_engine_ok fresh]
  have "sr_id ` set rs \<subseteq> {I64 1}" using N v by (auto split: if_splits)
  moreover have "distinct (map sr_id rs)" using N by blast
  moreover have "I64 1 \<in> sr_id ` set rs"
  proof (rule ccontr)
    assume "I64 1 \<notin> sr_id ` set rs"
    with calculation(1) have "rs = []" by (cases rs) auto
    moreover from N have "\<forall>i v. vector_of two_docs i = Some v \<and> length v = length [9 :: f32] \<and> i \<notin> sr_id ` set rs \<and>
        (\<not> graph_used two_docs None 3 \<or> bt_has (changed_at (rs_ann two_docs)) i) \<longrightarrow> length rs = 3" by blast
    from this [rule_format, of "I64 1" "[7]"] have "length rs = 3" using v g \<open>I64 1 \<notin> sr_id ` set rs\<close> by simp
    ultimately show False by simp
  qed
  ultimately have "map sr_id rs = [I64 1]"
    by (cases rs; cases "tl rs") auto
  with run show ?thesis by (intro exI conjI)
qed

lemma both_hit_search: "\<exists>fts u. search_fts (\<lambda>_. False) both_hit ''x'' 3 None two_docs = (Inr fts, u) \<and> fts \<noteq> [] \<and> dim u = Some 1"
  by (simp add: search_fts_def thenE_def bindE_def reading_def db_runs both_hit_def get_doc_run ret_def under_def two_docs_def)

theorem hybrid_ranks_by_fusion_witness:
  "\<exists>rs t. search_hybrid (\<lambda>_. False) both_hit (Some line_engine) rev (\<lambda>n. 100 - n) (\<lambda>n. 200 - n) (+) ''x'' 1 None two_docs = (Inr rs, t) \<and>
     length rs = 1"
proof -
  obtain fts u where fts: "search_fts (\<lambda>_. False) both_hit ''x'' (tripled 1) None two_docs = (Inr fts, u)" "fts \<noteq> []"
    using both_hit_search by (auto simp: tripled_def)
  have e: "ve_embed line_engine (rs_step u) ''x'' = Inr ([9] # [])" by (simp add: line_engine_def)
  obtain sem t where "search_similar (\<lambda>_. False) line_engine ''x'' (tripled 1) None u = (Inr sem, t)"
    using search_similar_total [where fails = "\<lambda>_. False", OF _ e] by blast
  with fts obtain rs where run: "search_hybrid (\<lambda>_. False) both_hit (Some line_engine) rev (\<lambda>n. 100 - n) (\<lambda>n. 200 - n) (+) ''x'' 1 None two_docs = (Inr rs, t)"
    by (simp add: search_hybrid_def bindE_def ret_def)
  have "distinct ps \<Longrightarrow> distinct (rev ps) \<and> set (rev ps) = set ps" for ps :: "string list" by simp
  from hybrid_ranks_by_fusion [OF run this two_docs_one_path two_docs_ok line_engine_ok] fts
  obtain sem where "length rs = min 1 (card (sr_path ` (set fts \<union> set sem)))" by auto
  moreover have "0 < card (sr_path ` (set fts \<union> set sem))" using fts(2) by (simp add: card_gt_0_iff)
  ultimately have "length rs = 1" by simp
  with run show ?thesis by blast
qed

text \<open>Five documents outside the folder with the vector of the query, one in it with another.\<close>

definition six_docs :: retrieve_db where
  "six_docs = (let put = (\<lambda>(i, p, v) s. s\<lparr>documents := bt_insert (I64 i) \<lparr>r_path = p, r_text = ''n'', r_kind = TextDoc\<rparr> (documents s),
       vecs := bt_insert (vkey (I64 i)) (vec_serialize v) (vecs s)\<rparr>) in
     fold put [(1, ''x1'', [9]), (2, ''x2'', [9]), (3, ''x3'', [9]), (4, ''x4'', [9]), (5, ''x5'', [9]), (6, ''y/a'', [7])] two_docs)"

lemma six_docs_vectors: "vector_of six_docs i =
    (if i \<in> {I64 1, I64 2, I64 3, I64 4, I64 5} then Some [9] else if i = I64 6 then Some [7] else None)"
  by (simp add: vector_of_def six_docs_def two_docs_def)

lemma six_docs_wanted: "wanted (Some ''y/'') (documents six_docs) i \<longleftrightarrow> i = I64 6"
  by (simp add: wanted_def under_def six_docs_def two_docs_def)

lemma six_docs_ok: "vectors_ok six_docs"
proof -
  have "trim ''n'' \<noteq> ''''" by code_simp
  then show ?thesis
    by (auto simp: vectors_ok_def six_docs_def two_docs_def embeddable_def split: if_splits intro: exI [of _ "[7]"] exI [of _ "[9]"])
qed

theorem folder_search_misses_witness:
  "\<exists>t. search_similar (\<lambda>_. False) line_engine ''x'' 1 (Some ''y/'') six_docs = (Inr [], t) \<and>
     vector_of six_docs (I64 6) = Some [7] \<and> wanted (Some ''y/'') (documents six_docs) (I64 6)"
proof -
  have e: "ve_embed line_engine (rs_step six_docs) ''x'' = Inr ([9] # [])" by (simp add: line_engine_def)
  obtain rs t where run: "search_similar (\<lambda>_. False) line_engine ''x'' 1 (Some ''y/'') six_docs = (Inr rs, t)"
    using search_similar_total [where fails = "\<lambda>_. False", OF _ e] by blast
  let ?N = "{i. \<exists>v. vector_of six_docs i = Some v \<and> length v = length [9 :: f32] \<and> \<not> wanted (Some ''y/'') (documents six_docs) i \<and>
      (\<forall>j w. vector_of six_docs j = Some w \<and> wanted (Some ''y/'') (documents six_docs) j \<longrightarrow>
        ve_dist line_engine [9] v < ve_dist line_engine [9] w)}"
  have "?N = {I64 1, I64 2, I64 3, I64 4, I64 5}"
    by (auto simp: six_docs_wanted six_docs_vectors line_engine_def split: if_splits)
  then have "over_fetch 1 \<le> card ?N" by (simp add: over_fetch_def)
  from folder_search_misses [OF run e _ six_docs_ok this] have "rs = []" by (simp add: six_docs_def two_docs_def)
  with run show ?thesis by (simp add: six_docs_vectors six_docs_wanted)
qed

section \<open>The search of a workspace\<close>

text \<open>
  \<open>WorkspaceState::retrieve_files\<close> with the embedder that is loaded, if one is. A query that cannot be embedded is searched in
  the full text.
\<close>

datatype search_mode = Fts | Semantic | Hybrid

definition or_fts :: "(retrieve_db, ret_error, 'w search_result list) op \<Rightarrow> (retrieve_db, ret_error, 'w search_result list) op \<Rightarrow>
    (retrieve_db, ret_error, 'w search_result list) op" where
  "or_fts m fts s = bindE (attempt m) (\<lambda>r. case r of
     Inl (RetEmbed _) \<Rightarrow> fts
   | other \<Rightarrow> outcome other) s"

definition retrieve_files :: "(nat \<Rightarrow> bool) \<Rightarrow> ('w::linorder) fts_engine \<Rightarrow> 'w vec_engine option \<Rightarrow> (string list \<Rightarrow> string list) \<Rightarrow>
    (nat \<Rightarrow> 'w) \<Rightarrow> (nat \<Rightarrow> 'w) \<Rightarrow> ('w \<Rightarrow> 'w \<Rightarrow> 'w) \<Rightarrow> search_mode \<Rightarrow> string \<Rightarrow> nat \<Rightarrow> string option \<Rightarrow>
    (retrieve_db, ret_error, 'w search_result list) op" where
  "retrieve_files fails F embedder visit weigh_fts weigh_sem add mode q limit folder s = (
     let fts = search_fts fails F q limit folder in
     (case (mode, embedder) of
        (Fts, _) \<Rightarrow> fts
      | (Semantic, None) \<Rightarrow> fts
      | (Semantic, Some V) \<Rightarrow> or_fts (search_similar fails V q limit folder) fts
      | (Hybrid, _) \<Rightarrow> or_fts (search_hybrid fails F embedder visit weigh_fts weigh_sem add q limit folder) fts) s)"

text \<open>No embedder, however it answers, makes a search fail.\<close>

lemma retrieve_files_not_embed:
  assumes "retrieve_files fails F embedder visit wt ws add mode q limit folder s = (Inl (RetEmbed m), t)"
  shows "\<exists>u v. search_fts fails F q limit folder u = (Inl (RetEmbed m), v)"
  using assms
  by (auto simp: retrieve_files_def or_fts_def bindE_def attempt_def outcome_def Let_def
      split: search_mode.splits option.splits prod.splits sum.splits ret_error.splits)

end
