(* ===== verification/Spec2Isabelle.thy ===== *)
theory Spec2Isabelle
  imports Replication Paths ReplicaDepth ReplicaCalls ReplicaWrites LivePeers Election DeviceLedger Frontmatter WorkspaceFiles SearchResults
begin

text \<open>
  A verification development for the sapphire framework (the crates under \<open>src/crates/\<close>): the replication of a
  workspace's files between devices, and the index a device keeps of them for searching.

  \<^bold>\<open>The program.\<close> Each device holds a replica of a workspace (\<open>sapphire-framework-sync\<close>). A replica scans its files,
  records each change as a version with a dot and a clock, joins the path states peers send, chooses a winner for
  each path and writes it to disk without overwriting what it has not recorded. Two replicas talk in sessions over
  a stream of frames (\<open>sapphire-framework-session\<close>): they exchange pages of path states and the contents they
  lack, and then may stay in a live phase. The server keeps the table of live sessions, the bridge elects a
  primary and a secondary device and derives the links between them, and the registry keeps the devices of a
  workgroup in a directory of records. On every device the workspace crate indexes the files: stamps say which
  have changed (\<open>sapphire-framework-track\<close>), the retrieval store keeps documents, a full-text index and vectors
  (\<open>sapphire-framework-retrieve\<close>).

  \<^bold>\<open>Conventions.\<close> A string is the list of its UTF-8 bytes, an integer of \<open>w\<close> bits a word, a \<open>BTreeMap\<close> or \<open>HashMap\<close>
  the type of \<open>BTreeMap\<close> (where the order of a \<open>HashMap\<close> could matter it is an argument). A fallible operation
  takes a state and returns a value or an error together with the state it leaves, errors included
  (\<open>Effects\<close>). Calls of the standard library on files, and transactions of a database, may fail at every step an
  oracle names (\<open>io_fails\<close>, \<open>fails\<close>, \<open>we_fails\<close>), so a property that holds for every oracle holds whatever fails.
  A database transaction happens as a whole or not at all.

  \<^bold>\<open>Theories, bottom up.\<close>

  \<^item> \<open>Prelude\<close>, \<open>BTreeMap\<close>, \<open>Text\<close>, \<open>Bytes\<close>, \<open>Effects\<close>: the data types and string operations of the standard library,
    little-endian integers, and operations with errors. \<open>Effects\<close> has the locale \<open>step_relation\<close> by which
    \<open>what an operation keeps\<close> is proved once per relation; it is interpreted wherever a component has such a relation.
  \<^item> \<open>VersionVector\<close>, \<open>Hlc\<close>, \<open>ContentHash\<close>, \<open>Paths\<close>, \<open>Merge\<close> (\<open>vv.rs\<close>, \<open>id.rs\<close>, \<open>hlc.rs\<close>, \<open>hash.rs\<close>, \<open>paths.rs\<close>,
    \<open>entry.rs\<close>, \<open>merge.rs\<close>): dots and vectors, the clock, content addresses, relative paths, the join of two path
    states and the winner. \<open>join_correct\<close> is the refinement of the list algorithm to the join as a set.
  \<^item> \<open>Convergence\<close>, \<open>Replication\<close>: replicas exchanging the states of a path as an inductive step relation; what they hold
    is a function of the writes they cover, so they converge and lose no write.
  \<^item> \<open>FileSystem\<close>, \<open>Staging\<close>, \<open>SyncFilter\<close>, \<open>Store\<close>, \<open>Replica\<close> (\<open>staging.rs\<close>, \<open>filter.rs\<close>, \<open>state.rs\<close>, \<open>store.rs\<close>,
    \<open>report.rs\<close>, \<open>error.rs\<close>, \<open>replica.rs\<close>): the state of a replica is one record over the disk, the database and what
    is pending; every public operation of \<open>Replica\<close> is a definition. \<open>ReplicaSteps\<close>, \<open>ReplicaCalls\<close>,
    \<open>ReplicaWrites\<close>, \<open>ReplicaDepth\<close> prove what calls keep, what they do to files and that the recursion ends;
    \<open>ReplicaExamples\<close> evaluates the model for the witnesses.
  \<^item> \<open>SessionFrame\<close>, \<open>SessionIncoming\<close>, \<open>SessionWriter\<close>, \<open>SessionContent\<close>, \<open>Session\<close>, \<open>SessionLive\<close> (\<open>frame.rs\<close>,
    \<open>message.rs\<close>, \<open>incoming.rs\<close>, \<open>writer.rs\<close>, \<open>session.rs\<close>, \<open>live.rs\<close>): the wire format, both directions of content, the
    exchange and the live phase.
  \<^item> \<open>LivePeers\<close> (\<open>server/src/sync/live.rs\<close>) and \<open>Election\<close> (\<open>bridge/src/election.rs\<close>, of \<open>hello.rs\<close> the neighbours
    heard, \<open>server/src/sync/topology.rs\<close>).
  \<^item> \<open>Shelf\<close>, \<open>Ledger\<close>, \<open>DeviceLedger\<close> (\<open>registry/src/store.rs\<close>, \<open>devices.rs\<close>, \<open>migrate.rs\<close>): a directory of record files, what
    ledgers share (the locale \<open>record_format\<close>) and the ledger of devices.
  \<^item> \<open>Frontmatter\<close> (\<open>frontmatter/src/lib.rs\<close>).
  \<^item> \<open>Track\<close> (\<open>track/src/lib.rs\<close>, \<open>redb_store.rs\<close>): stamps and their comparison. The trait \<open>TrackStore\<close> is the record
    \<open>track_ops\<close>, its contract the locale \<open>track_store\<close>, interpreted on the in-memory and the redb store.
  \<^item> \<open>Ann\<close> (\<open>retrieve/src/ann.rs\<close>): the approximate index and the threads around it as a step relation. \<open>Retrieve\<close>,
    \<open>Embedding\<close>, \<open>Search\<close> (\<open>redb_store.rs\<close>, \<open>vector_store.rs\<close>, \<open>db.rs\<close>, \<open>snippet.rs\<close>): the tables \<open>documents\<close>, \<open>vectors\<close>
    and \<open>meta\<close>, the operations committed to and buffered for the full-text index, the embedding of pending
    documents, searches, snippets and the fusion of ranks. \<open>SearchResults\<close>: what the searches return, and
    \<open>retrieve_files\<close> (\<open>workspace_state.rs\<close>).
  \<^item> \<open>Indexer\<close>, \<open>IndexSync\<close> (\<open>workspace/src/indexer.rs\<close>): which files are documents and the sync of index and stamps with
    the files, over any stores that keep their contracts (the locale \<open>index_stores\<close>, which joins \<open>track_store\<close> and
    \<open>doc_store\<close>, interpreted on both pairs of stores). \<open>Resolve\<close>, \<open>WorkspaceFiles\<close> (\<open>workspace_state.rs\<close>): how a
    caller's path is resolved, the file operations, and the update of the index of one file.

  \<^bold>\<open>What the properties show.\<close> Replicas that cover the same writes agree and no write is lost; whole calls of a replica
  keep its database, never overwrite unrecorded files and store joined versions before files change, whatever fails
  or crashes; a completed session has taken in every sound update the peer sent, frames arrive as written, the receiver accepts what the writer sends; live batches
  are stored and announced exactly once; elections keep the roles of devices still heard while
  newcomers claim none, and links form a star; a ledger in memory is what its directory says; setting a front-matter key changes nothing else; the sync of
  the index keeps stamps honest, leaves the rows of candidates it cannot read, and is idempotent; a written file is on disk and in the index; embedding keeps
  the vectors sound; the approximate index and its marks miss no vector, a vector search returns the nearest, a hybrid
  search ranks by the fused score. Several theorems state defects of the code as it is, named so: a lost
  full-text commit is not retried, a path through a missing directory leaves the workspace, a range of lines may
  panic, a vector search of a folder may miss all of it.

  \<^bold>\<open>Bounds.\<close> \<open>RECONCILE_DEPTH\<close> is 2 and \<open>reconcile_depth_enough\<close> shows that the recursion never reaches its end.
  \<open>create_partial\<close> tries one name more than there are files, which \<open>create_partial_fuel\<close> shows to be enough.
  \<open>writer_run n\<close> is the first \<open>n\<close> turns of a task that runs until its session ends; what is proved of it holds for
  every \<open>n\<close>. The loops that read recurse over the list of what arrives. Everything else ends by its structure or a
  measure.

  \<^bold>\<open>Parameters.\<close> SHA-256, grain-ids, UUIDs, the clock, gitignore matching, Unicode lower-casing, JSON, TOML and YAML text,
  tantivy's query and ranking, the graph of \<open>instant_distance\<close>, embedding models and the distance of two vectors
  belong to other crates or to floating-point hardware; they are arguments, with named hypotheses where a property needs one.

  \<^bold>\<open>Not modelled.\<close> What redb, tantivy and the graph do inside; symbolic links on the way to a file, files that change
  during one call, case-insensitive look-ups, what \<open>fsync\<close> promises of a power loss; time-outs, progress reports and
  the closing of a session; subscribers that lag behind and dropping a live handle in the middle of a frame; the
  wording of errors and logging. Of the workspace crate: the synced vector files, listing a directory, loading an
  embedder, configuration and app directories. Of the bridge: control, commands, invitations, availability and the
  network exchange of Hello. IPC, keys, settings, the server's handlers, the MCP, service, update and GUI crates, which are
  mostly input, output and glue to other protocols.
\<close>

end
